(* ===== verification/Prelude.thy ===== *)
theory Prelude
  imports Main "HOL-Library.Word" "HOL-Library.List_Lexorder" "HOL-Library.Char_ord"
begin

text \<open>
  Shared vocabulary of the development: machine integer types of the LP64 little-endian
  platform the service runs on, error values, the exception monad as a sum type, and the
  generic lemmas on byte lists that several components use.

  \<^item> \<open>named_theorems\<close> collections: \<open>bind_simps\<close> (the exception monad) and
    \<open>byte_simps\<close> (little-endian byte strings).
  \<^item> C++ \<open>std::string\<close> values are \<open>string\<close> (a list of 8-bit characters); raw
    memory is a \<open>byte list\<close>.
\<close>

named_theorems bind_simps "laws of the exception monad"
named_theorems byte_simps "laws of little-endian byte strings"

unbundle bit_operations_syntax

section \<open>Machine integers\<close>

type_synonym byte = "8 word"
type_synonym u16 = "16 word"
type_synonym u32 = "32 word"
type_synonym u64 = "64 word"

text \<open>The bit pattern of a C \<open>double\<close>.\<close>
type_synonym dbl = "64 word"

definition size_max :: nat where
  "size_max = 2 ^ 64"

lemma sint_range: "- (2 ^ 63) \<le> sint (w :: u64)" "sint (w :: u64) < 2 ^ 63"
  using sint_greater_eq [of w] sint_less [of w] by simp_all

lemma sint_uint_pos: "0 \<le> sint w \<Longrightarrow> sint w = uint (w :: u64)"
  using sint_lt [of w] by (simp add: uint_sint take_bit_int_eq_self)

lemma sint_word_of_int:
  assumes "- (2 ^ 63) \<le> k" and "k < 2 ^ 63"
  shows "sint (word_of_int k :: u64) = k"
proof -
  have "sint (word_of_int k :: u64) = signed_take_bit 63 k" by (simp add: signed_of_int)
  also have "\<dots> = k" using assms by (intro signed_take_bit_int_eq_self) simp_all
  finally show ?thesis .
qed

lemma sint_word_of_nat: "n < 2 ^ 63 \<Longrightarrow> sint (word_of_nat n :: u64) = int n"
  using sint_word_of_int [of "int n"] by simp

lemma unat_word_of_int: "0 \<le> k \<Longrightarrow> k < 2 ^ 64 \<Longrightarrow> unat (word_of_int k :: u64) = nat k"
  by (simp add: unsigned_of_int take_bit_int_eq_self)

lemma unat_word_of_nat: "n < 2 ^ 64 \<Longrightarrow> unat (word_of_nat n :: u64) = n"
  by (simp add: unat_of_nat)

lemma unat_sint: "0 \<le> sint (w :: u64) \<Longrightarrow> unat w = nat (sint w)"
proof -
  assume "0 \<le> sint w"
  moreover have "sint w < 2 ^ 64" using sint_range(2) [of w] by simp
  ultimately have "unat (word_of_int (sint w) :: u64) = nat (sint w)" by (rule unat_word_of_int)
  then show ?thesis by simp
qed

lemma sint_eq_0_iff: "sint (w :: u64) = 0 \<longleftrightarrow> w = 0"
  by (rule signed_eq_0_iff)

section \<open>Exceptions as values\<close>

text \<open>
  \<open>Exn what\<close> is a thrown \<open>poesie::Exception\<close> (or another \<open>std::exception\<close>) with its
  message; \<open>ArchiveError\<close> is the exception of the serialization archive when its input
  ends early; \<open>UB\<close> marks an access outside an object's bounds, which C++ leaves
  undefined; \<open>Fuel\<close> is the artefact of a fuel-bounded recursion; \<open>Abort\<close> ends the
  process; \<open>Deadlock\<close> waits for a lock that is never released; \<open>Raised what\<close> is an
  exception of an interpreter on its way through C++ (\<open>py::error_already_set\<close>).
\<close>

datatype exn = Exn string | ArchiveError | UB | Fuel | Abort | Deadlock | Raised string

definition bindE :: "'e + 'a \<Rightarrow> ('a \<Rightarrow> 'e + 'b) \<Rightarrow> 'e + 'b" where
  "bindE m f = (case m of Inl e \<Rightarrow> Inl e | Inr x \<Rightarrow> f x)"

definition optE :: "'e \<Rightarrow> 'a option \<Rightarrow> 'e + 'a" where
  "optE e m = (case m of None \<Rightarrow> Inl e | Some x \<Rightarrow> Inr x)"

lemma bindE_Inl [simp, bind_simps]: "bindE (Inl e) f = Inl e"
  by (simp add: bindE_def)

lemma bindE_Inr [simp, bind_simps]: "bindE (Inr x) f = f x"
  by (simp add: bindE_def)

lemma bindE_assoc [bind_simps]: "bindE (bindE m f) g = bindE m (\<lambda>x. bindE (f x) g)"
  by (cases m) simp_all

lemma bindE_eq_Inr: "bindE m f = Inr y \<longleftrightarrow> (\<exists>x. m = Inr x \<and> f x = Inr y)"
  by (cases m) simp_all

lemma bindE_eq_Inl: "bindE m f = Inl e \<longleftrightarrow> m = Inl e \<or> (\<exists>x. m = Inr x \<and> f x = Inl e)"
  by (cases m) simp_all

lemma bindE_cong [fundef_cong]:
  "m = n \<Longrightarrow> (\<And>x. n = Inr x \<Longrightarrow> f x = g x) \<Longrightarrow> bindE m f = bindE n g"
  by (cases n) simp_all

lemma optE_Some [simp, bind_simps]: "optE e (Some x) = Inr x"
  and optE_None [simp, bind_simps]: "optE e None = Inl e"
  by (simp_all add: optE_def)

lemma optE_eq_Inr: "optE e m = Inr x \<longleftrightarrow> m = Some x"
  by (cases m) simp_all

text \<open>Running a fallible function over a list, left to right, stopping at the first error.\<close>

fun mapE :: "('a \<Rightarrow> 'e + 'b) \<Rightarrow> 'a list \<Rightarrow> 'e + 'b list" where
  "mapE f [] = Inr []"
| "mapE f (x # xs) = bindE (f x) (\<lambda>y. bindE (mapE f xs) (\<lambda>ys. Inr (y # ys)))"

lemma mapE_cong [fundef_cong]:
  "xs = ys \<Longrightarrow> (\<And>x. x \<in> set ys \<Longrightarrow> f x = g x) \<Longrightarrow> mapE f xs = mapE g ys"
  by (induction ys arbitrary: xs) auto

lemma mapE_Inr_map: "(\<And>x. x \<in> set xs \<Longrightarrow> f x = Inr (g x)) \<Longrightarrow> mapE f xs = Inr (map g xs)"
  by (induction xs) auto

lemma mapE_length: "mapE f xs = Inr ys \<Longrightarrow> length ys = length xs"
  by (induction xs arbitrary: ys) (auto simp: bindE_eq_Inr)

section \<open>Little-endian byte strings\<close>

lemma unat_byte: "unat (b :: byte) < 256"
  using unsigned_less [of b, where ?'a = nat] by simp

lemma unat_u64: "unat (w :: u64) < 256 ^ 8"
  using unsigned_less [of w, where ?'a = nat] by simp

text \<open>
  \<open>le_bytes k n\<close> is the \<open>k\<close>-byte object representation of the unsigned value \<open>n\<close> on a
  little-endian machine; \<open>le_nat\<close> reads it back.
\<close>

fun le_bytes :: "nat \<Rightarrow> nat \<Rightarrow> byte list" where
  "le_bytes 0 n = []"
| "le_bytes (Suc k) n = word_of_nat n # le_bytes k (n div 256)"

fun le_nat :: "byte list \<Rightarrow> nat" where
  "le_nat [] = 0"
| "le_nat (b # bs) = unat b + 256 * le_nat bs"

lemma length_le_bytes [simp, byte_simps]: "length (le_bytes k n) = k"
  by (induction k arbitrary: n) auto

lemma le_nat_le_bytes [simp, byte_simps]: "le_nat (le_bytes k n) = n mod 256 ^ k"
proof (induction k arbitrary: n)
  case (Suc k)
  have "le_nat (le_bytes (Suc k) n) = n mod 256 + 256 * ((n div 256) mod 256 ^ k)"
    by (simp add: Suc unat_of_nat)
  also have "\<dots> = n mod 256 ^ Suc k"
    by (simp add: mod_mult2_eq)
  finally show ?case .
qed simp

lemma le_nat_bound: "le_nat bs < 256 ^ length bs"
proof (induction bs)
  case (Cons b bs)
  have "unat b < 256" by (rule unat_byte)
  then have "le_nat (b # bs) < 256 * (le_nat bs + 1)" by simp
  also have "\<dots> \<le> 256 * 256 ^ length bs" using Cons by simp
  finally show ?case by simp
qed simp

lemma le_bytes_le_nat: "le_bytes (length bs) (le_nat bs) = bs"
proof (induction bs)
  case (Cons b bs)
  have lt: "unat b < 256" by (rule unat_byte)
  then have "(unat b + 256 * le_nat bs) div 256 = le_nat bs" by simp
  moreover have "(word_of_nat (unat b + 256 * le_nat bs) :: byte) = b"
  proof (rule unsigned_word_eqI [where ?'a = nat])
    show "unat (word_of_nat (unat b + 256 * le_nat bs) :: byte) = unat b"
      using lt by (simp add: unat_of_nat del: of_nat_add of_nat_mult)
  qed
  ultimately show ?case using Cons by simp
qed simp

text \<open>The eight bytes of a 64-bit word.\<close>

definition u64_bytes :: "u64 \<Rightarrow> byte list" where
  "u64_bytes w = le_bytes 8 (unat w)"

definition u64_of_bytes :: "byte list \<Rightarrow> u64" where
  "u64_of_bytes bs = word_of_nat (le_nat bs)"

lemma length_u64_bytes [simp, byte_simps]: "length (u64_bytes w) = 8"
  by (simp add: u64_bytes_def)

lemma u64_of_bytes_bytes [simp, byte_simps]: "u64_of_bytes (u64_bytes w) = w"
proof -
  have "unat w < 256 ^ 8" by (rule unat_u64)
  then show ?thesis by (simp add: u64_bytes_def u64_of_bytes_def)
qed

section \<open>Characters and bytes\<close>

definition byte_of_char :: "char \<Rightarrow> byte" where
  "byte_of_char c = word_of_nat (of_char c)"

definition char_of_byte :: "byte \<Rightarrow> char" where
  "char_of_byte b = char_of (unat b)"

definition bytes_of :: "string \<Rightarrow> byte list" where
  "bytes_of s = map byte_of_char s"

definition string_of :: "byte list \<Rightarrow> string" where
  "string_of bs = map char_of_byte bs"

lemma char_byte_inverse [simp, byte_simps]: "char_of_byte (byte_of_char c) = c"
proof -
  have "unat (of_nat (of_char c) :: byte) = (of_char c :: nat)"
    by (simp add: unat_of_nat)
  then show ?thesis by (simp add: byte_of_char_def char_of_byte_def)
qed

lemma byte_char_inverse [simp, byte_simps]: "byte_of_char (char_of_byte b) = b"
proof -
  have "(of_char (char_of (unat b)) :: nat) = unat b mod 256" by simp
  also have "\<dots> = unat b" using unat_byte [of b] by simp
  finally have "(of_nat (of_char (char_of (unat b))) :: byte) = b"
    by (simp only: of_nat_unat ucast_id)
  then show ?thesis by (simp only: byte_of_char_def char_of_byte_def)
qed

lemma string_bytes_inverse [simp, byte_simps]: "string_of (bytes_of s) = s"
  by (simp add: string_of_def bytes_of_def o_def)

lemma bytes_string_inverse [simp, byte_simps]: "bytes_of (string_of bs) = bs"
  by (simp add: string_of_def bytes_of_def o_def)

lemma length_bytes_of [simp, byte_simps]: "length (bytes_of s) = length s"
  and length_string_of [simp, byte_simps]: "length (string_of bs) = length bs"
  by (simp_all add: bytes_of_def string_of_def)

section \<open>Lists\<close>

lemma take_append_exact [simp]: "n = length xs \<Longrightarrow> take n (xs @ ys) = xs"
  and drop_append_exact [simp]: "n = length xs \<Longrightarrow> drop n (xs @ ys) = ys"
  by simp_all

text \<open>\<open>memcpy\<close>/\<open>memmove\<close> of \<open>src\<close> into \<open>dst\<close> at offset \<open>off\<close>; the caller has checked
  the bounds (see the uses).\<close>

definition blit :: "'a list \<Rightarrow> nat \<Rightarrow> 'a list \<Rightarrow> 'a list" where
  "blit dst off src = take off dst @ src @ drop (off + length src) dst"

lemma length_blit [simp]: "off + length src \<le> length dst \<Longrightarrow> length (blit dst off src) = length dst"
  by (simp add: blit_def)

lemma nth_blit:
  assumes "off + length src \<le> length dst" and "i < length dst"
  shows "blit dst off src ! i =
    (if i < off then dst ! i else if i < off + length src then src ! (i - off) else dst ! i)"
  using assms by (auto simp: blit_def nth_append min_def)

lemma blit_Nil [simp]: "off \<le> length dst \<Longrightarrow> blit dst off [] = dst"
  by (simp add: blit_def)

section \<open>Decimal text\<close>

fun show_nat :: "nat \<Rightarrow> string" where
  "show_nat n = (if n < 10 then [char_of (48 + n)] else show_nat (n div 10) @ [char_of (48 + n mod 10)])"

declare show_nat.simps [simp del]

definition show_int :: "int \<Rightarrow> string" where
  "show_int i = (if i < 0 then CHR ''-'' # show_nat (nat (- i)) else show_nat (nat i))"

end
