(* ===== verification/Json.thy ===== *)
theory Json
  imports Prelude
begin

text \<open>
  JSON values as \<open>nlohmann::json\<close> presents them to the service: one constructor per
  \<open>value_t\<close>. An object is the sequence of its members in the order of the underlying
  \<open>std::map\<close> (strictly increasing keys, \<open>json_ok\<close>); integers are the 64-bit patterns of
  \<open>number_integer_t\<close> and \<open>number_unsigned_t\<close>; a float is the bit pattern of a
  \<open>double\<close>; a binary value carries its optional subtype. The type predicates and
  accessors below are the documented ones the code under \<open>src/\<close> calls.
\<close>

section \<open>Values and their types\<close>

datatype json =
    JNull
  | JBool bool
  | JInt u64
  | JUInt u64
  | JFloat dbl
  | JString string
  | JArray "json list"
  | JObject "(string \<times> json) list"
  | JBinary "byte list" "u64 option"
  | JDiscarded

datatype value_t =
    VNull | VObject | VArray | VString | VBoolean | VNumInt | VNumUInt | VNumFloat
  | VBinary | VDiscarded

fun json_type :: "json \<Rightarrow> value_t" where
  "json_type JNull = VNull"
| "json_type (JBool b) = VBoolean"
| "json_type (JInt i) = VNumInt"
| "json_type (JUInt u) = VNumUInt"
| "json_type (JFloat d) = VNumFloat"
| "json_type (JString s) = VString"
| "json_type (JArray vs) = VArray"
| "json_type (JObject ms) = VObject"
| "json_type (JBinary bs st) = VBinary"
| "json_type JDiscarded = VDiscarded"

text \<open>The numeric value of the enumerator, as the cast \<open>(char)val.type()\<close> yields it.\<close>

fun value_code :: "value_t \<Rightarrow> byte" where
  "value_code VNull = 0"
| "value_code VObject = 1"
| "value_code VArray = 2"
| "value_code VString = 3"
| "value_code VBoolean = 4"
| "value_code VNumInt = 5"
| "value_code VNumUInt = 6"
| "value_code VNumFloat = 7"
| "value_code VBinary = 8"
| "value_code VDiscarded = 9"

fun is_number_integer :: "json \<Rightarrow> bool" where
  "is_number_integer (JInt _) = True"
| "is_number_integer (JUInt _) = True"
| "is_number_integer _ = False"

fun is_number_unsigned :: "json \<Rightarrow> bool" where
  "is_number_unsigned (JUInt _) = True"
| "is_number_unsigned _ = False"

fun is_string :: "json \<Rightarrow> bool" where
  "is_string (JString _) = True"
| "is_string _ = False"

fun is_array :: "json \<Rightarrow> bool" where
  "is_array (JArray _) = True"
| "is_array _ = False"

fun is_object :: "json \<Rightarrow> bool" where
  "is_object (JObject _) = True"
| "is_object _ = False"

fun is_binary :: "json \<Rightarrow> bool" where
  "is_binary (JBinary _ _) = True"
| "is_binary _ = False"

text \<open>Numbers read as a C \<open>int\<close>: the integer is converted to 32 bits.\<close>

fun get_int :: "json \<Rightarrow> u32" where
  "get_int (JInt i) = ucast i"
| "get_int (JUInt u) = ucast u"
| "get_int _ = 0"

section \<open>Objects\<close>

text \<open>
  \<open>contains\<close> and constant \<open>operator[]\<close> on an object; \<open>obj_set\<close> is the assignment
  \<open>obj[key] = value\<close>, \<open>obj_emplace\<close> is \<open>emplace\<close>, which keeps an existing member.
\<close>

definition member :: "json \<Rightarrow> string \<Rightarrow> json option" where
  "member j k = (case j of JObject ms \<Rightarrow> map_of ms k | _ \<Rightarrow> None)"

fun obj_set :: "string \<Rightarrow> json \<Rightarrow> (string \<times> json) list \<Rightarrow> (string \<times> json) list" where
  "obj_set k v [] = [(k, v)]"
| "obj_set k v ((k', v') # ms) =
     (if k < k' then (k, v) # (k', v') # ms
      else if k = k' then (k, v) # ms
      else (k', v') # obj_set k v ms)"

fun obj_emplace :: "string \<Rightarrow> json \<Rightarrow> (string \<times> json) list \<Rightarrow> (string \<times> json) list" where
  "obj_emplace k v [] = [(k, v)]"
| "obj_emplace k v ((k', v') # ms) =
     (if k < k' then (k, v) # (k', v') # ms
      else if k = k' then (k', v') # ms
      else (k', v') # obj_emplace k v ms)"

abbreviation obj_ok :: "(string \<times> 'a) list \<Rightarrow> bool" where
  "obj_ok ms \<equiv> sorted_wrt (<) (map fst ms)"

lemma obj_set_keys: "fst ` set (obj_set k v ms) = insert k (fst ` set ms)"
  by (induction k v ms rule: obj_set.induct) auto

lemma obj_ok_set: "obj_ok ms \<Longrightarrow> obj_ok (obj_set k v ms)"
proof (induction k v ms rule: obj_set.induct)
  case (2 k v k' v' ms)
  show ?case
  proof (cases "k < k'")
    case True
    then show ?thesis using 2 by (auto intro: less_trans)
  next
    case False
    with 2 have "\<forall>x \<in> fst ` set (obj_set k v ms). k' < x" if "k \<noteq> k'"
      using that by (auto simp: obj_set_keys)
    with 2 False show ?thesis by auto
  qed
qed simp

lemma map_of_obj_set: "map_of (obj_set k v ms) = (map_of ms)(k \<mapsto> v)"
  by (induction k v ms rule: obj_set.induct) auto

text \<open>
  Members that arrive in increasing key order are appended, so emplacing them one by one
  rebuilds the object.
\<close>

lemma obj_emplace_last:
  "\<forall>x \<in> fst ` set ms. x < k \<Longrightarrow> obj_emplace k v ms = ms @ [(k, v)]"
  by (induction k v ms rule: obj_emplace.induct) auto

lemma emplace_sorted:
  assumes "obj_ok (ms @ ns)"
  shows "foldl (\<lambda>ms (k, v). obj_emplace k v ms) ms ns = ms @ ns"
  using assms
proof (induction ns arbitrary: ms)
  case (Cons n ns)
  obtain k v where n: "n = (k, v)" by (cases n)
  have "\<forall>x \<in> fst ` set ms. x < k"
    using Cons.prems n by (auto simp: sorted_wrt_append)
  then have "obj_emplace k v ms = ms @ [(k, v)]" by (rule obj_emplace_last)
  moreover have "obj_ok ((ms @ [(k, v)]) @ ns)" using Cons.prems n by simp
  ultimately show ?case using Cons.IH [of "ms @ [(k, v)]"] n by simp
qed simp

section \<open>Well-formed values\<close>

text \<open>
  What the C++ types guarantee of a value that is not \<open>discarded\<close>: sizes fit a
  \<open>size_t\<close>, object members are those of a \<open>std::map\<close>.
\<close>

fun json_ok :: "json \<Rightarrow> bool" where
  "json_ok (JString s) = (length s < size_max)"
| "json_ok (JArray vs) = (length vs < size_max \<and> list_all json_ok vs)"
| "json_ok (JObject ms) =
     (length ms < size_max \<and> obj_ok ms
      \<and> list_all (\<lambda>m. length (fst m) < size_max \<and> json_ok (snd m)) ms)"
| "json_ok (JBinary bs st) = (length bs < size_max)"
| "json_ok JDiscarded = False"
| "json_ok _ = True"

text \<open>Nesting depth, the measure of the recursive walks over a value.\<close>

fun depth :: "json \<Rightarrow> nat" where
  "depth (JArray vs) = Suc (Max (insert 0 (set (map depth vs))))"
| "depth (JObject ms) = Suc (Max (insert 0 (set (map (\<lambda>m. depth (snd m)) ms))))"
| "depth _ = 1"

lemma depth_array_elem: "v \<in> set vs \<Longrightarrow> depth v < depth (JArray vs)"
  by (auto simp: less_Suc_eq_le intro: Max_ge)

lemma depth_object_member: "(k, v) \<in> set ms \<Longrightarrow> depth v < depth (JObject ms)"
  by (force simp: less_Suc_eq_le intro: Max_ge)

lemma depth_pos [simp]: "0 < depth j"
  by (cases j) auto

end
