(* ===== verification/JsonSerialize.thy ===== *)
theory JsonSerialize
  imports Json
begin

text \<open>
  \<open>include/poesie/JsonSerialize.hpp\<close>: \<open>saveJSON\<close> and \<open>loadJSON\<close>, the wire form of the
  JSON values that requests and responses carry, and \<open>src/StringView.hpp\<close>, the wire form
  of a \<open>std::string_view\<close>.

  The archive itself belongs to thallium and cereal, so it is a parameter: a record of
  writers and readers for the primitive types the code hands to it. What the code relies
  on is \<open>archive_ok\<close>: a reader returns the value its writer wrote and leaves the rest
  of the input. \<open>loadJSON\<close> recurses as deep as the input nests; the recursion is bounded by
  fuel, and \<open>load_save\<close> shows that a fuel above the nesting depth of the value is enough.
\<close>

section \<open>The archive\<close>

type_synonym 'a reader = "byte list \<Rightarrow> ('a \<times> byte list) option"

record archive =
  put_char :: "byte \<Rightarrow> byte list"
  put_u64 :: "u64 \<Rightarrow> byte list"
  put_i64 :: "u64 \<Rightarrow> byte list"
  put_f64 :: "dbl \<Rightarrow> byte list"
  put_bool :: "bool \<Rightarrow> byte list"
  put_str :: "string \<Rightarrow> byte list"
  put_raw :: "byte list \<Rightarrow> byte list"
  get_char :: "byte reader"
  get_u64 :: "u64 reader"
  get_i64 :: "u64 reader"
  get_f64 :: "dbl reader"
  get_bool :: "bool reader"
  get_str :: "string reader"
  get_raw :: "nat \<Rightarrow> byte list reader"

definition archive_ok :: "archive \<Rightarrow> bool" where
  "archive_ok ar \<longleftrightarrow>
     (\<forall>x r. get_char ar (put_char ar x @ r) = Some (x, r)) \<and>
     (\<forall>x r. get_u64 ar (put_u64 ar x @ r) = Some (x, r)) \<and>
     (\<forall>x r. get_i64 ar (put_i64 ar x @ r) = Some (x, r)) \<and>
     (\<forall>x r. get_f64 ar (put_f64 ar x @ r) = Some (x, r)) \<and>
     (\<forall>x r. get_bool ar (put_bool ar x @ r) = Some (x, r)) \<and>
     (\<forall>s r. length s < size_max \<longrightarrow> get_str ar (put_str ar s @ r) = Some (s, r)) \<and>
     (\<forall>bs r. get_raw ar (length bs) (put_raw ar bs @ r) = Some (bs, r))"

text \<open>
  An archive of this kind that copies object representations, with strings as a size and
  the characters: the instance at which the hypotheses are shown to hold.
\<close>

definition get_bytes :: "nat \<Rightarrow> byte list reader" where
  "get_bytes n bs = (if n \<le> length bs then Some (take n bs, drop n bs) else None)"

definition raw_u64 :: "u64 reader" where
  "raw_u64 bs = map_option (\<lambda>(b, r). (u64_of_bytes b, r)) (get_bytes 8 bs)"

definition raw_archive :: archive where
  "raw_archive = \<lparr>
     put_char = (\<lambda>c. [c]), put_u64 = u64_bytes, put_i64 = u64_bytes, put_f64 = u64_bytes,
     put_bool = (\<lambda>b. [if b then 1 else 0]),
     put_str = (\<lambda>s. u64_bytes (word_of_nat (length s)) @ bytes_of s),
     put_raw = (\<lambda>bs. bs),
     get_char = (\<lambda>bs. case bs of [] \<Rightarrow> None | c # r \<Rightarrow> Some (c, r)),
     get_u64 = raw_u64, get_i64 = raw_u64, get_f64 = raw_u64,
     get_bool = (\<lambda>bs. case bs of [] \<Rightarrow> None | c # r \<Rightarrow> Some (c \<noteq> 0, r)),
     get_str = (\<lambda>bs. case raw_u64 bs of None \<Rightarrow> None
        | Some (n, r) \<Rightarrow> map_option (\<lambda>(b, r). (string_of b, r)) (get_bytes (unat n) r)),
     get_raw = get_bytes \<rparr>"

lemma get_bytes_append [simp]: "n = length bs \<Longrightarrow> get_bytes n (bs @ r) = Some (bs, r)"
  by (simp add: get_bytes_def)

lemma raw_u64_append [simp]: "raw_u64 (u64_bytes w @ r) = Some (w, r)"
  by (simp add: raw_u64_def)

lemma unat_length [simp]: "n < size_max \<Longrightarrow> unat (word_of_nat n :: u64) = n"
  by (simp add: unat_of_nat size_max_def)

lemma raw_archive_ok: "archive_ok raw_archive"
  by (simp add: archive_ok_def raw_archive_def)

section \<open>Saving\<close>

text \<open>
  \<open>b.subtype()\<close> of a binary value without a subtype is \<open>static_cast<subtype_type>(-1)\<close>.
\<close>

definition binary_subtype :: "u64 option \<Rightarrow> u64" where
  "binary_subtype st = (case st of None \<Rightarrow> -1 | Some s \<Rightarrow> s)"

fun saveJSON :: "archive \<Rightarrow> json \<Rightarrow> exn + byte list" where
  "saveJSON ar JNull = Inr (put_char ar (value_code VNull))"
| "saveJSON ar (JInt i) = Inr (put_char ar (value_code VNumInt) @ put_i64 ar i)"
| "saveJSON ar (JUInt u) = Inr (put_char ar (value_code VNumUInt) @ put_u64 ar u)"
| "saveJSON ar (JFloat d) = Inr (put_char ar (value_code VNumFloat) @ put_f64 ar d)"
| "saveJSON ar (JString s) = Inr (put_char ar (value_code VString) @ put_str ar s)"
| "saveJSON ar (JBool b) = Inr (put_char ar (value_code VBoolean) @ put_bool ar b)"
| "saveJSON ar (JArray vs) =
     bindE (mapE (saveJSON ar) vs) (\<lambda>bss.
     Inr (put_char ar (value_code VArray) @ put_u64 ar (word_of_nat (length vs)) @ concat bss))"
| "saveJSON ar (JObject ms) =
     bindE (mapE (\<lambda>m. bindE (saveJSON ar (snd m)) (\<lambda>bs. Inr (put_str ar (fst m) @ bs))) ms) (\<lambda>bss.
     Inr (put_char ar (value_code VObject) @ put_u64 ar (word_of_nat (length ms)) @ concat bss))"
| "saveJSON ar (JBinary bs st) =
     Inr (put_char ar (value_code VBinary) @ put_u64 ar (word_of_nat (length bs))
          @ put_u64 ar (binary_subtype st) @ put_raw ar bs)"
| "saveJSON ar JDiscarded = Inl (Exn ''Invalid json type found when serializing'')"

section \<open>Loading\<close>

definition read :: "'a reader \<Rightarrow> byte list \<Rightarrow> exn + ('a \<times> byte list)" where
  "read g bs = optE ArchiveError (g bs)"

text \<open>A counted sequence of items, each read by the same reader.\<close>

fun load_n :: "(byte list \<Rightarrow> exn + ('a \<times> byte list)) \<Rightarrow> nat \<Rightarrow> byte list \<Rightarrow> exn + ('a list \<times> byte list)"
where
  "load_n f 0 bs = Inr ([], bs)"
| "load_n f (Suc n) bs =
     bindE (f bs) (\<lambda>(x, bs'). bindE (load_n f n bs') (\<lambda>(xs, bs''). Inr (x # xs, bs'')))"

text \<open>
  \<open>loadJSON fuel ar val bs\<close>: \<open>val\<close> is the value of the output reference before the call
  (a fresh \<open>JsonWrapper\<close> holds null); the null branch leaves it as it is.
\<close>

fun loadJSON :: "nat \<Rightarrow> archive \<Rightarrow> json \<Rightarrow> byte list \<Rightarrow> exn + (json \<times> byte list)" where
  "loadJSON 0 ar val bs = Inl Fuel"
| "loadJSON (Suc fuel) ar val bs =
     bindE (read (get_char ar) bs) (\<lambda>(t, bs).
     if t = value_code VNull then Inr (val, bs)
     else if t = value_code VNumInt then
       bindE (read (get_i64 ar) bs) (\<lambda>(v, bs). Inr (JInt v, bs))
     else if t = value_code VNumUInt then
       bindE (read (get_u64 ar) bs) (\<lambda>(v, bs). Inr (JUInt v, bs))
     else if t = value_code VNumFloat then
       bindE (read (get_f64 ar) bs) (\<lambda>(v, bs). Inr (JFloat v, bs))
     else if t = value_code VString then
       bindE (read (get_str ar) bs) (\<lambda>(v, bs). Inr (JString v, bs))
     else if t = value_code VBoolean then
       bindE (read (get_bool ar) bs) (\<lambda>(v, bs). Inr (JBool v, bs))
     else if t = value_code VArray then
       bindE (read (get_u64 ar) bs) (\<lambda>(s, bs).
       bindE (load_n (loadJSON fuel ar JNull) (unat s) bs) (\<lambda>(vs, bs).
       Inr (JArray vs, bs)))
     else if t = value_code VObject then
       bindE (read (get_u64 ar) bs) (\<lambda>(s, bs).
       bindE (load_n (\<lambda>bs. bindE (read (get_str ar) bs) (\<lambda>(k, bs).
                            bindE (loadJSON fuel ar JNull bs) (\<lambda>(v, bs). Inr ((k, v), bs))))
                     (unat s) bs) (\<lambda>(ms, bs).
       Inr (JObject (foldl (\<lambda>ms (k, v). obj_emplace k v ms) [] ms), bs)))
     else if t = value_code VBinary then
       bindE (read (get_u64 ar) bs) (\<lambda>(s, bs).
       bindE (read (get_u64 ar) bs) (\<lambda>(st, bs).
       bindE (read (get_raw ar (unat s)) bs) (\<lambda>(v, bs).
       Inr (JBinary v (Some st), bs))))
     else Inl (Exn ''Invalid json type found when deserializing''))"

text \<open>
  \<open>save\<close> and \<open>load\<close> of the wrapper types: a \<open>JsonWrapper\<close> starts as null when it is
  loaded, a reference wrapper loads into the value it refers to.
\<close>

definition load_wrapper :: "nat \<Rightarrow> archive \<Rightarrow> byte list \<Rightarrow> exn + (json \<times> byte list)" where
  "load_wrapper fuel ar bs = loadJSON fuel ar JNull bs"

definition load_ref_wrapper :: "nat \<Rightarrow> archive \<Rightarrow> json \<Rightarrow> byte list \<Rightarrow> exn + (json \<times> byte list)" where
  "load_ref_wrapper fuel ar referenced bs = loadJSON fuel ar referenced bs"

definition save_wrapper :: "archive \<Rightarrow> json \<Rightarrow> exn + byte list" where
  "save_wrapper ar v = saveJSON ar v"

text \<open>\<open>cereal::save\<close> of a string view: a size tag, then the characters.\<close>

definition save_string_view :: "archive \<Rightarrow> string \<Rightarrow> byte list" where
  "save_string_view ar s = put_u64 ar (word_of_nat (length s)) @ put_raw ar (bytes_of s)"

text \<open>
  What the code relies on where a view is sent and a \<open>std::string\<close> is received: the string
  reader accepts a size tag followed by the characters.
\<close>

definition archive_view_ok :: "archive \<Rightarrow> bool" where
  "archive_view_ok ar \<longleftrightarrow>
     (\<forall>s r. length s < size_max \<longrightarrow> get_str ar (save_string_view ar s @ r) = Some (s, r))"

lemma raw_archive_view_ok: "archive_view_ok raw_archive"
  by (simp add: archive_view_ok_def save_string_view_def raw_archive_def)

section \<open>Round trip\<close>

text \<open>
  The value that arrives: everything is preserved but the absence of a binary subtype,
  which arrives as the subtype \<open>2\<^sup>6\<^sup>4 - 1\<close>.
\<close>

fun wire_value :: "json \<Rightarrow> json" where
  "wire_value (JArray vs) = JArray (map wire_value vs)"
| "wire_value (JObject ms) = JObject (map (\<lambda>m. (fst m, wire_value (snd m))) ms)"
| "wire_value (JBinary bs st) = JBinary bs (Some (binary_subtype st))"
| "wire_value v = v"

lemma read_put [simp]:
  assumes "archive_ok ar"
  shows "read (get_char ar) (put_char ar c @ r) = Inr (c, r)"
    and "read (get_u64 ar) (put_u64 ar w @ r) = Inr (w, r)"
    and "read (get_i64 ar) (put_i64 ar w @ r) = Inr (w, r)"
    and "read (get_f64 ar) (put_f64 ar w @ r) = Inr (w, r)"
    and "read (get_bool ar) (put_bool ar b @ r) = Inr (b, r)"
    and "length s < size_max \<Longrightarrow> read (get_str ar) (put_str ar s @ r) = Inr (s, r)"
    and "n = length bs \<Longrightarrow> read (get_raw ar n) (put_raw ar bs @ r) = Inr (bs, r)"
  using assms by (simp_all add: read_def archive_ok_def)

lemma load_n_concat:
  assumes "length xs = length bss"
    and "\<And>i r. i < length xs \<Longrightarrow> f (bss ! i @ r) = Inr (xs ! i, r)"
  shows "load_n f (length xs) (concat bss @ r) = Inr (xs, r)"
  using assms
proof (induction xs arbitrary: bss)
  case (Cons x xs)
  then obtain b bss' where b: "bss = b # bss'" by (cases bss) auto
  have "f (b @ concat bss' @ r) = Inr (x, concat bss' @ r)"
    using Cons.prems(2) [of 0] b by simp
  moreover have "load_n f (length xs) (concat bss' @ r) = Inr (xs, r)"
    using Cons.prems b by (intro Cons.IH) force+
  ultimately show ?case using b by simp
qed simp

lemma mapE_nth:
  "mapE f xs = Inr ys \<Longrightarrow> i < length xs \<Longrightarrow> f (xs ! i) = Inr (ys ! i)"
proof (induction xs arbitrary: ys i)
  case (Cons x xs)
  then show ?case by (cases i) (auto simp: bindE_eq_Inr)
qed simp

lemma depth_wire [simp]: "depth (wire_value v) = depth v"
  by (induction v rule: wire_value.induct) (auto simp: image_image cong: image_cong)

lemma save_total: "json_ok v \<Longrightarrow> \<exists>bs. saveJSON ar v = Inr bs"
proof (induction v rule: saveJSON.induct)
  case (7 ar vs)
  then have "\<forall>v \<in> set vs. \<exists>bs. saveJSON ar v = Inr bs" by (auto simp: list_all_iff)
  then obtain g where "\<forall>v \<in> set vs. saveJSON ar v = Inr (g v)" by metis
  then have "mapE (saveJSON ar) vs = Inr (map g vs)" by (intro mapE_Inr_map) simp
  then show ?case by simp
next
  case (8 ar ms)
  then have "\<forall>m \<in> set ms. \<exists>bs. saveJSON ar (snd m) = Inr bs" by (auto simp: list_all_iff)
  then obtain g where "\<forall>m \<in> set ms. saveJSON ar (snd m) = Inr (g m)" by metis
  then have "mapE (\<lambda>m. bindE (saveJSON ar (snd m)) (\<lambda>bs. Inr (put_str ar (fst m) @ bs))) ms
    = Inr (map (\<lambda>m. put_str ar (fst m) @ g m) ms)" by (intro mapE_Inr_map) simp
  then show ?case by simp
qed auto

lemma load_save_leaf:
  assumes "archive_ok ar" and "json_ok v" and "saveJSON ar v = Inr bs"
    and "\<forall>vs. v \<noteq> JArray vs" and "\<forall>ms. v \<noteq> JObject ms" and "0 < fuel"
  shows "loadJSON fuel ar JNull (bs @ r) = Inr (wire_value v, r)"
proof -
  from assms(6) obtain f where "fuel = Suc f" by (cases fuel) auto
  then show ?thesis using assms by (cases v) auto
qed

lemma load_save_aux:
  assumes "archive_ok ar"
  shows "json_ok v \<Longrightarrow> saveJSON ar v = Inr bs \<Longrightarrow> depth v \<le> fuel
    \<Longrightarrow> loadJSON fuel ar JNull (bs @ r) = Inr (wire_value v, r)"
proof (induction v arbitrary: bs fuel r)
  case (JArray vs)
  then obtain f where fuel: "fuel = Suc f" by (cases fuel) auto
  from JArray.prems obtain bss where bss: "mapE (saveJSON ar) vs = Inr bss"
    and bs: "bs = put_char ar (value_code VArray) @ put_u64 ar (word_of_nat (length vs)) @ concat bss"
    by (auto simp: bindE_eq_Inr)
  have elem: "loadJSON f ar JNull (bss ! i @ r) = Inr (map wire_value vs ! i, r)"
    if i: "i < length (map wire_value vs)" for i r
  proof -
    have m: "vs ! i \<in> set vs" using i by simp
    then have "depth (vs ! i) \<le> f"
      using depth_array_elem [OF m] JArray.prems(3) fuel by simp
    moreover have "json_ok (vs ! i)" using m JArray.prems(1) by (simp add: list_all_iff)
    ultimately show ?thesis
      using JArray.IH [OF m] mapE_nth [OF bss] i by simp
  qed
  have "load_n (loadJSON f ar JNull) (length vs) (concat bss @ r) = Inr (map wire_value vs, r)"
    using load_n_concat [OF _ elem] mapE_length [OF bss] by simp
  then show ?case using assms JArray.prems(1) by (simp add: fuel bs)
next
  case (JObject ms)
  then obtain f where fuel: "fuel = Suc f" by (cases fuel) auto
  let ?rd = "\<lambda>bs. bindE (read (get_str ar) bs) (\<lambda>(k, bs).
               bindE (loadJSON f ar JNull bs) (\<lambda>(v, bs). Inr ((k, v), bs)))"
  let ?ms = "map (\<lambda>m. (fst m, wire_value (snd m))) ms"
  from JObject.prems obtain bss where bss:
      "mapE (\<lambda>m. bindE (saveJSON ar (snd m)) (\<lambda>bs. Inr (put_str ar (fst m) @ bs))) ms = Inr bss"
    and bs: "bs = put_char ar (value_code VObject) @ put_u64 ar (word_of_nat (length ms)) @ concat bss"
    by (auto simp: bindE_eq_Inr)
  have elem: "?rd (bss ! i @ r) = Inr (?ms ! i, r)" if i: "i < length ?ms" for i r
  proof -
    obtain k v where kv: "ms ! i = (k, v)" by (cases "ms ! i")
    have m: "(k, v) \<in> set ms" using i kv by (metis length_map nth_mem)
    then have d: "depth v \<le> f"
      using m JObject.prems(3) fuel by force
    have ok: "json_ok v" "length k < size_max" using m JObject.prems(1) by (auto simp: list_all_iff)
    obtain b where b: "saveJSON ar v = Inr b" and bi: "bss ! i = put_str ar k @ b"
      using mapE_nth [OF bss, of i] i kv by (auto simp: bindE_eq_Inr)
    have "loadJSON f ar JNull (b @ r) = Inr (wire_value v, r)"
      using JObject.IH [OF m, of v] ok(1) b d by simp
    then show ?thesis using assms ok(2) i kv by (simp add: bi)
  qed
  have "load_n ?rd (length ms) (concat bss @ r) = Inr (?ms, r)"
    using load_n_concat [OF _ elem] mapE_length [OF bss] by simp
  moreover have "foldl (\<lambda>ms (k, v). obj_emplace k v ms) [] ?ms = ?ms"
    using emplace_sorted [of "[]" ?ms] JObject.prems(1) by (simp add: o_def)
  ultimately show ?case using assms JObject.prems(1) by (simp add: fuel bs)
next
  case (JBinary bytes st)
  then show ?case by (intro load_save_leaf assms) auto
next
  case (JString s)
  then show ?case by (intro load_save_leaf assms) auto
qed (rule load_save_leaf [OF assms]; (assumption | simp))+

lemma load_save:
  assumes "archive_ok ar" and "json_ok v" and "depth v \<le> fuel"
  shows "\<exists>bs. saveJSON ar v = Inr bs \<and> loadJSON fuel ar JNull (bs @ r) = Inr (wire_value v, r)"
  using save_total [OF assms(2), of ar] load_save_aux [OF assms(1,2) _ assms(3)] by blast

end
