(* ===== verification/Results.thy ===== *)
theory Results
  imports JsonSerialize
begin

text \<open>
  \<open>include/poesie/Result.hpp\<close> and the waiting end of \<open>include/poesie/Future.hpp\<close>: the
  generic \<open>Result<T>\<close> with its error string, the specialisation for strings, whose error
  and value share one member, and the specialisation for \<open>bool\<close>, whose value is the
  success flag itself. Throwing is the left summand.
\<close>

section \<open>The generic result\<close>

record 'a result =
  m_success :: bool
  m_error :: string
  m_value :: 'a

definition Result_default :: "'a \<Rightarrow> 'a result" where
  "Result_default v = \<lparr>m_success = True, m_error = [], m_value = v\<rparr>"

text \<open>Converting construction and assignment: every member is taken from the other result.\<close>

definition Result_convert :: "('a \<Rightarrow> 'b) \<Rightarrow> 'a result \<Rightarrow> 'b result" where
  "Result_convert f other =
     \<lparr>m_success = m_success other, m_error = m_error other, m_value = f (m_value other)\<rparr>"

definition Result_check :: "'a result \<Rightarrow> exn + unit" where
  "Result_check r = (if \<not> m_success r then Inl (Exn (m_error r)) else Inr ())"

definition valueOrThrow :: "'a result \<Rightarrow> exn + 'a" where
  "valueOrThrow r = bindE (Result_check r) (\<lambda>_. Inr (m_value r))"

definition andThen :: "'a result \<Rightarrow> ('a \<Rightarrow> exn + 'b) \<Rightarrow> exn + 'b" where
  "andThen r f = bindE (valueOrThrow r) f"

definition Result_save :: "archive \<Rightarrow> ('a \<Rightarrow> exn + byte list) \<Rightarrow> 'a result \<Rightarrow> exn + byte list" where
  "Result_save ar save r =
     (if m_success r
      then bindE (save (m_value r)) (\<lambda>bs. Inr (put_bool ar True @ bs))
      else Inr (put_bool ar False @ put_str ar (m_error r)))"

definition Result_load ::
  "archive \<Rightarrow> (byte list \<Rightarrow> exn + ('a \<times> byte list)) \<Rightarrow> 'a result \<Rightarrow> byte list \<Rightarrow> exn + ('a result \<times> byte list)"
where
  "Result_load ar load r bs =
     bindE (read (get_bool ar) bs) (\<lambda>(s, bs).
     if s then bindE (load bs) (\<lambda>(v, bs). Inr (r\<lparr>m_success := s, m_value := v\<rparr>, bs))
     else bindE (read (get_str ar) bs) (\<lambda>(e, bs). Inr (r\<lparr>m_success := s, m_error := e\<rparr>, bs)))"

lemma valueOrThrow_success: "m_success r \<Longrightarrow> valueOrThrow r = Inr (m_value r)"
  and valueOrThrow_failure: "\<not> m_success r \<Longrightarrow> valueOrThrow r = Inl (Exn (m_error r))"
  by (simp_all add: valueOrThrow_def Result_check_def)

lemma valueOrThrow_convert:
  "valueOrThrow (Result_convert f r) = bindE (valueOrThrow r) (\<lambda>v. Inr (f v))"
  by (simp add: valueOrThrow_def Result_check_def Result_convert_def)

lemma andThen_throws: "andThen r f = Inl e \<longleftrightarrow>
    (\<not> m_success r \<and> e = Exn (m_error r)) \<or> (m_success r \<and> f (m_value r) = Inl e)"
  by (auto simp: andThen_def valueOrThrow_def Result_check_def)

text \<open>
  A result survives the wire in what its reader may observe: the flag, and the value or the
  error that the flag selects.
\<close>

lemma Result_load_save:
  assumes ar: "archive_ok ar"
    and v: "m_success r \<Longrightarrow> save (m_value r) = Inr vb \<and> load (vb @ rest) = Inr (v, rest)"
    and e: "\<not> m_success r \<Longrightarrow> length (m_error r) < size_max"
  shows "\<exists>bs. Result_save ar save r = Inr bs \<and>
    Result_load ar load r0 (bs @ rest) =
      Inr (if m_success r then r0\<lparr>m_success := True, m_value := v\<rparr>
           else r0\<lparr>m_success := False, m_error := m_error r\<rparr>, rest)"
proof (cases "m_success r")
  case True
  with v ar show ?thesis by (simp add: Result_save_def Result_load_def)
next
  case False
  with e ar show ?thesis by (simp add: Result_save_def Result_load_def)
qed

section \<open>Results of strings\<close>

record sresult =
  s_success :: bool
  s_content :: string

definition SResult_default :: sresult where
  "SResult_default = \<lparr>s_success = True, s_content = []\<rparr>"

definition SResult_check :: "sresult \<Rightarrow> exn + unit" where
  "SResult_check r = (if \<not> s_success r then Inl (Exn (s_content r)) else Inr ())"

definition SResult_valueOrThrow :: "sresult \<Rightarrow> exn + string" where
  "SResult_valueOrThrow r = bindE (SResult_check r) (\<lambda>_. Inr (s_content r))"

definition SResult_save :: "archive \<Rightarrow> sresult \<Rightarrow> byte list" where
  "SResult_save ar r = put_bool ar (s_success r) @ put_str ar (s_content r)"

definition SResult_load :: "archive \<Rightarrow> byte list \<Rightarrow> exn + (sresult \<times> byte list)" where
  "SResult_load ar bs =
     bindE (read (get_bool ar) bs) (\<lambda>(s, bs).
     bindE (read (get_str ar) bs) (\<lambda>(c, bs). Inr (\<lparr>s_success = s, s_content = c\<rparr>, bs)))"

lemma SResult_load_save:
  "archive_ok ar \<Longrightarrow> length (s_content r) < size_max \<Longrightarrow>
    SResult_load ar (SResult_save ar r @ rest) = Inr (r, rest)"
  by (simp add: SResult_load_def SResult_save_def)

section \<open>Results of booleans\<close>

record bresult =
  b_success :: bool
  b_error :: string

definition BResult_default :: bresult where
  "BResult_default = \<lparr>b_success = True, b_error = []\<rparr>"

text \<open>\<open>value()\<close> returns a reference to the success flag: setting one sets the other.\<close>

definition BResult_value :: "bresult \<Rightarrow> bool" where
  "BResult_value r = b_success r"

definition BResult_set_value :: "bool \<Rightarrow> bresult \<Rightarrow> bresult" where
  "BResult_set_value v r = r\<lparr>b_success := v\<rparr>"

definition BResult_check :: "bresult \<Rightarrow> exn + unit" where
  "BResult_check r = (if \<not> b_success r then Inl (Exn (b_error r)) else Inr ())"

definition BResult_valueOrThrow :: "bresult \<Rightarrow> exn + bool" where
  "BResult_valueOrThrow r = bindE (BResult_check r) (\<lambda>_. Inr True)"

definition BResult_save :: "archive \<Rightarrow> bresult \<Rightarrow> byte list" where
  "BResult_save ar r =
     put_bool ar (b_success r) @ (if \<not> b_success r then put_str ar (b_error r) else [])"

definition BResult_load :: "archive \<Rightarrow> bresult \<Rightarrow> byte list \<Rightarrow> exn + (bresult \<times> byte list)" where
  "BResult_load ar r bs =
     bindE (read (get_bool ar) bs) (\<lambda>(s, bs).
     if \<not> s then bindE (read (get_str ar) bs) (\<lambda>(e, bs). Inr (r\<lparr>b_success := s, b_error := e\<rparr>, bs))
     else Inr (r\<lparr>b_success := s\<rparr>, bs))"

lemma BResult_load_save:
  "archive_ok ar \<Longrightarrow> (\<not> b_success r \<Longrightarrow> length (b_error r) < size_max) \<Longrightarrow>
    BResult_load ar r0 (BResult_save ar r @ rest) =
      Inr (if b_success r then r0\<lparr>b_success := True\<rparr> else r, rest)"
  by (cases r0, cases r) (simp add: BResult_load_def BResult_save_def)

text \<open>A boolean result never yields \<open>false\<close>: it yields \<open>true\<close> or throws.\<close>

lemma BResult_never_false: "BResult_valueOrThrow r \<noteq> Inr False"
  by (simp add: BResult_valueOrThrow_def BResult_check_def)

section \<open>Waiting for a response\<close>

text \<open>
  \<open>Future::wait\<close> deserializes the response into a default result and unwraps it.
\<close>

definition Future_wait :: "archive \<Rightarrow> (byte list \<Rightarrow> exn + ('a \<times> byte list)) \<Rightarrow> 'a \<Rightarrow> byte list \<Rightarrow> exn + 'a" where
  "Future_wait ar load dflt resp =
     bindE (Result_load ar load (Result_default dflt) resp) (\<lambda>(r, _). valueOrThrow r)"

end
