(* ===== verification/Service.thy ===== *)
theory Service
  imports Results
begin

text \<open>
  The service: \<open>VmFactory\<close> (\<open>src/Backend.cpp\<close>, \<open>include/poesie/Backend.hpp\<close>), the
  provider with its three RPC handlers (\<open>src/ProviderImpl.hpp\<close>), the \<open>Provider\<close> object and
  its finalize callbacks (\<open>src/Provider.cpp\<close>), and the client side (\<open>src/Client.cpp\<close>,
  \<open>src/VmHandle.cpp\<close>).

  A backend is an abstract state \<open>'b\<close> with the virtual functions of \<open>Backend\<close> as a record
  of operations; each returns the state it leaves behind and either a result or the
  exception that escaped. JSON text (\<open>json::parse\<close>, \<open>dump\<close>) and the network are
  parameters.
\<close>

section \<open>Backends and their factory\<close>

record 'b backend_ops =
  op_getConfig :: "'b \<Rightarrow> string"
  op_execute :: "string \<Rightarrow> json list \<Rightarrow> 'b \<Rightarrow> (exn + json result) \<times> 'b"
  op_load :: "string \<Rightarrow> json list \<Rightarrow> 'b \<Rightarrow> (exn + json result) \<times> 'b"
  op_call :: "string \<Rightarrow> string \<Rightarrow> json list \<Rightarrow> 'b \<Rightarrow> (exn + json result) \<times> 'b"
  op_destroy :: "'b \<Rightarrow> 'b"

record 'b vm =
  vm_name :: string
  vm_impl :: 'b

text \<open>\<open>create_fn\<close>: creation functions by backend name; the left summand is \<open>what()\<close>.\<close>

type_synonym 'b factory = "string \<rightharpoonup> (json \<Rightarrow> string + 'b vm)"

definition register_backend :: "string \<Rightarrow> (json \<Rightarrow> string + 'b) \<Rightarrow> 'b factory \<Rightarrow> 'b factory" where
  "register_backend backend_name create fn =
     fn(backend_name \<mapsto> (\<lambda>config.
       bindE (create config) (\<lambda>p. Inr \<lparr>vm_name = backend_name, vm_impl = p\<rparr>)))"

definition VmFactory_createVm :: "'b factory \<Rightarrow> string \<Rightarrow> json \<Rightarrow> string + 'b vm option" where
  "VmFactory_createVm fn backend_name config =
     (case fn backend_name of
        None \<Rightarrow> Inr None
      | Some f \<Rightarrow> bindE (f config) (\<lambda>p. Inr (Some p)))"

section \<open>The provider\<close>

record 'b provider =
  m_backend :: "'b vm option"

definition createVm :: "'b factory \<Rightarrow> string \<Rightarrow> json \<Rightarrow> 'b provider \<Rightarrow> bresult \<times> 'b provider" where
  "createVm fn vm_type vm_config p =
     (case VmFactory_createVm fn vm_type vm_config of
        Inl what \<Rightarrow> (BResult_default\<lparr>b_success := False, b_error := what\<rparr>, p)
      | Inr vm \<Rightarrow>
          (case vm of
             None \<Rightarrow> (BResult_default\<lparr>b_success := False, b_error := ''Unknown vm type '' @ vm_type\<rparr>,
                      p\<lparr>m_backend := vm\<rparr>)
           | Some _ \<Rightarrow> (BResult_default, p\<lparr>m_backend := vm\<rparr>)))"

text \<open>
  The constructor: a configuration that does not parse, or does not name a VM, leaves the
  provider without one; a VM that cannot be created makes \<open>result.check()\<close> throw.
\<close>

definition ProviderImpl_new ::
  "(string \<Rightarrow> string + json) \<Rightarrow> 'b factory \<Rightarrow> string \<Rightarrow> exn + 'b provider"
where
  "ProviderImpl_new parse fn config =
     (let p = \<lparr>m_backend = None\<rparr> in
      case parse config of
        Inl _ \<Rightarrow> Inr p
      | Inr json_config \<Rightarrow>
          if \<not> is_object json_config then Inr p
          else case member json_config ''vm'' of
            None \<Rightarrow> Inr p
          | Some vm \<Rightarrow>
              if \<not> is_object vm then Inr p
              else case member vm ''type'' of
                Some (JString vm_type) \<Rightarrow>
                  (let vm_config = (case member vm ''config'' of Some c \<Rightarrow> c | None \<Rightarrow> JObject []);
                       (result, p') = createVm fn vm_type vm_config p
                   in bindE (BResult_check result) (\<lambda>_. Inr p'))
              | _ \<Rightarrow> Inr p)"

definition ProviderImpl_delete :: "'b backend_ops \<Rightarrow> 'b provider \<Rightarrow> 'b option" where
  "ProviderImpl_delete ops p = map_option (\<lambda>vm. op_destroy ops (vm_impl vm)) (m_backend p)"

definition ProviderImpl_getConfig ::
  "(string \<Rightarrow> string + json) \<Rightarrow> (json \<Rightarrow> string) \<Rightarrow> 'b backend_ops \<Rightarrow> 'b provider \<Rightarrow> string + string"
where
  "ProviderImpl_getConfig parse dump ops p =
     (case m_backend p of
        None \<Rightarrow> Inr (dump (JObject []))
      | Some vm \<Rightarrow>
          bindE (parse (op_getConfig ops (vm_impl vm))) (\<lambda>c.
          Inr (dump (JObject (obj_set ''vm''
            (JObject (obj_set ''config'' c (obj_set ''type'' (JString (vm_name vm)) []))) [])))))"

text \<open>A registry filled by \<open>POESIE_REGISTER_BACKEND\<close>, and the construction of a provider whose configuration names a type.\<close>

definition registered :: "(string \<times> (json \<Rightarrow> string + 'b)) list \<Rightarrow> 'b factory" where
  "registered regs = foldl (\<lambda>fn (name, f). register_backend name f fn) Map.empty regs"

lemma registered_snoc: "registered (regs @ [(name, f)]) = register_backend name f (registered regs)"
  by (simp add: registered_def)

lemma registered_Some:
  "registered regs t = Some g \<Longrightarrow> \<exists>f. (t, f) \<in> set regs \<and> g = (\<lambda>config. bindE (f config) (\<lambda>p. Inr \<lparr>vm_name = t, vm_impl = p\<rparr>))"
proof (induction regs rule: rev_induct)
  case (snoc r regs)
  then show ?case by (cases r) (auto simp: registered_snoc register_backend_def split: if_splits)
qed (simp add: registered_def)

lemma registered_None: "registered regs t = None \<Longrightarrow> t \<notin> fst ` set regs"
proof (induction regs rule: rev_induct)
  case (snoc r regs)
  then show ?case by (cases r) (auto simp: registered_snoc register_backend_def split: if_splits)
qed simp

definition new_with :: "'b factory \<Rightarrow> string \<Rightarrow> json \<Rightarrow> exn + 'b provider" where
  "new_with fn t c =
     (case fn t of
        None \<Rightarrow> Inl (Exn (''Unknown vm type '' @ t))
      | Some f \<Rightarrow> (case f c of Inl what \<Rightarrow> Inl (Exn what) | Inr vm \<Rightarrow> Inr \<lparr>m_backend = Some vm\<rparr>))"

lemma ProviderImpl_new_vm:
  assumes "parse s = Inr j" and "member j ''vm'' = Some vm" and "member vm ''type'' = Some (JString t)"
    and "c = (case member vm ''config'' of Some c \<Rightarrow> c | None \<Rightarrow> JObject [])"
  shows "ProviderImpl_new parse fn s = new_with fn t c"
proof -
  have "is_object j" "is_object vm" using assms(2,3) by (auto simp: member_def split: json.splits)
  then show ?thesis
    using assms by (auto simp: ProviderImpl_new_def new_with_def createVm_def VmFactory_createVm_def BResult_check_def
        BResult_default_def Let_def split: sum.splits option.splits)
qed

lemma obj_set_vm:
  "obj_set ''vm'' v [] = [(''vm'', v)]"
  "obj_set ''config'' c (obj_set ''type'' v []) = [(''config'', c), (''type'', v)]"
  by simp_all

subsection \<open>RPC handlers\<close>

text \<open>
  A handler replies with its result object when it returns. \<open>Escapes e r\<close> is a backend
  exception leaving the handler while the reply is bound to the result object \<open>r\<close>.
\<close>

datatype rpc_outcome = Replies "json result" | Escapes exn "json result"

definition no_vm_result :: "json result" where
  "no_vm_result = (Result_default JNull)\<lparr>m_success := False, m_error := ''Provider has no VM attached''\<rparr>"

definition run_backend ::
  "('b \<Rightarrow> (exn + json result) \<times> 'b) \<Rightarrow> 'b provider \<Rightarrow> rpc_outcome \<times> 'b provider"
where
  "run_backend f p =
     (case m_backend p of
        None \<Rightarrow> (Replies no_vm_result, p)
      | Some vm \<Rightarrow>
          (case f (vm_impl vm) of
             (Inl e, b) \<Rightarrow> (Escapes e (Result_default JNull), p\<lparr>m_backend := Some (vm\<lparr>vm_impl := b\<rparr>)\<rparr>)
           | (Inr r, b) \<Rightarrow> (Replies (Result_convert id r), p\<lparr>m_backend := Some (vm\<lparr>vm_impl := b\<rparr>)\<rparr>)))"

definition executeRPC :: "'b backend_ops \<Rightarrow> string \<Rightarrow> json list \<Rightarrow> 'b provider \<Rightarrow> rpc_outcome \<times> 'b provider"
where
  "executeRPC ops code jargs p = run_backend (op_execute ops code jargs) p"

definition loadRPC :: "'b backend_ops \<Rightarrow> string \<Rightarrow> json list \<Rightarrow> 'b provider \<Rightarrow> rpc_outcome \<times> 'b provider"
where
  "loadRPC ops filename jargs p = run_backend (op_load ops filename jargs) p"

definition callRPC ::
  "'b backend_ops \<Rightarrow> string \<Rightarrow> string \<Rightarrow> json list \<Rightarrow> 'b provider \<Rightarrow> rpc_outcome \<times> 'b provider"
where
  "callRPC ops function target jargs p = run_backend (op_call ops function target jargs) p"

lemma run_backend_no_vm: "m_backend p = None \<Longrightarrow> run_backend f p = (Replies no_vm_result, p)"
  by (simp add: run_backend_def)

lemma run_backend_name:
  "map_option vm_name (m_backend (snd (run_backend f p))) = map_option vm_name (m_backend p)"
  by (auto simp: run_backend_def split: option.split prod.split sum.split)

lemma Result_convert_id [simp]: "Result_convert id r = r"
  by (simp add: Result_convert_def)

section \<open>The client side\<close>

text \<open>
  The client sends strings as views and each argument by reference; the arguments travel
  as a vector: a count, then the values.
\<close>

definition save_args :: "archive \<Rightarrow> json list \<Rightarrow> exn + byte list" where
  "save_args ar args =
     bindE (mapE (save_wrapper ar) args) (\<lambda>bss.
     Inr (put_u64 ar (word_of_nat (length args)) @ concat bss))"

definition load_args :: "nat \<Rightarrow> archive \<Rightarrow> byte list \<Rightarrow> exn + (json list \<times> byte list)" where
  "load_args fuel ar bs =
     bindE (read (get_u64 ar) bs) (\<lambda>(n, bs). load_n (load_wrapper fuel ar) (unat n) bs)"

text \<open>\<open>VmHandle::execute\<close>, \<open>load\<close> and \<open>call\<close>: an invalid handle throws, otherwise the
  request is sent. \<open>self\<close> tells whether the handle holds an implementation.\<close>

definition VmHandle_execute :: "archive \<Rightarrow> bool \<Rightarrow> string \<Rightarrow> json list \<Rightarrow> exn + byte list" where
  "VmHandle_execute ar self code args =
     (if \<not> self then Inl (Exn ''Invalid poesie::VmHandle object'')
      else bindE (save_args ar args) (\<lambda>bs. Inr (save_string_view ar code @ bs)))"

definition VmHandle_load :: "archive \<Rightarrow> bool \<Rightarrow> string \<Rightarrow> json list \<Rightarrow> exn + byte list" where
  "VmHandle_load ar self filename args =
     (if \<not> self then Inl (Exn ''Invalid poesie::VmHandle object'')
      else bindE (save_args ar args) (\<lambda>bs. Inr (save_string_view ar filename @ bs)))"

definition VmHandle_call :: "archive \<Rightarrow> bool \<Rightarrow> string \<Rightarrow> string \<Rightarrow> json list \<Rightarrow> exn + byte list" where
  "VmHandle_call ar self function target args =
     (if \<not> self then Inl (Exn ''Invalid poesie::VmHandle object'')
      else bindE (save_args ar args) (\<lambda>bs.
           Inr (save_string_view ar function @ save_string_view ar target @ bs)))"

text \<open>The provider side of the three requests: decode the arguments, run the handler, encode
  the reply.\<close>

definition reply_bytes :: "archive \<Rightarrow> rpc_outcome \<Rightarrow> exn + byte list" where
  "reply_bytes ar out =
     (case out of Replies r \<Rightarrow> Result_save ar (save_wrapper ar) r | Escapes e _ \<Rightarrow> Inl e)"

definition serve_execute ::
  "nat \<Rightarrow> archive \<Rightarrow> 'b backend_ops \<Rightarrow> byte list \<Rightarrow> 'b provider \<Rightarrow> (exn + byte list) \<times> 'b provider"
where
  "serve_execute fuel ar ops req p =
     (case bindE (read (get_str ar) req) (\<lambda>(code, bs).
           bindE (load_args fuel ar bs) (\<lambda>(args, _). Inr (code, args))) of
        Inl e \<Rightarrow> (Inl e, p)
      | Inr (code, args) \<Rightarrow> (let (out, p') = executeRPC ops code args p in (reply_bytes ar out, p')))"

definition serve_load ::
  "nat \<Rightarrow> archive \<Rightarrow> 'b backend_ops \<Rightarrow> byte list \<Rightarrow> 'b provider \<Rightarrow> (exn + byte list) \<times> 'b provider"
where
  "serve_load fuel ar ops req p =
     (case bindE (read (get_str ar) req) (\<lambda>(filename, bs).
           bindE (load_args fuel ar bs) (\<lambda>(args, _). Inr (filename, args))) of
        Inl e \<Rightarrow> (Inl e, p)
      | Inr (filename, args) \<Rightarrow> (let (out, p') = loadRPC ops filename args p in (reply_bytes ar out, p')))"

definition serve_call ::
  "nat \<Rightarrow> archive \<Rightarrow> 'b backend_ops \<Rightarrow> byte list \<Rightarrow> 'b provider \<Rightarrow> (exn + byte list) \<times> 'b provider"
where
  "serve_call fuel ar ops req p =
     (case bindE (read (get_str ar) req) (\<lambda>(function, bs).
           bindE (read (get_str ar) bs) (\<lambda>(target, bs).
           bindE (load_args fuel ar bs) (\<lambda>(args, _). Inr (function, target, args)))) of
        Inl e \<Rightarrow> (Inl e, p)
      | Inr (function, target, args) \<Rightarrow>
          (let (out, p') = callRPC ops function target args p in (reply_bytes ar out, p')))"

text \<open>A whole remote execution: request, handler, reply, \<open>wait()\<close>.\<close>

definition remote_execute ::
  "nat \<Rightarrow> archive \<Rightarrow> 'b backend_ops \<Rightarrow> bool \<Rightarrow> string \<Rightarrow> json list \<Rightarrow> 'b provider \<Rightarrow> (exn + json) \<times> 'b provider"
where
  "remote_execute fuel ar ops self code args p =
     (case VmHandle_execute ar self code args of
        Inl e \<Rightarrow> (Inl e, p)
      | Inr req \<Rightarrow>
          (let (resp, p') = serve_execute fuel ar ops req p
           in (bindE resp (Future_wait ar (load_wrapper fuel ar) JNull), p')))"

definition remote_call ::
  "nat \<Rightarrow> archive \<Rightarrow> 'b backend_ops \<Rightarrow> bool \<Rightarrow> string \<Rightarrow> string \<Rightarrow> json list \<Rightarrow> 'b provider \<Rightarrow> (exn + json) \<times> 'b provider"
where
  "remote_call fuel ar ops self function target args p =
     (case VmHandle_call ar self function target args of
        Inl e \<Rightarrow> (Inl e, p)
      | Inr req \<Rightarrow>
          (let (resp, p') = serve_call fuel ar ops req p
           in (bindE resp (Future_wait ar (load_wrapper fuel ar) JNull), p')))"

text \<open>\<open>Client::makeVmHandle\<close>: address lookup and the identity query belong to thallium.\<close>

definition makeVmHandle ::
  "(string \<Rightarrow> exn + 'ep) \<Rightarrow> ('ep \<Rightarrow> u16 \<Rightarrow> string + string) \<Rightarrow> string \<Rightarrow> u16 \<Rightarrow> bool \<Rightarrow> exn + ('ep \<times> u16)"
where
  "makeVmHandle lookup get_identity address provider_id check =
     bindE (lookup address) (\<lambda>endpoint.
     if check then
       (case get_identity endpoint provider_id of
          Inl what \<Rightarrow> Inl (Exn what)
        | Inr ident \<Rightarrow>
            if ident \<noteq> ''poesie''
            then Inl (Exn ''Address and provider ID do not point to a poesie provider'')
            else Inr (endpoint, provider_id))
     else Inr (endpoint, provider_id))"

subsection \<open>Round trip of a request and its reply\<close>

definition args_ok :: "nat \<Rightarrow> json list \<Rightarrow> bool" where
  "args_ok fuel args \<longleftrightarrow>
     length args < size_max \<and> list_all (\<lambda>v. json_ok v \<and> depth v \<le> fuel) args"

definition reply_ok :: "nat \<Rightarrow> json result \<Rightarrow> bool" where
  "reply_ok fuel r \<longleftrightarrow>
     (if m_success r then json_ok (m_value r) \<and> depth (m_value r) \<le> fuel
      else length (m_error r) < size_max)"

definition wire_outcome :: "json result \<Rightarrow> exn + json" where
  "wire_outcome r = bindE (valueOrThrow r) (\<lambda>v. Inr (wire_value v))"

lemma load_wrapper_save:
  assumes "archive_ok ar" and "json_ok v" and "depth v \<le> fuel" and "save_wrapper ar v = Inr bs"
  shows "load_wrapper fuel ar (bs @ r) = Inr (wire_value v, r)"
  using assms load_save_aux by (simp add: load_wrapper_def save_wrapper_def)

lemma load_args_save:
  assumes ar: "archive_ok ar" and ok: "args_ok fuel args"
  shows "\<exists>bs. save_args ar args = Inr bs \<and> load_args fuel ar (bs @ r) = Inr (map wire_value args, r)"
proof -
  have "\<forall>v \<in> set args. \<exists>bs. save_wrapper ar v = Inr bs"
    using ok save_total by (auto simp: args_ok_def list_all_iff save_wrapper_def)
  then obtain g where g: "\<forall>v \<in> set args. save_wrapper ar v = Inr (g v)" by metis
  then have s: "mapE (save_wrapper ar) args = Inr (map g args)" by (intro mapE_Inr_map) simp
  have elem: "load_wrapper fuel ar (map g args ! i @ r) = Inr (map wire_value args ! i, r)"
    if "i < length (map wire_value args)" for i r
    using that g ok load_wrapper_save [OF ar] by (simp add: args_ok_def list_all_length)
  have "load_n (load_wrapper fuel ar) (length args) (concat (map g args) @ r)
      = Inr (map wire_value args, r)"
    using load_n_concat [OF _ elem] by simp
  with s ar ok show ?thesis by (simp add: save_args_def load_args_def args_ok_def)
qed

lemma wait_reply:
  assumes ar: "archive_ok ar" and ok: "reply_ok fuel r"
  shows "bindE (reply_bytes ar (Replies r)) (Future_wait ar (load_wrapper fuel ar) JNull) = wire_outcome r"
proof -
  have "\<exists>bs. m_success r \<longrightarrow> save_wrapper ar (m_value r) = Inr bs"
    using ok save_total [of "m_value r" ar] by (cases "m_success r") (auto simp: reply_ok_def save_wrapper_def)
  then obtain bs where bs: "m_success r \<Longrightarrow> save_wrapper ar (m_value r) = Inr bs" by blast
  have "\<exists>rb. Result_save ar (save_wrapper ar) r = Inr rb \<and>
      Result_load ar (load_wrapper fuel ar) (Result_default JNull) (rb @ []) =
        Inr (if m_success r then (Result_default JNull)\<lparr>m_success := True, m_value := wire_value (m_value r)\<rparr>
             else (Result_default JNull)\<lparr>m_success := False, m_error := m_error r\<rparr>, [])"
  proof (rule Result_load_save [OF ar, where vb = bs])
    show "save_wrapper ar (m_value r) = Inr bs \<and>
        load_wrapper fuel ar (bs @ []) = Inr (wire_value (m_value r), [])" if "m_success r"
      using that ok bs load_wrapper_save [OF ar, of "m_value r" fuel bs "[]"] by (simp add: reply_ok_def)
    show "length (m_error r) < size_max" if "\<not> m_success r"
      using that ok by (simp add: reply_ok_def)
  qed
  then show ?thesis
    by (auto simp: reply_bytes_def Future_wait_def wire_outcome_def valueOrThrow_def Result_check_def)
qed

lemma remote_execute_run:
  assumes "archive_ok ar" and "archive_view_ok ar" and "length code < size_max" and "args_ok fuel args"
    and "run_backend (op_execute ops code (map wire_value args)) p = (Replies r, p')" and "reply_ok fuel r"
  shows "remote_execute fuel ar ops True code args p = (wire_outcome r, p')"
proof -
  obtain bs where bs: "save_args ar args = Inr bs"
      "load_args fuel ar (bs @ []) = Inr (map wire_value args, [])"
    using load_args_save [OF assms(1,4)] by blast
  have "read (get_str ar) (save_string_view ar code @ bs) = Inr (code, bs)"
    using assms(2,3) by (simp add: archive_view_ok_def read_def)
  with bs assms(5) have "serve_execute fuel ar ops (save_string_view ar code @ bs) p
      = (reply_bytes ar (Replies r), p')"
    by (simp add: serve_execute_def executeRPC_def)
  with bs wait_reply [OF assms(1,6)] show ?thesis
    by (simp add: remote_execute_def VmHandle_execute_def)
qed

lemma remote_call_run:
  assumes "archive_ok ar" and "archive_view_ok ar" and "length function < size_max"
    and "length target < size_max" and "args_ok fuel args"
    and "run_backend (op_call ops function target (map wire_value args)) p = (Replies r, p')"
    and "reply_ok fuel r"
  shows "remote_call fuel ar ops True function target args p = (wire_outcome r, p')"
proof -
  obtain bs where bs: "save_args ar args = Inr bs"
      "load_args fuel ar (bs @ []) = Inr (map wire_value args, [])"
    using load_args_save [OF assms(1,5)] by blast
  have "read (get_str ar) (save_string_view ar s @ r) = Inr (s, r)" if "length s < size_max" for s r
    using assms(2) that by (simp add: archive_view_ok_def read_def)
  with bs assms(3,4,6) have
    "serve_call fuel ar ops (save_string_view ar function @ save_string_view ar target @ bs) p
      = (reply_bytes ar (Replies r), p')"
    by (simp add: serve_call_def callRPC_def)
  with bs wait_reply [OF assms(1,7)] show ?thesis
    by (simp add: remote_call_def VmHandle_call_def)
qed

section \<open>Provider objects and finalize callbacks\<close>

text \<open>
  A \<open>Provider\<close> object is an address; \<open>objs\<close> gives the live objects and the implementation
  each one's \<open>self\<close> points to. The engine keeps the finalize callbacks, newest first, by
  the object they would reset. Pushing adds one; popping removes the newest one of that
  owner, if there is one.
\<close>

record 'i world =
  objs :: "nat \<rightharpoonup> 'i option"
  callbacks :: "nat list"

definition push_finalize :: "nat \<Rightarrow> 'i world \<Rightarrow> 'i world" where
  "push_finalize owner w = w\<lparr>callbacks := owner # callbacks w\<rparr>"

definition pop_finalize :: "nat \<Rightarrow> 'i world \<Rightarrow> 'i world" where
  "pop_finalize owner w = w\<lparr>callbacks := remove1 owner (callbacks w)\<rparr>"

text \<open>The constructor, the move constructor (from \<open>other\<close> into the new object \<open>this\<close>), the
  destructor, and the engine's finalization, which runs every callback.\<close>

definition Provider_new :: "nat \<Rightarrow> 'i \<Rightarrow> 'i world \<Rightarrow> exn + 'i world" where
  "Provider_new this impl w = Inr (push_finalize this (w\<lparr>objs := (objs w)(this \<mapsto> Some impl)\<rparr>))"

definition Provider_move :: "nat \<Rightarrow> nat \<Rightarrow> 'i world \<Rightarrow> exn + 'i world" where
  "Provider_move this other w =
     (case objs w other of
        Some (Some impl) \<Rightarrow>
          (let w = pop_finalize this w;
               w = w\<lparr>objs := (objs w)(this \<mapsto> Some impl, other \<mapsto> None)\<rparr>
           in Inr (push_finalize this w))
      | _ \<Rightarrow> Inl UB)"

definition Provider_delete :: "nat \<Rightarrow> 'i world \<Rightarrow> exn + 'i world" where
  "Provider_delete this w =
     (case objs w this of
        None \<Rightarrow> Inl UB
      | Some self \<Rightarrow>
          (let w = (if self \<noteq> None then pop_finalize this w else w)
           in Inr (w\<lparr>objs := (objs w)(this := None)\<rparr>)))"

fun engine_finalize :: "nat list \<Rightarrow> 'i world \<Rightarrow> exn + 'i world" where
  "engine_finalize [] w = Inr (w\<lparr>callbacks := []\<rparr>)"
| "engine_finalize (p # cs) w =
     (case objs w p of
        None \<Rightarrow> Inl UB
      | Some _ \<Rightarrow> engine_finalize cs (w\<lparr>objs := (objs w)(p \<mapsto> None)\<rparr>))"

definition Provider_getConfig :: "('i \<Rightarrow> string) \<Rightarrow> 'i option \<Rightarrow> string" where
  "Provider_getConfig impl_config self = (case self of Some p \<Rightarrow> impl_config p | None \<Rightarrow> ''{}'')"

text \<open>
  As long as objects are only constructed and destroyed, every callback belongs to a live
  object, once, and finalizing is safe.
\<close>

definition world_ok :: "'i world \<Rightarrow> bool" where
  "world_ok w \<longleftrightarrow> distinct (callbacks w) \<and> (\<forall>p. p \<in> set (callbacks w) \<longleftrightarrow> (\<exists>i. objs w p = Some (Some i)))"

lemma Provider_new_ok: "world_ok w \<Longrightarrow> objs w this = None \<Longrightarrow> Provider_new this impl w = Inr w' \<Longrightarrow> world_ok w'"
  by (auto simp: world_ok_def Provider_new_def push_finalize_def split: if_splits)

lemma Provider_delete_ok: "world_ok w \<Longrightarrow> Provider_delete this w = Inr w' \<Longrightarrow> world_ok w'"
  by (auto simp: world_ok_def Provider_delete_def pop_finalize_def Let_def split: option.splits if_splits)

lemma engine_finalize_safe:
  "distinct cs \<Longrightarrow> \<forall>p \<in> set cs. objs w p \<noteq> None \<Longrightarrow> \<exists>w'. engine_finalize cs w = Inr w'"
  by (induction cs arbitrary: w) (auto split: option.split)

lemma engine_finalize_dangling: "p \<in> set cs \<Longrightarrow> objs w p = None \<Longrightarrow> engine_finalize cs w = Inl UB"
proof (induction cs arbitrary: w)
  case (Cons c cs)
  have "objs (w\<lparr>objs := (objs w)(c \<mapsto> None)\<rparr>) p = None" if "p \<noteq> c"
    using Cons.prems(2) that by simp
  with Cons show ?case by (cases "p = c") (simp_all split: option.split)
qed simp

subsection \<open>Lives of provider objects\<close>

text \<open>
  What may happen to provider objects, as a step relation: construction at a free address,
  move construction at a free address, destruction, and the finalization of the engine.
\<close>

datatype 'i lifeop = PNew nat 'i | PMove nat nat | PDelete nat | PFinalize

inductive life_step :: "'i world \<Rightarrow> 'i lifeop \<Rightarrow> 'i world \<Rightarrow> bool" where
  new: "objs w this = None \<Longrightarrow> Provider_new this impl w = Inr w' \<Longrightarrow> life_step w (PNew this impl) w'"
| move: "objs w this = None \<Longrightarrow> Provider_move this other w = Inr w' \<Longrightarrow> life_step w (PMove this other) w'"
| delete: "Provider_delete this w = Inr w' \<Longrightarrow> life_step w (PDelete this) w'"
| finalize: "engine_finalize (callbacks w) w = Inr w' \<Longrightarrow> life_step w PFinalize w'"

inductive life :: "'i world \<Rightarrow> 'i lifeop list \<Rightarrow> 'i world \<Rightarrow> bool" where
  stop: "life w [] w"
| step: "life_step w a w' \<Longrightarrow> life w' ops w'' \<Longrightarrow> life w (a # ops) w''"

inductive_cases life_NilE [elim!]: "life w [] w'"
inductive_cases life_ConsE [elim!]: "life w (a # ops) w'"
inductive_simps life_step_simps: "life_step w (PNew p i) w'" "life_step w (PMove p q) w'"
  "life_step w (PDelete p) w'" "life_step w PFinalize w'"

definition no_world :: "'i world" where
  "no_world = \<lparr>objs = \<lambda>_. None, callbacks = []\<rparr>"

text \<open>Finalizing resets exactly the objects that had a callback.\<close>

lemma engine_finalize_result:
  "engine_finalize cs w = Inr w' \<Longrightarrow>
     callbacks w' = [] \<and> (\<forall>p. objs w' p = (if p \<in> set cs then Some None else objs w p))"
  by (induction cs arbitrary: w) (auto split: option.splits)

lemma engine_finalize_ok:
  assumes "world_ok w" and "engine_finalize (callbacks w) w = Inr w'"
  shows "world_ok w'"
  using engine_finalize_result [OF assms(2)] assms(1) by (auto simp: world_ok_def)

lemma world_ok_finalizes: "world_ok w \<Longrightarrow> \<exists>w'. engine_finalize (callbacks w) w = Inr w'"
  by (rule engine_finalize_safe) (auto simp: world_ok_def)

lemma life_step_ok:
  assumes "life_step w a w'" and "world_ok w" and "\<forall>p q. a \<noteq> PMove p q"
  shows "world_ok w'"
  using assms
proof (cases rule: life_step.cases)
  case new
  show ?thesis by (rule Provider_new_ok [OF assms(2) new(2,3)])
next
  case delete
  show ?thesis by (rule Provider_delete_ok [OF assms(2) delete(2)])
next
  case finalize
  show ?thesis by (rule engine_finalize_ok [OF assms(2) finalize(2)])
qed auto

lemma life_ok: "life w ops w' \<Longrightarrow> world_ok w \<Longrightarrow> \<forall>p q. PMove p q \<notin> set ops \<Longrightarrow> world_ok w'"
proof (induction rule: life.induct)
  case (step w a w' ops w'')
  have "world_ok w'" using life_step_ok [OF step.hyps(1) step.prems(1)] step.prems(2) by auto
  with step show ?case by simp
qed

text \<open>
  After a move the callback of the object moved from is still registered, so destroying
  that object and finalizing the engine calls it on a dead object.
\<close>

lemma move_dangles:
  assumes "world_ok w" and "objs w this = None" and "Provider_move this other w = Inr w1"
    and "Provider_delete other w1 = Inr w2"
  shows "engine_finalize (callbacks w2) w2 = Inl UB"
proof -
  from assms(3) obtain i where i: "objs w other = Some (Some i)"
    and w1: "w1 = push_finalize this ((pop_finalize this w)\<lparr>objs := (objs w)(this \<mapsto> Some i, other \<mapsto> None)\<rparr>)"
    by (auto simp: Provider_move_def pop_finalize_def Let_def split: option.splits)
  have ne: "this \<noteq> other" using i assms(2) by auto
  have "other \<in> set (callbacks w)" using i assms(1) by (auto simp: world_ok_def)
  then have "other \<in> set (callbacks w1)"
    using ne by (simp add: w1 push_finalize_def pop_finalize_def in_set_remove1)
  moreover have "objs w1 other = Some None"
    by (simp add: w1 push_finalize_def pop_finalize_def)
  ultimately have "other \<in> set (callbacks w2)" "objs w2 other = None"
    using assms(4) by (auto simp: Provider_delete_def pop_finalize_def Let_def)
  then show ?thesis by (rule engine_finalize_dangling)
qed

end
