(* ===== verification/MemView.thy ===== *)
theory MemView
  imports Json
begin

text \<open>
  \<open>src/MemoryView.cpp\<close> and \<open>src/MemoryViewImpl.hpp\<close>: a view of a registered memory region
  (a bulk handle, a byte range in it and an intent), its JSON form, and the lazily created
  local copy that is written back when the view is destroyed.

  Bulk handles and endpoints belong to thallium, margo and mercury: they are abstract
  types, and the functions the code calls on them are the fields of \<open>net\<close>. RDMA pulls are
  such a function; the write-back of the destructor is modelled as the transfer it
  requests. Sizes are \<open>size_t\<close> values, so sums wrap around.
\<close>

section \<open>Views\<close>

text \<open>The enumeration's representation: deserializing copies one byte, whatever it holds.\<close>

type_synonym intent = byte

abbreviation IN :: intent where "IN \<equiv> 1"
abbreviation OUT :: intent where "OUT \<equiv> 2"
abbreviation INOUT :: intent where "INOUT \<equiv> 3"

datatype bulk_mode = write_only | read_write | read_only

text \<open>
  \<open>expose_fails\<close> is what \<open>engine::expose\<close> throws for a buffer of the given size, if anything.
\<close>

record ('bk, 'ep) net =
  bulk_size :: "'bk \<Rightarrow> u64"
  bulk_serialize :: "'bk \<Rightarrow> byte list"
  bulk_deserialize :: "byte list \<Rightarrow> 'bk"
  ep_string :: "'ep \<Rightarrow> string"
  ep_lookup :: "string \<Rightarrow> exn + 'ep"
  ep_self :: 'ep
  string_max :: nat
  resize_what :: string
  bulk_access :: "'bk \<Rightarrow> u64 \<Rightarrow> u64 \<Rightarrow> (u32 \<times> u64) option"
  rdma_pull :: "'bk \<Rightarrow> 'ep \<Rightarrow> u64 \<Rightarrow> u64 \<Rightarrow> string + byte list"
  expose_fails :: "u64 \<Rightarrow> bulk_mode \<Rightarrow> string option"
  fresh_bytes :: "nat \<Rightarrow> byte list"

text \<open>
  Local data: none yet, a pointer into the memory of the (local) bulk itself, or a buffer
  of our own. The local bulk handle is null, the remote bulk itself, or one that exposes
  the buffer with the given access mode.
\<close>

datatype local_data = NoData | InBulk u64 | Owned "byte list"
datatype local_bulk = NullBulk | RemoteBulk | Exposed bulk_mode

record ('bk, 'ep) view =
  m_intent :: intent
  m_remote_bulk :: 'bk
  m_remote_ep :: 'ep
  m_remote_offset :: u64
  m_remote_size :: u64
  m_local_data :: local_data
  m_local_bulk :: local_bulk
  m_owns_local_data :: bool

section \<open>Construction from a bulk handle\<close>

definition value_or :: "'a option \<Rightarrow> 'a \<Rightarrow> 'a" where
  "value_or o1 d = (case o1 of None \<Rightarrow> d | Some x \<Rightarrow> x)"

definition MemoryView_bulk ::
  "('bk, 'ep) net \<Rightarrow> 'bk \<Rightarrow> 'ep \<Rightarrow> intent \<Rightarrow> u64 option \<Rightarrow> u64 option \<Rightarrow> exn + ('bk, 'ep) view"
where
  "MemoryView_bulk net bulk owner i offset_opt size_opt =
     (if value_or offset_opt 0 + value_or size_opt (bulk_size net bulk) > bulk_size net bulk
      then Inl (Exn ''Invalid offset and/or size when exposing bulk handle as MemoryView'')
      else Inr \<lparr>m_intent = i, m_remote_bulk = bulk, m_remote_ep = owner,
                m_remote_offset = value_or offset_opt 0,
                m_remote_size = value_or size_opt (bulk_size net bulk),
                m_local_data = NoData, m_local_bulk = NullBulk, m_owns_local_data = False\<rparr>)"

text \<open>The range a view promises to stay in: its bytes lie inside the bulk.\<close>

definition view_in_bulk :: "('bk, 'ep) net \<Rightarrow> ('bk, 'ep) view \<Rightarrow> bool" where
  "view_in_bulk net v \<longleftrightarrow>
     unat (m_remote_offset v) + unat (m_remote_size v) \<le> unat (bulk_size net (m_remote_bulk v))"

text \<open>The size that is left out is that of the whole bulk, so that a place behind its start is refused.\<close>

lemma omitted_size_refused:
  assumes "off \<noteq> 0" and "unat off + unat (bulk_size net bulk) < 2 ^ 64"
  shows "MemoryView_bulk net bulk owner i (Some off) None =
    Inl (Exn ''Invalid offset and/or size when exposing bulk handle as MemoryView'')"
proof -
  have "unat (off + bulk_size net bulk) = unat off + unat (bulk_size net bulk)"
    using assms(2) by (simp add: unat_word_ariths)
  moreover have "0 < unat off" using assms(1) by (simp add: unat_gt_0)
  ultimately have "bulk_size net bulk < off + bulk_size net bulk" by (simp add: word_less_nat_alt)
  then show ?thesis by (simp add: MemoryView_bulk_def value_or_def)
qed

lemma MemoryView_bulk_fields:
  "MemoryView_bulk net bulk owner i (Some off) (Some sz) = Inr v \<Longrightarrow>
    m_intent v = i \<and> m_remote_bulk v = bulk \<and> m_remote_ep v = owner \<and>
    m_remote_offset v = off \<and> m_remote_size v = sz"
  by (auto simp: MemoryView_bulk_def value_or_def split: if_splits)

section \<open>JSON form\<close>

definition MEMORY_VIEW_SUBTYPE_CODE :: u64 where
  "MEMORY_VIEW_SUBTYPE_CODE = 2388"

fun is_byte_number :: "json \<Rightarrow> bool" where
  "is_byte_number (JUInt u) = (u < 256)"
| "is_byte_number _ = False"

definition IsMemoryView :: "json \<Rightarrow> bool" where
  "IsMemoryView j =
     (case j of
        JBinary bs st \<Rightarrow>
          (case st of None \<Rightarrow> False | Some s \<Rightarrow> s = MEMORY_VIEW_SUBTYPE_CODE)
      | JObject ms \<Rightarrow>
          (case (member j ''bytes'', member j ''subtype'') of
             (Some bytes, Some subtype) \<Rightarrow>
               if \<not> is_number_unsigned subtype
                  \<or> get_int subtype \<noteq> ucast MEMORY_VIEW_SUBTYPE_CODE then False
               else (case bytes of JArray bs \<Rightarrow> list_all is_byte_number bs | _ \<Rightarrow> False)
           | _ \<Rightarrow> False)
      | _ \<Rightarrow> False)"

definition view_toJson :: "('bk, 'ep) net \<Rightarrow> ('bk, 'ep) view option \<Rightarrow> json" where
  "view_toJson net self =
     (case self of
        None \<Rightarrow> JNull
      | Some v \<Rightarrow>
          (let owner = ep_string net (m_remote_ep v);
               bulk = bulk_serialize net (m_remote_bulk v)
           in JBinary
                ([m_intent v]
                 @ u64_bytes (word_of_nat (length owner)) @ bytes_of owner
                 @ u64_bytes (word_of_nat (length bulk)) @ bulk
                 @ u64_bytes (m_remote_offset v) @ u64_bytes (m_remote_size v))
                (Some MEMORY_VIEW_SUBTYPE_CODE)))"

text \<open>\<open>memcpy\<close> of \<open>n\<close> bytes from \<open>binary[off]\<close>: undefined when the range leaves the vector.\<close>

definition copy_from :: "byte list \<Rightarrow> nat \<Rightarrow> nat \<Rightarrow> exn + byte list" where
  "copy_from binary off n =
     (if off + n \<le> length binary then Inr (take n (drop off binary)) else Inl UB)"

fun json_byte :: "json \<Rightarrow> byte" where
  "json_byte (JUInt u) = ucast u"
| "json_byte _ = 0"

definition json_binary :: "json \<Rightarrow> byte list" where
  "json_binary j =
     (case j of
        JBinary bs _ \<Rightarrow> bs
      | _ \<Rightarrow> (case member j ''bytes'' of Some (JArray bs) \<Rightarrow> map json_byte bs | _ \<Rightarrow> []))"

definition MemoryView_json :: "('bk, 'ep) net \<Rightarrow> json \<Rightarrow> exn + ('bk, 'ep) view" where
  "MemoryView_json net j =
     (if \<not> IsMemoryView j then Inl (Exn ''JSON object is not a MemoryView representation'')
      else
        let binary = json_binary j in
        bindE (copy_from binary 0 1) (\<lambda>intent_bytes.
        bindE (copy_from binary 1 8) (\<lambda>osz.
        let owner_size = unat (u64_of_bytes osz) in
        if owner_size > string_max net then Inl (Exn (resize_what net)) else
        bindE (copy_from binary 9 owner_size) (\<lambda>owner.
        let off = 9 + owner_size in
        bindE (copy_from binary off 8) (\<lambda>bsz.
        let bsize = unat (u64_of_bytes bsz) in
        bindE (copy_from binary (off + 8) bsize) (\<lambda>bulk.
        let off = off + 8 + bsize in
        bindE (copy_from binary off 8) (\<lambda>roff.
        bindE (copy_from binary (off + 8) 8) (\<lambda>rsize.
        bindE (ep_lookup net (string_of owner)) (\<lambda>remote_ep.
        MemoryView_bulk net (bulk_deserialize net bulk) remote_ep (hd intent_bytes)
          (Some (u64_of_bytes roff)) (Some (u64_of_bytes rsize)))))))))))"

text \<open>
  What becomes of a binary value when JSON text is dumped and parsed again (the case the
  second branch of \<open>IsMemoryView\<close> is for).
\<close>

fun dumped_form :: "json \<Rightarrow> json" where
  "dumped_form (JBinary bs (Some st)) =
     JObject [(''bytes'', JArray (map (\<lambda>b. JUInt (ucast b)) bs)), (''subtype'', JUInt st)]"
| "dumped_form j = j"

lemma copy_from_split:
  "off = length xs \<Longrightarrow> n = length ys \<Longrightarrow> copy_from (xs @ ys @ zs) off n = Inr ys"
  by (simp add: copy_from_def)

lemma copy_from_last: "off = length xs \<Longrightarrow> n = length ys \<Longrightarrow> copy_from (xs @ ys) off n = Inr ys"
  using copy_from_split [of off xs n ys "[]"] by simp

lemma IsMemoryView_toJson: "IsMemoryView (view_toJson net (Some v))"
  by (simp add: IsMemoryView_def view_toJson_def Let_def)

lemma ucast_byte_small: "(ucast (b :: byte) :: u64) < 256"
proof -
  have "unat b < 2 ^ 64" using unat_byte [of b] by (rule less_trans) simp
  then have "unat (ucast b :: u64) = unat b" by (simp add: unsigned_ucast_eq take_bit_nat_eq_self)
  then show ?thesis using unat_byte [of b] by (simp add: word_less_nat_alt)
qed

lemma ucast_byte_u64 [simp]: "ucast (ucast (b :: byte) :: u64) = b"
  by transfer simp

lemma bytes_are_byte_numbers [simp]: "list_all is_byte_number (map (\<lambda>b. JUInt (ucast (b :: byte))) bs)"
  by (simp add: list_all_iff ucast_byte_small)

lemma IsMemoryView_dumped: "IsMemoryView (dumped_form (view_toJson net (Some v)))"
  by (simp add: IsMemoryView_def view_toJson_def member_def MEMORY_VIEW_SUBTYPE_CODE_def
      Let_def del: map_append list.map)

lemma json_binary_dumped:
  "json_binary (dumped_form (JBinary bs (Some st))) = bs"
  by (simp add: json_binary_def member_def o_def)

text \<open>Decoding the bytes that \<open>view_toJson\<close> lays out, whichever form carries them.\<close>

lemma MemoryView_json_layout:
  assumes j: "IsMemoryView j"
    and bin: "json_binary j = [i] @ u64_bytes (word_of_nat (length owner)) @ bytes_of owner
        @ u64_bytes (word_of_nat (length bulk)) @ bulk @ u64_bytes off @ u64_bytes sz"
    and sizes: "length owner < size_max" "length bulk < size_max" "length owner \<le> string_max net"
  shows "MemoryView_json net j =
    bindE (ep_lookup net owner) (\<lambda>ep.
      MemoryView_bulk net (bulk_deserialize net bulk) ep i (Some off) (Some sz))"
proof -
  let ?n = "u64_bytes (word_of_nat (length owner))" and ?m = "u64_bytes (word_of_nat (length bulk))"
  let ?bin = "[i] @ ?n @ bytes_of owner @ ?m @ bulk @ u64_bytes off @ u64_bytes sz"
  have no: "unat (word_of_nat (length owner) :: u64) = length owner"
    and nb: "unat (word_of_nat (length bulk) :: u64) = length bulk"
    using sizes by (simp_all add: unat_of_nat size_max_def)
  have c1: "copy_from ?bin 0 1 = Inr [i]"
    by (simp add: copy_from_def)
  have c2: "copy_from ?bin 1 8 = Inr ?n"
    by (simp add: copy_from_def)
  have c3: "copy_from ?bin 9 (length owner) = Inr (bytes_of owner)"
    by (simp add: copy_from_def)
  have c4: "copy_from ?bin (9 + length owner) 8 = Inr ?m"
  proof -
    have "?bin = ([i] @ ?n @ bytes_of owner) @ ?m @ (bulk @ u64_bytes off @ u64_bytes sz)" by simp
    then show ?thesis by (simp only:) (rule copy_from_split; simp)
  qed
  have c5: "copy_from ?bin (9 + length owner + 8) (length bulk) = Inr bulk"
  proof -
    have "?bin = ([i] @ ?n @ bytes_of owner @ ?m) @ bulk @ (u64_bytes off @ u64_bytes sz)" by simp
    then show ?thesis by (simp only:) (rule copy_from_split; simp)
  qed
  have c6: "copy_from ?bin (9 + length owner + 8 + length bulk) 8 = Inr (u64_bytes off)"
  proof -
    have "?bin = ([i] @ ?n @ bytes_of owner @ ?m @ bulk) @ (u64_bytes off) @ (u64_bytes sz)" by simp
    then show ?thesis by (simp only:) (rule copy_from_split; simp)
  qed
  have c7: "copy_from ?bin (9 + length owner + 8 + length bulk + 8) 8 = Inr (u64_bytes sz)"
  proof -
    have "?bin = ([i] @ ?n @ bytes_of owner @ ?m @ bulk @ u64_bytes off) @ u64_bytes sz" by simp
    then show ?thesis by (simp only:) (rule copy_from_last; simp)
  qed
  have ns: "(length owner > string_max net) = False" using sizes(3) by simp
  have j': "(\<not> IsMemoryView j) = False" using j by simp
  show ?thesis
    by (simp only: MemoryView_json_def Let_def bin j' if_False c1 c2 c3 c4 c5 c6 c7 bindE_Inr no nb ns
        u64_of_bytes_bytes string_bytes_inverse list.sel)
qed

text \<open>A view turned into JSON, printed and parsed or not, constructs the same range again.\<close>

lemma view_json_back:
  assumes "j = view_toJson net (Some v) \<or> j = dumped_form (view_toJson net (Some v))"
    and "length (ep_string net (m_remote_ep v)) < size_max" "length (bulk_serialize net (m_remote_bulk v)) < size_max"
      "length (ep_string net (m_remote_ep v)) \<le> string_max net"
    and "ep_lookup net (ep_string net (m_remote_ep v)) = Inr (m_remote_ep v)"
    and "bulk_deserialize net (bulk_serialize net (m_remote_bulk v)) = m_remote_bulk v"
    and "m_remote_offset v + m_remote_size v \<le> bulk_size net (m_remote_bulk v)"
  shows "IsMemoryView j \<and> MemoryView_json net j =
     Inr (v\<lparr>m_local_data := NoData, m_local_bulk := NullBulk, m_owns_local_data := False\<rparr>)"
proof -
  have imv: "IsMemoryView j" using assms(1) IsMemoryView_toJson IsMemoryView_dumped by metis
  let ?bin = "[m_intent v]
      @ u64_bytes (word_of_nat (length (ep_string net (m_remote_ep v)))) @ bytes_of (ep_string net (m_remote_ep v))
      @ u64_bytes (word_of_nat (length (bulk_serialize net (m_remote_bulk v)))) @ bulk_serialize net (m_remote_bulk v)
      @ u64_bytes (m_remote_offset v) @ u64_bytes (m_remote_size v)"
  have "view_toJson net (Some v) = JBinary ?bin (Some MEMORY_VIEW_SUBTYPE_CODE)"
    by (simp only: view_toJson_def Let_def option.case)
  moreover have "json_binary (JBinary b st) = b" for b st by (simp add: json_binary_def)
  ultimately have "json_binary j = ?bin"
    using assms(1) by (elim disjE) (simp_all only: json_binary_dumped)
  from MemoryView_json_layout [OF imv this assms(2-4)] assms(5-7) imv show ?thesis
    by (simp add: MemoryView_bulk_def value_or_def not_less)
qed

section \<open>Local data\<close>

text \<open>
  \<open>prepareLocalData\<close>: returns the exception that left the function, if any, and the state
  of the view, which keeps the members assigned before the exception.
\<close>

definition fetch_from_remote ::
  "('bk, 'ep) net \<Rightarrow> ('bk, 'ep) view \<Rightarrow> exn option \<times> ('bk, 'ep) view"
where
  "fetch_from_remote net v =
     (let mode = (if m_intent v = IN then write_only else if m_intent v = INOUT then read_write else read_only);
          v1 = v\<lparr>m_local_data := Owned (fresh_bytes net (unat (m_remote_size v)))\<rparr>
      in case expose_fails net (m_remote_size v) mode of
           Some what \<Rightarrow> (Some (Exn what), v1)
         | None \<Rightarrow>
             (let v2 = v1\<lparr>m_local_bulk := Exposed mode, m_owns_local_data := True\<rparr>
              in if m_intent v = IN \<or> m_intent v = INOUT
                 then (case rdma_pull net (m_remote_bulk v) (m_remote_ep v) (m_remote_offset v) (m_remote_size v) of
                         Inl what \<Rightarrow> (Some (Exn what), v2)
                       | Inr bytes \<Rightarrow> (None, v2\<lparr>m_local_data := Owned bytes\<rparr>))
                 else (None, v2)))"

definition prepareLocalData ::
  "('bk, 'ep) net \<Rightarrow> ('bk, 'ep) view \<Rightarrow> exn option \<times> ('bk, 'ep) view"
where
  "prepareLocalData net v =
     (if m_local_data v \<noteq> NoData then (None, v)
      else if m_remote_ep v = ep_self net then
        (case bulk_access net (m_remote_bulk v) (m_remote_offset v) (m_remote_size v) of
           None \<Rightarrow> (Some (Exn ''HG_Bulk_access failed in MemoryView constructor''), v)
         | Some (actual_count, buf_size) \<Rightarrow>
             if actual_count \<noteq> 1 \<or> buf_size \<noteq> m_remote_size v then fetch_from_remote net v
             else (None, v\<lparr>m_local_data := InBulk (m_remote_offset v), m_local_bulk := RemoteBulk\<rparr>))
      else fetch_from_remote net v)"

text \<open>
  The destructor's write-back: the local bulk (from its first byte) is pushed into the
  remote range.
\<close>

record ('bk, 'ep) push_request =
  push_source :: local_bulk
  push_source_offset :: u64
  push_target :: 'bk
  push_ep :: 'ep
  push_offset :: u64
  push_size :: u64

definition view_destroy :: "('bk, 'ep) view \<Rightarrow> ('bk, 'ep) push_request option" where
  "view_destroy v =
     (if m_local_bulk v = NullBulk then None
      else if m_intent v = INOUT \<or> m_intent v = OUT
      then Some \<lparr>push_source = m_local_bulk v, push_source_offset = 0,
                 push_target = m_remote_bulk v, push_ep = m_remote_ep v,
                 push_offset = m_remote_offset v, push_size = m_remote_size v\<rparr>
      else None)"

text \<open>\<open>data()\<close>, \<open>size()\<close> and \<open>intent()\<close> of a possibly empty handle.\<close>

definition view_data ::
  "('bk, 'ep) net \<Rightarrow> ('bk, 'ep) view option \<Rightarrow> (exn + local_data) \<times> ('bk, 'ep) view option"
where
  "view_data net self =
     (case self of
        None \<Rightarrow> (Inr NoData, None)
      | Some v \<Rightarrow>
          (case prepareLocalData net v of
             (Some e, v') \<Rightarrow> (Inl e, Some v')
           | (None, v') \<Rightarrow> (Inr (m_local_data v'), Some v')))"

definition view_size :: "('bk, 'ep) view option \<Rightarrow> u64" where
  "view_size self = (case self of None \<Rightarrow> 0 | Some v \<Rightarrow> m_remote_size v)"

definition view_intent :: "('bk, 'ep) view option \<Rightarrow> intent" where
  "view_intent self = (case self of None \<Rightarrow> IN | Some v \<Rightarrow> m_intent v)"

text \<open>Data that is there is neither fetched again nor changed, whatever the network does by then.\<close>

text \<open>After a fetch that failed the buffer is there, though not filled, and is what a second request gets.\<close>

lemma failed_fetch_then_data:
  assumes "m_local_data v = NoData" and "m_remote_ep v \<noteq> ep_self net" and "fetch_from_remote net v = (Some e, v')"
  shows "view_data net (Some v) = (Inl e, Some v')"
    and "view_data net' (Some v') = (Inr (Owned (fresh_bytes net (unat (m_remote_size v)))), Some v')"
proof -
  have "m_local_data v' = Owned (fresh_bytes net (unat (m_remote_size v)))"
    using assms(3) by (auto simp: fetch_from_remote_def Let_def split: option.splits if_splits sum.splits)
  then show "view_data net (Some v) = (Inl e, Some v')"
    and "view_data net' (Some v') = (Inr (Owned (fresh_bytes net (unat (m_remote_size v)))), Some v')"
    using assms by (simp_all add: view_data_def prepareLocalData_def)
qed

lemma prepareLocalData_again: "m_local_data v \<noteq> NoData \<Longrightarrow> prepareLocalData net v = (None, v)"
  by (simp add: prepareLocalData_def)

lemma prepareLocalData_done:
  assumes "prepareLocalData net v = (None, v')"
  shows "m_local_data v' \<noteq> NoData" and "m_local_data v = NoData \<Longrightarrow> m_local_bulk v' \<noteq> NullBulk"
    and "m_local_data v = NoData \<Longrightarrow> m_local_data v' = Owned bs \<Longrightarrow> m_intent v = IN \<or> m_intent v = INOUT \<Longrightarrow>
      rdma_pull net (m_remote_bulk v) (m_remote_ep v) (m_remote_offset v) (m_remote_size v) = Inr bs"
  using assms by (auto simp: prepareLocalData_def fetch_from_remote_def Let_def
      split: if_splits option.splits sum.splits prod.splits)

lemma prepareLocalData_frame:
  assumes "prepareLocalData net v = (e, v')"
  shows "m_intent v' = m_intent v \<and> m_remote_bulk v' = m_remote_bulk v \<and>
    m_remote_ep v' = m_remote_ep v \<and> m_remote_offset v' = m_remote_offset v \<and>
    m_remote_size v' = m_remote_size v"
  using assms by (auto simp: prepareLocalData_def fetch_from_remote_def Let_def
      split: if_splits option.splits sum.splits prod.splits)

text \<open>
  A bulk handle for the local data comes with local data: a view whose data was never
  requested, or whose buffer could not be exposed, writes nothing back.
\<close>

definition view_inv :: "('bk, 'ep) view \<Rightarrow> bool" where
  "view_inv v \<longleftrightarrow>
     (m_local_data v = NoData \<longrightarrow> m_local_bulk v = NullBulk) \<and>
     (m_owns_local_data v \<longleftrightarrow> (\<exists>mode. m_local_bulk v = Exposed mode)) \<and>
     (m_owns_local_data v \<longrightarrow> (\<exists>bs. m_local_data v = Owned bs)) \<and>
     (m_local_bulk v = RemoteBulk \<longleftrightarrow> m_local_data v = InBulk (m_remote_offset v))"

lemma MemoryView_bulk_inv: "MemoryView_bulk net bulk owner i off sz = Inr v \<Longrightarrow> view_inv v"
  by (auto simp: MemoryView_bulk_def view_inv_def split: if_splits)

lemma prepareLocalData_inv:
  assumes "view_inv v" and "prepareLocalData net v = (e, v')"
  shows "view_inv v'"
  using assms by (auto simp: view_inv_def prepareLocalData_def fetch_from_remote_def Let_def
      split: if_splits option.splits sum.splits prod.splits)

end
