(* ===== verification/Jx9Str.thy ===== *)
theory Jx9Str
  imports Prelude
begin

text \<open>
  The string and number routines of the runtime library that \<open>src/jx9/jx9/jx9.c\<close> starts
  with (\<open>SyByteFind\<close> to \<open>SyMemcmp\<close>, \<open>SyStrIsNumeric\<close> to \<open>SyBinaryStrToInt64\<close>). A buffer
  is the list of its bytes; a zero-terminated string is the list of the bytes before its
  terminator. The loops are unrolled four times in the source; one round is one step here.
  The character classes are those of the C locale. \<open>sxi64\<close> values are 64-bit words: where
  the C code relies on signed overflow the word wraps.
\<close>

section \<open>Characters\<close>

definition SyisSpace :: "byte \<Rightarrow> bool" where
  "SyisSpace c = (c = 32 \<or> 9 \<le> c \<and> c \<le> 13)"

definition SyisDigit :: "byte \<Rightarrow> bool" where
  "SyisDigit c = (48 \<le> c \<and> c \<le> 57)"

definition SyisUpper :: "byte \<Rightarrow> bool" where
  "SyisUpper c = (65 \<le> c \<and> c \<le> 90)"

definition SyisLower :: "byte \<Rightarrow> bool" where
  "SyisLower c = (97 \<le> c \<and> c \<le> 122)"

definition SyisAlpha :: "byte \<Rightarrow> bool" where
  "SyisAlpha c = (SyisUpper c \<or> SyisLower c)"

definition SyisAlphaNum :: "byte \<Rightarrow> bool" where
  "SyisAlphaNum c = (SyisAlpha c \<or> SyisDigit c)"

definition SyisHex :: "byte \<Rightarrow> bool" where
  "SyisHex c = (SyisDigit c \<or> 65 \<le> c \<and> c \<le> 70 \<or> 97 \<le> c \<and> c \<le> 102)"

definition SyCharToLower :: "byte \<Rightarrow> byte" where
  "SyCharToLower c = (if c < 0xC0 \<and> SyisUpper c then c + 32 else c)"

section \<open>Searching and comparing\<close>

text \<open>\<open>SyStrlen\<close> over a buffer: \<open>None\<close> when no terminator comes before its end.\<close>

fun SyStrlen :: "byte list \<Rightarrow> nat option" where
  "SyStrlen [] = None"
| "SyStrlen (b # bs) = (if b = 0 then Some 0 else map_option Suc (SyStrlen bs))"

text \<open>A \<open>char\<close> is signed on the platform, and is compared with an \<open>int\<close>.\<close>

fun SyByteFind :: "byte list \<Rightarrow> int \<Rightarrow> nat option" where
  "SyByteFind [] c = None"
| "SyByteFind (b # bs) c = (if sint b = c then Some 0 else map_option Suc (SyByteFind bs c))"

text \<open>
  \<open>SyByteFind2\<close> searches from the end; an empty buffer makes \<open>nLen - 1\<close> wrap, and the
  search starts four gigabytes behind the buffer.
\<close>

fun find_back :: "byte list \<Rightarrow> nat \<Rightarrow> int \<Rightarrow> nat option" where
  "find_back s 0 c = (if s \<noteq> [] \<and> sint (s ! 0) = c then Some 0 else None)"
| "find_back s (Suc e) c = (if sint (s ! Suc e) = c then Some (Suc e) else find_back s e c)"

definition SyByteFind2 :: "byte list \<Rightarrow> int \<Rightarrow> exn + nat option" where
  "SyByteFind2 s c = (if s = [] then Inl UB else Inr (find_back s (length s - 1) c))"

fun SyByteListFind :: "byte list \<Rightarrow> byte list \<Rightarrow> nat option" where
  "SyByteListFind [] zList = None"
| "SyByteListFind (b # bs) zList =
     (if b \<in> set zList then Some 0 else map_option Suc (SyByteListFind bs zList))"

text \<open>\<open>SX_MACRO_FAST_CMP\<close> and its callers; two zero-terminated strings end at their terminator.\<close>

fun fast_cmp :: "byte list \<Rightarrow> byte list \<Rightarrow> nat \<Rightarrow> exn + int" where
  "fast_cmp s t 0 = Inr 0"
| "fast_cmp (a # s) (b # t) (Suc n) = (if a \<noteq> b then Inr (uint a - uint b) else fast_cmp s t n)"
| "fast_cmp _ _ (Suc n) = Inl UB"

definition SyMemcmp :: "byte list option \<Rightarrow> byte list option \<Rightarrow> nat \<Rightarrow> exn + int" where
  "SyMemcmp p q n =
     (if n = 0 then Inr 0
      else case (p, q) of
        (Some s, Some t) \<Rightarrow> fast_cmp s t n
      | _ \<Rightarrow> Inr (if p \<noteq> None then 1 else if q = None then 0 else -1))"

fun cstr_cmp :: "(byte \<Rightarrow> byte) \<Rightarrow> byte list \<Rightarrow> byte list \<Rightarrow> nat \<Rightarrow> int" where
  "cstr_cmp f s t 0 = 0"
| "cstr_cmp f s t (Suc n) =
     (case (s, t) of
        (a # s', b # t') \<Rightarrow> if f a \<noteq> f b then uint (f a) - uint (f b) else cstr_cmp f s' t' n
      | (a # _, []) \<Rightarrow> uint (f a) - uint (f 0)
      | ([], b # _) \<Rightarrow> uint (f 0) - uint (f b)
      | ([], []) \<Rightarrow> 0)"

definition SyStrncmp :: "byte list option \<Rightarrow> byte list option \<Rightarrow> nat \<Rightarrow> int" where
  "SyStrncmp p q n =
     (let empty = (\<lambda>s. case s of None \<Rightarrow> True | Some s \<Rightarrow> s = []) in
      if empty p \<or> empty q then (if empty p then (if empty q then 0 else -1) else 1)
      else cstr_cmp id (the p) (the q) n)"

definition SyStrnicmp :: "byte list option \<Rightarrow> byte list option \<Rightarrow> nat \<Rightarrow> int" where
  "SyStrnicmp p q n =
     (let empty = (\<lambda>s. case s of None \<Rightarrow> True | Some s \<Rightarrow> s = []) in
      if empty p \<or> empty q then (if empty p then (if empty q then 0 else -1) else 1)
      else cstr_cmp SyCharToLower (the p) (the q) n)"

text \<open>
  \<open>Systrcpy\<close>: the bytes written, terminator included, and the length returned. Zero for
  \<open>nLen\<close> asks for the length of the source; a source shorter than \<open>nLen\<close> is overrun.
\<close>

definition Systrcpy :: "nat \<Rightarrow> byte list \<Rightarrow> nat \<Rightarrow> exn + (byte list \<times> nat)" where
  "Systrcpy nDestLen zSrc nLen =
     bindE (if nLen = 0 then optE UB (SyStrlen zSrc) else Inr nLen) (\<lambda>n.
     if nDestLen = 0 then Inl UB
     else let k = min (nDestLen - 1) n in
       if k \<le> length zSrc then Inr (take k zSrc @ [0], k) else Inl UB)"

section \<open>Numbers\<close>

definition skip_space :: "byte list \<Rightarrow> byte list" where
  "skip_space s = dropWhile SyisSpace s"

definition read_sign :: "byte list \<Rightarrow> bool \<times> byte list" where
  "read_sign s = (case s of c # r \<Rightarrow> if c = 45 then (True, r) else if c = 43 then (False, r) else (False, s)
     | [] \<Rightarrow> (False, []))"

definition skip_zeros :: "byte list \<Rightarrow> byte list" where
  "skip_zeros s = dropWhile (\<lambda>c. c = 48) s"

text \<open>
  \<open>SyStrIsNumeric\<close>: whether a numeric prefix was found, the \<open>pReal\<close> flag, and the rest of
  the buffer. The exponent and the fraction are scanned only when the caller wants the tail.
\<close>

definition skip_digits :: "byte list \<Rightarrow> byte list" where
  "skip_digits s = dropWhile (\<lambda>c. c < 0xC0 \<and> SyisDigit c) s"

definition skip_sign :: "byte list \<Rightarrow> byte list" where
  "skip_sign s = (case s of c # r \<Rightarrow> if c = 43 \<or> c = 45 then r else s | [] \<Rightarrow> [])"

definition SyStrIsNumeric :: "byte list \<Rightarrow> bool \<Rightarrow> bool \<times> bool \<times> byte list" where
  "SyStrIsNumeric zSrc want_tail =
     (let cur = skip_sign (dropWhile (\<lambda>c. c < 0xC0 \<and> SyisSpace c) zSrc);
          s = skip_digits cur;
          (real, s') =
            (case s of
               [] \<Rightarrow> (False, s)
             | c # r \<Rightarrow>
                 if length s = length cur then (False, s)
                 else if c = 46 then
                   (True,
                    if want_tail then
                      (let s = skip_digits r in
                       case s of
                         e # r \<Rightarrow> if e = 101 \<or> e = 69 then skip_digits (skip_sign r) else s
                       | [] \<Rightarrow> s)
                    else r)
                 else if c = 101 \<or> c = 69 then
                   (True, if want_tail then skip_digits (skip_sign r) else r)
                 else (False, s))
      in (length s' < length cur, real, s'))"

text \<open>The digit loops: at most \<open>i\<close> digits, in base \<open>base\<close>.\<close>

fun dec_loop :: "nat \<Rightarrow> u64 \<Rightarrow> byte list \<Rightarrow> u64 \<times> byte list" where
  "dec_loop 0 v s = (v, s)"
| "dec_loop (Suc i) v [] = (v, [])"
| "dec_loop (Suc i) v (c # s) =
     (if SyisDigit c then dec_loop i (v * 10 + (ucast c - 48)) s else (v, c # s))"

definition SXINT64_MIN_STR :: "byte list" where
  "SXINT64_MIN_STR = bytes_of ''9223372036854775808''"

definition SXINT64_MAX_STR :: "byte list" where
  "SXINT64_MAX_STR = bytes_of ''9223372036854775807''"

definition SXINT32_MIN_STR :: "byte list" where
  "SXINT32_MIN_STR = bytes_of ''2147483648''"

definition SXINT32_MAX_STR :: "byte list" where
  "SXINT32_MAX_STR = bytes_of ''2147483647''"

definition store_sign :: "bool \<Rightarrow> u64 \<Rightarrow> u64" where
  "store_sign neg v = (if neg \<and> v \<noteq> 0 then - v else v)"

text \<open>
  The outcome of a conversion: whether the whole buffer was read (\<open>SXRET_OK\<close> against
  \<open>SXERR_SYNTAX\<close>), the value stored, the rest.
\<close>

type_synonym number = "bool \<times> u64 \<times> byte list"

definition finish_number :: "bool \<Rightarrow> u64 \<times> byte list \<Rightarrow> number" where
  "finish_number neg vs =
     (case vs of (v, s) \<Rightarrow> let s = skip_space s in (s = [], store_sign neg v, s))"

definition SyStrToInt64 :: "byte list \<Rightarrow> exn + number" where
  "SyStrToInt64 zSrc =
     (let (neg, s) = read_sign (skip_space zSrc);
          s = skip_zeros s
      in bindE (if length s \<ge> 19
                then bindE (SyMemcmp (Some s) (Some (if neg then SXINT64_MIN_STR else SXINT64_MAX_STR)) 19)
                       (\<lambda>c. Inr (if c \<le> 0 then 19 else 18))
                else Inr 19) (\<lambda>i.
         Inr (finish_number neg (dec_loop i 0 s))))"

text \<open>
  \<open>SyStrToInt32\<close> compares \<open>nLen\<close> bytes, the length of the whole input, with an eleven-byte
  literal: more than that is read past one end or the other unless a difference comes first.
\<close>

definition SyStrToInt32 :: "byte list \<Rightarrow> exn + bool \<times> u32 \<times> byte list" where
  "SyStrToInt32 zSrc =
     (let nLen = length zSrc;
          (neg, s) = read_sign (skip_space zSrc);
          s = skip_zeros s
      in bindE (if length s \<ge> 10
                then bindE (SyMemcmp (Some s) (Some ((if neg then SXINT32_MIN_STR else SXINT32_MAX_STR) @ [0])) nLen)
                       (\<lambda>c. Inr (if c \<le> 0 then 10 else 9))
                else Inr 10) (\<lambda>i.
         case finish_number neg (dec_loop i 0 s) of (ok, v, r) \<Rightarrow> Inr (ok, ucast v, r)))"

definition SyHexToint :: "byte \<Rightarrow> int" where
  "SyHexToint c =
     (if 48 \<le> c \<and> c \<le> 57 then uint c - 48
      else if 65 \<le> c \<and> c \<le> 70 then uint c - 55
      else if 97 \<le> c \<and> c \<le> 102 then uint c - 87
      else -1)"

fun hex_loop :: "nat \<Rightarrow> u64 \<Rightarrow> byte list \<Rightarrow> u64 \<times> byte list" where
  "hex_loop k v [] = (v, [])"
| "hex_loop k v (c # s) =
     (if \<not> SyisHex c \<or> k > 15 then (v, c # s)
      else hex_loop (Suc k) (v * 16 + word_of_int (SyHexToint c)) s)"

definition skip_prefix :: "byte \<Rightarrow> byte \<Rightarrow> byte list \<Rightarrow> byte list" where
  "skip_prefix x X s = (case s of a # b # c # r \<Rightarrow> if a = 48 \<and> (b = x \<or> b = X) then c # r else s | _ \<Rightarrow> s)"

definition SyHexStrToInt64 :: "byte list \<Rightarrow> number" where
  "SyHexStrToInt64 zSrc =
     (let (neg, s) = read_sign (skip_space zSrc)
      in finish_number neg (hex_loop 0 0 (skip_zeros (skip_prefix 120 88 s))))"

fun oct_loop :: "nat \<Rightarrow> u64 \<Rightarrow> byte list \<Rightarrow> u64 \<times> byte list" where
  "oct_loop k v [] = (v, [])"
| "oct_loop k v (c # s) =
     (if \<not> SyisDigit c then (v, c # s)
      else if c - 48 > 7 \<or> k > 20 then (v, c # s)
      else oct_loop (Suc k) (v * 8 + ucast (c - 48)) s)"

definition SyOctalStrToInt64 :: "byte list \<Rightarrow> number" where
  "SyOctalStrToInt64 zSrc =
     (let (neg, s) = read_sign (skip_space zSrc)
      in finish_number neg (oct_loop 0 0 (skip_zeros s)))"

fun bin_loop :: "nat \<Rightarrow> u64 \<Rightarrow> byte list \<Rightarrow> u64 \<times> byte list" where
  "bin_loop k v [] = (v, [])"
| "bin_loop k v (c # s) =
     (if c \<noteq> 49 \<and> c \<noteq> 48 \<or> k > 62 then (v, c # s)
      else bin_loop (Suc k) (push_bit 1 v + ucast (c - 48)) s)"

definition SyBinaryStrToInt64 :: "byte list \<Rightarrow> number" where
  "SyBinaryStrToInt64 zSrc =
     (let (neg, s) = read_sign (skip_space zSrc)
      in finish_number neg (bin_loop 0 0 (skip_zeros (skip_prefix 98 66 s))))"

section \<open>Searching finds the first, or last, occurrence\<close>

lemma SyByteFind_Some: "SyByteFind s c = Some i \<Longrightarrow> i < length s \<and> sint (s ! i) = c \<and> (\<forall>j < i. sint (s ! j) \<noteq> c)"
proof (induction s c arbitrary: i rule: SyByteFind.induct)
  case (2 b bs c)
  then show ?case by (cases i) (auto split: if_splits simp: less_Suc_eq_0_disj)
qed simp

lemma SyByteFind_None: "SyByteFind s c = None \<longleftrightarrow> (\<forall>b \<in> set s. sint b \<noteq> c)"
  by (induction s c rule: SyByteFind.induct) auto

lemma SyByteListFind_Some:
  "SyByteListFind s l = Some i \<Longrightarrow> i < length s \<and> s ! i \<in> set l \<and> (\<forall>j < i. s ! j \<notin> set l)"
proof (induction s l arbitrary: i rule: SyByteListFind.induct)
  case (2 b bs l)
  then show ?case by (cases i) (auto split: if_splits simp: less_Suc_eq_0_disj)
qed simp

lemma find_back_Some: "find_back s e c = Some i \<Longrightarrow> e < length s \<Longrightarrow>
    i \<le> e \<and> sint (s ! i) = c \<and> (\<forall>j. i < j \<and> j \<le> e \<longrightarrow> sint (s ! j) \<noteq> c)"
  by (induction s e c rule: find_back.induct) (auto split: if_splits simp: le_Suc_eq)

lemma find_back_None: "find_back s e c = None \<Longrightarrow> e < length s \<Longrightarrow> j \<le> e \<Longrightarrow> sint (s ! j) \<noteq> c"
  by (induction s e c rule: find_back.induct) (auto split: if_splits simp: le_Suc_eq)

section \<open>Decimal numerals\<close>

text \<open>The value of a list of digits, most significant first, in any base.\<close>

definition dval :: "nat \<Rightarrow> nat list \<Rightarrow> nat" where
  "dval base ds = foldl (\<lambda>a d. a * base + d) 0 ds"

lemma dval_foldl: "foldl (\<lambda>a d. a * base + d) a ds = a * base ^ length ds + dval base ds"
proof (induction ds arbitrary: a)
  case (Cons d ds)
  show ?case using Cons.IH [of "a * base + d"] Cons.IH [of d]
    by (simp add: dval_def algebra_simps)
qed (simp add: dval_def)

lemma dval_simps [simp]: "dval base [] = 0" "dval base (d # ds) = d * base ^ length ds + dval base ds"
  using dval_foldl [of base d ds] by (simp_all add: dval_def)

lemma dval_less: "\<forall>d \<in> set ds. d < base \<Longrightarrow> dval base ds < base ^ length ds"
proof (induction ds)
  case (Cons d ds)
  then have "d * base ^ length ds + dval base ds < d * base ^ length ds + base ^ length ds" by simp
  also have "\<dots> = Suc d * base ^ length ds" by simp
  also have "\<dots> \<le> base * base ^ length ds" using Cons.prems by (intro mult_le_mono1) simp
  finally show ?case by simp
qed simp

lemma dval_ge: "ds \<noteq> [] \<Longrightarrow> hd ds \<noteq> 0 \<Longrightarrow> base ^ (length ds - 1) \<le> dval base ds"
  by (cases ds) (auto intro: trans_le_add1)

definition digit_val :: "byte \<Rightarrow> nat" where
  "digit_val c = unat (c - 48)"

definition decimal :: "byte list \<Rightarrow> nat" where
  "decimal s = dval 10 (map digit_val s)"

lemma digit_val_less: "SyisDigit c \<Longrightarrow> digit_val c < 10"
  by (auto simp: SyisDigit_def digit_val_def word_le_nat_alt unat_sub)

lemma unat_digit: "SyisDigit c \<Longrightarrow> unat c = digit_val c + 48"
  by (simp add: SyisDigit_def digit_val_def word_le_nat_alt unat_sub)

lemma ucast_digit: "SyisDigit c \<Longrightarrow> (ucast c :: u64) - 48 = word_of_nat (digit_val c)"
proof -
  assume "SyisDigit c"
  have "(ucast c :: u64) = word_of_nat (unat c)" by simp
  also have "\<dots> = word_of_nat (digit_val c) + 48" using unat_digit [OF \<open>SyisDigit c\<close>] by simp
  finally show ?thesis by simp
qed

lemma dec_loop_digits:
  assumes "\<forall>c \<in> set ds. SyisDigit c" and "length ds \<le> i"
    and "length ds < i \<Longrightarrow> r = [] \<or> \<not> SyisDigit (hd r)"
  shows "dec_loop i v (ds @ r) = (v * 10 ^ length ds + word_of_nat (decimal ds), r)"
  using assms
proof (induction ds arbitrary: i v)
  case Nil
  then show ?case by (cases i; cases r) (auto simp: decimal_def)
next
  case (Cons c ds)
  then obtain k where k: "i = Suc k" by (cases i) auto
  have "dec_loop k (v * 10 + (ucast c - 48)) (ds @ r)
      = ((v * 10 + (ucast c - 48)) * 10 ^ length ds + word_of_nat (decimal ds), r)"
    using Cons k by simp
  moreover have "SyisDigit c" using Cons.prems(1) by simp
  ultimately show ?case using k ucast_digit [of c]
    by (simp add: decimal_def algebra_simps)
qed

lemma digits_compare:
  assumes "length xs = length ys" and "\<forall>c \<in> set xs. SyisDigit c" and "\<forall>c \<in> set ys. SyisDigit c"
  shows "\<exists>k. fast_cmp (xs @ r) (ys @ t) (length xs) = Inr k \<and> (k \<le> 0 \<longleftrightarrow> decimal xs \<le> decimal ys)"
  using assms
proof (induction xs ys rule: list_induct2)
  case Nil
  then show ?case by (simp add: decimal_def)
next
  case (Cons x xs y ys)
  have lx: "decimal xs < 10 ^ length xs" and ly: "decimal ys < 10 ^ length xs"
    using dval_less [of "map digit_val xs" 10] dval_less [of "map digit_val ys" 10] Cons.prems Cons.hyps
      digit_val_less by (auto simp: decimal_def)
  show ?case
  proof (cases "x = y")
    case True
    then show ?thesis using Cons by (auto simp: decimal_def)
  next
    case False
    have dx: "unat x = digit_val x + 48" and dy: "unat y = digit_val y + 48"
      using unat_digit Cons.prems by auto
    have ne: "digit_val x \<noteq> digit_val y" using False dx dy by (metis word_unat_eq_iff)
    have "uint x - uint y \<le> 0 \<longleftrightarrow> digit_val x < digit_val y"
      using ne dx dy by (auto simp: uint_nat)
    moreover have "digit_val x < digit_val y \<longleftrightarrow> decimal (x # xs) \<le> decimal (y # ys)"
    proof (cases "digit_val x < digit_val y")
      case True
      then have "Suc (digit_val x) * 10 ^ length xs \<le> digit_val y * 10 ^ length xs" by (intro mult_le_mono1) simp
      then show ?thesis using True lx Cons.hyps by (simp add: decimal_def)
    next
      case False
      with ne have "Suc (digit_val y) * 10 ^ length xs \<le> digit_val x * 10 ^ length xs" by (intro mult_le_mono1) simp
      then show ?thesis using False ly lx Cons.hyps by (simp add: decimal_def)
    qed
    ultimately show ?thesis using False by simp
  qed
qed

lemma decimal_less: "\<forall>c \<in> set ds. SyisDigit c \<Longrightarrow> decimal ds < 10 ^ length ds"
  using dval_less [of "map digit_val ds" 10] digit_val_less by (auto simp: decimal_def)

lemma decimal_ge: "ds \<noteq> [] \<Longrightarrow> \<forall>c \<in> set ds. SyisDigit c \<Longrightarrow> hd ds \<noteq> 48 \<Longrightarrow> 10 ^ (length ds - 1) \<le> decimal ds"
proof -
  assume a: "ds \<noteq> []" "\<forall>c \<in> set ds. SyisDigit c" "hd ds \<noteq> 48"
  have "unat (hd ds) \<noteq> unat (48 :: byte)" using a(3) by (simp only: word_unat_eq_iff [symmetric] not_False_eq_True)
  then have "unat (hd ds) \<noteq> 48" by simp
  with unat_digit [of "hd ds"] a have "digit_val (hd ds) \<noteq> 0" by simp
  with a(1) show ?thesis using dval_ge [of "map digit_val ds" 10] by (cases ds) (auto simp: decimal_def)
qed

lemma limits:
  "length SXINT64_MAX_STR = 19" "\<forall>c \<in> set SXINT64_MAX_STR. SyisDigit c" "decimal SXINT64_MAX_STR = 2 ^ 63 - 1"
  "length SXINT64_MIN_STR = 19" "\<forall>c \<in> set SXINT64_MIN_STR. SyisDigit c" "decimal SXINT64_MIN_STR = 2 ^ 63"
  by (simp_all add: SXINT64_MAX_STR_def SXINT64_MIN_STR_def bytes_of_def byte_of_char_def SyisDigit_def
      decimal_def digit_val_def)

text \<open>
  Reading a decimal numeral between spaces: exactly the numerals whose value fits are read
  to the end, and give their value.
\<close>

definition numeral_sign :: "bool option \<Rightarrow> byte list" where
  "numeral_sign s = (case s of None \<Rightarrow> [] | Some neg \<Rightarrow> [if neg then 45 else 43])"

definition is_neg :: "bool option \<Rightarrow> bool" where
  "is_neg s = (s = Some True)"

lemma space_not_digit: "SyisSpace c \<Longrightarrow> \<not> SyisDigit c" "SyisSpace c \<Longrightarrow> c \<noteq> 48"
  by (auto simp: SyisSpace_def SyisDigit_def word_le_nat_alt)

lemma digit_not_space: "SyisDigit c \<Longrightarrow> \<not> SyisSpace c \<and> c \<noteq> 45 \<and> c \<noteq> 43"
  by (auto simp: SyisSpace_def SyisDigit_def word_le_nat_alt)

lemma read_prefix:
  assumes "\<forall>c \<in> set sp. SyisSpace c" and "\<forall>c \<in> set rest. SyisDigit c \<or> SyisSpace c"
    and "rest \<noteq> [] \<Longrightarrow> SyisDigit (hd rest)"
  shows "read_sign (skip_space (sp @ numeral_sign sg @ rest)) = (is_neg sg, rest)"
proof -
  have "dropWhile SyisSpace (sp @ numeral_sign sg @ rest) = numeral_sign sg @ rest"
    using assms digit_not_space
    by (cases sg; cases rest) (auto simp: dropWhile_append numeral_sign_def SyisSpace_def dropWhile_append1)
  moreover have "read_sign (numeral_sign sg @ rest) = (is_neg sg, rest)"
    using assms(3) digit_not_space
    by (cases sg; cases rest) (auto simp: read_sign_def numeral_sign_def is_neg_def)
  ultimately show ?thesis by (simp add: skip_space_def)
qed

lemma fast_cmp_total: "n \<le> length s \<Longrightarrow> n \<le> length t \<Longrightarrow> \<exists>k. fast_cmp s t n = Inr k"
  by (induction s t n rule: fast_cmp.induct) auto

lemma skip_zeros_digits:
  assumes "\<forall>c \<in> set zs. c = 48" and "ds \<noteq> [] \<Longrightarrow> hd ds \<noteq> 48" and "\<forall>c \<in> set sp'. SyisSpace c"
  shows "skip_zeros (zs @ ds @ sp') = ds @ sp'"
proof -
  have "dropWhile (\<lambda>c. c = 48) (ds @ sp') = ds @ sp'"
    using assms(2,3) space_not_digit(2) by (cases ds; cases sp') auto
  then show ?thesis using assms(1) by (simp add: skip_zeros_def dropWhile_append2)
qed

text \<open>How many digits \<open>SyStrToInt64\<close> reads: all of them exactly when the value fits.\<close>

lemma digit_limit:
  assumes ds: "\<forall>c \<in> set ds. SyisDigit c" "ds \<noteq> [] \<Longrightarrow> hd ds \<noteq> 48" and sp': "\<forall>c \<in> set sp'. SyisSpace c"
    and lim: "length L = 19" "\<forall>c \<in> set L. SyisDigit c" "decimal L = m" "10 ^ 18 \<le> m" "m < 10 ^ 19"
  shows "\<exists>i. (if length (ds @ sp') \<ge> 19
      then bindE (SyMemcmp (Some (ds @ sp')) (Some L) 19) (\<lambda>c. Inr (if c \<le> 0 then 19 else 18))
      else Inr 19) = (Inr i :: exn + nat) \<and> (length ds \<le> i \<longleftrightarrow> decimal ds \<le> m)"
proof (cases "length ds \<ge> 19")
  case False
  have "decimal ds < 10 ^ 18"
    using decimal_less [OF ds(1)] False power_increasing [of "length ds" 18 "10 :: nat"] by simp
  then have fits: "decimal ds \<le> m" using lim(4) by simp
  show ?thesis
  proof (cases "length (ds @ sp') \<ge> 19")
    case True
    then obtain k where "fast_cmp (ds @ sp') L 19 = Inr k" using fast_cmp_total [of 19 "ds @ sp'" L] lim(1) by auto
    then show ?thesis using True False fits by (auto simp: SyMemcmp_def)
  qed (use False fits in auto)
next
  case True
  define xs where "xs = take 19 ds"
  define ys where "ys = drop 19 ds"
  have xy: "ds = xs @ ys" "length xs = 19" using True by (simp_all add: xs_def ys_def)
  obtain k where k: "fast_cmp (xs @ ys @ sp') (L @ []) (length xs) = Inr k" "k \<le> 0 \<longleftrightarrow> decimal xs \<le> decimal L"
    using digits_compare [of xs L "ys @ sp'" "[]"] xy lim ds(1) by auto
  let ?i = "if k \<le> 0 then 19 else 18 :: nat"
  have "(length ds \<le> ?i) = (decimal ds \<le> m)"
  proof (cases "ys = []")
    case True
    then show ?thesis using k(2) lim(3) xy by simp
  next
    case False
    then have "19 \<le> length ds - 1" using xy by (cases ys) auto
    then have "10 ^ 19 \<le> decimal ds"
      using decimal_ge [OF _ ds] True power_increasing [of 19 "length ds - 1" "10 :: nat"] by force
    then show ?thesis using lim(5) False xy by (cases ys) auto
  qed
  then show ?thesis using k(1) xy by (auto simp: SyMemcmp_def)
qed

lemma finish_dec_loop:
  assumes "\<forall>c \<in> set ds. SyisDigit c" and "\<forall>c \<in> set sp'. SyisSpace c"
  shows "finish_number neg (dec_loop i 0 (ds @ sp')) =
    (if length ds \<le> i then (True, store_sign neg (word_of_nat (decimal ds)), [])
     else (False, store_sign neg (word_of_nat (decimal (take i ds))), drop i ds @ sp'))"
proof (cases "length ds \<le> i")
  case True
  have "sp' = [] \<or> \<not> SyisDigit (hd sp')" using assms(2) space_not_digit by (cases sp') auto
  from dec_loop_digits [OF assms(1) True, of sp' 0] this True assms(2) show ?thesis
    by (simp add: finish_number_def skip_space_def)
next
  case False
  have "dec_loop i 0 (take i ds @ (drop i ds @ sp')) = (word_of_nat (decimal (take i ds)), drop i ds @ sp')"
    using dec_loop_digits [of "take i ds" i "drop i ds @ sp'" 0] assms(1) False
    by (auto dest: in_set_takeD)
  moreover obtain a l where al: "drop i ds = a # l" using False by (cases "drop i ds") auto
  moreover have "a \<in> set ds" by (metis al in_set_dropD list.set_intros(1))
  then have "\<not> SyisSpace a" using assms(1) digit_not_space by blast
  then have "skip_space (drop i ds @ sp') = drop i ds @ sp'" using al by (simp add: skip_space_def)
  moreover have "take i ds @ (drop i ds @ sp') = ds @ sp'" by (metis append.assoc append_take_drop_id)
  ultimately have "dec_loop i 0 (ds @ sp') = (word_of_nat (decimal (take i ds)), drop i ds @ sp')"
    and "skip_space (drop i ds @ sp') = drop i ds @ sp'" by metis+
  then show ?thesis using False al by (simp add: finish_number_def)
qed

lemma store_sign_value:
  assumes "n \<le> (if neg then 2 ^ 63 else 2 ^ 63 - 1)"
  shows "sint (store_sign neg (word_of_nat n :: u64)) = (if neg then - int n else int n)"
proof -
  have "sint (word_of_int (if neg then - int n else int n) :: u64) = (if neg then - int n else int n)"
    using assms by (intro sint_word_of_int) (auto split: if_splits)
  then show ?thesis by (auto simp: store_sign_def split: if_splits)
qed

lemma SyStrToInt64_numeral:
  assumes sp: "\<forall>c \<in> set sp. SyisSpace c" "\<forall>c \<in> set sp'. SyisSpace c" and zs: "\<forall>c \<in> set zs. c = 48"
    and ds: "\<forall>c \<in> set ds. SyisDigit c" "ds \<noteq> [] \<Longrightarrow> hd ds \<noteq> 48" and ne: "zs @ ds \<noteq> []"
  shows "\<exists>ok v r. SyStrToInt64 (sp @ numeral_sign sg @ zs @ ds @ sp') = Inr (ok, v, r) \<and>
    (ok \<longleftrightarrow> decimal ds \<le> (if is_neg sg then 2 ^ 63 else 2 ^ 63 - 1)) \<and>
    (ok \<longrightarrow> sint v = (if is_neg sg then - int (decimal ds) else int (decimal ds)) \<and> r = [])"
proof -
  let ?L = "if is_neg sg then SXINT64_MIN_STR else SXINT64_MAX_STR"
  let ?m = "if is_neg sg then 2 ^ 63 else 2 ^ 63 - 1 :: nat"
  have d48: "SyisDigit 48" by (simp add: SyisDigit_def)
  have pre: "read_sign (skip_space (sp @ numeral_sign sg @ (zs @ ds @ sp'))) = (is_neg sg, zs @ ds @ sp')"
  proof (rule read_prefix)
    show "SyisDigit (hd (zs @ ds @ sp'))"
      using zs ds(1) ne d48 by (cases zs; cases ds) auto
  qed (use sp zs ds d48 in auto)
  have z: "skip_zeros (zs @ ds @ sp') = ds @ sp'"
    by (rule skip_zeros_digits) (use zs ds(2) sp(2) in auto)
  have L: "length ?L = 19" "\<forall>c \<in> set ?L. SyisDigit c" "decimal ?L = ?m" "10 ^ 18 \<le> ?m" "?m < 10 ^ 19"
    using limits by simp_all
  obtain i where i: "(if length (ds @ sp') \<ge> 19
      then bindE (SyMemcmp (Some (ds @ sp')) (Some ?L) 19) (\<lambda>c. Inr (if c \<le> 0 then 19 else 18))
      else Inr 19) = (Inr i :: exn + nat)" "length ds \<le> i \<longleftrightarrow> decimal ds \<le> ?m"
    using digit_limit [OF ds sp(2) L] by blast
  have "SyStrToInt64 (sp @ numeral_sign sg @ zs @ ds @ sp') = Inr (finish_number (is_neg sg) (dec_loop i 0 (ds @ sp')))"
    unfolding SyStrToInt64_def pre Let_def prod.case z i(1) by simp
  then show ?thesis
    using i(2) finish_dec_loop [OF ds(1) sp(2), of "is_neg sg" i] store_sign_value [of "decimal ds" "is_neg sg"]
    by auto
qed

section \<open>Scanned numbers\<close>

text \<open>
  C21. Scanning a decimal numeral, with spaces around it, a sign and leading zeros, reports
  success exactly when its value fits in 64 signed bits, and then yields that value and
  consumes all of it.
\<close>

theorem SyStrToInt64_correct:
  assumes "\<forall>c \<in> set sp. SyisSpace c" "\<forall>c \<in> set sp'. SyisSpace c" and "\<forall>c \<in> set zs. c = 48"
    and "\<forall>c \<in> set ds. SyisDigit c" "ds \<noteq> [] \<Longrightarrow> hd ds \<noteq> 48" and "zs @ ds \<noteq> []"
  shows "\<exists>ok v r. SyStrToInt64 (sp @ numeral_sign sg @ zs @ ds @ sp') = Inr (ok, v, r) \<and>
    (ok \<longleftrightarrow> decimal ds \<le> (if is_neg sg then 2 ^ 63 else 2 ^ 63 - 1)) \<and>
    (ok \<longrightarrow> sint v = (if is_neg sg then - int (decimal ds) else int (decimal ds)) \<and> r = [])"
  by (rule SyStrToInt64_numeral [OF assms])

theorem SyStrToInt64_witness:
  "\<exists>v. SyStrToInt64 [32, 45, 48, 52, 50, 10] = Inr (True, v, []) \<and> sint v = - 42"
  using SyStrToInt64_correct [of "[32]" "[10]" "[48]" "[52, 50]" "Some True"]
  by (auto simp: SyisSpace_def SyisDigit_def decimal_def digit_val_def numeral_sign_def is_neg_def)

lemma limits32:
  "length SXINT32_MIN_STR = 10 \<and> list_all SyisDigit SXINT32_MIN_STR \<and> hd SXINT32_MIN_STR \<noteq> 48 \<and> SXINT32_MIN_STR \<noteq> []"
  "length SXINT32_MAX_STR = 10 \<and> list_all SyisDigit SXINT32_MAX_STR \<and> hd SXINT32_MAX_STR \<noteq> 48 \<and> SXINT32_MAX_STR \<noteq> []"
  by code_simp+

lemma fast_cmp_overrun: "length s < n \<Longrightarrow> fast_cmp s (s @ t) n = Inl UB"
proof (induction s arbitrary: n)
  case Nil
  then show ?case by (cases n) simp_all
next
  case (Cons a s)
  then show ?case by (cases n) simp_all
qed

text \<open>
  The 32-bit scanner compares as many bytes as the whole text has with a constant of
  ten digits: a numeral with leading zeros that agrees with the constant is compared past
  the end of both.
\<close>

theorem SyStrToInt32_overrun:
  "SyStrToInt32 (numeral_sign sg @ 48 # replicate n 48 @ (if is_neg sg then SXINT32_MIN_STR else SXINT32_MAX_STR)) = Inl UB"
proof -
  define L where "L = (if is_neg sg then SXINT32_MIN_STR else SXINT32_MAX_STR)"
  have L: "length L = 10" "\<forall>c \<in> set L. SyisDigit c" "hd L \<noteq> 48" "L \<noteq> []"
    unfolding L_def using limits32 by (simp_all add: list_all_iff)
  have d48: "SyisDigit 48" by (simp add: SyisDigit_def)
  have pre: "read_sign (skip_space ([] @ numeral_sign sg @ (48 # replicate n 48 @ L))) = (is_neg sg, 48 # replicate n 48 @ L)"
    by (rule read_prefix) (use d48 L in auto)
  have z: "skip_zeros ((48 # replicate n 48) @ L @ []) = L @ []"
    by (rule skip_zeros_digits) (use L in auto)
  have "SyMemcmp (Some L) (Some (L @ [0])) (length (numeral_sign sg) + Suc n + 10) = Inl UB"
    using fast_cmp_overrun [of L "length (numeral_sign sg) + Suc n + 10" "[0]"] L(1) by (simp add: SyMemcmp_def)
  then show ?thesis
    unfolding L_def [symmetric] using pre z L(1)
    by (simp add: SyStrToInt32_def Let_def L_def [symmetric] ac_simps)
qed

end

