(* ===== verification/Jx9Codec.thy ===== *)
theory Jx9Codec
  imports Jx9Str
begin

text \<open>
  The encoders of the runtime library in \<open>src/jx9/jx9/jx9.c\<close>: \<open>SyBinHash\<close>,
  \<open>SyBase64Encode\<close>, \<open>SyBase64Decode\<close>, \<open>SyCrc32\<close>, \<open>SyBinToHexConsumer\<close>, and the
  JX9 functions \<open>base64_encode\<close> and \<open>base64_decode\<close> over them. An encoder hands its output
  to a consumer piece by piece and stops when the consumer does not answer \<open>SXRET_OK\<close>.
  The locale \<open>codec\<close> states what an encoder and a decoder owe each other; \<open>base64\<close> is one
  interpretation of it, the URL encoding of \<open>Jx9Uri\<close> the other.
\<close>

datatype sxrc = SXRET_OK | SXERR_ABORT | SXERR_OVERFLOW | SXERR_OTHER int

type_synonym 's consumer = "byte list \<Rightarrow> 's \<Rightarrow> sxrc \<times> 's"

text \<open>Handing over the pieces in turn; an encoder answers \<open>SXERR_ABORT\<close> when it is stopped.\<close>

fun feed :: "'s consumer \<Rightarrow> byte list list \<Rightarrow> 's \<Rightarrow> sxrc \<times> 's" where
  "feed xConsumer [] s = (SXRET_OK, s)"
| "feed xConsumer (z # zs) s =
     (case xConsumer z s of (rc, s') \<Rightarrow>
        if rc \<noteq> SXRET_OK then (SXERR_ABORT, s') else feed xConsumer zs s')"

section \<open>Hashing\<close>

fun bin_hash_loop :: "u32 \<Rightarrow> byte list \<Rightarrow> u32" where
  "bin_hash_loop nH [] = nH"
| "bin_hash_loop nH (b # zIn) = bin_hash_loop (nH * 33 + ucast b) zIn"

definition SyBinHash :: "byte list \<Rightarrow> u32" where
  "SyBinHash pSrc = bin_hash_loop 5381 pSrc"

definition crc32_table :: "u32 list" where
  "crc32_table =
    [0x00000000, 0x77073096, 0xEE0E612C, 0x990951BA, 0x076DC419, 0x706AF48F, 0xE963A535, 0x9E6495A3,
     0x0EDB8832, 0x79DCB8A4, 0xE0D5E91E, 0x97D2D988, 0x09B64C2B, 0x7EB17CBD, 0xE7B82D07, 0x90BF1D91,
     0x1DB71064, 0x6AB020F2, 0xF3B97148, 0x84BE41DE, 0x1ADAD47D, 0x6DDDE4EB, 0xF4D4B551, 0x83D385C7,
     0x136C9856, 0x646BA8C0, 0xFD62F97A, 0x8A65C9EC, 0x14015C4F, 0x63066CD9, 0xFA0F3D63, 0x8D080DF5,
     0x3B6E20C8, 0x4C69105E, 0xD56041E4, 0xA2677172, 0x3C03E4D1, 0x4B04D447, 0xD20D85FD, 0xA50AB56B,
     0x35B5A8FA, 0x42B2986C, 0xDBBBC9D6, 0xACBCF940, 0x32D86CE3, 0x45DF5C75, 0xDCD60DCF, 0xABD13D59,
     0x26D930AC, 0x51DE003A, 0xC8D75180, 0xBFD06116, 0x21B4F4B5, 0x56B3C423, 0xCFBA9599, 0xB8BDA50F,
     0x2802B89E, 0x5F058808, 0xC60CD9B2, 0xB10BE924, 0x2F6F7C87, 0x58684C11, 0xC1611DAB, 0xB6662D3D,
     0x76DC4190, 0x01DB7106, 0x98D220BC, 0xEFD5102A, 0x71B18589, 0x06B6B51F, 0x9FBFE4A5, 0xE8B8D433,
     0x7807C9A2, 0x0F00F934, 0x9609A88E, 0xE10E9818, 0x7F6A0DBB, 0x086D3D2D, 0x91646C97, 0xE6635C01,
     0x6B6B51F4, 0x1C6C6162, 0x856530D8, 0xF262004E, 0x6C0695ED, 0x1B01A57B, 0x8208F4C1, 0xF50FC457,
     0x65B0D9C6, 0x12B7E950, 0x8BBEB8EA, 0xFCB9887C, 0x62DD1DDF, 0x15DA2D49, 0x8CD37CF3, 0xFBD44C65,
     0x4DB26158, 0x3AB551CE, 0xA3BC0074, 0xD4BB30E2, 0x4ADFA541, 0x3DD895D7, 0xA4D1C46D, 0xD3D6F4FB,
     0x4369E96A, 0x346ED9FC, 0xAD678846, 0xDA60B8D0, 0x44042D73, 0x33031DE5, 0xAA0A4C5F, 0xDD0D7CC9,
     0x5005713C, 0x270241AA, 0xBE0B1010, 0xC90C2086, 0x5768B525, 0x206F85B3, 0xB966D409, 0xCE61E49F,
     0x5EDEF90E, 0x29D9C998, 0xB0D09822, 0xC7D7A8B4, 0x59B33D17, 0x2EB40D81, 0xB7BD5C3B, 0xC0BA6CAD,
     0xEDB88320, 0x9ABFB3B6, 0x03B6E20C, 0x74B1D29A, 0xEAD54739, 0x9DD277AF, 0x04DB2615, 0x73DC1683,
     0xE3630B12, 0x94643B84, 0x0D6D6A3E, 0x7A6A5AA8, 0xE40ECF0B, 0x9309FF9D, 0x0A00AE27, 0x7D079EB1,
     0xF00F9344, 0x8708A3D2, 0x1E01F268, 0x6906C2FE, 0xF762575D, 0x806567CB, 0x196C3671, 0x6E6B06E7,
     0xFED41B76, 0x89D32BE0, 0x10DA7A5A, 0x67DD4ACC, 0xF9B9DF6F, 0x8EBEEFF9, 0x17B7BE43, 0x60B08ED5,
     0xD6D6A3E8, 0xA1D1937E, 0x38D8C2C4, 0x4FDFF252, 0xD1BB67F1, 0xA6BC5767, 0x3FB506DD, 0x48B2364B,
     0xD80D2BDA, 0xAF0A1B4C, 0x36034AF6, 0x41047A60, 0xDF60EFC3, 0xA867DF55, 0x316E8EEF, 0x4669BE79,
     0xCB61B38C, 0xBC66831A, 0x256FD2A0, 0x5268E236, 0xCC0C7795, 0xBB0B4703, 0x220216B9, 0x5505262F,
     0xC5BA3BBE, 0xB2BD0B28, 0x2BB45A92, 0x5CB36A04, 0xC2D7FFA7, 0xB5D0CF31, 0x2CD99E8B, 0x5BDEAE1D,
     0x9B64C2B0, 0xEC63F226, 0x756AA39C, 0x026D930A, 0x9C0906A9, 0xEB0E363F, 0x72076785, 0x05005713,
     0x95BF4A82, 0xE2B87A14, 0x7BB12BAE, 0x0CB61B38, 0x92D28E9B, 0xE5D5BE0D, 0x7CDCEFB7, 0x0BDBDF21,
     0x86D3D2D4, 0xF1D4E242, 0x68DDB3F8, 0x1FDA836E, 0x81BE16CD, 0xF6B9265B, 0x6FB077E1, 0x18B74777,
     0x88085AE6, 0xFF0F6A70, 0x66063BCA, 0x11010B5C, 0x8F659EFF, 0xF862AE69, 0x616BFFD3, 0x166CCF45,
     0xA00AE278, 0xD70DD2EE, 0x4E048354, 0x3903B3C2, 0xA7672661, 0xD06016F7, 0x4969474D, 0x3E6E77DB,
     0xAED16A4A, 0xD9D65ADC, 0x40DF0B66, 0x37D83BF0, 0xA9BCAE53, 0xDEBB9EC5, 0x47B2CF7F, 0x30B5FFE9,
     0xBDBDF21C, 0xCABAC28A, 0x53B39330, 0x24B4A3A6, 0xBAD03605, 0xCDD70693, 0x54DE5729, 0x23D967BF,
     0xB3667A2E, 0xC4614AB8, 0x5D681B02, 0x2A6F2B94, 0xB40BBE37, 0xC30C8EA1, 0x5A05DF1B, 0x2D02EF8D]"

definition CRC32C :: "u32 \<Rightarrow> byte \<Rightarrow> u32" where
  "CRC32C c d = (crc32_table ! unat ((c XOR ucast d) AND 0xFF)) XOR drop_bit 8 c"

fun SyCrc32Update :: "u32 \<Rightarrow> byte list \<Rightarrow> u32" where
  "SyCrc32Update crc32 [] = crc32"
| "SyCrc32Update crc32 (b # zIn) = SyCrc32Update (CRC32C crc32 b) zIn"

definition SyCrc32 :: "byte list \<Rightarrow> u32" where
  "SyCrc32 pSrc = SyCrc32Update 0xFFFFFFFF pSrc"

section \<open>Base 64\<close>

definition zBase64 :: "byte list" where
  "zBase64 = bytes_of ''ABCDEFGHIJKLMNOPQRSTUVWXYZabcdefghijklmnopqrstuvwxyz0123456789+/''"

definition b64 :: "byte \<Rightarrow> byte" where
  "b64 v = zBase64 ! unat v"

fun base64_pieces :: "byte list \<Rightarrow> byte list list" where
  "base64_pieces (x # y # z # zIn) =
     [b64 (drop_bit 2 x AND 0x3F),
      b64 ((push_bit 4 (x AND 0x03) OR drop_bit 4 y) AND 0x3F),
      b64 ((push_bit 2 (y AND 0x0F) OR drop_bit 6 z) AND 0x3F),
      b64 (z AND 0x3F)] # base64_pieces zIn"
| "base64_pieces [x, y] =
     [[b64 (drop_bit 2 x AND 0x3F),
       b64 ((push_bit 4 (x AND 0x03) OR drop_bit 4 y) AND 0x3F),
       b64 (push_bit 2 (y AND 0x0F)), 61]]"
| "base64_pieces [x] = [[b64 (drop_bit 2 x AND 0x3F), b64 (push_bit 4 (x AND 0x03)), 61, 61]]"
| "base64_pieces [] = []"

definition SyBase64Encode :: "byte list \<Rightarrow> 's consumer \<Rightarrow> 's \<Rightarrow> sxrc \<times> 's" where
  "SyBase64Encode zSrc xConsumer pUserData = feed xConsumer (base64_pieces zSrc) pUserData"

definition aBase64Trans :: "nat list" where
  "aBase64Trans =
    [0, 0, 0, 0, 0, 0, 0, 0, 0, 0, 0, 0, 0, 0, 0, 0, 0, 0, 0, 0, 0, 0, 0, 0, 0, 0, 0, 0, 0, 0,
     0, 0, 0, 0, 0, 0, 0, 0, 0, 0, 0, 0, 0, 62, 0, 0, 0, 63, 52, 53, 54, 55, 56, 57, 58, 59, 60, 61, 0, 0,
     0, 0, 0, 0, 0, 0, 1, 2, 3, 4, 5, 6, 7, 8, 9, 10, 11, 12, 13, 14, 15, 16, 17, 18, 19, 20, 21, 22, 23, 24,
     25, 0, 0, 0, 0, 0, 0, 26, 27, 28, 29, 30, 31, 32, 33, 34, 35, 36, 37, 38, 39, 40, 41, 42, 43, 44, 45, 46, 47, 48,
     49, 50, 51, 0, 0, 0, 0, 0]"

definition unb64 :: "byte \<Rightarrow> u32" where
  "unb64 b = word_of_nat (aBase64Trans ! unat (b AND 0x7F))"

definition b64_out0 :: "u32 \<Rightarrow> u32 \<Rightarrow> byte" where
  "b64_out0 w x = ucast ((push_bit 2 w AND 0xFC) OR (drop_bit 4 x AND 0x03))"

definition b64_out1 :: "u32 \<Rightarrow> u32 \<Rightarrow> byte" where
  "b64_out1 x y = ucast ((push_bit 4 x AND 0xF0) OR (drop_bit 2 y AND 0x0F))"

definition b64_out2 :: "u32 \<Rightarrow> u32 \<Rightarrow> byte" where
  "b64_out2 y z = ucast ((push_bit 6 y AND 0xC0) OR (z AND 0x3F))"

fun unbase64_pieces :: "byte list \<Rightarrow> byte list list" where
  "unbase64_pieces (a # b # c # d # zB64) =
     [b64_out0 (unb64 a) (unb64 b), b64_out1 (unb64 b) (unb64 c), b64_out2 (unb64 c) (unb64 d)]
       # unbase64_pieces zB64"
| "unbase64_pieces [a, b, c] = [[b64_out0 (unb64 a) (unb64 b), b64_out1 (unb64 b) (unb64 c)]]"
| "unbase64_pieces [a, b] = [[b64_out0 (unb64 a) (unb64 b)]]"
| "unbase64_pieces [a] = []"
| "unbase64_pieces [] = []"

definition strip_pad :: "byte list \<Rightarrow> byte list" where
  "strip_pad s = rev (dropWhile (\<lambda>b. b = 61) (rev s))"

definition SyBase64Decode :: "byte list \<Rightarrow> 's consumer \<Rightarrow> 's \<Rightarrow> sxrc \<times> 's" where
  "SyBase64Decode zB64 xConsumer pUserData = feed xConsumer (unbase64_pieces (strip_pad zB64)) pUserData"

section \<open>Hexadecimal\<close>

definition zHexTab :: "byte list" where
  "zHexTab = bytes_of ''0123456789abcdef''"

fun SyBinToHexConsumer :: "byte list \<Rightarrow> 's consumer \<Rightarrow> 's \<Rightarrow> sxrc \<times> 's" where
  "SyBinToHexConsumer [] xConsumer s = (SXRET_OK, s)"
| "SyBinToHexConsumer (b # zIn) xConsumer s =
     (case xConsumer [zHexTab ! unat (drop_bit 4 b), zHexTab ! unat (b AND 0x0F)] s of (rc, s') \<Rightarrow>
        if rc \<noteq> SXRET_OK then (rc, s') else SyBinToHexConsumer zIn xConsumer s')"

section \<open>The JX9 functions\<close>

text \<open>
  The functions see their arguments as strings, each with the terminator behind it that
  \<open>jx9_value_to_string\<close> puts there. Without an argument, or for an empty one, the result
  is \<open>FALSE\<close>; otherwise the consumer appends to the result string. The result of a call is null
  until it is set: that is what decoding a text without any full byte, such as \<open>A\<close>, leaves.
\<close>

datatype jx9_result = ResultNull | ResultBool bool | ResultString "byte list"

definition Consumer :: "byte list consumer" where
  "Consumer pData result = (SXRET_OK, result @ pData)"

definition ContextConsumer :: "byte list option consumer" where
  "ContextConsumer pData result = (SXRET_OK, Some (case result of None \<Rightarrow> pData | Some z \<Rightarrow> z @ pData))"

definition jx9Builtin_base64_encode :: "byte list list \<Rightarrow> jx9_result" where
  "jx9Builtin_base64_encode apArg =
     (case apArg of [] \<Rightarrow> ResultBool False
      | zIn # _ \<Rightarrow> if length zIn < 1 then ResultBool False
                   else ResultString (snd (SyBase64Encode zIn Consumer [])))"

definition jx9Builtin_base64_decode :: "byte list list \<Rightarrow> jx9_result" where
  "jx9Builtin_base64_decode apArg =
     (case apArg of [] \<Rightarrow> ResultBool False
      | zIn # _ \<Rightarrow> if length zIn < 1 then ResultBool False
                   else (case snd (SyBase64Decode zIn ContextConsumer None) of
                           None \<Rightarrow> ResultNull | Some z \<Rightarrow> ResultString z))"

section \<open>Properties\<close>

lemma feed_Consumer [simp]: "feed Consumer zs s = (SXRET_OK, s @ concat zs)"
  by (induction zs arbitrary: s) (auto simp: Consumer_def)

lemma feed_Context: "feed ContextConsumer zs (Some s) = (SXRET_OK, Some (s @ concat zs))"
  by (induction zs arbitrary: s) (auto simp: ContextConsumer_def)

lemma feed_Context_None: "feed ContextConsumer zs None = (SXRET_OK, if zs = [] then None else Some (concat zs))"
  by (cases zs) (auto simp: ContextConsumer_def feed_Context)

text \<open>A stopped encoder has handed over the pieces up to the one the consumer refused.\<close>

lemma feed_stops:
  assumes "\<And>z s. fst (xConsumer z s) = SXRET_OK \<longleftrightarrow> z \<noteq> stop" and "stop \<notin> set zs"
  shows "feed xConsumer (zs @ stop # zs') s =
    (SXERR_ABORT, snd (xConsumer stop (snd (feed xConsumer zs s)))) \<and>
    fst (feed xConsumer zs s) = SXRET_OK"
  using assms(2)
proof (induction zs arbitrary: s)
  case Nil
  have "fst (xConsumer stop s) \<noteq> SXRET_OK" using assms(1) by blast
  then show ?case by (cases "xConsumer stop s") simp
next
  case (Cons z zs)
  then have "fst (xConsumer z s) = SXRET_OK" using assms(1) by auto
  with Cons show ?case by (cases "xConsumer z s") auto
qed

subsection \<open>The CRC table\<close>

text \<open>The reflected CRC-32 of the polynomial \<open>0x04C11DB7\<close>, bit by bit.\<close>

definition crc_step :: "u32 \<Rightarrow> u32" where
  "crc_step c = drop_bit 1 c XOR (if bit c 0 then 0xEDB88320 else 0)"

definition crc_byte :: "u32 \<Rightarrow> byte \<Rightarrow> u32" where
  "crc_byte c b = (crc_step ^^ 8) (c XOR ucast b)"

lemma crc_step_xor: "crc_step (x XOR y) = crc_step x XOR crc_step y"
  by (auto simp: crc_step_def bit_xor_iff drop_bit_xor xor.assoc xor.left_commute)

lemma crc_steps_xor: "(crc_step ^^ n) (x XOR y) = (crc_step ^^ n) x XOR (crc_step ^^ n) y"
  by (induction n) (simp_all add: crc_step_xor)

lemma crc_steps_high: "(\<And>i. i < n \<Longrightarrow> \<not> bit y i) \<Longrightarrow> (crc_step ^^ n) y = drop_bit n y"
proof (induction n)
  case (Suc n)
  then have "(crc_step ^^ n) y = drop_bit n y" by simp
  moreover have "\<not> bit (drop_bit n y) 0" using Suc.prems [of n] by (simp add: bit_drop_bit_eq)
  moreover have "crc_step z = drop_bit 1 z" if "\<not> bit z 0" for z using that by (simp add: crc_step_def)
  ultimately have "(crc_step ^^ Suc n) y = drop_bit 1 (drop_bit n y)" by simp
  then show ?case by simp
qed simp

text \<open>The entries the table should have, from \<open>i\<close> on.\<close>

fun crc_list :: "nat \<Rightarrow> u32 \<Rightarrow> u32 list" where
  "crc_list 0 i = []"
| "crc_list (Suc n) i = (crc_step ^^ 8) i # crc_list n (i + 1)"

lemma crc_list_nth: "k < n \<Longrightarrow> crc_list n i ! k = (crc_step ^^ 8) (i + word_of_nat k)"
proof (induction n arbitrary: i k)
  case (Suc n)
  then show ?case by (cases k) (simp_all add: algebra_simps)
qed simp

lemma crc_list_numeral: "crc_list (numeral k) i = (crc_step ^^ 8) i # crc_list (pred_numeral k) (i + 1)"
  by (simp add: numeral_eq_Suc)

lemma crc_steps_eval:
  "crc_step 0 = 0" "crc_step 1 = 0xEDB88320"
  "crc_step (numeral (num.Bit0 n)) = drop_bit 1 (numeral (num.Bit0 n))"
  "crc_step (numeral (num.Bit1 n)) = drop_bit 1 (numeral (num.Bit1 n)) XOR 0xEDB88320"
  "(crc_step ^^ 8) x = crc_step (crc_step (crc_step (crc_step (crc_step (crc_step (crc_step (crc_step x)))))))"
  by (simp_all add: crc_step_def numeral_eq_Suc)

lemma crc32_table_list: "crc32_table = crc_list 256 0"
  by (simp add: crc32_table_def crc_list_numeral crc_steps_eval)

lemma CRC32C_crc_byte: "CRC32C c b = crc_byte c b"
proof -
  let ?x = "c XOR ucast b :: u32"
  have lt: "unat (?x AND 0xFF) < 256"
  proof -
    have "unat (?x AND 0xFF) \<le> unat (0xFF :: u32)" by (simp only: word_le_nat_alt [symmetric] word_and_le1)
    then show ?thesis by simp
  qed
  have mask: "(0xFF :: u32) = mask 8" by (simp add: mask_eq_exp_minus_1)
  have "?x = (?x AND 0xFF) XOR push_bit 8 (drop_bit 8 ?x)"
    unfolding mask by (rule bit_word_eqI) (auto simp: bit_simps not_less dest: bit_imp_le_length)
  then have "crc_byte c b = (crc_step ^^ 8) (?x AND 0xFF) XOR (crc_step ^^ 8) (push_bit 8 (drop_bit 8 ?x))"
    unfolding crc_byte_def by (metis crc_steps_xor)
  moreover have "n < 24" if "bit c (8 + n)" for n and c :: u32 using bit_imp_le_length [OF that] by simp
  then have "(crc_step ^^ 8) (push_bit 8 (drop_bit 8 ?x)) = drop_bit 8 ?x"
    by (subst crc_steps_high) (auto simp: bit_simps intro!: bit_word_eqI)
  moreover have "drop_bit 8 ?x = drop_bit 8 c"
    by (rule bit_word_eqI) (auto simp: bit_simps dest: bit_imp_le_length)
  moreover have "crc32_table ! unat (?x AND 0xFF) = (crc_step ^^ 8) (?x AND 0xFF)"
    using crc_list_nth [OF lt, of 0] by (simp add: crc32_table_list)
  ultimately show ?thesis by (simp add: CRC32C_def)
qed

lemma SyCrc32_bitwise: "SyCrc32 pSrc = foldl crc_byte 0xFFFFFFFF pSrc"
proof -
  have "SyCrc32Update c pSrc = foldl crc_byte c pSrc" for c
    by (induction pSrc arbitrary: c) (simp_all add: CRC32C_crc_byte)
  then show ?thesis by (simp add: SyCrc32_def)
qed

subsection \<open>Encoders and decoders\<close>

text \<open>
  What an encoder and its decoder owe each other: over the texts the pair is meant for, the
  decoder takes the encoder's output back. Such an encoder confuses no two texts.
\<close>

locale codec =
  fixes encode :: "byte list \<Rightarrow> byte list"
    and decode :: "byte list \<Rightarrow> exn + byte list"
    and text_ok :: "byte list \<Rightarrow> bool"
  assumes decode_encode: "text_ok s \<Longrightarrow> decode (encode s) = Inr s"
begin

lemma encode_inj: "text_ok s \<Longrightarrow> text_ok t \<Longrightarrow> encode s = encode t \<longleftrightarrow> s = t"
  using decode_encode by (metis sum.inject(2))

lemma decode_twice: "text_ok s \<Longrightarrow> text_ok (encode s) \<Longrightarrow>
    bindE (decode (encode (encode s))) decode = Inr s"
  by (simp add: decode_encode)

end

definition base64_encode :: "byte list \<Rightarrow> byte list" where
  "base64_encode s = snd (SyBase64Encode s Consumer [])"

definition base64_decode :: "byte list \<Rightarrow> exn + byte list" where
  "base64_decode s = Inr (snd (SyBase64Decode s Consumer []))"

lemma base64_alphabet: "list_all (\<lambda>i. aBase64Trans ! unat ((zBase64 ! i) AND 0x7F) = i \<and> zBase64 ! i \<noteq> 61) [0..<64]"
  by code_simp

lemma b64_inverse:
  assumes "v < 64"
  shows "unb64 (b64 v) = ucast v" "b64 v \<noteq> 61"
proof -
  have "unat v < 64" using assms by (simp add: word_less_nat_alt)
  then have "aBase64Trans ! unat ((zBase64 ! unat v) AND 0x7F) = unat v \<and> zBase64 ! unat v \<noteq> 61"
    using base64_alphabet by (auto simp: list_all_iff)
  then show "unb64 (b64 v) = ucast v" "b64 v \<noteq> 61"
    by (simp_all add: b64_def unb64_def)
qed

lemma strip_pad_append: "strip_pad xs = xs \<Longrightarrow> strip_pad (xs @ ys) = xs @ strip_pad ys"
proof -
  assume xs: "strip_pad xs = xs"
  show ?thesis
  proof (cases "\<forall>b \<in> set ys. b = 61")
    case True
    then have "dropWhile (\<lambda>b. b = 61) (rev ys) = []" by simp
    then show ?thesis using xs True by (simp add: strip_pad_def dropWhile_append)
  next
    case False
    then show ?thesis by (auto simp: strip_pad_def dropWhile_append)
  qed
qed

lemma strip_pad_group: "d \<noteq> 61 \<Longrightarrow> strip_pad (a # b # c # d # s) = a # b # c # d # strip_pad s"
  using strip_pad_append [of "[a, b, c, d]" s] by (simp add: strip_pad_def)

lemma low_bits:
  "x AND 0x3F = take_bit 6 (x :: byte)" "x AND 0x0F = take_bit 4 (x :: byte)" "x AND 0x03 = take_bit 2 (x :: byte)"
  by (simp_all add: take_bit_eq_mask mask_eq_exp_minus_1)

lemma sextet_less: "x AND 0x3F < (64 :: byte)" "push_bit 2 (x AND 0x0F) < (64 :: byte)" "push_bit 4 (x AND 0x03) < (64 :: byte)"
proof -
  have le: "z AND 0x3F < (64 :: byte)" for z :: byte
    using word_and_le1 [of z "0x3F"] by (rule order.strict_trans1) simp
  have "push_bit 2 (x AND 0x0F) = push_bit 2 x AND (0x3F :: byte)"
       "push_bit 4 (x AND 0x03) = push_bit 4 x AND (0x3F :: byte)"
    unfolding low_bits by (auto simp: bit_simps intro!: bit_word_eqI)
  then show "x AND 0x3F < (64 :: byte)" "push_bit 2 (x AND 0x0F) < (64 :: byte)" "push_bit 4 (x AND 0x03) < (64 :: byte)"
    using le by simp_all
qed

lemma and_shifted_mask: "w AND push_bit k (mask m) = push_bit k (take_bit m (drop_bit k w))"
  for w :: "'a :: len word"
  by (rule bit_word_eqI) (auto simp: bit_simps)

lemma u32_masks:
  "(w :: u32) AND 0xFC = push_bit 2 (take_bit 6 (drop_bit 2 w))" "w AND 0x03 = take_bit 2 w"
  "w AND 0xF0 = push_bit 4 (take_bit 4 (drop_bit 4 w))" "w AND 0x0F = take_bit 4 w"
  "w AND 0xC0 = push_bit 6 (take_bit 2 (drop_bit 6 w))" "w AND 0x3F = take_bit 6 w"
  unfolding and_shifted_mask [symmetric] by (simp_all add: take_bit_eq_mask mask_eq_exp_minus_1)

lemma Suc_Suc_minus: "2 \<le> n \<Longrightarrow> Suc (Suc (n - 2)) = n"
  by simp

lemma byte_high_bit: "\<not> bit (y :: byte) (8 + n)"
  using bit_imp_le_length [of y "8 + n"] by auto

lemma b64_outs:
  "b64_out0 (ucast (drop_bit 2 x AND 0x3F)) (ucast ((push_bit 4 (x AND 0x03) OR drop_bit 4 y) AND 0x3F)) = x"
  "b64_out0 (ucast (drop_bit 2 x AND 0x3F)) (ucast (push_bit 4 (x AND 0x03))) = x"
  "b64_out1 (ucast ((push_bit 4 (x AND 0x03) OR drop_bit 4 y) AND 0x3F))
            (ucast ((push_bit 2 (y AND 0x0F) OR drop_bit 6 z) AND 0x3F)) = y"
  "b64_out1 (ucast ((push_bit 4 (x AND 0x03) OR drop_bit 4 y) AND 0x3F)) (ucast (push_bit 2 (y AND 0x0F))) = y"
  "b64_out2 (ucast ((push_bit 2 (y AND 0x0F) OR drop_bit 6 z) AND 0x3F)) (ucast (z AND 0x3F)) = z"
  unfolding b64_out0_def b64_out1_def b64_out2_def u32_masks low_bits
  by (auto simp: bit_simps Suc_Suc_minus byte_high_bit intro!: bit_word_eqI)

lemma base64_inverse: "concat (unbase64_pieces (strip_pad (concat (base64_pieces s)))) = s"
proof (induction s rule: base64_pieces.induct)
  case (1 x y z zIn)
  then show ?case by (simp add: strip_pad_group b64_inverse sextet_less b64_outs del: push_bit_and)
next
  case (2 x y)
  then show ?case by (simp add: strip_pad_def b64_inverse sextet_less b64_outs del: push_bit_and)
next
  case (3 x)
  then show ?case by (simp add: strip_pad_def b64_inverse sextet_less b64_outs del: push_bit_and)
qed (simp add: strip_pad_def)

interpretation b64c: codec base64_encode base64_decode "\<lambda>_. True"
  by unfold_locales
    (simp add: base64_encode_def base64_decode_def SyBase64Encode_def SyBase64Decode_def base64_inverse)

section \<open>What the codecs promise\<close>

text \<open>
  C22. The table-driven CRC-32 is the bit-by-bit one: the 256 constants are right, and no
  byte is treated differently from its eight bits.
\<close>

theorem SyCrc32_equivalence: "SyCrc32Update c pSrc = foldl crc_byte c pSrc"
  by (induction c pSrc rule: SyCrc32Update.induct) (simp_all add: CRC32C_crc_byte)

text \<open>
  C23. Decoding what \<open>base64_encode\<close> returned for a non-empty string returns the string, for
  every byte and every remainder modulo three, and different strings have different forms.
\<close>

theorem base64_roundtrip:
  assumes "s \<noteq> []" and "t \<noteq> []"
  shows "\<exists>e. jx9Builtin_base64_encode (s # xs) = ResultString e \<and> jx9Builtin_base64_decode (e # ys) = ResultString s \<and>
    (jx9Builtin_base64_encode (t # zs) = ResultString e \<longleftrightarrow> t = s)"
proof -
  have dec: "snd (SyBase64Decode (base64_encode s) Consumer []) = s"
    using b64c.decode_encode [of s] by (simp add: base64_decode_def)
  then have pieces: "snd (SyBase64Decode (base64_encode s) ContextConsumer None) = Some s"
    using assms(1) by (auto simp: SyBase64Decode_def feed_Context_None)
  have ne: "base64_encode s \<noteq> []"
  proof
    assume "base64_encode s = []"
    then have "base64_encode s = base64_encode []"
      by (simp add: base64_encode_def SyBase64Encode_def)
    then show False using b64c.encode_inj [of s "[]"] assms(1) by simp
  qed
  have "base64_encode t = base64_encode s \<longleftrightarrow> t = s" by (rule b64c.encode_inj) simp_all
  then show ?thesis using assms pieces ne
    by (auto simp: jx9Builtin_base64_encode_def jx9Builtin_base64_decode_def base64_encode_def
        Suc_le_eq not_less_eq_eq)
qed

theorem base64_roundtrip_witness:
  "\<exists>e. jx9Builtin_base64_encode [[0, 255]] = ResultString e \<and> jx9Builtin_base64_decode [e] = ResultString [0, 255]"
  using base64_roundtrip [of "[0, 255]" "[1]" "[]" "[]"] by auto

lemma base64_decode_null: "jx9Builtin_base64_decode [[65]] = ResultNull" "jx9Builtin_base64_decode [[61, 61, 61, 61]] = ResultNull"
  by code_simp+

text \<open>
  A consumer that refuses a piece stops the encoder: it has been given the pieces before
  that one, in order, and no piece after it.
\<close>

theorem base64_encode_stops:
  assumes "base64_pieces zSrc = zs @ stop # zs'" and "stop \<notin> set zs"
    and "\<And>z s. xConsumer z s = (if z = stop then SXERR_OTHER e else SXRET_OK, s @ [z])"
  shows "SyBase64Encode zSrc xConsumer [] = (SXERR_ABORT, zs @ [stop])"
proof -
  have given: "stop \<notin> set ws \<Longrightarrow> snd (feed xConsumer ws s) = s @ ws" for ws s
    by (induction ws arbitrary: s) (auto simp: assms(3))
  have "fst (xConsumer z s) = SXRET_OK \<longleftrightarrow> z \<noteq> stop" for z s by (simp add: assms(3))
  from feed_stops [of xConsumer, OF this assms(2)] given [OF assms(2), of "[]"] show ?thesis
    by (simp add: SyBase64Encode_def assms(1) assms(3))
qed

theorem base64_encode_stops_witness:
  "SyBase64Encode [1, 2, 3, 4, 5, 6, 7] (\<lambda>z s. (if z = bytes_of ''BAUG'' then SXERR_OTHER 3 else SXRET_OK, s @ [z])) []
     = (SXERR_ABORT, [bytes_of ''AQID'', bytes_of ''BAUG''])"
proof -
  have "base64_pieces [1, 2, 3, 4, 5, 6, 7] = [bytes_of ''AQID''] @ bytes_of ''BAUG'' # [bytes_of ''Bw=='']"
    by code_simp
  moreover have "bytes_of ''BAUG'' \<notin> set [bytes_of ''AQID'']" by code_simp
  ultimately show ?thesis
    using base64_encode_stops [of "[1, 2, 3, 4, 5, 6, 7]" "[bytes_of ''AQID'']" "bytes_of ''BAUG''" "[bytes_of ''Bw=='']"
      "\<lambda>z s. (if z = bytes_of ''BAUG'' then SXERR_OTHER 3 else SXRET_OK, s @ [z])" 3] by simp
qed

end

