(* ===== verification/Jx9Uri.thy ===== *)
theory Jx9Uri
  imports Jx9Codec
begin

text \<open>
  \<open>SyUriEncode\<close> and \<open>SyUriDecode\<close> of \<open>src/jx9/jx9/jx9.c\<close>, the JX9 functions
  \<open>urlencode\<close> and \<open>urldecode\<close> over them, and the proof that they are a \<open>codec\<close> for
  UTF-8 text (and for no more: a lone byte from \<open>0xC0\<close> on is taken for the start of a
  UTF-8 sequence).
\<close>

section \<open>URL encoding\<close>

definition SAFE_HTTP :: "byte \<Rightarrow> bool" where
  "SAFE_HTTP c = (SyisAlphaNum c \<or> c = 95 \<or> c = 45 \<or> c = 36 \<or> c = 46)"

definition zHexUpper :: "byte list" where
  "zHexUpper = bytes_of ''0123456789ABCDEF''"

text \<open>The bytes from \<open>zIn\<close> to \<open>zCur\<close>, handed over in one piece, when there are any.\<close>

definition uri_run :: "byte list \<Rightarrow> byte list list" where
  "uri_run z = (if z = [] then [] else [z])"

fun uri_pieces :: "byte list \<Rightarrow> byte list \<Rightarrow> byte list list" where
  "uri_pieces z [] = uri_run z"
| "uri_pieces z (c # s) =
     (if SAFE_HTTP c then uri_pieces (z @ [c]) s
      else uri_run z @ [if c = 32 then [43]
                    else [37, zHexUpper ! unat (drop_bit 4 c AND 0x0F), zHexUpper ! unat (c AND 0x0F)]]
             @ uri_pieces [] s)"

definition SyUriEncode :: "byte list \<Rightarrow> 's consumer \<Rightarrow> 's \<Rightarrow> sxrc \<times> 's" where
  "SyUriEncode zSrc xConsumer pUserData = feed xConsumer (uri_pieces [] zSrc) pUserData"

definition SyAsciiToHex :: "byte \<Rightarrow> u32" where
  "SyAsciiToHex c =
     (if 97 \<le> c \<and> c \<le> 102 then ucast c - 87
      else if 48 \<le> c \<and> c \<le> 57 then ucast c - 48
      else if 65 \<le> c \<and> c \<le> 70 then ucast c - 55
      else 0)"

definition Utf8Trans :: "u32 list" where
  "Utf8Trans =
    [0, 1, 2, 3, 4, 5, 6, 7, 8, 9, 10, 11, 12, 13, 14, 15, 16, 17, 18, 19, 20, 21, 22, 23, 24, 25, 26, 27, 28, 29, 30, 31,
     0, 1, 2, 3, 4, 5, 6, 7, 8, 9, 10, 11, 12, 13, 14, 15, 0, 1, 2, 3, 4, 5, 6, 7, 0, 1, 2, 3, 0, 1, 0, 0]"

definition SX_WRITE_UTF8 :: "u32 \<Rightarrow> byte list" where
  "SX_WRITE_UTF8 c =
     (if c <s 0x80 then [ucast (c AND 0xFF)]
      else if c <s 0x800 then [0xC0 + ucast (drop_bit 6 c AND 0x1F), 0x80 + ucast (c AND 0x3F)]
      else if c <s 0x10000 then [0xE0 + ucast (drop_bit 12 c AND 0x0F),
             0x80 + ucast (drop_bit 6 c AND 0x3F), 0x80 + ucast (c AND 0x3F)]
      else [0xF0 + ucast (drop_bit 18 c AND 0x07), 0x80 + ucast (drop_bit 12 c AND 0x3F),
             0x80 + ucast (drop_bit 6 c AND 0x3F), 0x80 + ucast (c AND 0x3F)])"

text \<open>
  The decoder knows the end of the string only in its outer loop. The loop over the
  continuation bytes stops at the first byte that is not an escaped continuation byte,
  wherever that is: \<open>s\<close> is the memory from \<open>zCur\<close> on, the first \<open>n\<close> bytes of it belong to
  the string, and reading past all of it is undefined.
\<close>

definition hex_pair :: "byte \<Rightarrow> byte \<Rightarrow> u32" where
  "hex_pair a b = push_bit 4 (SyAsciiToHex a) OR SyAsciiToHex b"

fun uri_continue :: "u32 \<Rightarrow> nat \<Rightarrow> byte list \<Rightarrow> exn + u32 \<times> nat \<times> byte list" where
  "uri_continue c n (p # a # b # s) =
     (if p \<noteq> 37 \<or> hex_pair a b AND 0xC0 \<noteq> 0x80 then Inr (c, n, p # a # b # s)
      else uri_continue (push_bit 6 c + (0x3F AND hex_pair a b)) (n - 3) s)"
| "uri_continue c n s = (if s \<noteq> [] \<and> hd s \<noteq> 37 then Inr (c, n, s) else Inl UB)"

text \<open>One escape: what it decodes to and where the input goes on.\<close>

definition uri_escape :: "bool \<Rightarrow> nat \<Rightarrow> byte list \<Rightarrow> exn + byte list \<times> nat \<times> byte list" where
  "uri_escape bUTF8 n s =
     (case s of _ # x # y # r \<Rightarrow>
        (let c = hex_pair x y
         in if c < 0xC0 then Inr ([ucast c], n - 3, r)
            else bindE (uri_continue (Utf8Trans ! unat (c - 0xC0)) (n - 3) r) (\<lambda>(c, n, r).
                   Inr (if bUTF8 then SX_WRITE_UTF8 c else [ucast c], n, r)))
      | _ \<Rightarrow> Inl UB)"

text \<open>
  The outer loop: \<open>z\<close> is the input since \<open>zIn\<close>. Every round moves \<open>zCur\<close>, so the length of
  the memory is enough fuel.
\<close>

fun uri_loop :: "nat \<Rightarrow> bool \<Rightarrow> 's consumer \<Rightarrow> byte list \<Rightarrow> nat \<Rightarrow> byte list \<Rightarrow> 's \<Rightarrow> exn + sxrc \<times> 's" where
  "uri_loop k bUTF8 xConsumer z n [] pUserData =
     (if n > 0 then Inl UB
      else Inr (if z = [] then (SXRET_OK, pUserData) else xConsumer z pUserData))"
| "uri_loop 0 bUTF8 xConsumer z n (c # s) pUserData = Inl Fuel"
| "uri_loop (Suc k) bUTF8 xConsumer z n (c # s) pUserData =
     (if n > 0 \<and> c \<noteq> 37 \<and> c \<noteq> 43 then uri_loop k bUTF8 xConsumer (z @ [c]) (n - 1) s pUserData
      else case (if z = [] then (SXRET_OK, pUserData) else xConsumer z pUserData) of (rc, t) \<Rightarrow>
        if rc \<noteq> SXRET_OK then Inr (rc, t)
        else if n = 0 then Inr (SXRET_OK, t)
        else if c \<noteq> 43 \<and> n \<le> 2 then Inr (SXERR_OVERFLOW, t)
        else bindE (if c = 43 then Inr ([32], n - 1, s) else uri_escape bUTF8 n (c # s)) (\<lambda>(zOut, n, s).
          case xConsumer zOut t of (rc, t) \<Rightarrow>
            if rc \<noteq> SXRET_OK then Inr (rc, t) else uri_loop k bUTF8 xConsumer [] n s t))"

definition SyUriDecode :: "byte list \<Rightarrow> nat \<Rightarrow> 's consumer \<Rightarrow> 's \<Rightarrow> bool \<Rightarrow> exn + sxrc \<times> 's" where
  "SyUriDecode zSrc nLen xConsumer pUserData bUTF8 =
     uri_loop (length zSrc) bUTF8 xConsumer [] nLen zSrc pUserData"

section \<open>The JX9 functions\<close>

definition jx9Builtin_urlencode :: "byte list list \<Rightarrow> jx9_result" where
  "jx9Builtin_urlencode apArg =
     (case apArg of [] \<Rightarrow> ResultBool False
      | zIn # _ \<Rightarrow> if length zIn < 1 then ResultBool False
                   else ResultString (snd (SyUriEncode zIn Consumer [])))"

definition jx9Builtin_urldecode :: "byte list list \<Rightarrow> exn + jx9_result" where
  "jx9Builtin_urldecode apArg =
     (case apArg of [] \<Rightarrow> Inr (ResultBool False)
      | zIn # _ \<Rightarrow> if length zIn < 1 then Inr (ResultBool False)
                   else bindE (SyUriDecode (zIn @ [0]) (length zIn) Consumer [] True)
                          (\<lambda>(rc, r). Inr (ResultString r)))"

section \<open>UTF-8\<close>

text \<open>The UTF-8 form of a code point, in plain arithmetic.\<close>

definition utf8 :: "nat \<Rightarrow> nat list" where
  "utf8 n =
     (if n < 0x80 then [n]
      else if n < 0x800 then [0xC0 + n div 64, 0x80 + n mod 64]
      else if n < 0x10000 then [0xE0 + n div 4096, 0x80 + n div 64 mod 64, 0x80 + n mod 64]
      else [0xF0 + n div 262144, 0x80 + n div 4096 mod 64, 0x80 + n div 64 mod 64, 0x80 + n mod 64])"

lemma unat_u32: "n < 2 ^ 32 \<Longrightarrow> unat (word_of_nat n :: u32) = n"
  by (simp add: unat_of_nat)

lemma unat_field: "n < 2 ^ 32 \<Longrightarrow> unat (drop_bit k (word_of_nat n :: u32) AND mask m) = n div 2 ^ k mod 2 ^ m"
proof -
  assume n: "n < 2 ^ 32"
  have "unat (drop_bit k (word_of_nat n :: u32) AND mask m) = take_bit m (drop_bit k (unat (word_of_nat n :: u32)))"
    by (simp only: take_bit_eq_mask [symmetric] unsigned_take_bit_eq unat_drop_bit_eq)
  then show "unat (drop_bit k (word_of_nat n :: u32) AND mask m) = n div 2 ^ k mod 2 ^ m"
    by (simp only: unat_u32 [OF n] take_bit_eq_mod drop_bit_eq_div)
qed

lemma ucast_unat: "(ucast (w :: u32) :: byte) = word_of_nat (unat w)"
  by simp

lemma sless_u32: "n < 2 ^ 31 \<Longrightarrow> m < 2 ^ 31 \<Longrightarrow> (word_of_nat n :: u32) <s word_of_nat m \<longleftrightarrow> n < m"
proof -
  assume a: "n < 2 ^ 31" "m < 2 ^ 31"
  have "sint (word_of_nat k :: u32) = int k" if "k < 2 ^ 31" for k
  proof -
    have "sint (word_of_nat k :: u32) = signed_take_bit 31 (int k)" by (simp add: signed_of_nat)
    also have "\<dots> = int k" using that by (intro signed_take_bit_int_eq_self) simp_all
    finally show ?thesis .
  qed
  then show ?thesis using a by (simp add: word_sless_alt)
qed

lemma SX_WRITE_UTF8_nat: "n < 0x110000 \<Longrightarrow> SX_WRITE_UTF8 (word_of_nat n) = map word_of_nat (utf8 n)"
proof -
  assume n: "n < 0x110000"
  let ?c = "word_of_nat n :: u32"
  have cmp: "?c <s 0x80 \<longleftrightarrow> n < 0x80" "?c <s 0x800 \<longleftrightarrow> n < 0x800" "?c <s 0x10000 \<longleftrightarrow> n < 0x10000"
    using sless_u32 [of n "0x80"] sless_u32 [of n "0x800"] sless_u32 [of n "0x10000"] n by simp_all
  have f: "unat (drop_bit k ?c AND mask m) = n div 2 ^ k mod 2 ^ m" for k m
    using n by (intro unat_field) simp
  have fields: "unat (?c AND 0xFF) = n mod 256" "unat (?c AND 0x3F) = n mod 64"
    "unat (drop_bit 6 ?c AND 0x1F) = n div 64 mod 32" "unat (drop_bit 6 ?c AND 0x3F) = n div 64 mod 64"
    "unat (drop_bit 12 ?c AND 0x0F) = n div 4096 mod 16" "unat (drop_bit 12 ?c AND 0x3F) = n div 4096 mod 64"
    "unat (drop_bit 18 ?c AND 0x07) = n div 262144 mod 8"
    using f [of 0 8] f [of 0 6] f [of 6 5] f [of 6 6] f [of 12 4] f [of 12 6] f [of 18 3]
    by (simp_all add: mask_eq_exp_minus_1)
  have "n < 0x800 \<Longrightarrow> n div 64 mod 32 = n div 64" "n < 0x10000 \<Longrightarrow> n div 4096 mod 16 = n div 4096"
    "n div 262144 mod 8 = n div 262144" using n by simp_all
  then show ?thesis
    unfolding SX_WRITE_UTF8_def utf8_def cmp ucast_unat fields by simp
qed

section \<open>The decoder takes the encoder's output back\<close>

definition uri_char :: "byte \<Rightarrow> byte list" where
  "uri_char c =
     (if SAFE_HTTP c then [c] else if c = 32 then [43]
      else [37, zHexUpper ! unat (drop_bit 4 c AND 0x0F), zHexUpper ! unat (c AND 0x0F)])"

definition uri_chars :: "byte list \<Rightarrow> byte list" where
  "uri_chars s = concat (map uri_char s)"

lemma uri_chars_simps [simp]: "uri_chars [] = []" "uri_chars (c # s) = uri_char c @ uri_chars s"
  "uri_chars (s @ t) = uri_chars s @ uri_chars t"
  by (simp_all add: uri_chars_def)

lemma uri_pieces_chars: "concat (uri_pieces z s) = z @ uri_chars s"
  by (induction z s rule: uri_pieces.induct) (auto simp: uri_run_def uri_char_def)

lemma zHexUpper_digits: "list_all (\<lambda>i. SyAsciiToHex (zHexUpper ! i) = word_of_nat i) [0..<16]"
  by code_simp

lemma nibble: "unat (x AND (0x0F :: byte)) < 16"
proof -
  have "x AND 0x0F \<le> (0x0F :: byte)" by (rule word_and_le1)
  then show ?thesis by (simp add: word_le_nat_alt)
qed

lemma SyAsciiToHex_digit: "SyAsciiToHex (zHexUpper ! unat (x AND (0x0F :: byte))) = ucast (x AND 0x0F)"
  using zHexUpper_digits nibble [of x] by (simp add: list_all_iff)

lemma hex_pair_char: "hex_pair (zHexUpper ! unat (drop_bit 4 c AND 0x0F)) (zHexUpper ! unat (c AND 0x0F)) = ucast (c :: byte)"
proof -
  have m: "(0x0F :: byte) = mask 4" by (simp add: mask_eq_exp_minus_1)
  show ?thesis
    unfolding hex_pair_def SyAsciiToHex_digit unfolding m
    by (rule bit_word_eqI) (auto simp: bit_simps dest: bit_imp_le_length)
qed

lemma Utf8Trans_values:
  "list_all (\<lambda>k. Utf8Trans ! k = word_of_nat k) [0..<32]"
  "list_all (\<lambda>k. Utf8Trans ! (32 + k) = word_of_nat k) [0..<16]"
  "list_all (\<lambda>k. Utf8Trans ! (48 + k) = word_of_nat k) [0..<8]"
  by code_simp+

lemma Utf8Trans_nth:
  "k < 32 \<Longrightarrow> Utf8Trans ! k = word_of_nat k"
  "k < 16 \<Longrightarrow> Utf8Trans ! (32 + k) = word_of_nat k"
  "k < 8 \<Longrightarrow> Utf8Trans ! (48 + k) = word_of_nat k"
  using Utf8Trans_values by (simp_all add: list_all_iff)

lemma unat_byte_of_nat: "n < 256 \<Longrightarrow> unat (word_of_nat n :: byte) = n"
  by (simp add: unat_of_nat)

lemma not_safe: "unat c \<ge> 128 \<Longrightarrow> \<not> SAFE_HTTP c" "unat c \<ge> 128 \<Longrightarrow> c \<noteq> 32" "\<not> SAFE_HTTP 37" "\<not> SAFE_HTTP 43"
  by (auto simp: SAFE_HTTP_def SyisAlphaNum_def SyisAlpha_def SyisUpper_def SyisLower_def SyisDigit_def
      word_le_nat_alt)

text \<open>An escaped byte, as the decoder sees it.\<close>

lemma uri_char_escape:
  "\<not> SAFE_HTTP c \<Longrightarrow> c \<noteq> 32 \<Longrightarrow> \<exists>x y. uri_char c = [37, x, y] \<and> hex_pair x y = ucast c"
  by (simp add: uri_char_def hex_pair_char)

lemma ucast_word_of_nat: "n < 256 \<Longrightarrow> (ucast (word_of_nat n :: byte) :: u32) = word_of_nat n"
proof -
  assume "n < 256"
  have "(ucast (word_of_nat n :: byte) :: u32) = word_of_nat (unat (word_of_nat n :: byte))" by simp
  then show ?thesis using \<open>n < 256\<close> by (simp add: unat_byte_of_nat)
qed

lemma continuation_bits:
  "n < 256 \<Longrightarrow> (word_of_nat n :: u32) AND 0xC0 = 0x80 \<longleftrightarrow> 128 \<le> n \<and> n < 192"
  "m < 64 \<Longrightarrow> 0x3F AND (word_of_nat (128 + m) :: u32) = word_of_nat m"
proof -
  assume n: "n < 256"
  have C0: "(0xC0 :: u32) = push_bit 6 (mask 2)" by (simp add: mask_eq_exp_minus_1)
  have "unat (take_bit 2 (drop_bit 6 (word_of_nat n :: u32))) = n div 64"
    using unat_field [of n 6 2] n by (simp add: take_bit_eq_mask)
  then have "take_bit 2 (drop_bit 6 (word_of_nat n :: u32)) = word_of_nat (n div 64)"
    by (metis of_nat_unat ucast_id)
  then have "(word_of_nat n :: u32) AND 0xC0 = push_bit 6 (word_of_nat (n div 64))"
    by (simp only: C0 and_shifted_mask)
  also have "\<dots> = word_of_nat (n div 64 * 64)" by (simp add: push_bit_eq_mult)
  finally have "(word_of_nat n :: u32) AND 0xC0 = word_of_nat (n div 64 * 64)" .
  then have "unat ((word_of_nat n :: u32) AND 0xC0) = n div 64 * 64"
    using n by (simp only:) (rule unat_u32, simp)
  moreover have "(word_of_nat n :: u32) AND 0xC0 = 0x80 \<longleftrightarrow> unat ((word_of_nat n :: u32) AND 0xC0) = unat (0x80 :: u32)"
    by (rule word_unat_eq_iff)
  moreover have "n div 64 = 2 \<longleftrightarrow> 128 \<le> n \<and> n < 192"
    using div_mult_mod_eq [of n 64] mod_less_divisor [of 64 n] by linarith
  ultimately show "(word_of_nat n :: u32) AND 0xC0 = 0x80 \<longleftrightarrow> 128 \<le> n \<and> n < 192"
    by simp
next
  assume m: "m < 64"
  have "unat (0x3F AND (word_of_nat (128 + m) :: u32)) = m"
    using unat_field [of "128 + m" 0 6] mod_mult_self1 [of m 2 64] m
    by (simp add: mask_eq_exp_minus_1 and.commute add.commute)
  then show "0x3F AND (word_of_nat (128 + m) :: u32) = word_of_nat m"
    by (metis of_nat_unat ucast_id)
qed

lemma uri_continue_byte:
  assumes "m < 64"
  shows "uri_continue (word_of_nat a) n (uri_char (word_of_nat (128 + m)) @ rest) =
    uri_continue (word_of_nat (a * 64 + m)) (n - 3) rest"
proof -
  let ?b = "word_of_nat (128 + m) :: byte"
  have "128 \<le> unat ?b" using assms by (simp add: unat_byte_of_nat del: of_nat_add)
  then obtain x y where xy: "uri_char ?b = [37, x, y]" "hex_pair x y = ucast ?b"
    using uri_char_escape not_safe by blast
  have h: "hex_pair x y = word_of_nat (128 + m)" using xy(2) assms by (simp only: ucast_word_of_nat)
  have "push_bit 6 (word_of_nat a :: u32) + word_of_nat m = word_of_nat (a * 64 + m)"
    by (simp add: push_bit_eq_mult)
  then show ?thesis
    using continuation_bits(1) [of "128 + m"] continuation_bits(2) [OF assms] assms
    by (simp add: xy(1) h del: of_nat_add)
qed

lemma uri_continue_stop:
  assumes "t = [] \<or> unat (hd t) < 128 \<or> 192 \<le> unat (hd t)"
  shows "uri_continue c n (uri_chars t @ [0]) = Inr (c, n, uri_chars t @ [0])"
proof (cases t)
  case (Cons b t')
  show ?thesis
  proof (cases "SAFE_HTTP b \<or> b = 32")
    case True
    then have "uri_char b = [b] \<and> b \<noteq> 37 \<or> uri_char b = [43]"
      using not_safe(3) by (auto simp: uri_char_def)
    then obtain x where "uri_char b = [x]" "x \<noteq> 37" by force
    then show ?thesis using Cons by (cases "uri_chars t' @ [0]" rule: remdups_adj.cases) auto
  next
    case False
    then obtain x y where xy: "uri_char b = [37, x, y]" "hex_pair x y = ucast b"
      using uri_char_escape by blast
    have "ucast b = (word_of_nat (unat b) :: u32)" by simp
    then have "hex_pair x y AND 0xC0 \<noteq> 0x80"
      using continuation_bits(1) [OF unat_byte [of b]] assms Cons by (auto simp: xy(2))
    then show ?thesis using Cons xy by simp
  qed
qed simp

lemma mod_64_less: "k mod 64 < (128 :: nat)"
  by (rule order.strict_trans [of _ 64]) simp_all

text \<open>A code point beyond ASCII.\<close>

lemma uri_escape_code_point:
  assumes n: "0x80 \<le> n" "n < 0x110000" and t: "t = [] \<or> unat (hd t) < 128 \<or> 192 \<le> unat (hd t)"
  shows "\<exists>b bs. map word_of_nat (utf8 n) = b # bs \<and> 192 \<le> unat b \<and>
    uri_escape True k (uri_chars (b # bs @ t) @ [0]) =
      Inr (b # bs, k - length (uri_chars (b # bs)), uri_chars t @ [0])"
proof -
  obtain l m bs where lead: "utf8 n = l # bs" "192 \<le> l" "l < 248" "Utf8Trans ! (l - 192) = word_of_nat m"
    and cont: "\<And>k rest. uri_continue (word_of_nat m) k (uri_chars (map word_of_nat bs) @ rest) =
      uri_continue (word_of_nat n) (k - 3 * length bs) rest"
    and len: "\<forall>b \<in> set bs. 128 \<le> b \<and> b < 256"
  proof (cases "n < 0x800")
    case True
    have "n div 64 * 64 + n mod 64 = n" by simp
    then show ?thesis using n True Utf8Trans_nth(1) [of "n div 64"]
      by (intro that [of "192 + n div 64" "[128 + n mod 64]" "n div 64"])
        (simp_all add: utf8_def uri_continue_byte mod_64_less del: of_nat_add)
  next
    case F1: False
    show ?thesis
    proof (cases "n < 0x10000")
      case True
      have "n div 4096 = n div 64 div 64" by (simp add: div_mult2_eq [symmetric])
      then have "(n div 4096 * 64 + n div 64 mod 64) * 64 + n mod 64 = n" by simp
      then show ?thesis using n F1 True Utf8Trans_nth(2) [of "n div 4096"]
        by (intro that [of "224 + n div 4096" "[128 + n div 64 mod 64, 128 + n mod 64]" "n div 4096"])
          (simp_all add: utf8_def uri_continue_byte mod_64_less del: of_nat_add)
    next
      case False
      have "n div 4096 = n div 64 div 64" "n div 262144 = n div 64 div 64 div 64"
        by (simp_all add: div_mult2_eq [symmetric])
      then have "((n div 262144 * 64 + n div 4096 mod 64) * 64 + n div 64 mod 64) * 64 + n mod 64 = n" by simp
      then show ?thesis using n F1 False Utf8Trans_nth(3) [of "n div 262144"]
        by (intro that [of "240 + n div 262144" "[128 + n div 4096 mod 64, 128 + n div 64 mod 64, 128 + n mod 64]"
              "n div 262144"])
          (simp_all add: utf8_def uri_continue_byte mod_64_less del: of_nat_add)
    qed
  qed
  let ?b = "word_of_nat l :: byte" and ?bs = "map word_of_nat bs :: byte list"
  have b: "unat ?b = l" using lead by (simp add: unat_byte_of_nat)
  obtain x y where xy: "uri_char ?b = [37, x, y]" "hex_pair x y = ucast ?b"
    using uri_char_escape [of ?b] not_safe(1,2) [of ?b] b lead(2) by auto
  have h: "hex_pair x y = word_of_nat l" using xy(2) lead(3) by (simp only: ucast_word_of_nat)
  have ul: "unat (word_of_nat l :: u32) = l" using lead(3) by (intro unat_u32) simp
  then have c: "\<not> (word_of_nat l :: u32) < 0xC0" "unat ((word_of_nat l :: u32) - 0xC0) = l - 192"
    using lead(2) by (simp_all add: word_less_nat_alt unat_sub word_le_nat_alt)
  have l3: "length (uri_chars ?bs) = 3 * length bs"
    using len
  proof (induction bs)
    case (Cons a bs)
    then have "unat (word_of_nat a :: byte) \<ge> 128" by (simp add: unat_byte_of_nat)
    then obtain x y where "uri_char (word_of_nat a) = [37, x, y]"
      using uri_char_escape not_safe by blast
    then show ?case using Cons by simp
  qed simp
  have "SX_WRITE_UTF8 (word_of_nat n) = ?b # ?bs"
    using SX_WRITE_UTF8_nat n lead(1) by simp
  then have "uri_escape True k (uri_chars (?b # ?bs @ t) @ [0]) =
      Inr (?b # ?bs, k - length (uri_chars (?b # ?bs)), uri_chars t @ [0])"
    using cont [of "k - 3" "uri_chars t @ [0]"] uri_continue_stop [OF t] c lead(4)
    by (simp add: uri_escape_def xy(1) h l3 Let_def)
  then show ?thesis using lead(1,2) b by auto
qed

text \<open>UTF-8 text, and what the decoder makes of its encoding.\<close>

definition utf8_text :: "nat list \<Rightarrow> byte list" where
  "utf8_text cps = concat (map (\<lambda>n. map word_of_nat (utf8 n)) cps)"

lemma utf8_text_simps [simp]: "utf8_text [] = []" "utf8_text (n # cps) = map word_of_nat (utf8 n) @ utf8_text cps"
  by (simp_all add: utf8_text_def)

lemma utf8_text_hd:
  "\<forall>n \<in> set cps. n < 0x110000 \<Longrightarrow> utf8_text cps = [] \<or> unat (hd (utf8_text cps)) < 128 \<or> 192 \<le> unat (hd (utf8_text cps))"
proof (cases cps)
  case (Cons n cps')
  assume "\<forall>n \<in> set cps. n < 0x110000"
  then have n: "n < 0x110000" using Cons by simp
  show ?thesis
  proof (cases "n < 0x80")
    case True
    then show ?thesis using Cons by (simp add: utf8_def unat_byte_of_nat)
  next
    case False
    then obtain b bs where "map word_of_nat (utf8 n) = b # bs" "192 \<le> unat (b :: byte)"
      using uri_escape_code_point [of n "[]" 0] n by auto
    then show ?thesis using Cons by simp
  qed
qed simp

lemma uri_char_length: "1 \<le> length (uri_char c)" "length (uri_char c) \<le> 3"
  by (simp_all add: uri_char_def)

lemma Consumer_parts: "fst (Consumer z r) = SXRET_OK" "snd (Consumer z r) = r @ z"
  by (simp_all add: Consumer_def)

lemma uri_loop_text:
  assumes "\<forall>n \<in> set cps. n < 0x110000" and "length (uri_chars (utf8_text cps)) < k"
  shows "uri_loop k True Consumer z (length (uri_chars (utf8_text cps))) (uri_chars (utf8_text cps) @ [0]) r =
    Inr (SXRET_OK, r @ z @ utf8_text cps)"
  using assms
proof (induction cps arbitrary: k z r)
  case Nil
  then obtain k' where "k = Suc k'" by (cases k) auto
  then show ?case by (simp add: Consumer_def)
next
  case (Cons n cps)
  let ?t = "utf8_text cps"
  have n: "n < 0x110000" using Cons.prems(1) by simp
  have IH: "uri_loop k True Consumer z (length (uri_chars ?t)) (uri_chars ?t @ [0]) r = Inr (SXRET_OK, r @ z @ ?t)"
    if "length (uri_chars ?t) < k" for k z r using Cons.IH Cons.prems(1) that by simp
  obtain k' where k: "k = Suc k'" using Cons.prems(2) by (cases k) auto
  show ?case
  proof (cases "n < 0x80")
    case True
    let ?c = "word_of_nat n :: byte"
    have t: "utf8_text (n # cps) = ?c # ?t" using True by (simp add: utf8_def)
    have k': "length (uri_chars ?t) < k'" using Cons.prems(2) uri_char_length(1) [of ?c] k t by simp
    consider "SAFE_HTTP ?c" | "\<not> SAFE_HTTP ?c" "?c = 32" | "\<not> SAFE_HTTP ?c" "?c \<noteq> 32" by blast
    then show ?thesis
    proof cases
      case 1
      then have "uri_char ?c = [?c]" "?c \<noteq> 37" "?c \<noteq> 43" using not_safe(3,4) by (auto simp: uri_char_def)
      then show ?thesis using IH [OF k', of "z @ [?c]"] k unfolding t by simp
    next
      case 2
      then have "uri_char ?c = [43]" by (simp add: uri_char_def)
      then show ?thesis using IH [OF k', of "[]"] k 2 unfolding t
        by (simp add: prod.case_eq_if Consumer_parts)
    next
      case 3
      then obtain x y where xy: "uri_char ?c = [37, x, y]" "hex_pair x y = ucast ?c"
        using uri_char_escape by blast
      have "hex_pair x y = word_of_nat n" using xy(2) True by (simp only: ucast_word_of_nat)
      moreover have "(word_of_nat n :: u32) < 0xC0" using True by (simp add: word_less_nat_alt unat_u32)
      ultimately have "uri_escape True (length (uri_chars (?c # ?t))) (uri_chars (?c # ?t) @ [0]) =
          Inr ([?c], length (uri_chars ?t), uri_chars ?t @ [0])"
        using True unat_u32 [of n] ucast_unat [of "word_of_nat n"] by (simp add: uri_escape_def xy(1) Let_def)
      then show ?thesis using IH [OF k', of "[]"] k xy(1) unfolding t by (simp add: prod.case_eq_if Consumer_parts)
    qed
  next
    case False
    let ?l = "length (uri_chars (utf8_text (n # cps)))"
    have "0x80 \<le> n" "?t = [] \<or> unat (hd ?t) < 128 \<or> 192 \<le> unat (hd ?t)"
      using False utf8_text_hd [of cps] Cons.prems(1) by auto
    from uri_escape_code_point [OF this(1) n this(2), of ?l]
    obtain b bs where b: "map word_of_nat (utf8 n) = b # bs" "192 \<le> unat b"
      and e: "uri_escape True ?l (uri_chars (b # bs @ ?t) @ [0]) =
        Inr (b # bs, ?l - length (uri_chars (b # bs)), uri_chars ?t @ [0])"
      by (elim exE conjE)
    have t: "utf8_text (n # cps) = b # bs @ ?t" using b(1) by simp
    obtain x y where xy: "uri_char b = [37, x, y]" using uri_char_escape [of b] not_safe(1,2) [of b] b(2) by auto
    have k': "length (uri_chars ?t) < k'" using Cons.prems(2) k t xy by simp
    show ?thesis using IH [OF k', of "[]"] k xy e unfolding t by (simp add: add.assoc prod.case_eq_if Consumer_parts)
  qed
qed

definition url_encode :: "byte list \<Rightarrow> byte list" where
  "url_encode s = snd (SyUriEncode s Consumer [])"

definition url_decode :: "byte list \<Rightarrow> exn + byte list" where
  "url_decode s = bindE (SyUriDecode (s @ [0]) (length s) Consumer [] True) (\<lambda>(rc, r). Inr r)"

definition is_utf8 :: "byte list \<Rightarrow> bool" where
  "is_utf8 s = (\<exists>cps. s = utf8_text cps \<and> (\<forall>n \<in> set cps. n < 0x110000))"

lemma is_utf8I: "\<forall>n \<in> set cps. n < 0x110000 \<Longrightarrow> is_utf8 (utf8_text cps)"
  by (auto simp: is_utf8_def)

interpretation urlc: codec url_encode url_decode is_utf8
proof unfold_locales
  fix s assume "is_utf8 s"
  then obtain cps where s: "s = utf8_text cps" "\<forall>n \<in> set cps. n < 0x110000" by (auto simp: is_utf8_def)
  have "url_encode s = uri_chars s" by (simp add: url_encode_def SyUriEncode_def uri_pieces_chars)
  then show "url_decode (url_encode s) = Inr s"
    using uri_loop_text [OF s(2), of "Suc (length (uri_chars s))" "[]" "[]"] s(1)
    by (simp add: url_decode_def SyUriDecode_def)
qed

section \<open>The decoder stops, and where it can leave the string\<close>

lemma uri_continue_length: "uri_continue c n s = Inr (c', n', s') \<Longrightarrow> length s' \<le> length s"
  by (induction c n s rule: uri_continue.induct) (auto split: if_splits simp: Let_def)

lemma uri_continue_no_fuel: "uri_continue c n s \<noteq> Inl Fuel"
  by (induction c n s rule: uri_continue.induct) auto

lemma uri_escape_shorter: "uri_escape u n s = Inr (z, n', s') \<Longrightarrow> length s' < length s"
  by (auto simp: uri_escape_def Let_def bindE_eq_Inr split: list.splits if_splits dest: uri_continue_length)

lemma uri_escape_no_fuel: "uri_escape u n s \<noteq> Inl Fuel"
  by (auto simp: uri_escape_def Let_def bindE_eq_Inl uri_continue_no_fuel split: list.splits)

lemma uri_loop_no_fuel: "length s \<le> k \<Longrightarrow> uri_loop k u xConsumer z n s t \<noteq> Inl Fuel"
proof (induction k u xConsumer z n s t rule: uri_loop.induct)
  case (3 k u xConsumer z n c s t)
  show ?case
  proof
    assume f: "uri_loop (Suc k) u xConsumer z n (c # s) t = Inl Fuel"
    have plain: "\<not> (n > 0 \<and> c \<noteq> 37 \<and> c \<noteq> 43)"
      using f "3.IH"(1) "3.prems" by (cases "n > 0 \<and> c \<noteq> 37 \<and> c \<noteq> 43") simp_all
    obtain t1 where t1: "(if z = [] then (SXRET_OK, t) else xConsumer z t) = (SXRET_OK, t1)" and n: "n \<noteq> 0" "\<not> (c \<noteq> 43 \<and> n \<le> 2)"
      using f plain by (fastforce split: if_splits prod.splits)
    let ?e = "if c = 43 then Inr ([32], n - 1, s) else uri_escape u n (c # s)"
    have "?e \<noteq> Inl Fuel" using uri_escape_no_fuel by auto
    then obtain zOut n' s' where e: "?e = Inr (zOut, n', s')"
      and f': "(case xConsumer zOut t1 of (rc, t) \<Rightarrow>
            if rc \<noteq> SXRET_OK then Inr (rc, t) else uri_loop k u xConsumer [] n' s' t) = Inl Fuel"
      using f plain t1 n by (cases ?e) (auto simp: bindE_def split: prod.splits)
    have "length s' < length (c # s)"
      using e uri_escape_shorter [of u n "c # s" zOut n' s'] by (auto split: if_splits)
    then have "length s' \<le> k" using "3.prems" by simp
    then show False
      using f' "3.IH"(2) [OF plain t1 [symmetric] _ n e refl refl] by (auto split: prod.splits if_splits)
  qed
qed auto

lemma SyUriDecode_no_fuel: "SyUriDecode zSrc nLen xConsumer pUserData bUTF8 \<noteq> Inl Fuel"
  by (simp add: SyUriDecode_def uri_loop_no_fuel)

section \<open>What the URL codec promises\<close>

text \<open>
  C24. Decoding what \<open>urlencode\<close> returned for a non-empty UTF-8 string returns the string,
  and different UTF-8 strings have different forms.
\<close>

theorem url_roundtrip:
  assumes "is_utf8 s" and "s \<noteq> []" and "is_utf8 t" and "t \<noteq> []"
  shows "\<exists>e. jx9Builtin_urlencode (s # xs) = ResultString e \<and> jx9Builtin_urldecode (e # ys) = Inr (ResultString s) \<and>
    (jx9Builtin_urlencode (t # zs) = ResultString e \<longleftrightarrow> t = s)"
proof -
  obtain rc where dec: "SyUriDecode (url_encode s @ [0]) (length (url_encode s)) Consumer [] True = Inr (rc, s)"
    using urlc.decode_encode [OF assms(1)] by (auto simp: url_decode_def bindE_eq_Inr)
  have "is_utf8 []" using is_utf8I [of "[]"] by simp
  then have "url_encode s \<noteq> url_encode []" using urlc.encode_inj [OF assms(1)] assms(2) by blast
  moreover have "url_encode [] = []" by (simp add: url_encode_def SyUriEncode_def uri_run_def)
  ultimately have ne: "url_encode s \<noteq> []" by simp
  have inj: "url_encode t = url_encode s \<longleftrightarrow> t = s" by (rule urlc.encode_inj [OF assms(3,1)])
  have enc: "jx9Builtin_urlencode (u # xs) = ResultString (url_encode u)" if "u \<noteq> []" for u xs
    using that by (cases u) (simp_all add: jx9Builtin_urlencode_def url_encode_def)
  have "jx9Builtin_urldecode (url_encode s # ys) = Inr (ResultString s)"
    using ne dec by (cases "url_encode s") (simp_all add: jx9Builtin_urldecode_def)
  then show ?thesis using inj enc assms(2,4) by simp
qed

theorem url_roundtrip_witness:
  "\<exists>e. jx9Builtin_urlencode [[65, 0xC3, 0xA9]] = ResultString e \<and>
     jx9Builtin_urldecode [e] = Inr (ResultString [65, 0xC3, 0xA9])"
proof -
  have "utf8_text [65, 0xE9] = [65, 0xC3, 0xA9]" "utf8_text [66] = [66]" by (simp_all add: utf8_def)
  then have "is_utf8 [65, 0xC3, 0xA9]" "is_utf8 [66]"
    using is_utf8I [of "[65, 0xE9]"] is_utf8I [of "[66]"] by simp_all
  from url_roundtrip [OF this(1) _ this(2), of "[]" "[]" "[]"] show ?thesis by auto
qed

text \<open>
  The decoder always comes to an end, for every memory, length and consumer, also where
  it runs past the string.
\<close>

theorem SyUriDecode_terminates: "SyUriDecode zSrc nLen xConsumer pUserData bUTF8 \<noteq> Inl Fuel"
  by (rule SyUriDecode_no_fuel)

text \<open>
  It can run past the string: one that ends within the escape of a continuation byte
  makes it read beyond the terminator.
\<close>

theorem urldecode_overruns: "jx9Builtin_urldecode [bytes_of ''caf%C3%8''] = Inl UB"
  by code_simp

end

