(* ===== verification/Jx9Map.thy ===== *)
theory Jx9Map
  imports Jx9Codec "HOL-Library.AList"
begin

text \<open>
  The hashmaps of JX9 (\<open>hashmap.c\<close> within \<open>src/jx9/jx9/jx9.c\<close>), which hold its arrays and
  objects: buckets of colliding nodes, the list of nodes in the order of insertion, growth,
  lookup, insertion, removal, copying and union. A node is an address in \<open>nodes\<close>; a
  collision chain and the linear list are lists of addresses, head first. Values are kept in
  the nodes. Counters are unbounded here, which they are as long as a map has fewer than
  \<open>2 ^ 28\<close> entries.
\<close>

section \<open>The data\<close>

datatype hkey = IntKey u64 | BlobKey "byte list"

record 'v hnode =
  xKey :: hkey
  nHash :: u32
  nVal :: 'v

record 'v hashmap =
  nodes :: "nat \<rightharpoonup> 'v hnode"
  next_node :: nat
  apBucket :: "nat list list"
  linked :: "nat list"
  pCur :: "nat option"
  json_object :: bool
  iNextIdx :: u64

definition nEntry :: "'v hashmap \<Rightarrow> nat" where
  "nEntry m = length (linked m)"

definition nSize :: "'v hashmap \<Rightarrow> nat" where
  "nSize m = length (apBucket m)"

text \<open>What the allocator has room for: a value, a node, a table of so many buckets.\<close>

record room =
  value_room :: bool
  node_room :: bool
  bucket_room :: "nat \<Rightarrow> bool"

abbreviation SXERR_MEM :: sxrc where "SXERR_MEM \<equiv> SXERR_OTHER (- 1)"

definition IntHash :: "u64 \<Rightarrow> u32" where
  "IntHash iKey = ucast (iKey XOR push_bit 8 iKey XOR signed_drop_bit 8 iKey)"

definition BinHash :: "byte list \<Rightarrow> u32" where
  "BinHash pSrc = bin_hash_loop 5381 pSrc"

definition key_hash :: "hkey \<Rightarrow> u32" where
  "key_hash k = (case k of IntKey i \<Rightarrow> IntHash i | BlobKey s \<Rightarrow> BinHash s)"

definition bucket_of :: "u32 \<Rightarrow> nat \<Rightarrow> nat" where
  "bucket_of h n = unat (h AND (word_of_nat n - 1))"

definition jx9NewHashmap :: "'v hashmap" where
  "jx9NewHashmap = \<lparr>nodes = Map.empty, next_node = 0, apBucket = [], linked = [], pCur = None,
     json_object = False, iNextIdx = 0\<rparr>"

section \<open>Nodes and buckets\<close>

definition HashmapNewNode :: "hkey \<Rightarrow> u32 \<Rightarrow> 'v \<Rightarrow> 'v hnode" where
  "HashmapNewNode key h v = \<lparr>xKey = key, nHash = h, nVal = v\<rparr>"

definition push_bucket :: "nat \<Rightarrow> nat \<Rightarrow> nat list list \<Rightarrow> nat list list" where
  "push_bucket a b bs = bs[b := a # (bs ! b)]"

definition HashmapNodeLink :: "'v hashmap \<Rightarrow> 'v hnode \<Rightarrow> nat \<Rightarrow> 'v hashmap" where
  "HashmapNodeLink m nd nBucketIdx =
     (let a = next_node m
      in m\<lparr>nodes := (nodes m)(a \<mapsto> nd), next_node := Suc a,
           apBucket := push_bucket a nBucketIdx (apBucket m),
           pCur := (if linked m = [] then Some a else pCur m), linked := linked m @ [a]\<rparr>)"

text \<open>The node linked after \<open>a\<close>; the code's lists run backwards (\<open>pPrev\<close>).\<close>

fun next_after :: "nat \<Rightarrow> nat list \<Rightarrow> nat option" where
  "next_after a [] = None"
| "next_after a [b] = None"
| "next_after a (b # c # bs) = (if a = b then Some c else next_after a (c # bs))"

definition jx9HashmapUnlinkNode :: "nat \<Rightarrow> 'v hashmap \<Rightarrow> 'v hashmap" where
  "jx9HashmapUnlinkNode a m =
     (case nodes m a of
        None \<Rightarrow> m
      | Some nd \<Rightarrow>
          (let b = bucket_of (nHash nd) (nSize m);
               m = m\<lparr>apBucket := (apBucket m)[b := remove1 a (apBucket m ! b)],
                     pCur := (if pCur m = Some a then next_after a (linked m) else pCur m),
                     linked := remove1 a (linked m), nodes := (nodes m)(a := None)\<rparr>
           in if nEntry m < 1 then m\<lparr>apBucket := [], pCur := None\<rparr> else m))"

definition HASHMAP_FILL_FACTOR :: nat where
  "HASHMAP_FILL_FACTOR = 3"

fun rehash :: "'v hashmap \<Rightarrow> nat list \<Rightarrow> nat list list \<Rightarrow> nat list list" where
  "rehash m [] bs = bs"
| "rehash m (a # as) bs =
     rehash m as (case nodes m a of None \<Rightarrow> bs | Some nd \<Rightarrow> push_bucket a (bucket_of (nHash nd) (length bs)) bs)"

definition HashmapGrowBucket :: "room \<Rightarrow> 'v hashmap \<Rightarrow> sxrc \<times> 'v hashmap" where
  "HashmapGrowBucket al m =
     (if nEntry m \<ge> nSize m * HASHMAP_FILL_FACTOR
      then
        (let nNew = (if nSize m * 2 < 1 then 16 else nSize m * 2)
         in if \<not> bucket_room al nNew
            then (if nSize m < 1 then (SXERR_MEM, m) else (SXRET_OK, m))
            else
              (let apNew = replicate nNew []
               in if nSize m = 0 then (SXRET_OK, m\<lparr>apBucket := apNew\<rparr>)
                  else (SXRET_OK, m\<lparr>apBucket := rehash m (linked m) apNew\<rparr>)))
      else (SXRET_OK, m))"

section \<open>Insertion and lookup by one kind of key\<close>

definition insert_node :: "room \<Rightarrow> 'v hashmap \<Rightarrow> hkey \<Rightarrow> 'v \<Rightarrow> sxrc \<times> 'v hashmap" where
  "insert_node al m key v =
     (if \<not> value_room al then (SXERR_MEM, m)
      else
        (let h = key_hash key
         in if \<not> node_room al then (SXERR_MEM, m)
            else
              (case HashmapGrowBucket al m of (rc, m') \<Rightarrow>
                 if rc \<noteq> SXRET_OK then (rc, m')
                 else (SXRET_OK, HashmapNodeLink m' (HashmapNewNode key h v) (bucket_of h (nSize m'))))))"

definition HashmapInsertIntKey :: "room \<Rightarrow> 'v hashmap \<Rightarrow> u64 \<Rightarrow> 'v \<Rightarrow> sxrc \<times> 'v hashmap" where
  "HashmapInsertIntKey al m iKey v = insert_node al m (IntKey iKey) v"

definition HashmapInsertBlobKey :: "room \<Rightarrow> 'v hashmap \<Rightarrow> byte list \<Rightarrow> 'v \<Rightarrow> sxrc \<times> 'v hashmap" where
  "HashmapInsertBlobKey al m key v = insert_node al m (BlobKey key) v"

definition int_node :: "u32 \<Rightarrow> u64 \<Rightarrow> 'v hnode \<Rightarrow> bool" where
  "int_node h iKey nd = (case xKey nd of IntKey i \<Rightarrow> nHash nd = h \<and> i = iKey | BlobKey s \<Rightarrow> False)"

definition blob_node :: "u32 \<Rightarrow> byte list \<Rightarrow> 'v hnode \<Rightarrow> bool" where
  "blob_node h key nd =
     (case xKey nd of
        IntKey i \<Rightarrow> False
      | BlobKey s \<Rightarrow> nHash nd = h \<and> length s = length key \<and> SyMemcmp (Some s) (Some key) (length key) = Inr 0)"

definition find_node :: "('v hnode \<Rightarrow> bool) \<Rightarrow> 'v hashmap \<Rightarrow> nat list \<Rightarrow> nat option" where
  "find_node P m as = find (\<lambda>a. case nodes m a of None \<Rightarrow> False | Some nd \<Rightarrow> P nd) as"

definition HashmapLookupIntKey :: "'v hashmap \<Rightarrow> u64 \<Rightarrow> nat option" where
  "HashmapLookupIntKey m iKey =
     (if nEntry m < 1 then None
      else (let h = IntHash iKey in find_node (int_node h iKey) m (apBucket m ! bucket_of h (nSize m))))"

definition HashmapLookupBlobKey :: "'v hashmap \<Rightarrow> byte list \<Rightarrow> nat option" where
  "HashmapLookupBlobKey m key =
     (if nEntry m < 1 then None
      else (let h = BinHash key in find_node (blob_node h key) m (apBucket m ! bucket_of h (nSize m))))"

section \<open>Keys of any kind\<close>

definition HashmapIsIntKey :: "byte list \<Rightarrow> bool" where
  "HashmapIsIntKey z =
     (if length z > 1 \<and> hd z = 48 then False
      else list_all (\<lambda>c. c < 0xC0 \<and> SyisDigit c) (if length z > 1 \<and> hd z \<in> {45, 43} then tl z else z))"

definition jx9TokenValueToInt64 :: "byte list \<Rightarrow> exn + u64" where
  "jx9TokenValueToInt64 z =
     (case z of
        [] \<Rightarrow> Inr 0
      | c # z' \<Rightarrow>
          if c = 48
          then (case z' of
                  [] \<Rightarrow> Inr 0
                | d # _ \<Rightarrow>
                    if d = 120 \<or> d = 88 then Inr (fst (snd (SyHexStrToInt64 z)))
                    else if d = 98 \<or> d = 66 then Inr (fst (snd (SyBinaryStrToInt64 z)))
                    else Inr (fst (snd (SyOctalStrToInt64 z))))
          else bindE (SyStrToInt64 z) (\<lambda>(ok, v, r). Inr v))"

text \<open>
  Keys handed over by the callers modelled here: an integer or a string. \<open>HashmapLookup\<close>
  looks a non-empty string up as it is.
\<close>

definition HashmapLookup :: "'v hashmap \<Rightarrow> hkey \<Rightarrow> exn + nat option" where
  "HashmapLookup m key =
     (case key of
        BlobKey s \<Rightarrow>
          if s \<noteq> [] then Inr (HashmapLookupBlobKey m s)
          else bindE (jx9TokenValueToInt64 s) (\<lambda>i. Inr (HashmapLookupIntKey m i))
      | IntKey i \<Rightarrow> Inr (HashmapLookupIntKey m i))"

definition jx9HashmapLookup :: "'v hashmap \<Rightarrow> hkey \<Rightarrow> exn + nat option" where
  "jx9HashmapLookup m key = (if nEntry m < 1 then Inr None else HashmapLookup m key)"

definition set_value :: "nat \<Rightarrow> 'v \<Rightarrow> 'v hashmap \<Rightarrow> 'v hashmap" where
  "set_value a v m = m\<lparr>nodes := (nodes m)(a := map_option (\<lambda>nd. nd\<lparr>nVal := v\<rparr>) (nodes m a))\<rparr>"

text \<open>The first index from \<open>i\<close> on that is not in use; one more try than entries is enough.\<close>

fun skip_reserved :: "nat \<Rightarrow> 'v hashmap \<Rightarrow> u64 \<Rightarrow> u64" where
  "skip_reserved 0 m i = i"
| "skip_reserved (Suc n) m i = (if HashmapLookupIntKey m i \<noteq> None then skip_reserved n m (i + 1) else i)"

definition insert_int :: "room \<Rightarrow> 'v hashmap \<Rightarrow> u64 \<Rightarrow> 'v \<Rightarrow> sxrc \<times> 'v hashmap" where
  "insert_int al m iKey v =
     (case HashmapLookupIntKey m iKey of
        Some a \<Rightarrow> (SXRET_OK, set_value a v m)
      | None \<Rightarrow>
          (case HashmapInsertIntKey al m iKey v of (rc, m) \<Rightarrow>
             if rc = SXRET_OK \<and> sint iKey \<ge> sint (iNextIdx m)
             then (rc, m\<lparr>iNextIdx := skip_reserved (Suc (nEntry m)) m (iKey + 1)\<rparr>)
             else (rc, m)))"

definition insert_auto :: "room \<Rightarrow> 'v hashmap \<Rightarrow> 'v \<Rightarrow> sxrc \<times> 'v hashmap" where
  "insert_auto al m v =
     (case HashmapInsertIntKey al m (iNextIdx m) v of (rc, m) \<Rightarrow>
        if rc = SXRET_OK then (rc, m\<lparr>iNextIdx := iNextIdx m + 1\<rparr>) else (rc, m))"

definition is_string_key :: "hkey option \<Rightarrow> bool" where
  "is_string_key pKey = (case pKey of Some (BlobKey s) \<Rightarrow> True | _ \<Rightarrow> False)"

definition HashmapInsert :: "room \<Rightarrow> 'v hashmap \<Rightarrow> hkey option \<Rightarrow> 'v \<Rightarrow> exn + sxrc \<times> 'v hashmap" where
  "HashmapInsert al m pKey v =
     (let m = (if nEntry m < 1 \<and> is_string_key pKey then m\<lparr>json_object := True\<rparr> else m)
      in case pKey of
           None \<Rightarrow> Inr (insert_auto al m v)
         | Some (IntKey i) \<Rightarrow> Inr (insert_int al m i v)
         | Some (BlobKey s) \<Rightarrow>
             if s = [] then Inr (insert_auto al m v)
             else if HashmapIsIntKey s
             then bindE (jx9TokenValueToInt64 s) (\<lambda>i. Inr (insert_int al m i v))
             else
               (case HashmapLookupBlobKey m s of
                  Some a \<Rightarrow> Inr (SXRET_OK, set_value a v m)
                | None \<Rightarrow> Inr (HashmapInsertBlobKey al m s v)))"

section \<open>Walking, copying, union, removal\<close>

definition entries :: "'v hashmap \<Rightarrow> (hkey \<times> 'v) list" where
  "entries m = List.map_filter (\<lambda>a. map_option (\<lambda>nd. (xKey nd, nVal nd)) (nodes m a)) (linked m)"

text \<open>The callback is given every key and value in order until it asks to stop.\<close>

fun walk :: "(hkey \<Rightarrow> 'v \<Rightarrow> 's \<Rightarrow> sxrc \<times> 's) \<Rightarrow> (hkey \<times> 'v) list \<Rightarrow> 's \<Rightarrow> sxrc \<times> 's" where
  "walk xWalk [] t = (SXRET_OK, t)"
| "walk xWalk ((k, v) # kvs) t =
     (case xWalk k v t of (rc, t) \<Rightarrow> if rc \<noteq> SXRET_OK then (SXERR_ABORT, t) else walk xWalk kvs t)"

definition jx9HashmapWalk :: "'v hashmap \<Rightarrow> (hkey \<Rightarrow> 'v \<Rightarrow> 's \<Rightarrow> sxrc \<times> 's) \<Rightarrow> 's \<Rightarrow> sxrc \<times> 's" where
  "jx9HashmapWalk m xWalk t = walk xWalk (entries m) t"

definition jx9HashmapResetLoopCursor :: "'v hashmap \<Rightarrow> 'v hashmap" where
  "jx9HashmapResetLoopCursor m = m\<lparr>pCur := (case linked m of [] \<Rightarrow> None | a # _ \<Rightarrow> Some a)\<rparr>"

definition jx9HashmapGetNextEntry :: "'v hashmap \<Rightarrow> nat option \<times> 'v hashmap" where
  "jx9HashmapGetNextEntry m =
     (case pCur m of None \<Rightarrow> (None, m) | Some a \<Rightarrow> (Some a, m\<lparr>pCur := next_after a (linked m)\<rparr>))"

fun insert_all ::
  "('v hashmap \<Rightarrow> hkey \<Rightarrow> 'v \<Rightarrow> exn + sxrc \<times> 'v hashmap) \<Rightarrow> 'v hashmap \<Rightarrow> (hkey \<times> 'v) list \<Rightarrow> exn + sxrc \<times> 'v hashmap"
where
  "insert_all ins m [] = Inr (SXRET_OK, m)"
| "insert_all ins m ((k, v) # kvs) =
     bindE (ins m k v) (\<lambda>(rc, m). if rc \<noteq> SXRET_OK then Inr (rc, m) else insert_all ins m kvs)"

text \<open>The source and the destination are different maps.\<close>

definition HashmapMerge :: "room \<Rightarrow> 'v hashmap \<Rightarrow> 'v hashmap \<Rightarrow> exn + sxrc \<times> 'v hashmap" where
  "HashmapMerge al pSrc pDest =
     insert_all (\<lambda>m k v. HashmapInsert al m (case k of BlobKey s \<Rightarrow> Some k | IntKey i \<Rightarrow> None) v) pDest (entries pSrc)"

definition jx9HashmapDup :: "room \<Rightarrow> 'v hashmap \<Rightarrow> 'v hashmap \<Rightarrow> exn + sxrc \<times> 'v hashmap" where
  "jx9HashmapDup al pSrc pDest =
     insert_all (\<lambda>m k v. case k of BlobKey s \<Rightarrow> HashmapInsert al m (Some k) v
                           | IntKey i \<Rightarrow> Inr (HashmapInsertIntKey al m i v)) pDest (entries pSrc)"

text \<open>The step of \<open>jx9HashmapUnion\<close>: an entry of the right map whose key is not taken yet.\<close>

definition union_step :: "room \<Rightarrow> 'v hashmap \<Rightarrow> hkey \<Rightarrow> 'v \<Rightarrow> exn + sxrc \<times> 'v hashmap" where
  "union_step al m k v =
     (case k of
        BlobKey s \<Rightarrow>
          if HashmapLookupBlobKey m s \<noteq> None then Inr (SXRET_OK, m) else Inr (HashmapInsertBlobKey al m s v)
      | IntKey i \<Rightarrow>
          if HashmapLookupIntKey m i \<noteq> None then Inr (SXRET_OK, m) else Inr (HashmapInsertIntKey al m i v))"

definition jx9HashmapUnion :: "room \<Rightarrow> 'v hashmap \<Rightarrow> 'v hashmap \<Rightarrow> exn + sxrc \<times> 'v hashmap" where
  "jx9HashmapUnion al pLeft pRight = insert_all (union_step al) pLeft (entries pRight)"

definition jx9HashmapRelease :: "'v hashmap \<Rightarrow> 'v hashmap" where
  "jx9HashmapRelease m =
     m\<lparr>nodes := (nodes m) |` (- set (linked m)), apBucket := [], iNextIdx := 0, linked := [], pCur := None\<rparr>"

section \<open>The invariant\<close>

text \<open>
  A well-formed map: the linear list has each node once and every node of it is in the
  bucket of its key's hash, once, and no other node is in a bucket; a map with an entry has
  buckets. In a proper map no two nodes have the same key.
\<close>

definition node_keys :: "'v hashmap \<Rightarrow> hkey list" where
  "node_keys m = map fst (entries m)"

definition in_bucket :: "'v hashmap \<Rightarrow> nat \<Rightarrow> nat" where
  "in_bucket m a = (case nodes m a of None \<Rightarrow> 0 | Some nd \<Rightarrow> bucket_of (nHash nd) (nSize m))"

definition chains_ok :: "'v hashmap \<Rightarrow> bool" where
  "chains_ok m \<longleftrightarrow> (\<forall>b < nSize m. distinct (apBucket m ! b) \<and>
     set (apBucket m ! b) = {a \<in> set (linked m). in_bucket m a = b})"

definition nodes_ok :: "'v hashmap \<Rightarrow> bool" where
  "nodes_ok m \<longleftrightarrow> distinct (linked m) \<and>
     (\<forall>a \<in> set (linked m). a < next_node m \<and> (\<exists>nd. nodes m a = Some nd \<and> nHash nd = key_hash (xKey nd)))"

definition map_wf :: "'v hashmap \<Rightarrow> bool" where
  "map_wf m \<longleftrightarrow> nodes_ok m \<and> chains_ok m \<and> (linked m \<noteq> [] \<longrightarrow> 0 < nSize m) \<and> nSize m < 2 ^ 32"

definition map_ok :: "'v hashmap \<Rightarrow> bool" where
  "map_ok m \<longleftrightarrow> map_wf m \<and> distinct (node_keys m)"

lemma map_okD: "map_ok m \<Longrightarrow> map_wf m" "map_ok m \<Longrightarrow> nodes_ok m" "map_ok m \<Longrightarrow> distinct (map fst (entries m))"
  by (simp_all add: map_ok_def map_wf_def node_keys_def)

lemma bucket_less: "0 < n \<Longrightarrow> n < 2 ^ 32 \<Longrightarrow> bucket_of h n < n"
proof -
  assume n: "0 < n" "n < 2 ^ 32"
  have "h AND (word_of_nat n - 1) \<le> word_of_nat n - 1" by (rule word_and_le1)
  then have "bucket_of h n \<le> unat (word_of_nat n - 1 :: u32)" by (simp add: bucket_of_def word_le_nat_alt)
  moreover have "unat (word_of_nat n - 1 :: u32) = n - 1"
  proof -
    have "(word_of_nat n - 1 :: u32) = word_of_nat (n - 1)" using n by (simp add: of_nat_diff)
    then have "unat (word_of_nat n - 1 :: u32) = unat (word_of_nat (n - 1) :: u32)" by (rule arg_cong)
    also have "\<dots> = (n - 1) mod 2 ^ 32" by (simp only: unat_of_nat) simp
    finally show ?thesis using n by simp
  qed
  ultimately show ?thesis using n by simp
qed

lemma entries_Cons:
  "entries (m\<lparr>linked := a # as\<rparr>) =
     (case nodes m a of None \<Rightarrow> [] | Some nd \<Rightarrow> [(xKey nd, nVal nd)]) @ entries (m\<lparr>linked := as\<rparr>)"
  by (simp add: entries_def List.map_filter_def split: option.split)

lemma entries_nodes_ok:
  "nodes_ok m \<Longrightarrow> entries m = map (\<lambda>a. (xKey (the (nodes m a)), nVal (the (nodes m a)))) (linked m)"
proof -
  have "\<forall>a \<in> set as. nodes m a \<noteq> None \<Longrightarrow>
    List.map_filter (\<lambda>a. map_option (\<lambda>nd. (xKey nd, nVal nd)) (nodes m a)) as =
      map (\<lambda>a. (xKey (the (nodes m a)), nVal (the (nodes m a)))) as" for as
    by (induction as) (auto simp: List.map_filter_simps split: option.split)
  moreover assume "nodes_ok m"
  then have "\<forall>a \<in> set (linked m). nodes m a \<noteq> None" by (auto simp: nodes_ok_def)
  ultimately show ?thesis by (simp add: entries_def)
qed

lemma nEntry_entries: "map_ok m \<Longrightarrow> nEntry m = length (entries m)"
  by (simp add: entries_nodes_ok [OF map_okD(2)] nEntry_def)

section \<open>Lookup\<close>

definition lookup_key :: "'v hashmap \<Rightarrow> hkey \<Rightarrow> nat option" where
  "lookup_key m k = (case k of IntKey i \<Rightarrow> HashmapLookupIntKey m i | BlobKey s \<Rightarrow> HashmapLookupBlobKey m s)"

lemma fast_cmp_eq: "length s = length t \<Longrightarrow> fast_cmp s t (length t) = Inr 0 \<longleftrightarrow> s = t"
proof (induction s t rule: list_induct2)
  case (Cons a s b t)
  then show ?case by (simp add: word_uint_eq_iff)
qed simp

lemma SyMemcmp_eq: "length s = length t \<Longrightarrow> SyMemcmp (Some s) (Some t) (length t) = Inr 0 \<longleftrightarrow> s = t"
  by (auto simp: SyMemcmp_def fast_cmp_eq)

lemma node_tests:
  "int_node (IntHash i) i = (\<lambda>nd. xKey nd = IntKey i \<and> nHash nd = key_hash (xKey nd))"
  "blob_node (BinHash s) s = (\<lambda>nd. xKey nd = BlobKey s \<and> nHash nd = key_hash (xKey nd))"
  by (rule ext, auto simp: int_node_def blob_node_def key_hash_def SyMemcmp_eq split: hkey.splits)+

lemma find_node_Some: "find_node P m as = Some a \<Longrightarrow> a \<in> set as \<and> (\<exists>nd. nodes m a = Some nd \<and> P nd)"
  unfolding find_node_def find_Some_iff by (auto split: option.splits)

lemma find_node_None: "find_node P m as = None \<longleftrightarrow> (\<forall>a \<in> set as. \<forall>nd. nodes m a = Some nd \<longrightarrow> \<not> P nd)"
  unfolding find_node_def find_None_iff by (auto split: option.splits)

lemma lookup_key_find:
  "lookup_key m k =
     (if linked m = [] then None
      else find_node (\<lambda>nd. xKey nd = k \<and> nHash nd = key_hash (xKey nd)) m (apBucket m ! bucket_of (key_hash k) (nSize m)))"
proof (cases k)
  case (IntKey i)
  then have "key_hash k = IntHash i" by (simp add: key_hash_def)
  with IntKey show ?thesis by (simp add: lookup_key_def HashmapLookupIntKey_def nEntry_def node_tests)
next
  case (BlobKey s)
  then have "key_hash k = BinHash s" by (simp add: key_hash_def)
  with BlobKey show ?thesis by (simp add: lookup_key_def HashmapLookupBlobKey_def nEntry_def node_tests)
qed

lemma in_own_bucket:
  assumes "map_wf m" and "a \<in> set (linked m)" and "nodes m a = Some nd"
  shows "a \<in> set (apBucket m ! bucket_of (key_hash (xKey nd)) (nSize m))"
proof -
  have "nHash nd = key_hash (xKey nd)" using assms by (auto simp: map_wf_def nodes_ok_def)
  moreover have "bucket_of (nHash nd) (nSize m) < nSize m"
    using assms(1,2) by (intro bucket_less) (auto simp: map_wf_def)
  ultimately show ?thesis using assms by (auto simp: map_wf_def chains_ok_def in_bucket_def)
qed

lemma bucket_linked:
  assumes "map_wf m" and "linked m \<noteq> []" and "a \<in> set (apBucket m ! bucket_of h (nSize m))"
  shows "a \<in> set (linked m)"
proof -
  have "bucket_of h (nSize m) < nSize m" using assms(1,2) by (intro bucket_less) (auto simp: map_wf_def)
  then show ?thesis using assms by (auto simp: map_wf_def chains_ok_def)
qed

lemma lookup_key_Some:
  assumes "map_wf m" and "lookup_key m k = Some a"
  shows "a \<in> set (linked m) \<and> (\<exists>nd. nodes m a = Some nd \<and> xKey nd = k)"
  using assms bucket_linked [OF assms(1)]
  by (auto simp: lookup_key_find split: if_splits dest!: find_node_Some)

lemma lookup_key_None:
  assumes "map_wf m"
  shows "lookup_key m k = None \<longleftrightarrow> k \<notin> set (node_keys m)"
proof -
  have ok: "nodes_ok m" using assms by (simp add: map_wf_def)
  have keys: "k \<in> set (node_keys m) \<longleftrightarrow> (\<exists>a \<in> set (linked m). \<exists>nd. nodes m a = Some nd \<and> xKey nd = k)"
    using ok by (force simp: node_keys_def entries_nodes_ok nodes_ok_def)
  have found: "lookup_key m k \<noteq> None" if "a \<in> set (linked m)" "nodes m a = Some nd" "xKey nd = k" for a nd
  proof -
    have "nHash nd = key_hash (xKey nd)" using ok that by (auto simp: nodes_ok_def)
    then show ?thesis using in_own_bucket [OF assms that(1,2)] that
      by (auto simp: lookup_key_find find_node_None simp del: not_None_eq)
  qed
  show ?thesis
  proof
    assume "lookup_key m k = None"
    then show "k \<notin> set (node_keys m)" using keys found by blast
  next
    assume "k \<notin> set (node_keys m)"
    then show "lookup_key m k = None"
      using keys lookup_key_Some [OF assms] by (cases "lookup_key m k") blast+
  qed
qed

text \<open>Reading a value through lookup is reading the entries as a map.\<close>

definition get_value :: "'v hashmap \<Rightarrow> hkey \<Rightarrow> 'v option" where
  "get_value m k = Option.bind (lookup_key m k) (\<lambda>a. map_option nVal (nodes m a))"

lemma get_value_entries:
  assumes "map_ok m"
  shows "get_value m k = map_of (entries m) k"
proof (cases "lookup_key m k")
  case None
  then have "k \<notin> fst ` set (entries m)" using lookup_key_None [OF map_okD(1) [OF assms]] by (simp add: node_keys_def)
  then have "map_of (entries m) k = None" by (simp only: map_of_eq_None_iff) simp
  then show ?thesis using None by (simp add: get_value_def)
next
  case (Some a)
  from lookup_key_Some [OF map_okD(1) [OF assms] this] obtain nd where a: "a \<in> set (linked m)" "nodes m a = Some nd" "xKey nd = k" by blast
  have "nodes_ok m" "distinct (map fst (entries m))" using assms by (rule map_okD)+
  moreover have "(k, nVal nd) \<in> set (entries m)" using a entries_nodes_ok [OF calculation(1)] by force
  ultimately show ?thesis using Some a by (simp add: get_value_def)
qed

section \<open>Growth and insertion\<close>

lemma push_bucket_simps:
  "length (push_bucket a b bs) = length bs"
  "b < length bs \<Longrightarrow> push_bucket a b bs ! b' = (if b' = b then a # bs ! b else bs ! b')"
  by (simp_all add: push_bucket_def)

lemma rehash_buckets:
  assumes "distinct as" and "0 < length bs" and "length bs < 2 ^ 32"
    and "\<forall>a \<in> set as. \<forall>b < length bs. a \<notin> set (bs ! b)" and "\<forall>a \<in> set as. nodes m a \<noteq> None"
    and "\<forall>b < length bs. distinct (bs ! b)"
  shows "length (rehash m as bs) = length bs \<and> (\<forall>b < length bs. distinct (rehash m as bs ! b) \<and>
    set (rehash m as bs ! b) = set (bs ! b) \<union> {a \<in> set as. bucket_of (nHash (the (nodes m a))) (length bs) = b})"
  using assms
proof (induction as arbitrary: bs)
  case (Cons a as)
  obtain nd where nd: "nodes m a = Some nd" using Cons.prems(5) by auto
  let ?b = "bucket_of (nHash nd) (length bs)"
  let ?bs = "push_bucket a ?b bs"
  have b: "?b < length bs" using Cons.prems(2,3) by (rule bucket_less)
  have at: "?bs ! c = (if c = ?b then a # bs ! ?b else bs ! c)" for c
    by (rule push_bucket_simps(2) [OF b])
  have len: "length ?bs = length bs" by (rule push_bucket_simps(1))
  have "length (rehash m as ?bs) = length ?bs \<and> (\<forall>b < length ?bs. distinct (rehash m as ?bs ! b) \<and>
    set (rehash m as ?bs ! b) = set (?bs ! b) \<union> {a \<in> set as. bucket_of (nHash (the (nodes m a))) (length ?bs) = b})"
  proof (rule Cons.IH)
    show "\<forall>x \<in> set as. \<forall>c < length ?bs. x \<notin> set (?bs ! c)"
      using Cons.prems(1,4) at len by auto
    show "\<forall>c < length ?bs. distinct (?bs ! c)" using Cons.prems(4,6) at len b by auto
  qed (use Cons.prems len in auto)
  moreover have "rehash m (a # as) bs = rehash m as ?bs" by (simp add: nd)
  ultimately show ?case using at len nd by auto
qed simp

lemma GrowBucket_ok:
  assumes "map_wf m" and "nEntry m < 2 ^ 28" and "HashmapGrowBucket al m = (rc, m')"
  shows "(rc = SXERR_MEM \<and> m' = m) \<or>
    (rc = SXRET_OK \<and> map_wf m' \<and> 0 < nSize m' \<and> m' = m\<lparr>apBucket := apBucket m'\<rparr>)"
proof (cases "nEntry m \<ge> nSize m * HASHMAP_FILL_FACTOR")
  case False
  then have "0 < nSize m" using assms(1) by (auto simp: map_wf_def nEntry_def HASHMAP_FILL_FACTOR_def)
  then show ?thesis using False assms by (simp add: HashmapGrowBucket_def)
next
  case True
  let ?n = "if nSize m * 2 < 1 then 16 else nSize m * 2"
  have n: "0 < ?n" "?n < 2 ^ 32" using True assms(2) by (auto simp: HASHMAP_FILL_FACTOR_def)
  show ?thesis
  proof (cases "bucket_room al ?n")
    case no: False
    then show ?thesis
      using True assms by (cases "nSize m") (auto simp: HashmapGrowBucket_def Let_def split: if_splits)
  next
    case yes: True
    define bs where "bs = rehash m (linked m) (replicate ?n [])"
    have nok: "nodes_ok m" using assms(1) by (simp add: map_wf_def)
    have re: "length bs = ?n \<and> (\<forall>b < ?n. distinct (bs ! b) \<and>
        set (bs ! b) = {a \<in> set (linked m). bucket_of (nHash (the (nodes m a))) ?n = b})"
    proof -
      define e where "e = (replicate ?n [] :: nat list list)"
      have e: "length e = ?n" "\<forall>b < ?n. e ! b = []" by (simp_all add: e_def)
      have l: "distinct (linked m)" "\<forall>a \<in> set (linked m). nodes m a \<noteq> None" using nok by (auto simp: nodes_ok_def)
      have "length (rehash m (linked m) e) = length e \<and> (\<forall>b < length e. distinct (rehash m (linked m) e ! b) \<and>
        set (rehash m (linked m) e ! b) = set (e ! b) \<union> {a \<in> set (linked m). bucket_of (nHash (the (nodes m a))) (length e) = b})"
        by (rule rehash_buckets) (use n e l in auto)
      then show ?thesis unfolding bs_def e_def [symmetric] e(1) using e(2) by simp
    qed
    let ?m = "m\<lparr>apBucket := bs\<rparr>"
    have "linked m = []" if "nSize m = 0" using that assms(1) by (auto simp: map_wf_def)
    then have m': "rc = SXRET_OK" "m' = ?m"
      using True yes assms(3) by (auto simp: HashmapGrowBucket_def Let_def bs_def split: if_splits)
    have "chains_ok ?m"
      using re nok by (auto simp: chains_ok_def nSize_def in_bucket_def nodes_ok_def split: option.splits)
    moreover have "nodes_ok ?m" using nok by (simp add: nodes_ok_def)
    moreover have "node_keys ?m = node_keys m" by (simp add: node_keys_def entries_def)
    ultimately have "map_wf ?m" using assms(1) re n by (simp add: map_wf_def nSize_def)
    then show ?thesis using m' re n by (simp add: nSize_def)
  qed
qed

lemma entries_frame:
  "(\<And>a. a \<in> set (linked m) \<Longrightarrow> nodes m' a = nodes m a) \<Longrightarrow> linked m' = linked m \<Longrightarrow> entries m' = entries m"
  by (simp add: entries_def List.map_filter_def cong: map_cong filter_cong)

lemma link_ok:
  fixes v :: 'v and k :: hkey
  assumes ok: "map_wf m" and size: "0 < nSize m"
  defines "m' \<equiv> HashmapNodeLink m (HashmapNewNode k (key_hash k) v) (bucket_of (key_hash k) (nSize m))"
  shows "map_wf m'" and "entries m' = entries m @ [(k, v)]"
proof -
  let ?a = "next_node m" and ?b = "bucket_of (key_hash k) (nSize m)" and ?nd = "HashmapNewNode k (key_hash k) v"
  have nok: "nodes_ok m" and lt: "nSize m < 2 ^ 32" using ok by (simp_all add: map_wf_def)
  have b: "?b < length (apBucket m)" using bucket_less [OF size lt] by (simp add: nSize_def)
  have m': "nodes m' = (nodes m)(?a \<mapsto> ?nd)" "next_node m' = Suc ?a" "linked m' = linked m @ [?a]"
    "apBucket m' = push_bucket ?a ?b (apBucket m)" "nSize m' = nSize m"
    by (simp_all add: m'_def HashmapNodeLink_def Let_def nSize_def push_bucket_def)
  have fresh: "?a \<notin> set (linked m)" using nok by (auto simp: nodes_ok_def)
  have nok': "nodes_ok m'" using nok fresh by (auto simp: nodes_ok_def m' HashmapNewNode_def less_Suc_eq)
  have "entries (m'\<lparr>linked := linked m\<rparr>) = entries (m'\<lparr>nodes := nodes m, linked := linked m\<rparr>)"
    by (rule entries_frame) (use fresh in \<open>auto simp: m'\<close>)
  also have "\<dots> = entries m" by (simp add: entries_def)
  finally have "entries (m'\<lparr>linked := linked m\<rparr>) = entries m" .
  moreover have "entries m' = entries (m'\<lparr>linked := linked m\<rparr>) @ [(k, v)]"
    by (simp add: entries_def m' List.map_filter_def HashmapNewNode_def)
  ultimately show e: "entries m' = entries m @ [(k, v)]" by simp
  have "chains_ok m'"
    unfolding chains_ok_def
  proof (intro allI impI)
    fix c assume "c < nSize m'"
    then have c: "c < nSize m" by (simp add: m')
    have old: "distinct (apBucket m ! c)" "set (apBucket m ! c) = {a \<in> set (linked m). in_bucket m a = c}"
      using ok c by (auto simp: map_wf_def chains_ok_def)
    have new_at: "apBucket m' ! c = (if c = ?b then ?a # apBucket m ! ?b else apBucket m ! c)"
      unfolding m' by (rule push_bucket_simps(2) [OF b])
    have inb: "in_bucket m' a = (if a = ?a then ?b else in_bucket m a)" for a
      by (simp add: in_bucket_def m' HashmapNewNode_def split: option.split)
    show "distinct (apBucket m' ! c) \<and> set (apBucket m' ! c) = {a \<in> set (linked m'). in_bucket m' a = c}"
      unfolding new_at inb m'(3) using old fresh by auto
  qed
  then show "map_wf m'" using nok' size lt by (simp add: map_wf_def m')
qed

lemma link_fields:
  "iNextIdx (HashmapNodeLink m nd b) = iNextIdx m" "json_object (HashmapNodeLink m nd b) = json_object m"
  "nEntry (HashmapNodeLink m nd b) = Suc (nEntry m)"
  by (simp_all add: HashmapNodeLink_def Let_def nEntry_def)

lemma insert_node_ok:
  assumes "map_wf m" and "nEntry m < 2 ^ 28" and "insert_node al m k v = (rc, m')"
  shows "(rc = SXERR_MEM \<and> m' = m) \<or>
    (rc = SXRET_OK \<and> map_wf m' \<and> entries m' = entries m @ [(k, v)] \<and> iNextIdx m' = iNextIdx m \<and>
     json_object m' = json_object m \<and> nEntry m' = Suc (nEntry m))"
proof (cases "value_room al \<and> node_room al")
  case False
  then show ?thesis using assms(3) by (auto simp: insert_node_def Let_def split: if_splits)
next
  case True
  obtain rc1 m1 where g: "HashmapGrowBucket al m = (rc1, m1)" by fastforce
  from GrowBucket_ok [OF assms(1,2) g] show ?thesis
  proof
    assume "rc1 = SXERR_MEM \<and> m1 = m"
    then show ?thesis using True assms(3) g by (simp add: insert_node_def Let_def)
  next
    assume ok: "rc1 = SXRET_OK \<and> map_wf m1 \<and> 0 < nSize m1 \<and> m1 = m\<lparr>apBucket := apBucket m1\<rparr>"
    then have m1: "m1 = m\<lparr>apBucket := apBucket m1\<rparr>" by blast
    have same: "entries m1 = entries m" "node_keys m1 = node_keys m" "iNextIdx m1 = iNextIdx m"
      "json_object m1 = json_object m" "nEntry m1 = nEntry m"
      by (subst m1, simp add: entries_def node_keys_def nEntry_def)+
    have "m' = HashmapNodeLink m1 (HashmapNewNode k (key_hash k) v) (bucket_of (key_hash k) (nSize m1))" "rc = SXRET_OK"
      using True assms(3) g ok by (simp_all add: insert_node_def Let_def)
    then show ?thesis
      using link_ok [of m1 k v] ok same by (simp add: link_fields)
  qed
qed

lemma set_value_ok:
  assumes ok: "map_ok m" and a: "a \<in> set (linked m)" "nodes m a = Some nd"
  shows "map_ok (set_value a v m)" and "entries (set_value a v m) = AList.update (xKey nd) v (entries m)"
    and "nEntry (set_value a v m) = nEntry m" and "iNextIdx (set_value a v m) = iNextIdx m"
    and "json_object (set_value a v m) = json_object m"
proof -
  let ?m = "set_value a v m"
  have m: "linked ?m = linked m" "apBucket ?m = apBucket m" "next_node ?m = next_node m" "nSize ?m = nSize m"
    "nodes ?m = (nodes m)(a \<mapsto> nd\<lparr>nVal := v\<rparr>)"
    using a by (simp_all add: set_value_def nSize_def)
  have nok: "nodes_ok m" using ok by (rule map_okD)
  have nok': "nodes_ok ?m" using nok a by (auto simp: nodes_ok_def m)
  have keys: "node_keys ?m = node_keys m"
    using a by (simp add: node_keys_def entries_nodes_ok [OF nok] entries_nodes_ok [OF nok'] m)
  have "in_bucket ?m c = in_bucket m c" for c using a by (simp add: in_bucket_def m split: option.split)
  then have "chains_ok ?m" using ok by (simp add: map_ok_def map_wf_def chains_ok_def m)
  then show "map_ok ?m" using ok nok' keys by (simp add: map_ok_def map_wf_def m)
  define f where "f c = (xKey (the (nodes m c)), nVal (the (nodes m c)))" for c
  have e: "entries m = map f (linked m)" unfolding f_def by (rule entries_nodes_ok [OF nok])
  have d: "distinct (map fst (map f (linked m)))"
    using map_okD(3) [OF ok] unfolding e by simp
  have upd: "AList.update (xKey nd) v (map f as) = map (\<lambda>c. if c = a then (xKey nd, v) else f c) as"
    if "distinct (map fst (map f as))" "a \<in> set as" for as
    using that
  proof (induction as)
    case (Cons c as)
    have fa: "f a = (xKey nd, nVal nd)" using a by (simp add: f_def)
    show ?case
    proof (cases "c = a")
      case True
      then have "a \<notin> set as" using Cons.prems(1) by force
      then show ?thesis using True fa by (simp cong: map_cong)
    next
      case False
      then have "fst (f c) \<noteq> xKey nd" using Cons.prems fa by force
      then show ?thesis using False Cons by (cases "f c") auto
    qed
  qed simp
  show "entries ?m = AList.update (xKey nd) v (entries m)"
    unfolding e upd [OF d a(1)] entries_nodes_ok [OF nok'] m using a by (simp add: f_def)
qed (simp_all add: set_value_def nEntry_def)

text \<open>Overwriting the value of a key or adding the key: what both insertions do.\<close>

lemma AList_update_new: "k \<notin> fst ` set kvs \<Longrightarrow> AList.update k v kvs = kvs @ [(k, v)]"
  by (induction kvs) auto

lemma map_ok_frame [simp]:
  "map_ok (m\<lparr>iNextIdx := i\<rparr>) = map_ok m" "entries (m\<lparr>iNextIdx := i\<rparr>) = entries m"
  "map_ok (m\<lparr>json_object := b\<rparr>) = map_ok m" "entries (m\<lparr>json_object := b\<rparr>) = entries m"
  "nEntry (m\<lparr>iNextIdx := i\<rparr>) = nEntry m" "nEntry (m\<lparr>json_object := b\<rparr>) = nEntry m"
  by (simp_all add: map_ok_def map_wf_def nodes_ok_def chains_ok_def in_bucket_def nSize_def node_keys_def entries_def
      nEntry_def cong: option.case_cong)

lemma lookup_frame [simp]:
  "lookup_key (m\<lparr>iNextIdx := i\<rparr>) = lookup_key m" "lookup_key (m\<lparr>json_object := b\<rparr>) = lookup_key m"
  by (rule ext, simp add: lookup_key_find find_node_def nSize_def)+

lemma lookup_kinds_frame [simp]:
  "HashmapLookupIntKey (m\<lparr>iNextIdx := i\<rparr>) k = HashmapLookupIntKey m k"
  "HashmapLookupIntKey (m\<lparr>json_object := b\<rparr>) k = HashmapLookupIntKey m k"
  "HashmapLookupBlobKey (m\<lparr>iNextIdx := i\<rparr>) s = HashmapLookupBlobKey m s"
  "HashmapLookupBlobKey (m\<lparr>json_object := b\<rparr>) s = HashmapLookupBlobKey m s"
  by (simp_all add: HashmapLookupIntKey_def HashmapLookupBlobKey_def find_node_def nSize_def nEntry_def)

definition indices_ok :: "'v hashmap \<Rightarrow> bool" where
  "indices_ok m \<longleftrightarrow> (\<forall>i. IntKey i \<in> set (node_keys m) \<longrightarrow> sint i < sint (iNextIdx m))"

text \<open>What an insertion by a proper key does, whether the key is there or not.\<close>

definition put_key :: "room \<Rightarrow> 'v hashmap \<Rightarrow> hkey \<Rightarrow> 'v \<Rightarrow> sxrc \<times> 'v hashmap" where
  "put_key al m k v =
     (case lookup_key m k of Some a \<Rightarrow> (SXRET_OK, set_value a v m) | None \<Rightarrow> insert_node al m k v)"

definition plenty :: "room \<Rightarrow> bool" where
  "plenty al \<longleftrightarrow> value_room al \<and> node_room al \<and> (\<forall>n. bucket_room al n)"

definition put_result :: "room \<Rightarrow> 'v hashmap \<Rightarrow> hkey \<Rightarrow> 'v \<Rightarrow> sxrc \<Rightarrow> 'v hashmap \<Rightarrow> bool" where
  "put_result al m k v rc m' \<longleftrightarrow> map_ok m' \<and> (rc = SXRET_OK \<or> rc = SXERR_MEM) \<and> (plenty al \<longrightarrow> rc = SXRET_OK) \<and>
     entries m' = (if rc = SXRET_OK then AList.update k v (entries m) else entries m)"

lemma insert_node_plenty: "plenty al \<Longrightarrow> insert_node al m k v = (rc, m') \<Longrightarrow> rc = SXRET_OK"
  by (auto simp: plenty_def insert_node_def HashmapGrowBucket_def Let_def split: if_splits prod.splits)

lemma put_key_ok:
  assumes "map_ok m" and "nEntry m < 2 ^ 28" and "put_key al m k v = (rc, m')"
  shows "put_result al m k v rc m' \<and> iNextIdx m' = iNextIdx m \<and> json_object m' = json_object m \<and>
    nEntry m' \<le> Suc (nEntry m)"
proof (cases "lookup_key m k")
  case (Some a)
  from lookup_key_Some [OF map_okD(1) [OF assms(1)] this] obtain nd
    where a: "a \<in> set (linked m)" "nodes m a = Some nd" "xKey nd = k" by blast
  show ?thesis
    using set_value_ok [OF assms(1) a(1,2), of v] a(3) assms(3) Some by (simp add: put_key_def put_result_def)
next
  case None
  then have new: "k \<notin> fst ` set (entries m)"
    using lookup_key_None [OF map_okD(1) [OF assms(1)]] by (simp add: node_keys_def)
  have ins: "insert_node al m k v = (rc, m')" using assms(3) None by (simp add: put_key_def)
  from insert_node_ok [OF map_okD(1) [OF assms(1)] assms(2) ins] show ?thesis
  proof
    assume "rc = SXERR_MEM \<and> m' = m"
    then show ?thesis using assms(1) insert_node_plenty [OF _ ins] by (auto simp: put_result_def)
  next
    assume m': "rc = SXRET_OK \<and> map_wf m' \<and> entries m' = entries m @ [(k, v)] \<and> iNextIdx m' = iNextIdx m \<and>
      json_object m' = json_object m \<and> nEntry m' = Suc (nEntry m)"
    then have "distinct (node_keys m')" using map_okD(3) [OF assms(1)] new by (simp add: node_keys_def)
    then show ?thesis using m' new by (simp add: put_result_def map_ok_def AList_update_new)
  qed
qed

text \<open>
  The next automatic index after an entry was stored: one past the key, when the key was not
  below it. The largest 64-bit index has none after it.
\<close>

definition next_index :: "'v hashmap \<Rightarrow> hkey \<Rightarrow> u64" where
  "next_index m k =
     (case k of IntKey i \<Rightarrow> if sint (iNextIdx m) \<le> sint i then i + 1 else iNextIdx m | BlobKey s \<Rightarrow> iNextIdx m)"

definition index_after :: "'v hashmap \<Rightarrow> hkey \<Rightarrow> sxrc \<Rightarrow> u64 \<Rightarrow> bool" where
  "index_after m k rc j \<longleftrightarrow>
     (k \<noteq> IntKey (2 ^ 63 - 1) \<longrightarrow> j = (if rc = SXRET_OK then next_index m k else iNextIdx m))"

lemma sint_succ: "i \<noteq> 2 ^ 63 - 1 \<Longrightarrow> sint (i + 1) = sint i + 1" for i :: u64
proof -
  assume i: "i \<noteq> 2 ^ 63 - 1"
  have "sint i \<noteq> 2 ^ 63 - 1"
  proof
    assume "sint i = 2 ^ 63 - 1"
    then have "word_of_int (sint i) = (word_of_int (2 ^ 63 - 1) :: u64)" by simp
    then show False using i by simp
  qed
  then have "- (2 ^ 63) \<le> sint i + 1" "sint i + 1 < 2 ^ 63"
    using sint_ge [of i] sint_lt [of i] by simp_all
  then have "signed_take_bit 63 (sint i + 1) = sint i + 1" by (simp add: signed_take_bit_int_eq_self_iff)
  moreover have "sint (i + 1) = signed_take_bit 63 (sint i + 1)" by (simp add: sint_word_ariths(1))
  ultimately show ?thesis by simp
qed

lemma indices_after:
  assumes "indices_ok m" and "k \<noteq> IntKey (2 ^ 63 - 1)" and "set (node_keys m') = insert k (set (node_keys m))"
    and "iNextIdx m' = next_index m k"
  shows "indices_ok m'"
proof -
  have "sint i < sint (next_index m k)" if "IntKey i = k \<or> IntKey i \<in> set (node_keys m)" for i
  proof (cases k)
    case (IntKey n)
    have "sint i < sint (iNextIdx m) \<or> i = n" using that assms(1) IntKey by (auto simp: indices_ok_def)
    moreover have "sint (n + 1) = sint n + 1" using assms(2) IntKey sint_succ by auto
    ultimately show ?thesis using IntKey by (auto simp: next_index_def)
  next
    case (BlobKey s)
    then show ?thesis using that assms(1) by (auto simp: next_index_def indices_ok_def)
  qed
  then show ?thesis using assms(3,4) by (auto simp: indices_ok_def)
qed

lemma insert_int_put:
  assumes "map_ok m" and "indices_ok m" and "nEntry m < 2 ^ 28" and a: "insert_int al m i v = (rc, m')"
  shows "\<exists>m1 j. put_key al m (IntKey i) v = (rc, m1) \<and> m' = m1\<lparr>iNextIdx := j\<rparr> \<and> index_after m (IntKey i) rc j"
proof (cases "lookup_key m (IntKey i)")
  case (Some b)
  then have m': "rc = SXRET_OK" "m' = set_value b v m" using a by (simp_all add: insert_int_def lookup_key_def)
  from lookup_key_Some [OF map_okD(1) [OF assms(1)] Some] obtain nd
    where b: "b \<in> set (linked m)" "nodes m b = Some nd" by blast
  have "IntKey i \<in> set (node_keys m)" using lookup_key_None [OF map_okD(1) [OF assms(1)], of "IntKey i"] Some by auto
  then have "sint i < sint (iNextIdx m)" using assms(2) by (simp add: indices_ok_def)
  then have "index_after m (IntKey i) rc (iNextIdx m')"
    using m' set_value_ok(4) [OF assms(1) b] by (simp add: index_after_def next_index_def)
  moreover have "put_key al m (IntKey i) v = (rc, m')" using m' Some by (simp add: put_key_def)
  moreover have "m' = m'\<lparr>iNextIdx := iNextIdx m'\<rparr>" by simp
  ultimately show ?thesis by blast
next
  case None
  obtain rc1 m1 where i: "insert_node al m (IntKey i) v = (rc1, m1)" by fastforce
  then have put: "put_key al m (IntKey i) v = (rc1, m1)" using None by (simp add: put_key_def)
  have idx: "iNextIdx m1 = iNextIdx m" using put_key_ok [OF assms(1,3) put] by simp
  have m': "(rc, m') = (if rc1 = SXRET_OK \<and> sint i \<ge> sint (iNextIdx m1)
      then (rc1, m1\<lparr>iNextIdx := skip_reserved (Suc (nEntry m1)) m1 (i + 1)\<rparr>) else (rc1, m1))"
    using a None i by (simp add: insert_int_def lookup_key_def HashmapInsertIntKey_def split: if_splits)
  have skip: "skip_reserved (Suc n) m1 (i + 1) = i + 1"
    if "rc1 = SXRET_OK" "sint (iNextIdx m) \<le> sint i" "i \<noteq> 2 ^ 63 - 1" for n
  proof -
    have e: "map_ok m1" "entries m1 = AList.update (IntKey i) v (entries m)"
      using put_key_ok [OF assms(1,3) put] that(1) by (simp_all add: put_result_def)
    have "IntKey (i + 1) \<notin> set (node_keys m)" using assms(2) that(2) sint_succ [OF that(3)] by (auto simp: indices_ok_def)
    moreover have "i + 1 \<noteq> i" using sint_succ [OF that(3)] by auto
    ultimately have "IntKey (i + 1) \<notin> set (node_keys m1)" by (auto simp: node_keys_def e(2) AList.dom_update)
    then show ?thesis using lookup_key_None [OF map_okD(1) [OF e(1)], of "IntKey (i + 1)"] by (simp add: lookup_key_def)
  qed
  have "rc = rc1 \<and> m' = m1\<lparr>iNextIdx := iNextIdx m'\<rparr> \<and> index_after m (IntKey i) rc (iNextIdx m')"
    using m' skip idx by (auto simp: index_after_def next_index_def split: if_splits)
  then show ?thesis using put by blast
qed

lemma insert_auto_put:
  assumes "map_ok m" and "indices_ok m" and "nEntry m < 2 ^ 28" and "insert_auto al m v = (rc, m')"
  shows "\<exists>m1 j. put_key al m (IntKey (iNextIdx m)) v = (rc, m1) \<and> m' = m1\<lparr>iNextIdx := j\<rparr> \<and>
    index_after m (IntKey (iNextIdx m)) rc j"
proof -
  have "IntKey (iNextIdx m) \<notin> set (node_keys m)" using assms(2) by (auto simp: indices_ok_def)
  then have "lookup_key m (IntKey (iNextIdx m)) = None" using lookup_key_None [OF map_okD(1) [OF assms(1)]] by blast
  moreover obtain rc1 m1 where i: "insert_node al m (IntKey (iNextIdx m)) v = (rc1, m1)" by fastforce
  ultimately have put: "put_key al m (IntKey (iNextIdx m)) v = (rc1, m1)" by (simp add: put_key_def)
  have "(rc, m') = (if rc1 = SXRET_OK then (rc1, m1\<lparr>iNextIdx := iNextIdx m1 + 1\<rparr>) else (rc1, m1))"
    using assms(4) i by (simp add: insert_auto_def HashmapInsertIntKey_def)
  moreover have "iNextIdx m1 = iNextIdx m" using put_key_ok [OF assms(1,3) put] by simp
  ultimately have "rc = rc1 \<and> m' = m1\<lparr>iNextIdx := iNextIdx m'\<rparr> \<and> index_after m (IntKey (iNextIdx m)) rc (iNextIdx m')"
    by (auto simp: index_after_def next_index_def split: if_splits)
  then show ?thesis using put by blast
qed

text \<open>The key an entry is stored under.\<close>

definition stored_key :: "'v hashmap \<Rightarrow> hkey option \<Rightarrow> exn + hkey" where
  "stored_key m pKey =
     (case pKey of
        None \<Rightarrow> Inr (IntKey (iNextIdx m))
      | Some (IntKey i) \<Rightarrow> Inr (IntKey i)
      | Some (BlobKey s) \<Rightarrow>
          if s = [] then Inr (IntKey (iNextIdx m))
          else if HashmapIsIntKey s then bindE (jx9TokenValueToInt64 s) (\<lambda>i. Inr (IntKey i))
          else Inr (BlobKey s))"

lemma SyStrToInt64_total: "SyStrToInt64 s \<noteq> Inl e"
proof -
  have that: "\<exists>c. SyMemcmp (Some t) (Some (if neg then SXINT64_MIN_STR else SXINT64_MAX_STR)) 19 = Inr c"
    if "19 \<le> length t" for t neg
    using that limits fast_cmp_total [of 19 t "if neg then SXINT64_MIN_STR else SXINT64_MAX_STR"]
    by (auto simp: SyMemcmp_def)
  obtain neg t where "read_sign (skip_space s) = (neg, t)" by fastforce
  then show ?thesis
    using that [of "skip_zeros t" neg] by (cases "19 \<le> length (skip_zeros t)") (auto simp: SyStrToInt64_def Let_def)
qed

lemma TokenValue_total: "\<exists>i. jx9TokenValueToInt64 s = Inr i"
  using SyStrToInt64_total [of s]
  by (cases "SyStrToInt64 s") (auto simp: jx9TokenValueToInt64_def split: list.split)

lemma stored_key_total: "\<exists>k. stored_key m pKey = Inr k"
  using TokenValue_total by (auto simp: stored_key_def bindE_eq_Inr split: option.split hkey.split)

lemma HashmapInsert_put:
  assumes "map_ok m" and "indices_ok m" and "nEntry m < 2 ^ 28" and k: "stored_key m pKey = Inr k"
  shows "\<exists>rc m1 j. put_key al (m\<lparr>json_object := (json_object m \<or> nEntry m < 1 \<and> is_string_key pKey)\<rparr>) k v = (rc, m1) \<and>
    HashmapInsert al m pKey v = Inr (rc, m1\<lparr>iNextIdx := j\<rparr>) \<and> index_after m k rc j"
proof -
  let ?m = "m\<lparr>json_object := (json_object m \<or> nEntry m < 1 \<and> is_string_key pKey)\<rparr>"
  have m: "(if nEntry m < 1 \<and> is_string_key pKey then m\<lparr>json_object := True\<rparr> else m) = ?m" by simp
  have ok: "map_ok ?m" "indices_ok ?m" "nEntry ?m < 2 ^ 28" "iNextIdx ?m = iNextIdx m"
    using assms(1-3) by (simp_all add: indices_ok_def node_keys_def)
  have after: "index_after ?m k rc j = index_after m k rc j" for rc j
    by (cases k) (simp_all add: index_after_def next_index_def)
  have same: "m1 = m1\<lparr>iNextIdx := iNextIdx m1\<rparr>" for m1 :: "'a hashmap" by simp
  have ins: "HashmapInsert al m pKey v =
     (case pKey of
        None \<Rightarrow> Inr (insert_auto al ?m v)
      | Some (IntKey i) \<Rightarrow> Inr (insert_int al ?m i v)
      | Some (BlobKey s) \<Rightarrow>
          if s = [] then Inr (insert_auto al ?m v)
          else if HashmapIsIntKey s then bindE (jx9TokenValueToInt64 s) (\<lambda>i. Inr (insert_int al ?m i v))
          else (case HashmapLookupBlobKey ?m s of
                  Some a \<Rightarrow> Inr (SXRET_OK, set_value a v ?m)
                | None \<Rightarrow> Inr (HashmapInsertBlobKey al ?m s v)))"
    unfolding HashmapInsert_def Let_def m ..
  consider (auto) "k = IntKey (iNextIdx ?m)" "HashmapInsert al m pKey v = Inr (insert_auto al ?m v)"
    | (int) i where "k = IntKey i" "HashmapInsert al m pKey v = Inr (insert_int al ?m i v)"
    | (blob) s where "k = BlobKey s" "HashmapInsert al m pKey v = Inr (put_key al ?m k v)"
  proof -
    show thesis if auto: "k = IntKey (iNextIdx ?m) \<Longrightarrow> HashmapInsert al m pKey v = Inr (insert_auto al ?m v) \<Longrightarrow> thesis"
      and int: "\<And>i. k = IntKey i \<Longrightarrow> HashmapInsert al m pKey v = Inr (insert_int al ?m i v) \<Longrightarrow> thesis"
      and blob: "\<And>s. k = BlobKey s \<Longrightarrow> HashmapInsert al m pKey v = Inr (put_key al ?m k v) \<Longrightarrow> thesis"
    proof (cases pKey)
      case None
      have "HashmapInsert al m pKey v = Inr (insert_auto al ?m v)" unfolding ins unfolding None by simp
      moreover have "k = IntKey (iNextIdx ?m)" using k None by (simp add: stored_key_def)
      ultimately show thesis using auto by blast
    next
      case (Some key)
      show thesis
      proof (cases key)
        case (IntKey i)
        have "HashmapInsert al m pKey v = Inr (insert_int al ?m i v)" unfolding ins unfolding Some IntKey by simp
        moreover have "k = IntKey i" using k Some IntKey by (simp add: stored_key_def)
        ultimately show thesis using int by blast
      next
        case (BlobKey s)
        obtain i where i: "jx9TokenValueToInt64 s = Inr i" using TokenValue_total by blast
        consider "s = []" | "s \<noteq> []" "HashmapIsIntKey s" | "s \<noteq> []" "\<not> HashmapIsIntKey s" by blast
        then show thesis
        proof cases
          case 1
          have "HashmapInsert al m pKey v = Inr (insert_auto al ?m v)" unfolding ins unfolding Some BlobKey using 1 by simp
          moreover have "k = IntKey (iNextIdx ?m)" using k Some BlobKey 1 by (simp add: stored_key_def)
          ultimately show thesis using auto by blast
        next
          case 2
          then have "HashmapInsert al m pKey v = Inr (insert_int al ?m i v)" unfolding ins unfolding Some BlobKey using i by simp
          moreover have "k = IntKey i" using k Some BlobKey i 2 by (simp add: stored_key_def)
          ultimately show thesis using int by blast
        next
          case 3
          then have "k = BlobKey s" using k Some BlobKey by (simp add: stored_key_def)
          moreover have "HashmapInsert al m pKey v = Inr (put_key al ?m (BlobKey s) v)"
            unfolding ins unfolding Some BlobKey using 3
            by (simp add: put_key_def lookup_key_def HashmapInsertBlobKey_def split: option.split)
          ultimately show thesis using blob by simp
        qed
      qed
    qed
  qed
  then show ?thesis
  proof cases
    case auto
    obtain rc m' where i: "insert_auto al ?m v = (rc, m')" by fastforce
    from insert_auto_put [OF ok(1-3) this] obtain m1 j
      where m1: "put_key al ?m k v = (rc, m1)" "m' = m1\<lparr>iNextIdx := j\<rparr>" "index_after ?m k rc j"
      unfolding auto(1) by blast
    have "HashmapInsert al m pKey v = Inr (rc, m1\<lparr>iNextIdx := j\<rparr>)" using auto(2) i m1(2) by simp
    then show ?thesis using m1(1,3) unfolding after by blast
  next
    case int
    obtain rc m' where i: "insert_int al ?m i v = (rc, m')" by fastforce
    from insert_int_put [OF ok(1-3) this] obtain m1 j
      where m1: "put_key al ?m k v = (rc, m1)" "m' = m1\<lparr>iNextIdx := j\<rparr>" "index_after ?m k rc j"
      unfolding int(1) by blast
    have "HashmapInsert al m pKey v = Inr (rc, m1\<lparr>iNextIdx := j\<rparr>)" using int(2) i m1(2) by simp
    then show ?thesis using m1(1,3) unfolding after by blast
  next
    case blob
    obtain rc m1 where p: "put_key al ?m k v = (rc, m1)" by fastforce
    then have "HashmapInsert al m pKey v = Inr (rc, m1\<lparr>iNextIdx := iNextIdx m1\<rparr>)" using blob same by simp
    moreover have "index_after m k rc (iNextIdx m1)"
      using put_key_ok [OF ok(1,3) p] blob(1) by (simp add: index_after_def next_index_def)
    ultimately show ?thesis using p by blast
  qed
qed

lemma HashmapInsert_ok:
  assumes "map_ok m" and "indices_ok m" and "nEntry m < 2 ^ 28"
  shows "\<exists>k rc m'. stored_key m pKey = Inr k \<and> HashmapInsert al m pKey v = Inr (rc, m') \<and> map_ok m' \<and>
    (rc = SXRET_OK \<or> rc = SXERR_MEM) \<and> (plenty al \<longrightarrow> rc = SXRET_OK) \<and>
    entries m' = (if rc = SXRET_OK then AList.update k v (entries m) else entries m) \<and>
    json_object m' = (json_object m \<or> entries m = [] \<and> is_string_key pKey) \<and>
    index_after m k rc (iNextIdx m') \<and> (k \<noteq> IntKey (2 ^ 63 - 1) \<longrightarrow> indices_ok m')"
proof -
  let ?m = "m\<lparr>json_object := (json_object m \<or> nEntry m < 1 \<and> is_string_key pKey)\<rparr>"
  obtain k where k: "stored_key m pKey = Inr k" using stored_key_total by blast
  from HashmapInsert_put [OF assms k, of al v] obtain rc m1 j
    where p: "put_key al ?m k v = (rc, m1)" and i: "HashmapInsert al m pKey v = Inr (rc, m1\<lparr>iNextIdx := j\<rparr>)"
    and j: "index_after m k rc j" by blast
  have "nEntry m < 1 \<longleftrightarrow> entries m = []"
    using entries_nodes_ok [OF map_okD(2) [OF assms(1)]] by (simp add: nEntry_def)
  moreover have put: "put_result al ?m k v rc m1" "json_object m1 = json_object ?m"
    using put_key_ok [OF _ _ p] assms by simp_all
  moreover have "indices_ok (m1\<lparr>iNextIdx := j\<rparr>)" if "k \<noteq> IntKey (2 ^ 63 - 1)"
  proof (cases "rc = SXRET_OK")
    case True
    then have "set (node_keys m1) = insert k (set (node_keys m))" "j = next_index m k"
      using put(1) j that by (auto simp: node_keys_def put_result_def index_after_def AList.dom_update)
    then show ?thesis by (intro indices_after [OF assms(2) that]) (simp_all add: node_keys_def)
  next
    case False
    then have "node_keys m1 = node_keys m" "j = iNextIdx m"
      using put(1) j that by (simp_all add: node_keys_def put_result_def index_after_def)
    then show ?thesis using assms(2) by (simp add: indices_ok_def node_keys_def)
  qed
  ultimately show ?thesis using k i j by (auto simp: put_result_def)
qed

section \<open>The ordered map a client sees\<close>

text \<open>
  What the rest of the engine relies on: entries in the order of their first insertion, a
  value replaced in place, and lookup by the entries, as long as the map is not full.
\<close>

locale ordered_map =
  fixes ok :: "'m \<Rightarrow> bool" and entries_of :: "'m \<Rightarrow> ('k \<times> 'v) list"
    and put :: "'k \<Rightarrow> 'v \<Rightarrow> 'm \<Rightarrow> 'm" and get :: "'m \<Rightarrow> 'k \<Rightarrow> 'v option" and capacity :: nat
  assumes put_ok: "ok m \<Longrightarrow> length (entries_of m) < capacity \<Longrightarrow> ok (put k v m)"
    and put_entries: "ok m \<Longrightarrow> length (entries_of m) < capacity \<Longrightarrow>
      entries_of (put k v m) = AList.update k v (entries_of m)"
    and get_entries: "ok m \<Longrightarrow> get m k = map_of (entries_of m) k"
begin

lemma get_put: "ok m \<Longrightarrow> length (entries_of m) < capacity \<Longrightarrow> get (put k v m) = (get m)(k \<mapsto> v)"
  by (rule ext) (simp add: get_entries put_ok put_entries update_conv)

lemma put_twice:
  "ok m \<Longrightarrow> length (entries_of m) + 1 < capacity \<Longrightarrow> entries_of (put k w (put k v m)) = AList.update k w (entries_of m)"
proof -
  assume m: "ok m" "length (entries_of m) + 1 < capacity"
  have "length (AList.update k v kvs) \<le> Suc (length kvs)" for kvs :: "('k \<times> 'v) list" by (induction kvs) auto
  from this [of "entries_of m"] have "length (entries_of (put k v m)) < capacity"
    using m put_entries [of m k v] by simp
  moreover have "AList.update k w (AList.update k v kvs) = AList.update k w kvs" for kvs :: "('k \<times> 'v) list"
    by (induction kvs) auto
  ultimately show ?thesis using m put_ok [of m k v] put_entries [of m k v] put_entries [of "put k v m" k w] by simp
qed

lemma put_all_new:
  "ok m \<Longrightarrow> length (entries_of m) + length kvs \<le> capacity \<Longrightarrow> distinct (map fst (entries_of m @ kvs)) \<Longrightarrow>
    ok (fold (\<lambda>(k, v). put k v) kvs m) \<and> entries_of (fold (\<lambda>(k, v). put k v) kvs m) = entries_of m @ kvs"
proof (induction kvs arbitrary: m)
  case (Cons kv kvs)
  obtain k v where kv: "kv = (k, v)" by fastforce
  have "length (entries_of m) < capacity" using Cons.prems(2) by simp
  then have "ok (put k v m)" "entries_of (put k v m) = entries_of m @ [(k, v)]"
    using Cons.prems put_ok put_entries by (simp_all add: kv AList_update_new)
  then show ?case using Cons.IH [of "put k v m"] Cons.prems by (simp add: kv)
qed simp

end

definition all_room :: room where
  "all_room = \<lparr>value_room = True, node_room = True, bucket_room = (\<lambda>_. True)\<rparr>"

lemma all_room_plenty: "plenty all_room"
  by (simp add: plenty_def all_room_def)

interpretation hm: ordered_map map_ok entries "\<lambda>k v m. snd (put_key all_room m k v)" get_value "2 ^ 28"
proof unfold_locales
  fix m :: "'a hashmap" and k v assume m: "map_ok m" "length (entries m) < 2 ^ 28"
  have "nEntry m < 2 ^ 28" using m entries_nodes_ok [OF map_okD(2) [OF m(1)]] by (simp add: nEntry_def)
  moreover obtain rc m' where p: "put_key all_room m k v = (rc, m')" by fastforce
  ultimately have "put_result all_room m k v rc m'" using put_key_ok [OF m(1)] by blast
  then show "map_ok (snd (put_key all_room m k v))"
    and "entries (snd (put_key all_room m k v)) = AList.update k v (entries m)"
    using p all_room_plenty by (simp_all add: put_result_def)
qed (rule get_value_entries)

section \<open>Removal, copy, union\<close>

lemma entries_remove:
  assumes "nodes_ok m" and "distinct (map fst (entries m))" and a: "a \<in> set (linked m)" "nodes m a = Some nd"
    and m': "linked m' = remove1 a (linked m)" "nodes m' = (nodes m)(a := None)"
  shows "nodes_ok (m'\<lparr>next_node := next_node m\<rparr>)" and "entries m' = AList.delete (xKey nd) (entries m)"
proof -
  have d: "distinct (linked m)" using assms(1) by (simp add: nodes_ok_def)
  show nok: "nodes_ok (m'\<lparr>next_node := next_node m\<rparr>)" using assms(1) d by (auto simp: nodes_ok_def m')
  define f where "f c = (xKey (the (nodes m c)), nVal (the (nodes m c)))" for c
  have e: "entries m = map f (linked m)" unfolding f_def by (rule entries_nodes_ok [OF assms(1)])
  have "entries m' = entries (m'\<lparr>next_node := next_node m\<rparr>)" by (simp add: entries_def)
  also have "\<dots> = map f (remove1 a (linked m))"
    unfolding entries_nodes_ok [OF nok] using d by (simp add: m' f_def)
  finally have e': "entries m' = map f (remove1 a (linked m))" .
  have "map f (remove1 a as) = AList.delete (xKey nd) (map f as)" if "distinct (map fst (map f as))" "distinct as" "a \<in> set as" for as
    using that
  proof (induction as)
    case (Cons c as)
    have fa: "fst (f a) = xKey nd" using a by (simp add: f_def)
    show ?case
    proof (cases "c = a")
      case True
      have "fst (f c) \<notin> set (map fst (map f as))" using Cons.prems(1) by (simp only: list.map distinct.simps) simp
      then have "xKey nd \<notin> fst ` set (map f as)" using True fa by (metis set_map)
      moreover have "AList.delete (xKey nd) (f a # map f as) = AList.delete (xKey nd) (map f as)"
        using fa by simp
      ultimately show ?thesis using True by simp
    next
      case False
      then have "fst (f c) \<noteq> xKey nd" using Cons.prems fa by force
      then show ?thesis using False Cons by (cases "f c") (simp add: AList.delete_eq)
    qed
  qed simp
  then show "entries m' = AList.delete (xKey nd) (entries m)" using e e' assms(2) d a(1) by metis
qed

lemma unlink_ok:
  assumes ok: "map_ok m" and a: "a \<in> set (linked m)" "nodes m a = Some nd"
  shows "map_ok (jx9HashmapUnlinkNode a m)" and "entries (jx9HashmapUnlinkNode a m) = AList.delete (xKey nd) (entries m)"
proof -
  let ?b = "bucket_of (nHash nd) (nSize m)"
  define m1 where "m1 = m\<lparr>apBucket := (apBucket m)[?b := remove1 a (apBucket m ! ?b)],
    pCur := (if pCur m = Some a then next_after a (linked m) else pCur m),
    linked := remove1 a (linked m), nodes := (nodes m)(a := None)\<rparr>"
  define m2 where "m2 = jx9HashmapUnlinkNode a m"
  have m2: "m2 = (if nEntry m1 < 1 then m1\<lparr>apBucket := [], pCur := None\<rparr> else m1)"
    using a by (simp add: m2_def jx9HashmapUnlinkNode_def Let_def m1_def)
  have m1: "linked m1 = remove1 a (linked m)" "nodes m1 = (nodes m)(a := None)" "next_node m1 = next_node m"
    "nSize m1 = nSize m" "apBucket m1 = (apBucket m)[?b := remove1 a (apBucket m ! ?b)]"
    by (simp_all add: m1_def nSize_def)
  have nok: "nodes_ok m" and d: "distinct (map fst (entries m))" using ok by (rule map_okD)+
  have "nodes_ok (m1\<lparr>next_node := next_node m\<rparr>)" and e1: "entries m1 = AList.delete (xKey nd) (entries m)"
    by (rule entries_remove [OF nok d a m1(1,2)])+
  then have nok1: "nodes_ok m1" by (simp add: nodes_ok_def m1)
  have size: "0 < nSize m" "nSize m < 2 ^ 32" using ok a by (auto simp: map_ok_def map_wf_def)
  have b: "?b < nSize m" by (rule bucket_less [OF size])
  have ch: "chains_ok m1"
    unfolding chains_ok_def
  proof (intro allI impI)
    fix c assume "c < nSize m1"
    then have c: "c < nSize m" by (simp add: m1)
    have old: "distinct (apBucket m ! c)" "set (apBucket m ! c) = {x \<in> set (linked m). in_bucket m x = c}"
      using ok c by (auto simp: map_ok_def map_wf_def chains_ok_def)
    have at: "apBucket m1 ! c = (if c = ?b then remove1 a (apBucket m ! ?b) else apBucket m ! c)"
      using b c by (simp add: m1 nSize_def)
    have inb: "in_bucket m1 x = in_bucket m x" if "x \<noteq> a" for x
      using that by (simp add: in_bucket_def m1 split: option.split)
    have ina: "in_bucket m a = ?b" using a by (simp add: in_bucket_def)
    have dl: "distinct (linked m)" using nok by (simp add: nodes_ok_def)
    have mem: "{x \<in> set (remove1 a (linked m)). in_bucket m1 x = c} = {x \<in> set (linked m). in_bucket m x = c} - {a}"
    proof (intro set_eqI)
      fix x
      show "x \<in> {x \<in> set (remove1 a (linked m)). in_bucket m1 x = c} \<longleftrightarrow> x \<in> {x \<in> set (linked m). in_bucket m x = c} - {a}"
        using dl inb [of x] by (cases "x = a") simp_all
    qed
    show "distinct (apBucket m1 ! c) \<and> set (apBucket m1 ! c) = {x \<in> set (linked m1). in_bucket m1 x = c}"
    proof (cases "c = ?b")
      case True
      then show ?thesis unfolding at m1(1) mem using old by simp
    next
      case False
      then have "a \<notin> {x \<in> set (linked m). in_bucket m x = c}" using ina by simp
      with False show ?thesis unfolding at m1(1) mem using old by simp
    qed
  qed
  have keys: "distinct (node_keys m1)" using d by (simp add: node_keys_def e1 distinct_delete)
  have "map_ok m1" using nok1 ch size keys by (simp add: map_ok_def map_wf_def m1)
  moreover have "map_ok (m1\<lparr>apBucket := [], pCur := None\<rparr>)" if "nEntry m1 < 1"
    using that by (simp add: map_ok_def map_wf_def nodes_ok_def chains_ok_def nSize_def nEntry_def node_keys_def entries_def
        List.map_filter_def)
  ultimately have "map_ok m2" by (simp add: m2)
  moreover have "entries m2 = entries m1" by (simp add: m2 entries_def)
  ultimately show "map_ok (jx9HashmapUnlinkNode a m)"
    and "entries (jx9HashmapUnlinkNode a m) = AList.delete (xKey nd) (entries m)"
    using e1 by (simp_all add: m2_def)
qed

text \<open>Inserting without lookup adds the entries as they are.\<close>

lemma insert_all_nodes:
  assumes "plenty al" and "\<And>m k v. k \<in> fst ` set kvs \<Longrightarrow> P m \<Longrightarrow> ins m k v = Inr (insert_node al m k v)"
    and "\<And>m m' k v. P m \<Longrightarrow> k \<in> fst ` set kvs \<Longrightarrow> insert_node al m k v = (SXRET_OK, m') \<Longrightarrow> P m'"
    and "map_wf m" and "P m" and "nEntry m + length kvs < 2 ^ 28"
  shows "\<exists>m'. insert_all ins m kvs = Inr (SXRET_OK, m') \<and> map_wf m' \<and> P m' \<and> entries m' = entries m @ kvs \<and>
    iNextIdx m' = iNextIdx m \<and> nEntry m' = nEntry m + length kvs"
  using assms(2-)
proof (induction kvs arbitrary: m)
  case (Cons kv kvs)
  obtain k v where kv: "kv = (k, v)" by fastforce
  obtain rc m1 where i: "insert_node al m k v = (rc, m1)" by fastforce
  have rc: "rc = SXRET_OK" using insert_node_plenty [OF assms(1) i] .
  have "nEntry m < 2 ^ 28" using Cons.prems(5) by simp
  from insert_node_ok [OF Cons.prems(3) this i] have m1: "map_wf m1" "entries m1 = entries m @ [(k, v)]"
    "iNextIdx m1 = iNextIdx m" "nEntry m1 = Suc (nEntry m)" using rc by auto
  have P1: "P m1" using Cons.prems(2) [of m k v m1] Cons.prems(4) i rc kv by simp
  have "\<exists>m'. insert_all ins m1 kvs = Inr (SXRET_OK, m') \<and> map_wf m' \<and> P m' \<and> entries m' = entries m1 @ kvs \<and>
    iNextIdx m' = iNextIdx m1 \<and> nEntry m' = nEntry m1 + length kvs"
  proof (rule Cons.IH)
    show "ins m' k' v' = Inr (insert_node al m' k' v')" if "k' \<in> fst ` set kvs" "P m'" for m' k' v'
      using that by (intro Cons.prems(1)) auto
    show "P m''" if "P m'" "k' \<in> fst ` set kvs" "insert_node al m' k' v' = (SXRET_OK, m'')" for m' m'' k' v'
      by (rule Cons.prems(2) [OF that(1) _ that(3)]) (use that(2) in simp)
  qed (use Cons.prems(5) m1 P1 in simp_all)
  moreover have "ins m k v = Inr (rc, m1)" using Cons.prems(1) [of k m v] Cons.prems(4) i kv by simp
  ultimately show ?case using rc m1(2-4) by (simp add: kv del: split_paired_Ex)
qed simp

lemma new_map_ok: "map_ok jx9NewHashmap"
  by (simp add: map_ok_def map_wf_def nodes_ok_def chains_ok_def nSize_def node_keys_def entries_def jx9NewHashmap_def
      List.map_filter_def)

lemma new_map_fields [simp]: "iNextIdx jx9NewHashmap = 0" "nEntry jx9NewHashmap = 0" "entries jx9NewHashmap = []"
  "json_object jx9NewHashmap = False" "indices_ok jx9NewHashmap"
  by (simp_all add: jx9NewHashmap_def nEntry_def entries_def List.map_filter_def indices_ok_def node_keys_def)

lemma union_step:
  "union_step al m k v = Inr (if lookup_key m k \<noteq> None then (SXRET_OK, m) else insert_node al m k v)"
  by (cases k) (simp_all add: union_step_def lookup_key_def HashmapInsertIntKey_def HashmapInsertBlobKey_def)

lemma union_entries:
  assumes "plenty al" and "map_ok m" and "distinct (map fst kvs)" and "nEntry m + length kvs < 2 ^ 28"
  shows "\<exists>m'. insert_all (union_step al) m kvs = Inr (SXRET_OK, m') \<and> map_ok m' \<and>
    entries m' = entries m @ filter (\<lambda>kv. fst kv \<notin> set (node_keys m)) kvs"
  using assms(2-)
proof (induction kvs arbitrary: m)
  case (Cons kv kvs)
  obtain k v where kv: "kv = (k, v)" by fastforce
  show ?case
  proof (cases "lookup_key m k")
    case (Some a)
    then have "k \<in> set (node_keys m)" using lookup_key_None [OF map_okD(1) [OF Cons.prems(1)], of k] by auto
    then show ?thesis using Cons.IH [OF Cons.prems(1)] Cons.prems Some by (simp add: kv union_step)
  next
    case None
    then have new: "k \<notin> set (node_keys m)" using lookup_key_None [OF map_okD(1) [OF Cons.prems(1)], of k] by simp
    obtain rc m1 where i: "insert_node al m k v = (rc, m1)" by fastforce
    have rc: "rc = SXRET_OK" using insert_node_plenty [OF assms(1) i] .
    have "nEntry m < 2 ^ 28" using Cons.prems(3) by simp
    from insert_node_ok [OF map_okD(1) [OF Cons.prems(1)] this i] rc
    have m1: "map_wf m1" "entries m1 = entries m @ [(k, v)]" "nEntry m1 = Suc (nEntry m)" by auto
    then have nk: "node_keys m1 = node_keys m @ [k]" by (simp add: node_keys_def)
    then have "map_ok m1" using m1 new Cons.prems(1) by (simp add: map_ok_def)
    moreover have "filter (\<lambda>kv. fst kv \<notin> set (node_keys m1)) kvs = filter (\<lambda>kv. fst kv \<notin> set (node_keys m)) kvs"
      using Cons.prems(2) by (auto simp: nk kv intro!: filter_cong)
    ultimately show ?thesis using Cons.IH [of m1] Cons.prems None i rc m1 new by (simp add: kv union_step)
  qed
qed simp


section \<open>A map to try the properties on\<close>

definition demo_map :: "nat hashmap" where
  "demo_map = (case HashmapInsert all_room jx9NewHashmap None 7 of Inl e \<Rightarrow> jx9NewHashmap | Inr (rc, m) \<Rightarrow> m)"

lemma demo_map: "map_ok demo_map" "entries demo_map = [(IntKey 0, 7)]" "node_keys demo_map = [IntKey 0]" "nEntry demo_map = 1"
proof -
  have "nEntry (jx9NewHashmap :: nat hashmap) < 2 ^ 28" by simp
  from HashmapInsert_ok [OF new_map_ok new_map_fields(5) this, of None all_room 7]
  obtain m' where m': "HashmapInsert all_room jx9NewHashmap None (7::nat) = Inr (SXRET_OK, m')" "map_ok m'"
    "entries m' = [(IntKey 0, 7)]"
    using all_room_plenty by (auto simp: stored_key_def)
  then have d: "demo_map = m'" by (simp add: demo_map_def)
  show "map_ok demo_map" "entries demo_map = [(IntKey 0, 7)]" "node_keys demo_map = [IntKey 0]"
    using m' d by (simp_all add: node_keys_def)
  show "nEntry demo_map = 1" using m' d by (simp add: nEntry_entries)
qed

lemma demo_map_next: "iNextIdx demo_map = 1"
  by (simp add: demo_map_def HashmapInsert_def is_string_key_def insert_auto_def HashmapInsertIntKey_def insert_node_def
      all_room_def HashmapGrowBucket_def HashmapNodeLink_def jx9NewHashmap_def nEntry_def nSize_def HASHMAP_FILL_FACTOR_def Let_def)

lemma demo_map_indices: "indices_ok demo_map"
  by (simp add: indices_ok_def demo_map demo_map_next)

section \<open>Properties\<close>

lemma insert_nodes_ok:
  assumes "plenty al" and "map_wf m" and "nEntry m + length kvs < 2 ^ 28"
  shows "\<exists>m'. insert_all (\<lambda>m k v. Inr (insert_node al m k v)) m kvs = Inr (SXRET_OK, m') \<and> map_wf m' \<and>
    entries m' = entries m @ kvs \<and> iNextIdx m' = iNextIdx m"
  using insert_all_nodes [where P = "\<lambda>_. True" and ins = "\<lambda>m k v. Inr (insert_node al m k v)", OF assms(1) _ _ assms(2) _ assms(3)]
  by (simp del: split_paired_Ex) blast

text \<open>A copied map into an empty one: the arrays of the code have integer keys only.\<close>

lemma dup_ints:
  assumes al: "plenty al" and k: "\<And>k. k \<in> set (node_keys m) \<Longrightarrow> \<exists>i. k = IntKey i" and ok: "map_ok m" and n: "nEntry m < 2 ^ 28"
  shows "\<exists>m'. jx9HashmapDup al m jx9NewHashmap = Inr (SXRET_OK, m') \<and> map_ok m' \<and> entries m' = entries m \<and> iNextIdx m' = 0"
proof -
  have len: "nEntry m = length (entries m)"
    using entries_nodes_ok [OF map_okD(2) [OF ok]] by (simp add: nEntry_def)
  let ?ins = "\<lambda>m k v. case k of BlobKey s \<Rightarrow> HashmapInsert al m (Some k) v | IntKey i \<Rightarrow> Inr (HashmapInsertIntKey al m i v)"
  have "\<exists>m'. insert_all ?ins jx9NewHashmap (entries m) = Inr (SXRET_OK, m') \<and> map_wf m' \<and> True \<and>
    entries m' = entries jx9NewHashmap @ entries m \<and> iNextIdx m' = iNextIdx (jx9NewHashmap :: 'a hashmap) \<and>
    nEntry m' = nEntry (jx9NewHashmap :: 'a hashmap) + length (entries m)"
  proof (rule insert_all_nodes [OF al])
    show "?ins m' k v = Inr (insert_node al m' k v)" if "k \<in> fst ` set (entries m)" for m' k v
      using k [of k] that by (auto simp: node_keys_def HashmapInsertIntKey_def)
  qed (use new_map_ok map_okD(1) n len in \<open>auto\<close>)
  then obtain m' where m': "insert_all ?ins jx9NewHashmap (entries m) = Inr (SXRET_OK, m')" "map_wf m'"
    "entries m' = entries m" "iNextIdx m' = 0" by auto
  then have "map_ok m'" using ok by (simp add: map_ok_def node_keys_def)
  then show ?thesis using m' by (auto simp: jx9HashmapDup_def)
qed

text \<open>
  A copy of a proper array has the same entries in the same order, but its next automatic
  index is 0: when the array has the key 0, the next element appended to the copy is stored
  under the key 0 as well, in a second node, so that the copy is no longer a proper map.
\<close>

theorem jx9HashmapDup_next_index:
  assumes "plenty al" and "\<And>k. k \<in> set (node_keys m) \<Longrightarrow> \<exists>i. k = IntKey i" and "map_ok m" and "nEntry m + 1 < 2 ^ 28"
  shows "\<exists>m' m''. jx9HashmapDup al m jx9NewHashmap = Inr (SXRET_OK, m') \<and> map_ok m' \<and> entries m' = entries m \<and>
    HashmapInsert al m' None v = Inr (SXRET_OK, m'') \<and> entries m'' = entries m @ [(IntKey 0, v)] \<and>
    (map_ok m'' \<longleftrightarrow> IntKey 0 \<notin> set (node_keys m))"
proof -
  obtain m' where m': "jx9HashmapDup al m jx9NewHashmap = Inr (SXRET_OK, m')" "map_ok m'" "entries m' = entries m" "iNextIdx m' = 0"
    using dup_ints [OF assms(1-3)] assms(4) by auto
  obtain rc m1 where i: "insert_node al m' (IntKey 0) v = (rc, m1)" by fastforce
  have rc: "rc = SXRET_OK" using insert_node_plenty [OF assms(1) i] .
  have "nEntry m' < 2 ^ 28" using m'(2,3) assms(3,4) by (simp add: nEntry_entries)
  from insert_node_ok [OF map_okD(1) [OF m'(2)] this i] rc
  have m1: "map_wf m1" "entries m1 = entries m @ [(IntKey 0, v)]" using m'(3) by auto
  let ?m = "m1\<lparr>iNextIdx := iNextIdx m1 + 1\<rparr>"
  have "HashmapInsert al m' None v = Inr (SXRET_OK, ?m)"
    using i rc m'(4) by (simp add: HashmapInsert_def is_string_key_def insert_auto_def HashmapInsertIntKey_def)
  moreover have "map_ok m1 \<longleftrightarrow> IntKey 0 \<notin> set (node_keys m)"
    using m1 assms(3) by (auto simp: map_ok_def node_keys_def)
  ultimately show ?thesis using m' m1 by auto
qed

lemma jx9HashmapDup_next_index_witness:
  "\<exists>m' m''. jx9HashmapDup all_room demo_map jx9NewHashmap = Inr (SXRET_OK, m') \<and> entries m' = [(IntKey 0, 7)] \<and>
    HashmapInsert all_room m' None 8 = Inr (SXRET_OK, m'') \<and> entries m'' = [(IntKey 0, 7), (IntKey 0, 8)] \<and> \<not> map_ok m''"
proof -
  have "\<exists>i. k = IntKey i" if "k \<in> set (node_keys demo_map)" for k using that by (simp add: demo_map)
  moreover have "nEntry demo_map + 1 < 2 ^ 28" by (simp add: demo_map)
  ultimately show ?thesis using jx9HashmapDup_next_index [of all_room demo_map 8] all_room_plenty demo_map by auto
qed

text \<open>
  The union of two proper maps is a proper map: the entries of the left one in their order,
  then those of the right one whose key the left one does not have.
\<close>

theorem jx9HashmapUnion_entries:
  assumes "plenty al" and "map_ok pLeft" and "map_ok pRight" and "nEntry pLeft + nEntry pRight < 2 ^ 28"
  shows "\<exists>m'. jx9HashmapUnion al pLeft pRight = Inr (SXRET_OK, m') \<and> map_ok m' \<and>
    entries m' = entries pLeft @ filter (\<lambda>(k, v). k \<notin> set (node_keys pLeft)) (entries pRight)"
proof -
  have "nEntry pRight = length (entries pRight)"
    using entries_nodes_ok [OF map_okD(2) [OF assms(3)]] by (simp add: nEntry_def)
  then show ?thesis
    using union_entries [OF assms(1,2) map_okD(3) [OF assms(3)]] assms(4)
    by (simp add: jx9HashmapUnion_def case_prod_unfold)
qed

lemma jx9HashmapUnion_entries_witness:
  "\<exists>m'. jx9HashmapUnion all_room demo_map demo_map = Inr (SXRET_OK, m') \<and> map_ok m' \<and> entries m' = entries demo_map"
proof -
  have "nEntry demo_map + nEntry demo_map < 2 ^ 28" by (simp add: demo_map)
  from jx9HashmapUnion_entries [OF all_room_plenty demo_map(1,1) this] show ?thesis by (simp add: demo_map)
qed

text \<open>
  A non-empty decimal string as a key: insertion stores the value under the integer it denotes,
  the lookup of the same string afterwards does not find it, unless an entry with that very
  string was there, which no insertion makes.
\<close>

theorem numeric_key_not_found:
  assumes "plenty al" and "map_ok m" and "nEntry m < 2 ^ 28"
    and "indices_ok m" and "s \<noteq> []" and "HashmapIsIntKey s" and "jx9TokenValueToInt64 s = Inr i" and "BlobKey s \<notin> set (node_keys m)"
  shows "\<exists>m'. HashmapInsert al m (Some (BlobKey s)) v = Inr (SXRET_OK, m') \<and> map_ok m' \<and>
    get_value m' (IntKey i) = Some v \<and> jx9HashmapLookup m' (BlobKey s) = Inr None"
proof -
  have k: "stored_key m (Some (BlobKey s)) = Inr (IntKey i)" using assms(5-7) by (simp add: stored_key_def)
  from HashmapInsert_ok [OF assms(2,4,3), of "Some (BlobKey s)" al v] k assms(1) obtain m'
    where m': "HashmapInsert al m (Some (BlobKey s)) v = Inr (SXRET_OK, m')" "map_ok m'"
      "entries m' = AList.update (IntKey i) v (entries m)" by auto
  have "get_value m' (IntKey i) = Some v" using get_value_entries [OF m'(2)] m'(3) by (simp add: update_conv)
  moreover have "BlobKey s \<notin> set (node_keys m')" using m'(3) assms(8) by (simp add: node_keys_def update_keys)
  then have "lookup_key m' (BlobKey s) = None" using lookup_key_None [OF map_okD(1) [OF m'(2)]] by blast
  then have "jx9HashmapLookup m' (BlobKey s) = Inr None"
    using assms(5) by (simp add: jx9HashmapLookup_def HashmapLookup_def lookup_key_def)
  ultimately show ?thesis using m' by blast
qed

lemma numeric_key_not_found_witness:
  "\<exists>m'. HashmapInsert all_room demo_map (Some (BlobKey [53])) 9 = Inr (SXRET_OK, m') \<and>
    get_value m' (IntKey 5) = Some 9 \<and> jx9HashmapLookup m' (BlobKey [53]) = Inr None"
proof -
  have "nEntry demo_map < 2 ^ 28" by (simp add: demo_map)
  moreover have "HashmapIsIntKey [53]" by (simp add: HashmapIsIntKey_def SyisDigit_def)
  moreover have "jx9TokenValueToInt64 [53] = Inr 5" by code_simp
  moreover have "BlobKey [53] \<notin> set (node_keys demo_map)" by (simp add: demo_map)
  ultimately show ?thesis
    using numeric_key_not_found [OF all_room_plenty demo_map(1) _ demo_map_indices, of "[53]" 5 9] by blast
qed

text \<open>
  C25. Insertion refines the update of an association list: under the key the code's conversion
  gives (the next index for none or the empty string, the integer for a decimal string, the string
  otherwise) the value is replaced in place or added at the end; the map stays proper; only a
  failing allocator makes it fail, and then the entries and the next index are as before; a string
  key in an empty map makes it an object. An integer key that is not below the next index, the one
  of an automatic insertion among them, moves it one past itself, and every other key leaves it, so
  that it stays above all integer keys, unless the key is the largest integer. This is about maps
  whose next index is above their integer keys, as insertion makes them; a copied map starts at 0
  again (lemma \<open>jx9HashmapDup_next_index\<close>).
\<close>

theorem hashmap_insert_refines:
  assumes "map_ok m" and "indices_ok m" and "nEntry m < 2 ^ 28"
  shows "\<exists>k rc m'. stored_key m pKey = Inr k \<and> HashmapInsert al m pKey v = Inr (rc, m') \<and> map_ok m' \<and>
    (rc = SXRET_OK \<or> rc = SXERR_MEM) \<and> (plenty al \<longrightarrow> rc = SXRET_OK) \<and>
    entries m' = (if rc = SXRET_OK then AList.update k v (entries m) else entries m) \<and>
    json_object m' = (json_object m \<or> entries m = [] \<and> is_string_key pKey) \<and>
    (k \<noteq> IntKey (2 ^ 63 - 1) \<longrightarrow>
      iNextIdx m' = (if rc = SXRET_OK then next_index m k else iNextIdx m) \<and> indices_ok m')"
  using HashmapInsert_ok [OF assms, of pKey al v] unfolding index_after_def by blast

lemma hashmap_insert_refines_witness:
  "\<exists>m'. HashmapInsert all_room demo_map None 8 = Inr (SXRET_OK, m') \<and> map_ok m' \<and>
    entries m' = [(IntKey 0, 7), (IntKey 1, 8)] \<and> json_object m' = json_object demo_map \<and> iNextIdx m' = 2"
proof -
  have "nEntry demo_map < 2 ^ 28" by (simp add: demo_map)
  from hashmap_insert_refines [OF demo_map(1) demo_map_indices this, of None all_room 8] show ?thesis
    using all_room_plenty by (auto simp: stored_key_def demo_map demo_map_next next_index_def)
qed

text \<open>Unlinking a node of a proper map removes its key's entry and keeps the map proper and the others in their order.\<close>

theorem unlink_refines_delete:
  assumes "map_ok m" and "lookup_key m k = Some a"
  shows "map_ok (jx9HashmapUnlinkNode a m) \<and> entries (jx9HashmapUnlinkNode a m) = AList.delete k (entries m) \<and>
    lookup_key (jx9HashmapUnlinkNode a m) k = None"
proof -
  obtain nd where a: "a \<in> set (linked m)" "nodes m a = Some nd" "xKey nd = k"
    using lookup_key_Some [OF map_okD(1) [OF assms(1)] assms(2)] by blast
  have "map_ok (jx9HashmapUnlinkNode a m)" by (rule unlink_ok(1) [OF assms(1) a(1,2)])
  moreover have e: "entries (jx9HashmapUnlinkNode a m) = AList.delete k (entries m)"
    using unlink_ok(2) [OF assms(1) a(1,2)] a(3) by simp
  moreover have "k \<notin> set (node_keys (jx9HashmapUnlinkNode a m))" using e by (simp add: node_keys_def AList.delete_keys)
  ultimately show ?thesis using lookup_key_None [OF map_okD(1)] by blast
qed

lemma unlink_refines_delete_witness:
  "\<exists>a. lookup_key demo_map (IntKey 0) = Some a \<and> entries (jx9HashmapUnlinkNode a demo_map) = []"
proof -
  have "lookup_key demo_map (IntKey 0) \<noteq> None"
    using lookup_key_None [OF map_okD(1) [OF demo_map(1)], of "IntKey 0"] by (simp add: demo_map)
  then obtain a where "lookup_key demo_map (IntKey 0) = Some a" by blast
  with unlink_refines_delete [OF demo_map(1) this] show ?thesis by (auto simp: demo_map)
qed

end
