(* ===== verification/Jx9Ds.thy ===== *)
theory Jx9Ds
  imports Jx9Map
begin

text \<open>
  The containers of the runtime library in \<open>src/jx9/jx9/jx9.c\<close>: the growing buffer \<open>SyBlob\<close>, the
  growing array \<open>SySet\<close> and the hash table \<open>SyHash\<close>. Lengths and capacities are 32-bit words that
  wrap around as in the code; memory is the list of bytes, or slots, that was allocated, and an
  access outside it is undefined behaviour.
\<close>

abbreviation SXERR_LOCKED :: sxrc where "SXERR_LOCKED \<equiv> SXERR_OTHER (- 4)"
abbreviation SXERR_NOTFOUND :: sxrc where "SXERR_NOTFOUND \<equiv> SXERR_OTHER (- 6)"
abbreviation SXERR_EOF :: sxrc where "SXERR_EOF \<equiv> SXERR_OTHER (- 18)"
abbreviation SXERR_SHORT :: sxrc where "SXERR_SHORT \<equiv> SXERR_OTHER (- 29)"

section \<open>Memory\<close>

text \<open>
  A block carries its size (4 bytes) and its links (16 bytes) in front; the sum is a 32-bit
  word. \<open>os_room\<close> says whether the operating system has a block of that size, \<open>fresh\<close> what is in
  it.
\<close>

record allocator =
  os_room :: "u32 \<Rightarrow> bool"
  fresh :: "nat \<Rightarrow> byte list"

definition allocator_ok :: "allocator \<Rightarrow> bool" where
  "allocator_ok A \<longleftrightarrow> (\<forall>n. length (fresh A n) = n)"

definition mem_alloc :: "allocator \<Rightarrow> u32 \<Rightarrow> exn + byte list option" where
  "mem_alloc A nByte =
     (let size = nByte + 20
      in if \<not> os_room A size then Inr None
         else if size < 20 then Inl UB
         else Inr (Some (fresh A (unat nByte))))"

text \<open>A block that is large enough already is kept.\<close>

definition mem_realloc :: "allocator \<Rightarrow> byte list option \<Rightarrow> u32 \<Rightarrow> exn + byte list option" where
  "mem_realloc A pOld nByte =
     (case pOld of
        None \<Rightarrow> mem_alloc A nByte
      | Some bs \<Rightarrow>
          (let total = nByte + 16
           in if unat total \<le> length bs + 16 then Inr (Some bs)
              else if \<not> os_room A (total + 4) then Inr None
              else if total + 4 < total then Inl UB
              else Inr (Some (bs @ fresh A (unat total - 16 - length bs)))))"

definition mem_dup :: "allocator \<Rightarrow> byte list \<Rightarrow> u32 \<Rightarrow> exn + byte list option" where
  "mem_dup A src nLen =
     bindE (mem_alloc A nLen) (\<lambda>p.
       case p of
         None \<Rightarrow> Inr None
       | Some bs \<Rightarrow> if length src < unat nLen then Inl UB else Inr (Some (take (unat nLen) src @ drop (unat nLen) bs)))"

section \<open>Buffers\<close>

record syblob =
  pBlob :: "byte list option"
  nByte :: u32
  mByte :: u32
  blob_locked :: bool
  blob_static :: bool
  blob_rdonly :: bool

definition SyBlobFreeSpace :: "syblob \<Rightarrow> u32" where
  "SyBlobFreeSpace b = mByte b - nByte b"

definition SyBlobInitFromBuf :: "byte list \<Rightarrow> u32 \<Rightarrow> syblob" where
  "SyBlobInitFromBuf pBuffer nLen =
     \<lparr>pBlob = Some pBuffer, nByte = 0, mByte = nLen, blob_locked = True, blob_static = True, blob_rdonly = False\<rparr>"

definition SyBlobInit :: syblob where
  "SyBlobInit = \<lparr>pBlob = None, nByte = 0, mByte = 0, blob_locked = False, blob_static = False, blob_rdonly = False\<rparr>"

definition SyBlobReadOnly :: "syblob \<Rightarrow> byte list \<Rightarrow> u32 \<Rightarrow> syblob" where
  "SyBlobReadOnly b pData n = b\<lparr>pBlob := Some pData, nByte := n, mByte := 0, blob_rdonly := True\<rparr>"

text \<open>The answer is the status and the number of bytes there is room for.\<close>

definition SXBLOB_MIN_GROWTH :: u32 where "SXBLOB_MIN_GROWTH = 16"

definition blob_unshare :: "allocator \<Rightarrow> syblob \<Rightarrow> exn + sxrc \<times> syblob" where
  "blob_unshare A b =
     (if \<not> blob_rdonly b then Inr (SXRET_OK, b)
      else if nByte b > 0 then
        bindE (mem_dup A (case pBlob b of None \<Rightarrow> [] | Some bs \<Rightarrow> bs) (nByte b)) (\<lambda>p.
          case p of
            None \<Rightarrow> Inr (SXERR_MEM, b)
          | Some bs \<Rightarrow> Inr (SXRET_OK, b\<lparr>pBlob := Some bs, mByte := nByte b, blob_rdonly := False\<rparr>))
      else Inr (SXRET_OK, b\<lparr>pBlob := None, mByte := 0, blob_rdonly := False\<rparr>))"

definition BlobPrepareGrow :: "allocator \<Rightarrow> syblob \<Rightarrow> u32 \<Rightarrow> exn + sxrc \<times> u32 \<times> syblob" where
  "BlobPrepareGrow A b n =
     (if blob_locked b \<or> blob_static b then
        (if SyBlobFreeSpace b < n
         then (if SyBlobFreeSpace b = 0 then Inr (SXERR_SHORT, 0, b) else Inr (SXRET_OK, SyBlobFreeSpace b, b))
         else Inr (SXRET_OK, n, b))
      else
        bindE (blob_unshare A b) (\<lambda>(rc, b).
          if rc \<noteq> SXRET_OK then Inr (rc, n, b)
          else if SyBlobFreeSpace b \<ge> n then Inr (SXRET_OK, n, b)
          else
            (let size = (if mByte b > 0 then n + mByte b * 2 + SXBLOB_MIN_GROWTH
                         else if n < SXBLOB_MIN_GROWTH then SXBLOB_MIN_GROWTH else n)
             in bindE (mem_realloc A (pBlob b) size) (\<lambda>p.
                  case p of
                    None \<Rightarrow> Inr (SXERR_MEM, n, b)
                  | Some bs \<Rightarrow> Inr (SXRET_OK, n, b\<lparr>pBlob := Some bs, mByte := size\<rparr>)))))"

definition blob_store :: "syblob \<Rightarrow> byte list \<Rightarrow> exn + syblob" where
  "blob_store b bs =
     (case pBlob b of
        None \<Rightarrow> Inl UB
      | Some buf \<Rightarrow>
          if unat (nByte b) + length bs \<le> length buf
          then Inr (b\<lparr>pBlob := Some (take (unat (nByte b)) buf @ bs @ drop (unat (nByte b) + length bs) buf),
                      nByte := nByte b + word_of_nat (length bs)\<rparr>)
          else Inl UB)"

definition SyBlobAppend :: "allocator \<Rightarrow> syblob \<Rightarrow> byte list option \<Rightarrow> u32 \<Rightarrow> exn + sxrc \<times> syblob" where
  "SyBlobAppend A b pData nLen =
     (if nLen < 1 then Inr (SXRET_OK, b)
      else
        bindE (BlobPrepareGrow A b nLen) (\<lambda>(rc, n, b).
          if rc \<noteq> SXRET_OK then Inr (rc, b)
          else
            (case pData of
               None \<Rightarrow> Inr (SXRET_OK, b)
             | Some bs \<Rightarrow>
                 if length bs < unat n then Inl UB
                 else bindE (blob_store b (take (unat n) bs)) (\<lambda>b. Inr (SXRET_OK, b)))))"

definition SyBlobNullAppend :: "allocator \<Rightarrow> syblob \<Rightarrow> exn + sxrc \<times> syblob" where
  "SyBlobNullAppend A b =
     bindE (SyBlobAppend A b (Some [0]) 1) (\<lambda>(rc, b').
       Inr (rc, if rc = SXRET_OK then b'\<lparr>nByte := nByte b\<rparr> else b'))"

definition SyBlobDup :: "allocator \<Rightarrow> syblob \<Rightarrow> syblob \<Rightarrow> exn + sxrc \<times> syblob" where
  "SyBlobDup A pSrc pDest =
     (if nByte pSrc > 0 then SyBlobAppend A pDest (pBlob pSrc) (nByte pSrc) else Inr (SXRET_OK, pDest))"

definition SyBlobReset :: "syblob \<Rightarrow> syblob" where
  "SyBlobReset b =
     (if blob_rdonly b then b\<lparr>nByte := 0, pBlob := None, mByte := 0, blob_rdonly := False\<rparr> else b\<lparr>nByte := 0\<rparr>)"

definition SyBlobRelease :: "syblob \<Rightarrow> syblob" where
  "SyBlobRelease b = SyBlobInit"

text \<open>The first place where the pattern occurs.\<close>

fun blob_search :: "byte list \<Rightarrow> byte list \<Rightarrow> nat \<Rightarrow> nat \<Rightarrow> exn + nat option" where
  "blob_search zIn pat i 0 = Inr None"
| "blob_search zIn pat i (Suc left) =
     bindE (fast_cmp zIn pat (length pat)) (\<lambda>rc.
       if rc = 0 then Inr (Some i) else blob_search (tl zIn) pat (Suc i) left)"

definition SyBlobSearch :: "byte list \<Rightarrow> byte list \<Rightarrow> exn + nat option" where
  "SyBlobSearch z pat =
     (if length pat > length z then Inr None else blob_search z pat 0 (Suc (length z - length pat)))"

section \<open>Arrays\<close>

text \<open>
  A slot holds a value; memory that was not written yet holds none. \<open>slot_room\<close> says whether
  there is memory for so many bytes.
\<close>

record 'a syset =
  has_allocator :: bool
  pBase :: "'a option list option"
  nUsed :: u32
  nSlots :: u32
  eSize :: u32
  nCursor :: u32

definition SySetInit :: "bool \<Rightarrow> u32 \<Rightarrow> 'a syset" where
  "SySetInit alloc ElemSize =
     \<lparr>has_allocator = alloc, pBase = None, nUsed = 0, nSlots = 0, eSize = ElemSize, nCursor = 0\<rparr>"

definition slots_alloc :: "(u32 \<Rightarrow> bool) \<Rightarrow> u32 \<Rightarrow> u32 \<Rightarrow> exn + 'a option list option" where
  "slots_alloc room e bytes =
     (if \<not> room bytes then Inr None
      else if bytes + 20 < 20 then Inl UB
      else Inr (Some (replicate (unat bytes div unat e) None)))"

definition slots_realloc ::
  "(u32 \<Rightarrow> bool) \<Rightarrow> u32 \<Rightarrow> 'a option list option \<Rightarrow> u32 \<Rightarrow> exn + 'a option list option"
where
  "slots_realloc room e pOld bytes =
     (case pOld of
        None \<Rightarrow> slots_alloc room e bytes
      | Some xs \<Rightarrow>
          if unat (bytes + 16) \<le> length xs * unat e + 16 then Inr (Some xs)
          else if \<not> room bytes then Inr None
          else if bytes + 20 < 20 then Inl UB
          else Inr (Some (xs @ replicate (unat bytes div unat e - length xs) None)))"

definition set_store :: "'a syset \<Rightarrow> 'a \<Rightarrow> exn + 'a syset" where
  "set_store s x =
     (case pBase s of
        None \<Rightarrow> Inl UB
      | Some xs \<Rightarrow>
          if unat (nUsed s) < length xs
          then Inr (s\<lparr>pBase := Some (xs[unat (nUsed s) := Some x]), nUsed := nUsed s + 1\<rparr>)
          else Inl UB)"

definition SySetPut :: "(u32 \<Rightarrow> bool) \<Rightarrow> 'a syset \<Rightarrow> 'a \<Rightarrow> exn + sxrc \<times> 'a syset" where
  "SySetPut room s x =
     (if nUsed s \<ge> nSlots s then
        (if \<not> has_allocator s then Inr (SXERR_LOCKED, s)
         else
           (let s = (if nSlots s \<le> 0 then s\<lparr>nSlots := 4\<rparr> else s)
            in bindE (slots_realloc room (eSize s) (pBase s) (eSize s * nSlots s * 2)) (\<lambda>p.
                 case p of
                   None \<Rightarrow> Inr (SXERR_MEM, s)
                 | Some xs \<Rightarrow>
                     bindE (set_store (s\<lparr>pBase := Some xs, nSlots := nSlots s * 2\<rparr>) x) (\<lambda>s. Inr (SXRET_OK, s)))))
      else bindE (set_store s x) (\<lambda>s. Inr (SXRET_OK, s)))"

definition SySetAlloc :: "(u32 \<Rightarrow> bool) \<Rightarrow> 'a syset \<Rightarrow> u32 \<Rightarrow> exn + sxrc \<times> 'a syset" where
  "SySetAlloc room s nItem =
     (if nSlots s > 0 then Inr (SXERR_LOCKED, s)
      else
        (let n = (if sint nItem < 8 then 8 else nItem)
         in bindE (slots_alloc room (eSize s) (eSize s * n)) (\<lambda>p.
              case p of
                None \<Rightarrow> Inr (SXERR_MEM, s\<lparr>pBase := None\<rparr>)
              | Some xs \<Rightarrow> Inr (SXRET_OK, s\<lparr>pBase := Some xs, nSlots := n\<rparr>))))"

definition SySetReset :: "'a syset \<Rightarrow> 'a syset" where
  "SySetReset s = s\<lparr>nUsed := 0, nCursor := 0\<rparr>"

definition SySetResetCursor :: "'a syset \<Rightarrow> 'a syset" where
  "SySetResetCursor s = s\<lparr>nCursor := 0\<rparr>"

text \<open>Reading the slot at an index the code has compared with \<open>nUsed\<close>.\<close>

definition set_slot :: "'a syset \<Rightarrow> u32 \<Rightarrow> exn + 'a" where
  "set_slot s i =
     (case pBase s of
        None \<Rightarrow> Inl UB
      | Some xs \<Rightarrow> if unat i < length xs then optE UB (xs ! unat i) else Inl UB)"

definition SySetGetNextEntry :: "'a syset \<Rightarrow> exn + (sxrc \<times> 'a option) \<times> 'a syset" where
  "SySetGetNextEntry s =
     (if nCursor s \<ge> nUsed s then Inr ((SXERR_EOF, None), s\<lparr>nCursor := 0\<rparr>)
      else bindE (set_slot s (nCursor s)) (\<lambda>x. Inr ((SXRET_OK, Some x), s\<lparr>nCursor := nCursor s + 1\<rparr>)))"

definition SySetRelease :: "'a syset \<Rightarrow> 'a syset" where
  "SySetRelease s = s\<lparr>pBase := None, nUsed := 0, nCursor := 0\<rparr>"

definition SySetPeek :: "'a syset \<Rightarrow> exn + 'a option" where
  "SySetPeek s = (if nUsed s \<le> 0 then Inr None else bindE (set_slot s (nUsed s - 1)) (\<lambda>x. Inr (Some x)))"

definition SySetPop :: "'a syset \<Rightarrow> exn + 'a option \<times> 'a syset" where
  "SySetPop s =
     (if nUsed s \<le> 0 then Inr (None, s)
      else (let s = s\<lparr>nUsed := nUsed s - 1\<rparr> in bindE (set_slot s (nUsed s)) (\<lambda>x. Inr (Some x, s))))"

definition SySetAt :: "'a syset \<Rightarrow> u32 \<Rightarrow> exn + 'a option" where
  "SySetAt s nIdx = (if nIdx \<ge> nUsed s then Inr None else bindE (set_slot s nIdx) (\<lambda>x. Inr (Some x)))"


section \<open>Hash tables\<close>

text \<open>
  Entries are addresses in \<open>hash_ents\<close>; \<open>hash_list\<close> is the linear list, the newest entry first, and
  each bucket its chain of colliding entries. The keys are not copied: the model takes the bytes
  they have when they are inserted. \<open>xHash\<close> and \<open>xCmp\<close> are the functions given to \<open>SyHashInit\<close>.
\<close>

record 'v hash_entry =
  ent_key :: "byte list"
  ent_hash :: u32
  ent_data :: 'v

record 'v syhash =
  hash_ents :: "nat \<rightharpoonup> 'v hash_entry"
  next_ent :: nat
  hash_list :: "nat list"
  hash_current :: "nat option"
  hash_buckets :: "nat list list"
  xHash :: "byte list \<Rightarrow> u32"
  xCmp :: "byte list \<Rightarrow> byte list \<Rightarrow> nat \<Rightarrow> bool"

definition SXHASH_BUCKET_SIZE :: nat where "SXHASH_BUCKET_SIZE = 16"
definition SXHASH_FILL_FACTOR :: nat where "SXHASH_FILL_FACTOR = 3"

definition default_cmp :: "byte list \<Rightarrow> byte list \<Rightarrow> nat \<Rightarrow> bool" where
  "default_cmp s t n = (SyMemcmp (Some s) (Some t) n = Inr 0)"

definition SyHashInit ::
  "room \<Rightarrow> (byte list \<Rightarrow> u32) option \<Rightarrow> (byte list \<Rightarrow> byte list \<Rightarrow> nat \<Rightarrow> bool) option \<Rightarrow> 'v syhash option"
where
  "SyHashInit al h c =
     (if \<not> bucket_room al SXHASH_BUCKET_SIZE then None
      else Some \<lparr>hash_ents = Map.empty, next_ent = 0, hash_list = [], hash_current = None,
        hash_buckets = replicate SXHASH_BUCKET_SIZE [],
        xHash = (case h of None \<Rightarrow> SyBinHash | Some h \<Rightarrow> h), xCmp = (case c of None \<Rightarrow> default_cmp | Some c \<Rightarrow> c)\<rparr>)"

definition hash_count :: "'v syhash \<Rightarrow> nat" where
  "hash_count H = length (hash_list H)"

definition SyHashRelease :: "'v syhash \<Rightarrow> 'v syhash" where
  "SyHashRelease H = H\<lparr>hash_ents := (hash_ents H) |` (- set (hash_list H)), hash_list := [], hash_buckets := []\<rparr>"

definition same_entry :: "'v syhash \<Rightarrow> byte list \<Rightarrow> u32 \<Rightarrow> nat \<Rightarrow> bool" where
  "same_entry H key h a =
     (case hash_ents H a of
        None \<Rightarrow> False
      | Some e \<Rightarrow> ent_hash e = h \<and> length (ent_key e) = length key \<and> xCmp H (ent_key e) key (length key))"

definition HashGetEntry :: "'v syhash \<Rightarrow> byte list \<Rightarrow> nat option" where
  "HashGetEntry H key =
     (let h = xHash H key
      in find (same_entry H key h) (hash_buckets H ! bucket_of h (length (hash_buckets H))))"

definition SyHashGet :: "'v syhash \<Rightarrow> byte list \<Rightarrow> nat option" where
  "SyHashGet H key = (if hash_count H < 1 \<or> length key < 1 then None else HashGetEntry H key)"

definition HashDeleteEntry :: "'v syhash \<Rightarrow> nat \<Rightarrow> 'v syhash" where
  "HashDeleteEntry H a =
     (case hash_ents H a of
        None \<Rightarrow> H
      | Some e \<Rightarrow>
          (let b = bucket_of (ent_hash e) (length (hash_buckets H))
           in H\<lparr>hash_buckets := (hash_buckets H)[b := remove1 a (hash_buckets H ! b)],
                hash_list := remove1 a (hash_list H), hash_ents := (hash_ents H)(a := None)\<rparr>))"

definition SyHashDeleteEntry :: "'v syhash \<Rightarrow> byte list \<Rightarrow> (sxrc \<times> 'v option) \<times> 'v syhash" where
  "SyHashDeleteEntry H key =
     (case HashGetEntry H key of
        None \<Rightarrow> ((SXERR_NOTFOUND, None), H)
      | Some a \<Rightarrow> ((SXRET_OK, map_option ent_data (hash_ents H a)), HashDeleteEntry H a))"

fun hash_for_each :: "('v hash_entry \<Rightarrow> 's \<Rightarrow> sxrc \<times> 's) \<Rightarrow> 'v hash_entry list \<Rightarrow> 's \<Rightarrow> sxrc \<times> 's" where
  "hash_for_each xStep [] t = (SXRET_OK, t)"
| "hash_for_each xStep (e # es) t =
     (case xStep e t of (rc, t) \<Rightarrow> if rc \<noteq> SXRET_OK then (rc, t) else hash_for_each xStep es t)"

definition SyHashForEach :: "'v syhash \<Rightarrow> ('v hash_entry \<Rightarrow> 's \<Rightarrow> sxrc \<times> 's) \<Rightarrow> 's \<Rightarrow> sxrc \<times> 's" where
  "SyHashForEach H xStep t = hash_for_each xStep (List.map_filter (hash_ents H) (hash_list H)) t"

fun hash_rehash :: "'v syhash \<Rightarrow> nat list \<Rightarrow> nat list list \<Rightarrow> nat list list" where
  "hash_rehash H [] bs = bs"
| "hash_rehash H (a # as) bs =
     hash_rehash H as (case hash_ents H a of None \<Rightarrow> bs | Some e \<Rightarrow> push_bucket a (bucket_of (ent_hash e) (length bs)) bs)"

definition HashGrowTable :: "room \<Rightarrow> 'v syhash \<Rightarrow> 'v syhash" where
  "HashGrowTable al H =
     (let nNewSize = length (hash_buckets H) * 2
      in if \<not> bucket_room al nNewSize then H
         else H\<lparr>hash_buckets := hash_rehash H (hash_list H) (replicate nNewSize [])\<rparr>)"

definition HashInsert :: "'v syhash \<Rightarrow> 'v hash_entry \<Rightarrow> 'v syhash" where
  "HashInsert H e =
     (let a = next_ent H
      in H\<lparr>hash_ents := (hash_ents H)(a \<mapsto> e), next_ent := Suc a,
           hash_buckets := push_bucket a (bucket_of (ent_hash e) (length (hash_buckets H))) (hash_buckets H),
           hash_list := a # hash_list H, hash_current := (if hash_count H = 0 then Some a else hash_current H)\<rparr>)"

definition SyHashInsert :: "room \<Rightarrow> 'v syhash \<Rightarrow> byte list \<Rightarrow> 'v \<Rightarrow> sxrc \<times> 'v syhash" where
  "SyHashInsert al H key v =
     (let H = (if hash_count H \<ge> length (hash_buckets H) * SXHASH_FILL_FACTOR then HashGrowTable al H else H)
      in if \<not> node_room al then (SXERR_MEM, H)
         else (SXRET_OK, HashInsert H \<lparr>ent_key = key, ent_hash = xHash H key, ent_data = v\<rparr>))"


section \<open>Buffers hold what was appended\<close>

definition blob_contents :: "syblob \<Rightarrow> byte list" where
  "blob_contents b = (case pBlob b of None \<Rightarrow> [] | Some bs \<Rightarrow> take (unat (nByte b)) bs)"

text \<open>
  A buffer owns its memory, or is read-only and has no capacity; the bytes in use exist, and so
  does the capacity it claims.
\<close>

definition blob_ok :: "syblob \<Rightarrow> bool" where
  "blob_ok b \<longleftrightarrow>
     (if blob_rdonly b
      then \<not> blob_locked b \<and> \<not> blob_static b \<and> mByte b = 0 \<and> (\<exists>bs. pBlob b = Some bs \<and> unat (nByte b) \<le> length bs)
      else nByte b \<le> mByte b \<and>
        (case pBlob b of None \<Rightarrow> mByte b = 0 | Some bs \<Rightarrow> unat (mByte b) \<le> length bs))"

lemma blob_length: "blob_ok b \<Longrightarrow> length (blob_contents b) = unat (nByte b)"
  by (auto simp: blob_ok_def blob_contents_def word_le_nat_alt split: if_splits option.splits)

lemma blob_init_ok: "blob_ok SyBlobInit" "blob_contents SyBlobInit = []"
  by (simp_all add: blob_ok_def SyBlobInit_def blob_contents_def)

lemma blob_reset_ok: "blob_ok b \<Longrightarrow> blob_ok (SyBlobReset b)" "blob_ok b \<Longrightarrow> blob_contents (SyBlobReset b) = []"
  by (auto simp: blob_ok_def SyBlobReset_def blob_contents_def split: option.splits if_splits)

lemma free_space: "nByte b \<le> mByte b \<Longrightarrow> unat (SyBlobFreeSpace b) = unat (mByte b) - unat (nByte b)"
  by (simp add: SyBlobFreeSpace_def unat_sub)

lemma unat_add_small: "unat x + k < 2 ^ 32 \<Longrightarrow> unat (x + word_of_nat k :: u32) = unat x + k"
  by (simp add: unat_word_ariths unat_of_nat)

lemma blob_store_ok:
  assumes "blob_ok b" and "\<not> blob_rdonly b" and "bs \<noteq> []" and "length bs \<le> unat (SyBlobFreeSpace b)"
  shows "\<exists>b'. blob_store b bs = Inr b' \<and> blob_ok b' \<and> blob_contents b' = blob_contents b @ bs"
proof -
  have le: "unat (nByte b) \<le> unat (mByte b)" "nByte b \<le> mByte b" using assms(1,2) by (simp_all add: blob_ok_def word_le_nat_alt)
  then have fits: "unat (nByte b) + length bs \<le> unat (mByte b)" using assms(4) free_space [of b] by simp
  then obtain buf where buf: "pBlob b = Some buf" "unat (mByte b) \<le> length buf"
    using assms(1-3) by (cases "pBlob b") (auto simp: blob_ok_def)
  have "unat (mByte b) < 2 ^ 32" using unsigned_less [of "mByte b"] by simp
  then have n: "unat (nByte b + word_of_nat (length bs)) = unat (nByte b) + length bs"
    using fits by (intro unat_add_small) simp
  let ?b = "b\<lparr>pBlob := Some (take (unat (nByte b)) buf @ bs @ drop (unat (nByte b) + length bs) buf),
      nByte := nByte b + word_of_nat (length bs)\<rparr>"
  have "blob_store b bs = Inr ?b" using buf fits by (simp add: blob_store_def)
  moreover have "blob_ok ?b" using assms(2) fits buf n by (simp add: blob_ok_def word_le_nat_alt)
  moreover have "blob_contents ?b = blob_contents b @ bs"
    using fits buf assms(3) by (simp add: blob_contents_def n)
  ultimately show ?thesis by blast
qed


lemma u32_bound: "unat (w :: u32) < 2 ^ 32"
  using unsigned_less [of w] by simp

lemma mem_alloc_ok:
  assumes "allocator_ok A" and "unat n + 20 < 2 ^ 32"
  shows "mem_alloc A n = Inr None \<or> (\<exists>bs. mem_alloc A n = Inr (Some bs) \<and> length bs = unat n)"
proof -
  have "unat (n + 20) = unat n + 20" using unat_add_small [of n 20] assms(2) by simp
  then have "\<not> n + 20 < 20" by (simp add: word_less_nat_alt)
  then show ?thesis using assms(1) by (simp add: mem_alloc_def Let_def allocator_ok_def)
qed

lemma mem_realloc_ok:
  assumes "allocator_ok A" and "unat n + 20 < 2 ^ 32"
  shows "mem_realloc A p n = Inr None \<or>
    (\<exists>bs. mem_realloc A p n = Inr (Some bs) \<and> unat n \<le> length bs \<and> (\<forall>old. p = Some old \<longrightarrow> take (length old) bs = old \<and> length old \<le> length bs))"
proof (cases p)
  case None
  then show ?thesis using mem_alloc_ok [OF assms] by (auto simp: mem_realloc_def)
next
  case (Some old)
  have t: "unat (n + 16) = unat n + 16" using unat_add_small [of n 16] assms(2) by simp
  have "unat (n + 16 + 4) = unat (n + 16) + 4" using unat_add_small [of "n + 16" 4] assms(2) t by simp
  then have "\<not> n + 16 + 4 < n + 16" by (simp add: word_less_nat_alt)
  then show ?thesis using assms(1) t by (auto simp: mem_realloc_def Some Let_def allocator_ok_def)
qed

lemma blob_unshare_ok:
  assumes "allocator_ok A" and "blob_ok b" and "unat (nByte b) + 20 < 2 ^ 32"
  shows "\<exists>rc b'. blob_unshare A b = Inr (rc, b') \<and>
    (if rc = SXRET_OK
     then blob_ok b' \<and> \<not> blob_rdonly b' \<and> blob_contents b' = blob_contents b \<and> mByte b' \<le> max (mByte b) (nByte b) \<and>
       blob_locked b' = blob_locked b \<and> blob_static b' = blob_static b
     else rc = SXERR_MEM \<and> b' = b)"
proof (cases "blob_rdonly b")
  case False
  then show ?thesis using assms(2) by (simp add: blob_unshare_def)
next
  case True
  obtain bs where bs: "pBlob b = Some bs" "unat (nByte b) \<le> length bs" using assms(2) True by (auto simp: blob_ok_def)
  show ?thesis
  proof (cases "nByte b > 0")
    case False
    then have "nByte b = 0" by (metis word_gt_0)
    then show ?thesis using True bs by (auto simp: blob_unshare_def blob_ok_def blob_contents_def)
  next
    case pos: True
    consider "mem_alloc A (nByte b) = Inr None" | new where "mem_alloc A (nByte b) = Inr (Some new)" "length new = unat (nByte b)"
      using mem_alloc_ok [OF assms(1,3)] by blast
    then show ?thesis
    proof cases
      case 1
      then show ?thesis using True pos bs by (simp add: blob_unshare_def mem_dup_def)
    next
      case 2
      then show ?thesis using True pos bs
        by (auto simp: blob_unshare_def mem_dup_def blob_ok_def blob_contents_def)
    qed
  qed
qed

lemma no_capacity: "(\<not> 0 < (w :: u32)) = (w = 0)"
  by (simp add: word_gt_0)

text \<open>Growing leaves room for what is to come, or less only where the buffer cannot grow.\<close>

definition room_for :: "syblob \<Rightarrow> u32 \<Rightarrow> nat" where
  "room_for b n = (if blob_locked b \<or> blob_static b then min (unat n) (unat (SyBlobFreeSpace b)) else unat n)"

lemma PrepareGrow_ok:
  assumes "allocator_ok A" and "blob_ok b" and "unat n + 2 * max (unat (mByte b)) (unat (nByte b)) + 36 < 2 ^ 32" and "n > 0"
  shows "\<exists>rc k b'. BlobPrepareGrow A b n = Inr (rc, k, b') \<and> blob_ok b' \<and> blob_contents b' = blob_contents b \<and>
    (rc = SXRET_OK \<or> rc = SXERR_MEM \<or> rc = SXERR_SHORT) \<and> (rc = SXERR_SHORT \<longrightarrow> room_for b n = 0) \<and>
    (rc = SXRET_OK \<longrightarrow> \<not> blob_rdonly b' \<and> unat k = room_for b n \<and> 0 < k \<and> unat k \<le> unat (SyBlobFreeSpace b'))"
proof (cases "blob_locked b \<or> blob_static b")
  case True
  then have "\<not> blob_rdonly b" using assms(2) by (auto simp: blob_ok_def)
  then show ?thesis using True assms(2,4)
    by (cases "SyBlobFreeSpace b = 0") (auto simp: BlobPrepareGrow_def room_for_def min_def word_less_nat_alt word_le_nat_alt unat_gt_0)
next
  case False
  have "unat (nByte b) + 20 < 2 ^ 32" using assms(3) by simp
  from blob_unshare_ok [OF assms(1,2) this] obtain rc b1 where u: "blob_unshare A b = Inr (rc, b1)"
    and b1: "if rc = SXRET_OK
     then blob_ok b1 \<and> \<not> blob_rdonly b1 \<and> blob_contents b1 = blob_contents b \<and> mByte b1 \<le> max (mByte b) (nByte b) \<and>
       blob_locked b1 = blob_locked b \<and> blob_static b1 = blob_static b
     else rc = SXERR_MEM \<and> b1 = b" by blast
  show ?thesis
  proof (cases "rc = SXRET_OK \<and> \<not> SyBlobFreeSpace b1 \<ge> n")
    case grow: False
    then show ?thesis using u b1 False assms(2,4) by (auto simp: BlobPrepareGrow_def room_for_def word_le_nat_alt)
  next
    case grow: True
    let ?size = "if mByte b1 > 0 then n + mByte b1 * 2 + SXBLOB_MIN_GROWTH else if n < SXBLOB_MIN_GROWTH then SXBLOB_MIN_GROWTH else n"
    have ok: "blob_ok b1" "\<not> blob_rdonly b1" "blob_contents b1 = blob_contents b" "mByte b1 \<le> max (mByte b) (nByte b)"
      using b1 grow by simp_all
    have m: "unat n + 2 * unat (mByte b1) + 36 < 2 ^ 32"
      using assms(3) ok(4) by (auto simp: word_le_nat_alt max_def split: if_splits)
    have "unat (mByte b1 * 2) = unat (mByte b1) * 2" using m by (simp add: unat_word_ariths)
    then have "unat (n + mByte b1 * 2 + 16) = unat n + 2 * unat (mByte b1) + 16" using m by (simp add: unat_word_ariths)
    then have size: "unat ?size + 20 < 2 ^ 32" "unat n \<le> unat ?size" "mByte b1 > 0 \<longrightarrow> unat n + unat (mByte b1) \<le> unat ?size"
      using m by (auto simp: SXBLOB_MIN_GROWTH_def word_less_nat_alt)
    have le: "unat (nByte b1) \<le> unat (mByte b1)" using ok(1,2) by (simp add: blob_ok_def word_le_nat_alt)
    consider "mem_realloc A (pBlob b1) ?size = Inr None"
      | new where "mem_realloc A (pBlob b1) ?size = Inr (Some new)" "unat ?size \<le> length new"
          "\<forall>old. pBlob b1 = Some old \<longrightarrow> take (length old) new = old \<and> length old \<le> length new"
      using mem_realloc_ok [OF assms(1) size(1), of "pBlob b1"] by blast
    then show ?thesis
    proof cases
      case 1
      then show ?thesis using u grow False ok by (auto simp: BlobPrepareGrow_def Let_def)
    next
      case 2
      let ?b = "b1\<lparr>pBlob := Some new, mByte := ?size\<rparr>"
      have n: "unat (nByte b1) + unat n \<le> unat ?size" using size le by (cases "mByte b1 > 0") (simp_all add: no_capacity del: if_split)
      have "blob_ok ?b" using ok(2) 2(2) n by (simp add: blob_ok_def word_le_nat_alt del: if_split)
      moreover have "blob_contents ?b = blob_contents b1"
      proof (cases "pBlob b1")
        case None
        then have "unat (nByte b1) = 0" using ok(1,2) le by (simp add: blob_ok_def)
        then show ?thesis using None by (simp add: blob_contents_def)
      next
        case (Some old)
        then have "unat (nByte b1) \<le> length old" using ok(1,2) le by (simp add: blob_ok_def)
        then show ?thesis using 2(3) Some by (simp add: blob_contents_def) (metis min.absorb1 take_take)
      qed
      moreover have "unat (SyBlobFreeSpace ?b) = unat ?size - unat (nByte b1)"
        using n by (subst free_space) (simp_all add: word_le_nat_alt del: if_split)
      ultimately show ?thesis using u grow False ok(2,3) 2(1) n assms(4)
        by (auto simp: BlobPrepareGrow_def Let_def room_for_def simp del: if_split)
    qed
  qed
qed

lemma SyBlobAppend_ok:
  assumes "allocator_ok A" and "blob_ok b" and "length bs = unat n"
    and "unat n + 2 * max (unat (mByte b)) (unat (nByte b)) + 36 < 2 ^ 32"
  shows "\<exists>rc b'. SyBlobAppend A b (Some bs) n = Inr (rc, b') \<and> blob_ok b' \<and>
    (rc = SXRET_OK \<or> rc = SXERR_MEM \<or> rc = SXERR_SHORT \<and> room_for b n = 0) \<and>
    blob_contents b' = blob_contents b @ (if rc = SXRET_OK then take (room_for b n) bs else [])"
proof (cases "n < 1")
  case True
  then show ?thesis using assms by (simp add: SyBlobAppend_def)
next
  case False
  then have pos: "n > 0" by (simp add: word_gt_0 word_less_nat_alt)
  from PrepareGrow_ok [OF assms(1,2,4) pos] obtain rc k b1 where g: "BlobPrepareGrow A b n = Inr (rc, k, b1)"
    and b1: "blob_ok b1" "blob_contents b1 = blob_contents b" "rc = SXRET_OK \<or> rc = SXERR_MEM \<or> rc = SXERR_SHORT"
      "rc = SXERR_SHORT \<longrightarrow> room_for b n = 0"
      "rc = SXRET_OK \<longrightarrow> \<not> blob_rdonly b1 \<and> unat k = room_for b n \<and> 0 < k \<and> unat k \<le> unat (SyBlobFreeSpace b1)"
    by blast
  show ?thesis
  proof (cases "rc = SXRET_OK")
    case False
    then show ?thesis using g b1 \<open>\<not> n < 1\<close> by (auto simp: SyBlobAppend_def)
  next
    case True
    have k: "unat k \<le> length bs" using b1(5) True assms(3) by (simp add: room_for_def split: if_splits)
    have "0 < k" using b1(5) True by blast
    then have "0 < unat k" by (simp only: word_less_nat_alt unat_0)
    then have "take (unat k) bs \<noteq> []" using k by (cases bs) auto
    moreover have "length (take (unat k) bs) \<le> unat (SyBlobFreeSpace b1)" using b1(5) True by (auto simp: min_def)
    ultimately obtain b2 where "blob_store b1 (take (unat k) bs) = Inr b2" "blob_ok b2"
        "blob_contents b2 = blob_contents b1 @ take (unat k) bs"
      using blob_store_ok b1(1,5) True by metis
    then show ?thesis using g b1 True k \<open>\<not> n < 1\<close> by (simp add: SyBlobAppend_def)
  qed
qed


section \<open>Arrays are lists\<close>

text \<open>The slots in use are written and exist; there is no memory before the first element.\<close>

definition set_ok :: "'a syset \<Rightarrow> bool" where
  "set_ok s \<longleftrightarrow> nUsed s \<le> nSlots s \<and>
     (case pBase s of
        None \<Rightarrow> nSlots s = 0
      | Some xs \<Rightarrow> unat (nSlots s) \<le> length xs \<and> (\<forall>i < unat (nUsed s). xs ! i \<noteq> None))"

definition set_list :: "'a syset \<Rightarrow> 'a list" where
  "set_list s = (case pBase s of None \<Rightarrow> [] | Some xs \<Rightarrow> map the (take (unat (nUsed s)) xs))"

definition growable :: "'a syset \<Rightarrow> bool" where
  "growable s \<longleftrightarrow> has_allocator s \<and> 0 < eSize s \<and> unat (eSize s) * (2 * max 4 (unat (nSlots s))) + 20 < 2 ^ 32"

lemma set_list_length: "set_ok s \<Longrightarrow> length (set_list s) = unat (nUsed s)"
  by (auto simp: set_ok_def set_list_def word_le_nat_alt split: option.splits)

lemma set_init_ok: "set_ok (SySetInit al e)" "set_list (SySetInit al e) = []"
  by (simp_all add: set_ok_def set_list_def SySetInit_def)

lemma set_reset_ok: "set_ok s \<Longrightarrow> set_ok (SySetReset s)" "set_list (SySetReset s) = []"
  by (auto simp: set_ok_def set_list_def SySetReset_def split: option.splits)

lemma set_slot_ok:
  assumes "set_ok s" and "unat i < unat (nUsed s)"
  shows "set_slot s i = Inr (set_list s ! unat i)"
proof -
  have "unat (nUsed s) \<le> unat (nSlots s)" using assms(1) by (simp add: set_ok_def word_le_nat_alt)
  moreover obtain xs where xs: "pBase s = Some xs" "unat (nSlots s) \<le> length xs" "\<forall>i < unat (nUsed s). xs ! i \<noteq> None"
    using assms calculation by (cases "pBase s") (auto simp: set_ok_def)
  ultimately have "unat i < length xs" "xs ! unat i \<noteq> None" using assms(2) by auto
  then show ?thesis using xs(1) assms(2) by (auto simp: set_slot_def set_list_def optE_def)
qed

lemma set_store_ok:
  assumes "set_ok s" and "nUsed s < nSlots s"
  shows "\<exists>s'. set_store s x = Inr s' \<and> set_ok s' \<and> set_list s' = set_list s @ [x] \<and>
    has_allocator s' = has_allocator s \<and> eSize s' = eSize s \<and> nSlots s' = nSlots s \<and> nCursor s' = nCursor s"
proof -
  have lt: "unat (nUsed s) < unat (nSlots s)" using assms(2) by (simp add: word_less_nat_alt)
  obtain xs where xs: "pBase s = Some xs" "unat (nSlots s) \<le> length xs" "\<forall>i < unat (nUsed s). xs ! i \<noteq> None"
    using assms lt by (cases "pBase s") (auto simp: set_ok_def)
  have n: "unat (nUsed s + 1) = Suc (unat (nUsed s))"
    using lt u32_bound [of "nSlots s"] unat_add_small [of "nUsed s" 1] by simp
  let ?u = "unat (nUsed s)"
  let ?s = "s\<lparr>pBase := Some (xs[?u := Some x]), nUsed := nUsed s + 1\<rparr>"
  have "set_store s x = Inr ?s" using xs lt by (simp add: set_store_def)
  moreover have "set_ok ?s" using xs lt n by (auto simp: set_ok_def word_le_nat_alt nth_list_update less_Suc_eq)
  moreover have "set_list ?s = set_list s @ [x]"
    using xs lt n by (simp add: set_list_def take_Suc_conv_app_nth)
  ultimately show ?thesis by (intro exI [of _ ?s]) simp
qed

lemma slots_realloc_ok:
  assumes "unat bytes + 20 < 2 ^ 32" and "0 < e" and "unat bytes = unat e * n"
  shows "slots_realloc room e p bytes = Inr None \<or>
    (\<exists>xs. slots_realloc room e p bytes = Inr (Some xs) \<and> n \<le> length xs \<and> (\<forall>old. p = Some old \<longrightarrow> take (length old) xs = old))"
proof -
  have "0 < unat e" using assms(2) by (simp only: word_less_nat_alt unat_0)
  then have d: "unat bytes div unat e = n" using assms(3) by simp
  have b: "unat (bytes + 16) = unat bytes + 16" "unat (bytes + 20) = unat bytes + 20"
    using unat_add_small [of bytes 16] unat_add_small [of bytes 20] assms(1) by simp_all
  then have "\<not> bytes + 20 < 20" by (simp add: word_less_nat_alt)
  then show ?thesis
    using b d assms(3) \<open>0 < unat e\<close> by (cases p) (auto simp: slots_realloc_def slots_alloc_def)
qed

lemma SySetPut_ok:
  assumes "set_ok s" and "growable s"
  shows "(nSlots s \<le> nUsed s \<and> SySetPut room s x = Inr (SXERR_MEM, if nSlots s = 0 then s\<lparr>nSlots := 4\<rparr> else s)) \<or>
    (\<exists>s'. SySetPut room s x = Inr (SXRET_OK, s') \<and> set_ok s' \<and> set_list s' = set_list s @ [x] \<and>
      has_allocator s' \<and> eSize s' = eSize s \<and> nCursor s' = nCursor s)"
proof (cases "nSlots s \<le> nUsed s")
  case False
  then have "nUsed s < nSlots s" by simp
  from set_store_ok [OF assms(1) this, of x] obtain s' where "set_store s x = Inr s'" "set_ok s'" "set_list s' = set_list s @ [x]"
      "has_allocator s' = has_allocator s" "eSize s' = eSize s" "nCursor s' = nCursor s" by blast
  then show ?thesis using False assms(2) by (simp add: SySetPut_def growable_def)
next
  case True
  let ?n = "if nSlots s = 0 then 4 else nSlots s"
  let ?s = "s\<lparr>nSlots := ?n\<rparr>"
  have "unat (eSize s) * (2 * unat ?n) \<le> unat (eSize s) * (2 * max 4 (unat (nSlots s)))"
    by (intro mult_le_mono) auto
  then have g: "unat (eSize s) * (2 * unat ?n) + 20 < 2 ^ 32" using assms(2) unfolding growable_def by linarith
  have "0 < eSize s" "has_allocator s" using assms(2) by (simp_all add: growable_def)
  then have "0 < unat (eSize s)" by (simp only: word_less_nat_alt unat_0)
  then have "2 * unat ?n \<le> unat (eSize s) * (2 * unat ?n)" by (cases "unat (eSize s)") auto
  then have n2: "2 * unat ?n + 20 < 2 ^ 32" using g by linarith
  have "unat (eSize s * ?n) = unat (eSize s) * unat ?n" using g by (subst unat_word_ariths) simp
  then have bytes: "unat (eSize s * ?n * 2) = unat (eSize s) * (2 * unat ?n)" using g by (subst unat_word_ariths) simp
  have twice: "unat (?n * 2) = 2 * unat ?n" using n2 by (subst unat_word_ariths) simp
  have put: "SySetPut room s x = bindE (slots_realloc room (eSize s) (pBase s) (eSize s * ?n * 2)) (\<lambda>p.
      case p of None \<Rightarrow> Inr (SXERR_MEM, ?s)
      | Some xs \<Rightarrow> bindE (set_store (s\<lparr>pBase := Some xs, nSlots := ?n * 2\<rparr>) x) (\<lambda>s. Inr (SXRET_OK, s)))"
    using True \<open>has_allocator s\<close> by (cases "nSlots s = 0") (simp_all add: SySetPut_def Let_def cong: option.case_cong)
  have same: "?s = (if nSlots s = 0 then s\<lparr>nSlots := 4\<rparr> else s)" by simp
  consider "slots_realloc room (eSize s) (pBase s) (eSize s * ?n * 2) = Inr None"
    | xs where "slots_realloc room (eSize s) (pBase s) (eSize s * ?n * 2) = Inr (Some xs)" "2 * unat ?n \<le> length xs"
        "\<forall>old. pBase s = Some old \<longrightarrow> take (length old) xs = old"
    using slots_realloc_ok [OF _ \<open>0 < eSize s\<close> bytes, of room "pBase s"] g bytes by auto
  then show ?thesis
  proof cases
    case 1
    then show ?thesis using put True same by simp
  next
    case 2
    let ?t = "s\<lparr>pBase := Some xs, nSlots := ?n * 2\<rparr>"
    have u: "unat (nUsed s) \<le> unat (nSlots s)" using assms(1) by (simp add: set_ok_def word_le_nat_alt)
    have pos: "0 < unat ?n" by (simp add: unat_gt_0)
    have used: "unat (nUsed s) \<le> unat ?n" using u by auto
    have old: "take (unat (nUsed s)) xs = (case pBase s of None \<Rightarrow> [] | Some old \<Rightarrow> take (unat (nUsed s)) old)"
    proof (cases "pBase s")
      case None
      then show ?thesis using assms(1) u by (simp add: set_ok_def)
    next
      case (Some old)
      then have "unat (nUsed s) \<le> length old" using assms(1) u by (auto simp: set_ok_def)
      moreover have "take (length old) xs = old" using 2(3) Some by simp
      ultimately have "take (unat (nUsed s)) old = take (unat (nUsed s)) xs" by (metis min.absorb1 take_take)
      then show ?thesis using Some by simp
    qed
    have "xs ! i \<noteq> None" if "i < unat (nUsed s)" for i
    proof -
      have "xs ! i = take (unat (nUsed s)) xs ! i" using that by simp
      then show ?thesis using old that assms(1) u by (cases "pBase s") (auto simp: set_ok_def)
    qed
    then have "set_ok ?t" using 2(2) used twice pos by (simp add: set_ok_def word_le_nat_alt del: if_split)
    moreover have "nUsed ?t < nSlots ?t" using used twice pos by (simp add: word_less_nat_alt del: if_split)
    ultimately obtain s' where s': "set_store ?t x = Inr s'" "set_ok s'" "set_list s' = set_list ?t @ [x]"
        "has_allocator s' = has_allocator ?t" "eSize s' = eSize ?t" "nCursor s' = nCursor ?t"
      using set_store_ok [of ?t x] by blast
    have "set_list ?t = set_list s" using old by (auto simp: set_list_def split: option.splits)
    then show ?thesis using put 2(1) s' \<open>has_allocator s\<close> by simp
  qed
qed

lemma SySetAt_ok: "set_ok s \<Longrightarrow>
  SySetAt s i = Inr (if unat i < length (set_list s) then Some (set_list s ! unat i) else None)"
  using set_slot_ok [of s i] by (auto simp: SySetAt_def set_list_length word_le_nat_alt)

lemma SySetPeek_ok: "set_ok s \<Longrightarrow> SySetPeek s = Inr (if set_list s = [] then None else Some (last (set_list s)))"
proof -
  assume ok: "set_ok s"
  show ?thesis
  proof (cases "nUsed s = 0")
    case True
    then show ?thesis using set_list_length [OF ok] by (simp add: SySetPeek_def)
  next
    case False
    then have u: "unat (nUsed s - 1) = unat (nUsed s) - 1" "0 < unat (nUsed s)"
      by (simp_all add: unat_minus_one unat_gt_0)
    then have "set_list s \<noteq> []" using set_list_length [OF ok] by auto
    then show ?thesis using False u set_slot_ok [OF ok, of "nUsed s - 1"] set_list_length [OF ok]
      by (simp add: SySetPeek_def last_conv_nth)
  qed
qed

lemma SySetPop_ok:
  assumes "set_ok s"
  shows "\<exists>s'. SySetPop s = Inr (if set_list s = [] then None else Some (last (set_list s)), s') \<and>
    set_ok s' \<and> set_list s' = butlast (set_list s) \<and> eSize s' = eSize s \<and> nSlots s' = nSlots s \<and> has_allocator s' = has_allocator s"
proof (cases "nUsed s = 0")
  case True
  then show ?thesis using set_list_length [OF assms] assms by (simp add: SySetPop_def)
next
  case False
  let ?s = "s\<lparr>nUsed := nUsed s - 1\<rparr>"
  have u: "unat (nUsed s - 1) = unat (nUsed s) - 1" "0 < unat (nUsed s)"
    using False by (simp_all add: unat_minus_one unat_gt_0)
  have ne: "set_list s \<noteq> []" using u set_list_length [OF assms] by auto
  have slot: "set_slot ?s (nUsed s - 1) = set_slot s (nUsed s - 1)" by (simp add: set_slot_def)
  have "set_slot s (nUsed s - 1) = Inr (last (set_list s))"
    using u ne set_slot_ok [OF assms, of "nUsed s - 1"] set_list_length [OF assms] by (simp add: last_conv_nth)
  then have "SySetPop s = Inr (Some (last (set_list s)), ?s)" using False slot by (simp add: SySetPop_def Let_def)
  moreover have "set_ok ?s" using assms u by (auto simp: set_ok_def word_le_nat_alt split: option.splits)
  moreover have "set_list ?s = butlast (set_list s)"
  proof (cases "pBase s")
    case (Some xs)
    then have "unat (nUsed s) \<le> length xs" using assms by (auto simp: set_ok_def word_le_nat_alt)
    then show ?thesis using Some u by (simp add: set_list_def butlast_take map_butlast [symmetric])
  qed (simp add: set_list_def)
  ultimately show ?thesis using ne by simp
qed


text \<open>
  The contract of an array that grows: what its users rely on when they push, pop and index.
\<close>

locale growing_array =
  fixes ok :: "'s \<Rightarrow> bool" and items :: "'s \<Rightarrow> 'a list" and push :: "'a \<Rightarrow> 's \<Rightarrow> 's"
    and top :: "'s \<Rightarrow> 'a option" and pop :: "'s \<Rightarrow> 's" and at :: "'s \<Rightarrow> nat \<Rightarrow> 'a option" and capacity :: nat
  assumes push_ok: "ok s \<Longrightarrow> length (items s) < capacity \<Longrightarrow> ok (push x s) \<and> items (push x s) = items s @ [x]"
    and top_items: "ok s \<Longrightarrow> top s = (if items s = [] then None else Some (last (items s)))"
    and pop_ok: "ok s \<Longrightarrow> ok (pop s) \<and> items (pop s) = butlast (items s)"
    and at_items: "ok s \<Longrightarrow> i < capacity \<Longrightarrow> at s i = (if i < length (items s) then Some (items s ! i) else None)"
begin

lemma push_all:
  "ok s \<Longrightarrow> length (items s) + length xs \<le> capacity \<Longrightarrow> ok (fold push xs s) \<and> items (fold push xs s) = items s @ xs"
proof (induction xs arbitrary: s)
  case (Cons x xs)
  then show ?case using push_ok [of s x] Cons.IH [of "push x s"] by simp
qed simp

lemma last_in_first_out:
  assumes "ok s" and "length (items s) < capacity"
  shows "top (push x s) = Some x" and "items (pop (push x s)) = items s"
  using push_ok [OF assms] by (simp_all add: top_items pop_ok)

lemma at_pushed:
  assumes "ok s" and "items s = []" and "length xs \<le> capacity" and "i < length xs"
  shows "at (fold push xs s) i = Some (xs ! i)"
  using push_all [of s xs] assms by (simp add: at_items)

end

definition set_push :: "'a \<Rightarrow> 'a syset \<Rightarrow> 'a syset" where
  "set_push x s = (case SySetPut (\<lambda>_. True) s x of Inl e \<Rightarrow> s | Inr (rc, s') \<Rightarrow> s')"

definition set_top :: "'a syset \<Rightarrow> 'a option" where
  "set_top s = (case SySetPeek s of Inl e \<Rightarrow> None | Inr x \<Rightarrow> x)"

definition set_pop :: "'a syset \<Rightarrow> 'a syset" where
  "set_pop s = (case SySetPop s of Inl e \<Rightarrow> s | Inr (x, s') \<Rightarrow> s')"

definition set_at :: "'a syset \<Rightarrow> nat \<Rightarrow> 'a option" where
  "set_at s i = (case SySetAt s (word_of_nat i) of Inl e \<Rightarrow> None | Inr x \<Rightarrow> x)"

text \<open>An array of elements of at most a kilobyte; it has a slot for every element and no more than needed.\<close>

definition small_set :: "'a syset \<Rightarrow> bool" where
  "small_set s \<longleftrightarrow> set_ok s \<and> has_allocator s \<and> 0 < eSize s \<and> eSize s \<le> 1024"

lemma mem_error_none: "slots_realloc (\<lambda>_. True) e p bytes \<noteq> Inr None"
  by (auto simp: slots_realloc_def slots_alloc_def split: option.splits)

lemma put_never_fails: "SySetPut (\<lambda>_. True) s x \<noteq> Inr (SXERR_MEM, s')"
  using mem_error_none
  by (auto simp: SySetPut_def Let_def bindE_def split: sum.splits option.splits if_splits)

lemma small_growable:
  assumes "small_set s" and "length (set_list s) < 2 ^ 19" and "nSlots s \<le> nUsed s"
  shows "growable s"
proof -
  have n: "unat (nSlots s) < 2 ^ 19" using assms set_list_length [of s] by (simp add: small_set_def word_le_nat_alt)
  have "unat (eSize s) \<le> 1024" using assms(1) by (simp add: small_set_def word_le_nat_alt)
  then have "unat (eSize s) * (2 * max 4 (unat (nSlots s))) \<le> 1024 * (2 * 2 ^ 19)"
    using n by (intro mult_le_mono) auto
  then show ?thesis using assms(1) by (simp add: growable_def small_set_def)
qed

lemma small_push:
  assumes "small_set s" and "length (set_list s) < 2 ^ 19"
  shows "small_set (set_push x s) \<and> set_list (set_push x s) = set_list s @ [x]"
proof -
  have ok: "set_ok s" using assms(1) by (simp add: small_set_def)
  have "\<exists>s'. SySetPut (\<lambda>_. True) s x = Inr (SXRET_OK, s') \<and> set_ok s' \<and> set_list s' = set_list s @ [x] \<and>
      has_allocator s' \<and> eSize s' = eSize s"
  proof (cases "nSlots s \<le> nUsed s")
    case True
    then show ?thesis using SySetPut_ok [OF ok small_growable [OF assms True], of "\<lambda>_. True" x] put_never_fails [of s x] by blast
  next
    case False
    then have "nUsed s < nSlots s" by simp
    from set_store_ok [OF ok this, of x] obtain s' where "set_store s x = Inr s'" "set_ok s'" "set_list s' = set_list s @ [x]"
        "has_allocator s' = has_allocator s" "eSize s' = eSize s" by blast
    then show ?thesis using False assms(1) by (simp add: SySetPut_def small_set_def)
  qed
  then show ?thesis using assms(1) by (auto simp: set_push_def small_set_def)
qed

lemma small_pop: "small_set s \<Longrightarrow> small_set (set_pop s) \<and> set_list (set_pop s) = butlast (set_list s)"
proof -
  assume small: "small_set s"
  then have "set_ok s" by (simp add: small_set_def)
  from SySetPop_ok [OF this] obtain s' where
    "SySetPop s = Inr (if set_list s = [] then None else Some (last (set_list s)), s')" "set_ok s'"
    "set_list s' = butlast (set_list s)" "eSize s' = eSize s" "has_allocator s' = has_allocator s" by blast
  then show ?thesis using small by (simp add: set_pop_def small_set_def)
qed

interpretation sy: growing_array small_set set_list set_push set_top set_pop set_at "2 ^ 19"
proof unfold_locales
  fix s :: "'a syset" and i assume "small_set s" and "i < (2::nat) ^ 19"
  moreover have "unat (word_of_nat i :: u32) = i" using \<open>i < 2 ^ 19\<close> by (simp add: unat_of_nat)
  ultimately show "set_at s i = (if i < length (set_list s) then Some (set_list s ! i) else None)"
    by (simp add: set_at_def SySetAt_ok small_set_def)
next
  fix s :: "'a syset" assume "small_set s"
  then show "set_top s = (if set_list s = [] then None else Some (last (set_list s)))"
    by (simp add: set_top_def SySetPeek_ok small_set_def)
qed (simp_all add: small_push small_pop)

text \<open>The cursor reads the elements in order, then starts again.\<close>

fun read_all :: "nat \<Rightarrow> 'a syset \<Rightarrow> exn + 'a list \<times> 'a syset" where
  "read_all 0 s = Inr ([], s)"
| "read_all (Suc n) s =
     bindE (SySetGetNextEntry s) (\<lambda>((rc, x), s).
       case x of None \<Rightarrow> Inr ([], s) | Some x \<Rightarrow> bindE (read_all n s) (\<lambda>(xs, s). Inr (x # xs, s)))"

lemma next_entry_ok:
  assumes "set_ok s"
  shows "SySetGetNextEntry s =
    (if unat (nCursor s) < length (set_list s)
     then Inr ((SXRET_OK, Some (set_list s ! unat (nCursor s))), s\<lparr>nCursor := nCursor s + 1\<rparr>)
     else Inr ((SXERR_EOF, None), s\<lparr>nCursor := 0\<rparr>))"
  using set_slot_ok [OF assms, of "nCursor s"] by (auto simp: SySetGetNextEntry_def set_list_length [OF assms] word_le_nat_alt)

lemma read_all_ok:
  "set_ok s \<Longrightarrow> unat (nCursor s) \<le> length (set_list s) \<Longrightarrow> n = Suc (length (set_list s) - unat (nCursor s)) \<Longrightarrow>
   read_all n s = Inr (drop (unat (nCursor s)) (set_list s), s\<lparr>nCursor := 0\<rparr>)"
proof (induction n arbitrary: s)
  case (Suc n)
  show ?case
  proof (cases "unat (nCursor s) < length (set_list s)")
    case False
    then show ?thesis using next_entry_ok [OF Suc.prems(1)] by simp
  next
    case True
    let ?s = "s\<lparr>nCursor := nCursor s + 1\<rparr>"
    have c: "unat (nCursor s + 1) = Suc (unat (nCursor s))"
      using True set_list_length [OF Suc.prems(1)] u32_bound [of "nUsed s"] unat_add_small [of "nCursor s" 1] by simp
    have same: "set_list ?s = set_list s" "set_ok ?s = set_ok s" by (simp_all add: set_list_def set_ok_def split: option.split)
    have "read_all n ?s = Inr (drop (unat (nCursor ?s)) (set_list ?s), ?s\<lparr>nCursor := 0\<rparr>)"
      by (rule Suc.IH) (use Suc.prems True c same in auto)
    then show ?thesis
      using next_entry_ok [OF Suc.prems(1)] True same c by (simp add: Cons_nth_drop_Suc)
  qed
qed simp


section \<open>Hash tables are association lists\<close>

text \<open>
  The linear list has each entry once; an entry is in the bucket of its hash and in no other.
\<close>

definition hash_bucket :: "'v syhash \<Rightarrow> nat \<Rightarrow> nat" where
  "hash_bucket H a = (case hash_ents H a of None \<Rightarrow> 0 | Some e \<Rightarrow> bucket_of (ent_hash e) (length (hash_buckets H)))"

definition ents_ok :: "'v syhash \<Rightarrow> bool" where
  "ents_ok H \<longleftrightarrow> distinct (hash_list H) \<and>
     (\<forall>a \<in> set (hash_list H). a < next_ent H \<and> (\<exists>e. hash_ents H a = Some e \<and> ent_hash e = xHash H (ent_key e)))"

definition buckets_ok :: "'v syhash \<Rightarrow> bool" where
  "buckets_ok H \<longleftrightarrow> (\<forall>b < length (hash_buckets H). distinct (hash_buckets H ! b) \<and>
     set (hash_buckets H ! b) = {a \<in> set (hash_list H). hash_bucket H a = b})"

definition hash_ok :: "'v syhash \<Rightarrow> bool" where
  "hash_ok H \<longleftrightarrow> ents_ok H \<and> buckets_ok H \<and> 0 < length (hash_buckets H) \<and> length (hash_buckets H) < 2 ^ 32"

text \<open>The comparison function tells whether two keys of the same length are equal.\<close>

definition cmp_ok :: "'v syhash \<Rightarrow> bool" where
  "cmp_ok H \<longleftrightarrow> (\<forall>s t. length s = length t \<longrightarrow> xCmp H s t (length t) = (s = t))"

definition hash_entries :: "'v syhash \<Rightarrow> (byte list \<times> 'v) list" where
  "hash_entries H = map (\<lambda>a. (ent_key (the (hash_ents H a)), ent_data (the (hash_ents H a)))) (hash_list H)"

lemma default_cmp_ok: "length s = length t \<Longrightarrow> default_cmp s t (length t) = (s = t)"
  by (simp add: default_cmp_def SyMemcmp_eq)

lemma bucket_lt: "hash_ok H \<Longrightarrow> bucket_of h (length (hash_buckets H)) < length (hash_buckets H)"
  by (rule bucket_less) (simp_all add: hash_ok_def)

lemma hash_init_ok:
  assumes "SyHashInit al h c = Some H"
  shows "hash_ok H" and "hash_entries H = []"
    and "(\<And>f s t. c = Some f \<Longrightarrow> length s = length t \<Longrightarrow> f s t (length t) = (s = t)) \<Longrightarrow> cmp_ok H"
  using assms
  by (auto simp: SyHashInit_def hash_ok_def ents_ok_def buckets_ok_def hash_entries_def SXHASH_BUCKET_SIZE_def cmp_ok_def
      default_cmp_ok split: if_splits option.splits)

text \<open>Lookup finds an entry with the key, if there is one.\<close>

lemma same_entry_key:
  assumes "ents_ok H" and "cmp_ok H" and "a \<in> set (hash_list H)"
  shows "same_entry H key (xHash H key) a \<longleftrightarrow> ent_key (the (hash_ents H a)) = key"
proof -
  obtain e where e: "hash_ents H a = Some e" "ent_hash e = xHash H (ent_key e)"
    using assms(1,3) by (auto simp: ents_ok_def)
  show ?thesis
    using assms(2) e by (cases "length (ent_key e) = length key") (auto simp: same_entry_def cmp_ok_def)
qed

lemma HashGetEntry_Some:
  assumes "hash_ok H" and "cmp_ok H" and "HashGetEntry H key = Some a"
  shows "a \<in> set (hash_list H) \<and> ent_key (the (hash_ents H a)) = key"
proof -
  let ?b = "bucket_of (xHash H key) (length (hash_buckets H))"
  have f: "same_entry H key (xHash H key) a" "a \<in> set (hash_buckets H ! ?b)"
    using assms(3) by (auto simp: HashGetEntry_def Let_def find_Some_iff in_set_conv_nth)
  then have "a \<in> set (hash_list H)" using assms(1) bucket_lt [OF assms(1)] by (auto simp: hash_ok_def buckets_ok_def)
  then show ?thesis using same_entry_key [of H a key] f assms(1,2) by (simp add: hash_ok_def)
qed

lemma HashGetEntry_None:
  assumes "hash_ok H" and "cmp_ok H"
  shows "HashGetEntry H key = None \<longleftrightarrow> key \<notin> set (map fst (hash_entries H))"
proof
  assume none: "HashGetEntry H key = None"
  show "key \<notin> set (map fst (hash_entries H))"
  proof
    assume "key \<in> set (map fst (hash_entries H))"
    then obtain a where a: "a \<in> set (hash_list H)" "ent_key (the (hash_ents H a)) = key"
      by (auto simp: hash_entries_def)
    have "ents_ok H" using assms(1) by (simp add: hash_ok_def)
    then obtain e where e: "hash_ents H a = Some e" "ent_hash e = xHash H key" using a by (auto simp: ents_ok_def)
    let ?b = "bucket_of (xHash H key) (length (hash_buckets H))"
    have "a \<in> set (hash_buckets H ! ?b)"
      using a e assms(1) bucket_lt [OF assms(1)] by (auto simp: hash_ok_def buckets_ok_def hash_bucket_def)
    moreover have "same_entry H key (xHash H key) a" using same_entry_key [OF \<open>ents_ok H\<close> assms(2) a(1)] a(2) by simp
    ultimately show False using none by (auto simp: HashGetEntry_def Let_def find_None_iff)
  qed
next
  assume "key \<notin> set (map fst (hash_entries H))"
  then show "HashGetEntry H key = None"
    using HashGetEntry_Some [OF assms, of key] by (cases "HashGetEntry H key") (auto simp: hash_entries_def)
qed

definition hash_value :: "'v syhash \<Rightarrow> byte list \<Rightarrow> 'v option" where
  "hash_value H key = map_option (\<lambda>a. ent_data (the (hash_ents H a))) (SyHashGet H key)"

lemma SyHashGet_ok:
  assumes "hash_ok H" and "cmp_ok H" and "distinct (map fst (hash_entries H))" and "key \<noteq> []"
  shows "hash_value H key = map_of (hash_entries H) key"
proof -
  have k: "0 < length key" using assms(4) by simp
  show ?thesis
  proof (cases "HashGetEntry H key")
    case None
    then have "map_of (hash_entries H) key = None"
      using HashGetEntry_None [OF assms(1,2)] by (simp add: map_of_eq_None_iff)
    then show ?thesis using None by (simp add: hash_value_def SyHashGet_def)
  next
    case (Some a)
    have a: "a \<in> set (hash_list H)" "ent_key (the (hash_ents H a)) = key"
      using HashGetEntry_Some [OF assms(1,2) Some] by simp_all
    then have "(key, ent_data (the (hash_ents H a))) \<in> set (hash_entries H)" by (force simp: hash_entries_def)
    then have "map_of (hash_entries H) key = Some (ent_data (the (hash_ents H a)))" using assms(3) by (rule map_of_is_SomeI [rotated])
    moreover have "hash_count H \<noteq> 0" using a(1) by (auto simp: hash_count_def)
    ultimately show ?thesis using Some k by (simp add: hash_value_def SyHashGet_def)
  qed
qed

text \<open>Growing the table distributes the entries again; \<open>as_map\<close> carries the lemma on hashmaps over.\<close>

definition as_map :: "'v syhash \<Rightarrow> 'v hashmap" where
  "as_map H = jx9NewHashmap\<lparr>nodes := (\<lambda>a. map_option (\<lambda>e. \<lparr>xKey = BlobKey (ent_key e), nHash = ent_hash e, nVal = ent_data e\<rparr>) (hash_ents H a))\<rparr>"

lemma hash_rehash_map: "hash_rehash H as bs = rehash (as_map H) as bs"
proof (induction as arbitrary: bs)
  case (Cons a as)
  then show ?case by (cases "hash_ents H a") (simp_all add: as_map_def)
qed simp

lemma HashGrowTable_ok:
  assumes "hash_ok H" and "hash_count H < 2 ^ 28" and "hash_count H \<ge> length (hash_buckets H) * SXHASH_FILL_FACTOR"
  shows "hash_ok (HashGrowTable al H)" and "hash_entries (HashGrowTable al H) = hash_entries H"
    and "hash_list (HashGrowTable al H) = hash_list H" and "xHash (HashGrowTable al H) = xHash H"
    and "xCmp (HashGrowTable al H) = xCmp H"
proof -
  let ?n = "length (hash_buckets H) * 2"
  have n: "0 < ?n" "?n < 2 ^ 32" using assms by (simp_all add: hash_ok_def SXHASH_FILL_FACTOR_def)
  define bs where "bs = hash_rehash H (hash_list H) (replicate ?n [])"
  have ents: "distinct (hash_list H)" "\<forall>a \<in> set (hash_list H). hash_ents H a \<noteq> None"
    using assms(1) by (auto simp: hash_ok_def ents_ok_def)
  have hash: "nHash (the (nodes (as_map H) a)) = ent_hash (the (hash_ents H a))" if "a \<in> set (hash_list H)" for a
    using ents(2) that by (auto simp: as_map_def)
  have re: "length bs = ?n \<and> (\<forall>b < ?n. distinct (bs ! b) \<and>
      set (bs ! b) = {a \<in> set (hash_list H). bucket_of (ent_hash (the (hash_ents H a))) ?n = b})"
  proof -
    define z where "z = (replicate ?n [] :: nat list list)"
    have z: "length z = ?n" "\<forall>b < ?n. z ! b = []" by (simp_all add: z_def)
    have "length (rehash (as_map H) (hash_list H) z) = length z \<and> (\<forall>b < length z. distinct (rehash (as_map H) (hash_list H) z ! b) \<and>
      set (rehash (as_map H) (hash_list H) z ! b) = set (z ! b) \<union> {a \<in> set (hash_list H). bucket_of (nHash (the (nodes (as_map H) a))) (length z) = b})"
      by (rule rehash_buckets) (use n z ents in \<open>auto simp: as_map_def\<close>)
    then show ?thesis unfolding bs_def hash_rehash_map z_def [symmetric] z(1) using z(2) hash by auto
  qed
  let ?H = "H\<lparr>hash_buckets := bs\<rparr>"
  have "hash_bucket ?H a = bucket_of (ent_hash (the (hash_ents H a))) ?n" if "a \<in> set (hash_list H)" for a
    using ents(2) that re by (auto simp: hash_bucket_def)
  then have "buckets_ok ?H" using re by (auto simp: buckets_ok_def)
  moreover have "ents_ok ?H" using assms(1) by (simp add: hash_ok_def ents_ok_def)
  ultimately have ok: "hash_ok ?H" using re n by (simp add: hash_ok_def)
  have g: "HashGrowTable al H = (if \<not> bucket_room al ?n then H else ?H)" by (simp add: HashGrowTable_def Let_def bs_def)
  show "hash_ok (HashGrowTable al H)" using g ok assms(1) by simp
  show "hash_entries (HashGrowTable al H) = hash_entries H" "hash_list (HashGrowTable al H) = hash_list H"
    "xHash (HashGrowTable al H) = xHash H" "xCmp (HashGrowTable al H) = xCmp H"
    using g by (simp_all add: hash_entries_def)
qed

text \<open>The new entry comes first.\<close>

lemma HashInsert_ok:
  fixes key :: "byte list" and v :: 'v
  assumes "hash_ok H"
  defines "H' \<equiv> HashInsert H \<lparr>ent_key = key, ent_hash = xHash H key, ent_data = v\<rparr>"
  shows "hash_ok H'" and "hash_entries H' = (key, v) # hash_entries H" and "xHash H' = xHash H" and "xCmp H' = xCmp H"
proof -
  let ?a = "next_ent H" and ?b = "bucket_of (xHash H key) (length (hash_buckets H))"
  have b: "?b < length (hash_buckets H)" by (rule bucket_lt [OF assms(1)])
  have H': "hash_ents H' = (hash_ents H)(?a \<mapsto> \<lparr>ent_key = key, ent_hash = xHash H key, ent_data = v\<rparr>)" "next_ent H' = Suc ?a"
    "hash_list H' = ?a # hash_list H" "hash_buckets H' = push_bucket ?a ?b (hash_buckets H)" "xHash H' = xHash H" "xCmp H' = xCmp H"
    by (simp_all add: H'_def HashInsert_def Let_def)
  have ents: "ents_ok H" using assms(1) by (simp add: hash_ok_def)
  have fresh: "?a \<notin> set (hash_list H)" using ents by (auto simp: ents_ok_def)
  have "ents_ok H'" using ents fresh by (auto simp: ents_ok_def H' less_Suc_eq)
  moreover have "buckets_ok H'"
    unfolding buckets_ok_def
  proof (intro allI impI)
    fix c assume "c < length (hash_buckets H')"
    then have c: "c < length (hash_buckets H)" by (simp add: H' push_bucket_simps)
    have old: "distinct (hash_buckets H ! c)" "set (hash_buckets H ! c) = {a \<in> set (hash_list H). hash_bucket H a = c}"
      using assms(1) c by (auto simp: hash_ok_def buckets_ok_def)
    have at: "hash_buckets H' ! c = (if c = ?b then ?a # hash_buckets H ! ?b else hash_buckets H ! c)"
      unfolding H' by (rule push_bucket_simps(2) [OF b])
    have inb: "hash_bucket H' a = (if a = ?a then ?b else hash_bucket H a)" for a
      by (simp add: hash_bucket_def H' push_bucket_simps split: option.split)
    show "distinct (hash_buckets H' ! c) \<and> set (hash_buckets H' ! c) = {a \<in> set (hash_list H'). hash_bucket H' a = c}"
      unfolding at inb H'(3) using old fresh by auto
  qed
  ultimately show "hash_ok H'" using assms(1) by (simp add: hash_ok_def H' push_bucket_simps)
  show "hash_entries H' = (key, v) # hash_entries H"
    using fresh by (auto simp: hash_entries_def H')
qed (simp_all add: H'_def HashInsert_def Let_def)

lemma SyHashInsert_ok:
  assumes "hash_ok H" and "hash_count H < 2 ^ 28" and "SyHashInsert al H key v = (rc, H')"
  shows "hash_ok H' \<and> xHash H' = xHash H \<and> xCmp H' = xCmp H \<and>
    (rc = SXERR_MEM \<and> \<not> node_room al \<and> hash_entries H' = hash_entries H \<or>
     rc = SXRET_OK \<and> node_room al \<and> hash_entries H' = (key, v) # hash_entries H)"
proof -
  define G where "G = (if hash_count H \<ge> length (hash_buckets H) * SXHASH_FILL_FACTOR then HashGrowTable al H else H)"
  have G: "hash_ok G" "hash_entries G = hash_entries H" "xHash G = xHash H" "xCmp G = xCmp H"
    using assms(1,2) HashGrowTable_ok [of H al] by (simp_all add: G_def)
  have "(rc, H') = (if \<not> node_room al then (SXERR_MEM, G)
      else (SXRET_OK, HashInsert G \<lparr>ent_key = key, ent_hash = xHash G key, ent_data = v\<rparr>))"
    using assms(3) unfolding SyHashInsert_def Let_def G_def [symmetric] by simp
  then show ?thesis using G HashInsert_ok [OF G(1), of key v] by (auto split: if_splits)
qed


text \<open>Deleting by address drops that entry; by key, the entry that lookup finds.\<close>

lemma HashDeleteEntry_ok:
  assumes "hash_ok H" and "a \<in> set (hash_list H)"
  shows "hash_ok (HashDeleteEntry H a)"
    and "hash_entries (HashDeleteEntry H a) =
      map (\<lambda>c. (ent_key (the (hash_ents H c)), ent_data (the (hash_ents H c)))) (remove1 a (hash_list H))"
    and "xHash (HashDeleteEntry H a) = xHash H" and "xCmp (HashDeleteEntry H a) = xCmp H"
proof -
  have ents: "ents_ok H" using assms(1) by (simp add: hash_ok_def)
  then obtain e where e: "hash_ents H a = Some e" using assms(2) by (auto simp: ents_ok_def)
  let ?b = "bucket_of (ent_hash e) (length (hash_buckets H))" and ?H = "HashDeleteEntry H a"
  have b: "?b < length (hash_buckets H)" by (rule bucket_lt [OF assms(1)])
  have H: "hash_buckets ?H = (hash_buckets H)[?b := remove1 a (hash_buckets H ! ?b)]" "hash_list ?H = remove1 a (hash_list H)"
    "hash_ents ?H = (hash_ents H)(a := None)" "next_ent ?H = next_ent H" "xHash ?H = xHash H" "xCmp ?H = xCmp H"
    by (simp_all add: HashDeleteEntry_def e Let_def)
  have d: "distinct (hash_list H)" using ents by (simp add: ents_ok_def)
  have s: "set (remove1 a (hash_list H)) = set (hash_list H) - {a}" by (rule set_remove1_eq [OF d])
  have "ents_ok ?H" using ents s by (auto simp: ents_ok_def H distinct_remove1)
  moreover have "buckets_ok ?H"
    unfolding buckets_ok_def
  proof (intro allI impI)
    fix c assume "c < length (hash_buckets ?H)"
    then have c: "c < length (hash_buckets H)" by (simp add: H)
    have old: "distinct (hash_buckets H ! c)" "set (hash_buckets H ! c) = {x \<in> set (hash_list H). hash_bucket H x = c}"
      using assms(1) c by (auto simp: hash_ok_def buckets_ok_def)
    have at: "hash_buckets ?H ! c = (if c = ?b then remove1 a (hash_buckets H ! c) else hash_buckets H ! c)"
      using b by (simp add: H)
    have inb: "hash_bucket ?H x = (if x = a then 0 else hash_bucket H x)" for x
      by (simp add: hash_bucket_def H split: option.split)
    have own: "hash_bucket H a = ?b" by (simp add: hash_bucket_def e)
    show "distinct (hash_buckets ?H ! c) \<and> set (hash_buckets ?H ! c) = {x \<in> set (hash_list ?H). hash_bucket ?H x = c}"
    proof (cases "c = ?b")
      case True
      have "set (remove1 a (hash_buckets H ! c)) = set (hash_buckets H ! c) - {a}" by (rule set_remove1_eq [OF old(1)])
      then show ?thesis unfolding at inb H(2) s using old True by (auto simp: distinct_remove1)
    next
      case False
      then have "a \<notin> set (hash_buckets H ! c)" using old(2) own by simp
      then show ?thesis unfolding at inb H(2) s using old False by auto
    qed
  qed
  ultimately show "hash_ok ?H" using assms(1) by (simp add: hash_ok_def H)
  show "hash_entries ?H = map (\<lambda>c. (ent_key (the (hash_ents H c)), ent_data (the (hash_ents H c)))) (remove1 a (hash_list H))"
    unfolding hash_entries_def H by (rule map_cong) (use s in auto)
qed (simp_all add: HashDeleteEntry_def Let_def split: option.split)

lemma delete_key:
  assumes "distinct (map fst (map f as))" and "a \<in> set as"
  shows "map f (remove1 a as) = AList.delete (fst (f a)) (map f as)"
  using assms
proof (induction as)
  case (Cons c as)
  show ?case
  proof (cases "c = a")
    case True
    then have "fst (f a) \<notin> fst ` set (map f as)" using Cons.prems(1) by auto
    then show ?thesis using True by (cases "f a") (simp add: AList.delete_id)
  next
    case False
    then have "a \<in> set as" using Cons.prems by simp
    then have "fst (f c) \<noteq> fst (f a)" using Cons.prems(1) by force
    then show ?thesis using False Cons by (cases "f c") (auto simp: AList.delete_eq)
  qed
qed simp

lemma SyHashDeleteEntry_ok:
  assumes "hash_ok H" and "cmp_ok H" and "distinct (map fst (hash_entries H))"
  shows "\<exists>H'. SyHashDeleteEntry H key =
      ((if map_of (hash_entries H) key = None then SXERR_NOTFOUND else SXRET_OK, map_of (hash_entries H) key), H') \<and>
    hash_ok H' \<and> xHash H' = xHash H \<and> xCmp H' = xCmp H \<and> hash_entries H' = AList.delete key (hash_entries H)"
proof (cases "HashGetEntry H key")
  case None
  then have k: "key \<notin> set (map fst (hash_entries H))" using HashGetEntry_None [OF assms(1,2)] by blast
  then have "AList.delete key (hash_entries H) = hash_entries H" by (simp add: AList.delete_id)
  moreover have "map_of (hash_entries H) key = None" using k by (simp only: map_of_eq_None_iff) simp
  ultimately show ?thesis using None assms(1) by (simp add: SyHashDeleteEntry_def)
next
  case (Some a)
  let ?f = "\<lambda>c. (ent_key (the (hash_ents H c)), ent_data (the (hash_ents H c)))"
  have a: "a \<in> set (hash_list H)" "ent_key (the (hash_ents H a)) = key"
    using HashGetEntry_Some [OF assms(1,2) Some] by simp_all
  then obtain e where e: "hash_ents H a = Some e" using assms(1) by (auto simp: hash_ok_def ents_ok_def)
  have "map_of (hash_entries H) key = Some (ent_data e)"
    using assms(3) a e by (intro map_of_is_SomeI) (force simp: hash_entries_def)+
  moreover have "hash_entries (HashDeleteEntry H a) = AList.delete key (hash_entries H)"
    using delete_key [of ?f "hash_list H" a] assms(3) a HashDeleteEntry_ok(2) [OF assms(1) a(1)]
    by (simp add: hash_entries_def)
  ultimately show ?thesis using Some e HashDeleteEntry_ok(1,3,4) [OF assms(1) a(1)] by (simp add: SyHashDeleteEntry_def)
qed

text \<open>
  What the engine relies on: a table in which every key is added once behaves as the list of its
  entries, the newest first.
\<close>

locale symbol_table =
  fixes ok :: "'h \<Rightarrow> bool" and entries_of :: "'h \<Rightarrow> ('k \<times> 'v) list" and get :: "'h \<Rightarrow> 'k \<Rightarrow> 'v option"
    and add :: "'k \<Rightarrow> 'v \<Rightarrow> 'h \<Rightarrow> 'h" and remove :: "'k \<Rightarrow> 'h \<Rightarrow> 'h" and key_ok :: "'k \<Rightarrow> bool" and capacity :: nat
  assumes get_entries: "ok h \<Longrightarrow> key_ok k \<Longrightarrow> get h k = map_of (entries_of h) k"
    and add_ok: "ok h \<Longrightarrow> k \<notin> fst ` set (entries_of h) \<Longrightarrow> length (entries_of h) < capacity \<Longrightarrow>
      ok (add k v h) \<and> entries_of (add k v h) = (k, v) # entries_of h"
    and remove_ok: "ok h \<Longrightarrow> ok (remove k h) \<and> entries_of (remove k h) = AList.delete k (entries_of h)"
begin

lemma get_add:
  assumes "ok h" and "k \<notin> fst ` set (entries_of h)" and "length (entries_of h) < capacity" and "key_ok k'"
  shows "get (add k v h) k' = (if k' = k then Some v else get h k')"
  using add_ok [OF assms(1-3), of v] assms(1,4) by (simp add: get_entries)

lemma get_remove:
  assumes "ok h" and "key_ok k'"
  shows "get (remove k h) k' = (if k' = k then None else get h k')"
  using remove_ok [OF assms(1), of k] assms by (simp add: get_entries AList.delete_conv')

lemma remove_add:
  assumes "ok h" and "k \<notin> fst ` set (entries_of h)" and "length (entries_of h) < capacity"
  shows "entries_of (remove k (add k v h)) = entries_of h"
proof -
  have "AList.delete k (entries_of h) = entries_of h" using assms(2) by (rule AList.delete_id)
  then show ?thesis using add_ok [OF assms, of v] remove_ok [of "add k v h" k] by simp
qed

end

definition table_ok :: "'v syhash \<Rightarrow> bool" where
  "table_ok H \<longleftrightarrow> hash_ok H \<and> cmp_ok H \<and> distinct (map fst (hash_entries H))"

lemma hash_count_entries: "hash_count H = length (hash_entries H)"
  by (simp add: hash_count_def hash_entries_def)

interpretation ht: symbol_table table_ok hash_entries hash_value "\<lambda>k v H. snd (SyHashInsert all_room H k v)"
    "\<lambda>k H. snd (SyHashDeleteEntry H k)" "\<lambda>k. k \<noteq> []" "2 ^ 28"
proof unfold_locales
  fix H :: "'a syhash" and k :: "byte list"
  assume ok: "table_ok H"
  then have H: "hash_ok H" "cmp_ok H" "distinct (map fst (hash_entries H))" by (simp_all add: table_ok_def)
  show "hash_value H k = map_of (hash_entries H) k" if "k \<noteq> []" by (rule SyHashGet_ok [OF H that])
  show "table_ok (snd (SyHashInsert all_room H k v)) \<and> hash_entries (snd (SyHashInsert all_room H k v)) = (k, v) # hash_entries H"
    if "k \<notin> fst ` set (hash_entries H)" "length (hash_entries H) < 2 ^ 28" for v
  proof -
    obtain rc H' where i: "SyHashInsert all_room H k v = (rc, H')" by fastforce
    from SyHashInsert_ok [OF H(1) _ i] that(2) show ?thesis
      using i H that(1) by (auto simp: table_ok_def cmp_ok_def hash_count_entries all_room_def)
  qed
  show "table_ok (snd (SyHashDeleteEntry H k)) \<and> hash_entries (snd (SyHashDeleteEntry H k)) = AList.delete k (hash_entries H)"
    using SyHashDeleteEntry_ok [OF H, of k] H by (auto simp: table_ok_def cmp_ok_def distinct_delete)
qed


section \<open>Properties of the containers\<close>

definition demo_allocator :: allocator where
  "demo_allocator = \<lparr>os_room = (\<lambda>_. True), fresh = (\<lambda>n. replicate n 0)\<rparr>"

text \<open>
  Appending to a buffer puts the bytes behind its contents and keeps it proper, whether it has
  to be copied (read-only) or to grow; a buffer that cannot grow takes what there is room for and
  still reports success, or reports that it is full; without memory it is left as it was.
\<close>

theorem blob_append_correct:
  assumes "allocator_ok A" and "blob_ok b" and "length bs = unat n"
    and "unat n + 2 * max (unat (mByte b)) (unat (nByte b)) + 36 < 2 ^ 32"
  shows "\<exists>rc b'. SyBlobAppend A b (Some bs) n = Inr (rc, b') \<and> blob_ok b' \<and>
    (rc = SXRET_OK \<or> rc = SXERR_MEM \<or> rc = SXERR_SHORT \<and> room_for b n = 0) \<and>
    blob_contents b' = blob_contents b @ (if rc = SXRET_OK then take (room_for b n) bs else [])"
  by (rule SyBlobAppend_ok [OF assms])

lemma blob_append_correct_witness:
  "\<exists>rc b'. SyBlobAppend demo_allocator (SyBlobReadOnly SyBlobInit [1, 2] 2) (Some [3, 4, 5]) 3 = Inr (rc, b') \<and> blob_ok b' \<and>
    blob_contents b' = [1, 2] @ (if rc = SXRET_OK then [3, 4, 5] else [])"
proof -
  let ?b = "SyBlobReadOnly SyBlobInit [1, 2] 2"
  have "allocator_ok demo_allocator" by (simp add: allocator_ok_def demo_allocator_def)
  moreover have "blob_ok ?b" by (simp add: blob_ok_def SyBlobReadOnly_def SyBlobInit_def)
  moreover have "length [3, 4, 5::byte] = unat (3::u32)" by simp
  moreover have "unat (3::u32) + 2 * max (unat (mByte ?b)) (unat (nByte ?b)) + 36 < 2 ^ 32"
    by (simp add: SyBlobReadOnly_def SyBlobInit_def)
  ultimately have r: "\<exists>rc b'. SyBlobAppend demo_allocator ?b (Some [3, 4, 5]) 3 = Inr (rc, b') \<and> blob_ok b' \<and>
    (rc = SXRET_OK \<or> rc = SXERR_MEM \<or> rc = SXERR_SHORT \<and> room_for ?b 3 = 0) \<and>
    blob_contents b' = blob_contents ?b @ (if rc = SXRET_OK then take (room_for ?b 3) [3, 4, 5] else [])"
    by (rule blob_append_correct)
  have c: "blob_contents ?b = [1, 2]" "room_for ?b 3 = 3"
    by (simp_all add: blob_contents_def room_for_def SyBlobReadOnly_def SyBlobInit_def)
  show ?thesis using r unfolding c by auto
qed

text \<open>
  Past two gigabytes the capacity wraps around: the buffer is not grown, its capacity becomes
  smaller than its contents, and the bytes are written behind its memory.
\<close>

lemma blob_growth_wraps:
  fixes b :: syblob
  defines "full \<equiv> 0x7FFFFFF8 :: u32"
  assumes "\<not> blob_rdonly b" "\<not> blob_locked b" "\<not> blob_static b"
    and "pBlob b = Some buf" "length buf = unat full" "nByte b = full" "mByte b = full" "length bs = 16"
  shows "SyBlobAppend A b (Some bs) 16 = Inl UB"
proof -
  have len: "length buf = 0x7FFFFFF8" using assms(6) by (simp add: full_def)
  have "BlobPrepareGrow A b 16 = Inr (SXRET_OK, 16, b\<lparr>pBlob := Some buf, mByte := 16\<rparr>)"
    using assms len by (simp add: BlobPrepareGrow_def blob_unshare_def SyBlobFreeSpace_def mem_realloc_def SXBLOB_MIN_GROWTH_def Let_def)
  then show ?thesis using assms len by (simp add: SyBlobAppend_def blob_store_def)
qed

text \<open>
  C26. The elements put into an array are its list, in order; indexing and the cursor read them
  back, popping removes the last.
\<close>

theorem array_correct:
  fixes xs :: "'a list"
  assumes "length xs \<le> 2 ^ 19" and "0 < e" and "e \<le> 1024"
  defines "s \<equiv> fold set_push xs (SySetInit True e)"
  shows "set_list s = xs \<and> (\<forall>i < length xs. SySetAt s (word_of_nat i) = Inr (Some (xs ! i))) \<and>
    SySetAt s (word_of_nat (length xs)) = Inr None \<and> SySetPeek s = Inr (if xs = [] then None else Some (last xs)) \<and>
    (\<exists>s'. SySetPop s = Inr (if xs = [] then None else Some (last xs), s') \<and> set_list s' = butlast xs) \<and>
    (\<exists>s'. read_all (Suc (length xs)) (SySetResetCursor s) = Inr (xs, s') \<and> set_list s' = xs)"
proof -
  have "small_set (SySetInit True e :: 'a syset)" using assms(2,3) set_init_ok(1) [of True e, where ?'a = 'a] by (simp add: small_set_def SySetInit_def)
  then have s: "small_set s" "set_list s = xs"
    using sy.push_all [of "SySetInit True e" xs] assms(1) by (simp_all add: s_def set_init_ok)
  have ok: "set_ok s" using s(1) by (simp add: small_set_def)
  have i: "unat (word_of_nat i :: u32) = i" if "i \<le> length xs" for i using that assms(1) by (simp add: unat_of_nat)
  let ?s = "SySetResetCursor s"
  have r: "set_ok ?s" "set_list ?s = xs" "nCursor ?s = 0"
    using ok s(2) by (simp_all add: SySetResetCursor_def set_ok_def set_list_def split: option.splits)
  then have "read_all (Suc (length xs)) ?s = Inr (xs, ?s\<lparr>nCursor := 0\<rparr>)" using read_all_ok [of ?s "Suc (length xs)"] by simp
  moreover have "set_list (?s\<lparr>nCursor := 0\<rparr>) = xs" using r by (simp add: SySetResetCursor_def set_list_def split: option.splits)
  ultimately show ?thesis using SySetAt_ok [OF ok] SySetPeek_ok [OF ok] SySetPop_ok [OF ok] i by (auto simp: s(2))
qed

lemma array_correct_witness:
  "set_list (fold set_push [7, 8, 9, 10, 11 :: nat] (SySetInit True 8)) = [7, 8, 9, 10, 11]"
  using array_correct [of "[7, 8, 9, 10, 11 :: nat]" 8] by simp

text \<open>
  When the first allocation of an array fails, the array remembers room for four elements; the
  next element is written through a null pointer.
\<close>

lemma put_after_failed_put:
  "SySetPut (\<lambda>_. False) (SySetInit True e) x = Inr (SXERR_MEM, (SySetInit True e)\<lparr>nSlots := 4\<rparr>)"
  "SySetPut room ((SySetInit True e)\<lparr>nSlots := 4\<rparr>) y = Inl UB"
  by (simp_all add: SySetPut_def SySetInit_def slots_realloc_def slots_alloc_def set_store_def)

text \<open>The same after an array was released: it keeps its capacity, not its memory.\<close>

lemma put_after_release:
  "0 < nSlots s \<Longrightarrow> SySetPut room (SySetRelease s) x = Inl UB"
  by (simp add: SySetPut_def SySetRelease_def set_store_def word_gt_0)

text \<open>
  C27. A hash table in which every key was added once is the list of its entries: lookup by a
  non-empty key, insertion of a new key (when there is memory) and deletion act on that list and
  keep the table proper, also when it grows.
\<close>

theorem symbol_table_correct:
  assumes "table_ok H" and "hash_count H < 2 ^ 28" and "key \<notin> fst ` set (hash_entries H)" and "node_room al"
  shows "(\<forall>k. k \<noteq> [] \<longrightarrow> hash_value H k = map_of (hash_entries H) k) \<and>
    (\<exists>H'. SyHashInsert al H key v = (SXRET_OK, H') \<and> table_ok H' \<and> hash_entries H' = (key, v) # hash_entries H) \<and>
    (\<forall>k. \<exists>H'. SyHashDeleteEntry H k =
        ((if map_of (hash_entries H) k = None then SXERR_NOTFOUND else SXRET_OK, map_of (hash_entries H) k), H') \<and>
      table_ok H' \<and> hash_entries H' = AList.delete k (hash_entries H))"
proof -
  have H: "hash_ok H" "cmp_ok H" "distinct (map fst (hash_entries H))" using assms(1) by (simp_all add: table_ok_def)
  obtain rc H' where i: "SyHashInsert al H key v = (rc, H')" by fastforce
  then have "rc = SXRET_OK \<and> table_ok H' \<and> hash_entries H' = (key, v) # hash_entries H"
    using SyHashInsert_ok [OF H(1) assms(2) i] H assms(3,4) by (auto simp: table_ok_def cmp_ok_def)
  moreover have "\<exists>H'. SyHashDeleteEntry H k =
        ((if map_of (hash_entries H) k = None then SXERR_NOTFOUND else SXRET_OK, map_of (hash_entries H) k), H') \<and>
      table_ok H' \<and> hash_entries H' = AList.delete k (hash_entries H)" for k
  proof -
    obtain D where D: "SyHashDeleteEntry H k =
        ((if map_of (hash_entries H) k = None then SXERR_NOTFOUND else SXRET_OK, map_of (hash_entries H) k), D)"
      "hash_ok D" "xHash D = xHash H" "xCmp D = xCmp H" "hash_entries D = AList.delete k (hash_entries H)"
      using SyHashDeleteEntry_ok [OF H, of k] by blast
    then have "table_ok D" using H by (simp add: table_ok_def cmp_ok_def distinct_delete)
    then show ?thesis using D by blast
  qed
  ultimately show ?thesis using SyHashGet_ok [OF H] i by blast
qed

definition demo_table :: "nat syhash" where
  "demo_table = the (SyHashInit all_room None None)"

lemma demo_table: "table_ok demo_table" "hash_entries demo_table = []"
proof -
  have s: "SyHashInit all_room None None = Some (demo_table :: nat syhash)"
    by (simp add: demo_table_def SyHashInit_def all_room_def)
  then show "hash_entries demo_table = []" by (rule hash_init_ok(2))
  then show "table_ok demo_table" using hash_init_ok(1,3) [OF s] by (simp add: table_ok_def)
qed

lemma symbol_table_correct_witness:
  "\<exists>H'. SyHashInsert all_room demo_table [97] 5 = (SXRET_OK, H') \<and> hash_entries H' = [([97], 5)]"
proof -
  have "hash_count demo_table < 2 ^ 28" using demo_table(2) by (simp add: hash_count_entries)
  moreover have "[97] \<notin> fst ` set (hash_entries demo_table)" using demo_table(2) by simp
  moreover have "node_room all_room" by (simp add: all_room_def)
  ultimately show ?thesis using symbol_table_correct [OF demo_table(1), of "[97]" all_room 5] demo_table(2) by auto
qed

end

