(* ===== verification/Doubles.thy ===== *)
theory Doubles
  imports Prelude
begin

text \<open>
  Conversions between the integers of a JSON value and C doubles, as \<open>get<double>()\<close> and
  \<open>get<int64_t>()\<close> of \<open>nlohmann::json\<close> do them: an integer becomes the nearest double, ties
  going to the even significand; a double is truncated, which is undefined when the result
  does not fit. A double is its IEEE bit pattern.
\<close>

fun ilog2 :: "nat \<Rightarrow> nat" where
  "ilog2 n = (if n < 2 then 0 else Suc (ilog2 (n div 2)))"

declare ilog2.simps [simp del]

definition double_bits :: "nat \<Rightarrow> nat" where
  "double_bits n =
     (let e = ilog2 n
      in if n = 0 then 0
         else if e \<le> 52 then (e + 1023) * 2 ^ 52 + (n * 2 ^ (52 - e) - 2 ^ 52)
         else let q = n div 2 ^ (e - 52); r = n mod 2 ^ (e - 52); h = 2 ^ (e - 53)
              in (e + 1023) * 2 ^ 52 + ((if r > h \<or> r = h \<and> odd q then q + 1 else q) - 2 ^ 52))"

definition double_of_int :: "int \<Rightarrow> dbl" where
  "double_of_int i = word_of_nat (double_bits (nat \<bar>i\<bar>) + (if i < 0 then 2 ^ 63 else 0))"

definition double_trunc :: "dbl \<Rightarrow> int" where
  "double_trunc d =
     (let b = unat d mod 2 ^ 63; e = b div 2 ^ 52; m = 2 ^ 52 + b mod 2 ^ 52;
          n = (if e < 1023 then 0 else if e \<le> 1075 then m div 2 ^ (1075 - e) else m * 2 ^ (e - 1075))
      in if unat d < 2 ^ 63 then int n else - int n)"

definition double_to_int64 :: "dbl \<Rightarrow> exn + u64" where
  "double_to_int64 d =
     (let i = double_trunc d
      in if unat d mod 2 ^ 63 < 1086 * 2 ^ 52 \<or> i = - (2 ^ 63) then Inr (word_of_int i) else Inl UB)"

lemma ilog2_bounds: "0 < n \<Longrightarrow> 2 ^ ilog2 n \<le> n \<and> n < 2 ^ Suc (ilog2 n)"
proof (induction n rule: ilog2.induct)
  case (1 n)
  show ?case
  proof (cases "n < 2")
    case True
    then show ?thesis using 1 by (simp add: ilog2.simps [of n])
  next
    case False
    then have "2 ^ ilog2 (n div 2) \<le> n div 2" "n div 2 < 2 ^ Suc (ilog2 (n div 2))" using 1 by simp_all
    moreover have "n = 2 * (n div 2) + n mod 2" "n mod 2 < 2" by simp_all
    ultimately have "2 * 2 ^ ilog2 (n div 2) \<le> n" "n < 2 * (2 * 2 ^ ilog2 (n div 2))"
      unfolding power_Suc by linarith+
    then show ?thesis using False by (simp add: ilog2.simps [of n])
  qed
qed

lemma double_bits_small:
  assumes "0 < n" and "n < 2 ^ 53"
  shows "double_bits n div 2 ^ 52 = ilog2 n + 1023" "ilog2 n \<le> 52" "double_bits n < 2 ^ 63"
    "2 ^ 52 + double_bits n mod 2 ^ 52 = n * 2 ^ (52 - ilog2 n)"
proof -
  let ?e = "ilog2 n"
  from ilog2_bounds [OF assms(1)] have lo: "2 ^ ?e \<le> n" and hi: "n < 2 ^ Suc ?e" by auto
  have "(2 :: nat) ^ ?e < 2 ^ 53" using lo assms(2) by (rule le_less_trans)
  then have "?e < 53" by (rule power_less_imp_less_exp [rotated]) simp
  then show e: "?e \<le> 52" by simp
  have p: "(2 :: nat) ^ ?e * 2 ^ (52 - ?e) = 2 ^ 52" using e by (simp flip: power_add)
  then have lo': "2 ^ 52 \<le> n * 2 ^ (52 - ?e)" using lo by (metis mult_le_mono1)
  have "n * 2 ^ (52 - ?e) < 2 ^ Suc ?e * 2 ^ (52 - ?e)" using hi by (intro mult_strict_right_mono) simp_all
  also have "\<dots> = 2 * (2 ^ ?e * 2 ^ (52 - ?e))" by simp
  finally have hi': "n * 2 ^ (52 - ?e) < 2 * 2 ^ 52" by (simp only: p)
  have b: "double_bits n = (?e + 1023) * 2 ^ 52 + (n * 2 ^ (52 - ?e) - 2 ^ 52)"
    using assms(1) e by (simp add: double_bits_def Let_def)
  have m: "n * 2 ^ (52 - ?e) - 2 ^ 52 < 2 ^ 52" using hi' by simp
  show d: "double_bits n div 2 ^ 52 = ?e + 1023" unfolding b using m by simp
  have "double_bits n mod 2 ^ 52 = n * 2 ^ (52 - ?e) - 2 ^ 52"
    unfolding b using m by (simp only: mod_mult_self3 mod_less)
  then show "2 ^ 52 + double_bits n mod 2 ^ 52 = n * 2 ^ (52 - ?e)" using lo' by simp
  have "double_bits n < (?e + 1023 + 1) * 2 ^ 52" unfolding b using m by simp
  also have "\<dots> \<le> 2048 * 2 ^ 52" using e by simp
  finally show "double_bits n < 2 ^ 63" by simp
qed

text \<open>Integers of at most 53 bits survive the trip through a double.\<close>

lemma double_trunc_of_int:
  assumes "\<bar>i\<bar> < 2 ^ 53"
  shows "double_trunc (double_of_int i) = i"
proof (cases "i = 0")
  case True
  then show ?thesis by (simp add: double_trunc_def double_of_int_def double_bits_def ilog2.simps)
next
  case False
  let ?s = "if i < 0 then 2 ^ 63 else 0 :: nat"
  define n where "n = nat \<bar>i\<bar>"
  have n: "0 < n" "n < 2 ^ 53" using assms False by (simp_all add: n_def)
  note b = double_bits_small [OF n]
  have u: "unat (double_of_int i) = double_bits n + ?s"
    unfolding double_of_int_def n_def [symmetric] using b(3) by (intro unat_word_of_nat) simp
  have m: "unat (double_of_int i) mod 2 ^ 63 = double_bits n" using b(3) by (simp add: u)
  have s: "unat (double_of_int i) < 2 ^ 63 \<longleftrightarrow> \<not> i < 0" using b(3) by (simp add: u)
  have e: "\<not> ilog2 n + 1023 < 1023" "ilog2 n + 1023 \<le> 1075" "1075 - (ilog2 n + 1023) = 52 - ilog2 n"
    using b(2) by simp_all
  show ?thesis
    unfolding double_trunc_def Let_def m s b(1) b(4) using e by (auto simp: n_def)
qed

lemma double_to_int64_of_int:
  assumes "\<bar>i\<bar> < 2 ^ 53"
  shows "double_to_int64 (double_of_int i) = Inr (word_of_int i)"
proof -
  have "unat (double_of_int i) mod 2 ^ 63 < 1086 * 2 ^ 52"
  proof (cases "i = 0")
    case True
    then show ?thesis by (simp add: double_of_int_def double_bits_def)
  next
    case False
    define n where "n = nat \<bar>i\<bar>"
    have n: "0 < n" "n < 2 ^ 53" using assms False by (simp_all add: n_def)
    note b = double_bits_small [OF n]
    have "unat (double_of_int i) = double_bits n + (if i < 0 then 2 ^ 63 else 0)"
      unfolding double_of_int_def n_def [symmetric] using b(3) by (intro unat_word_of_nat) simp
    then have m: "unat (double_of_int i) mod 2 ^ 63 = double_bits n" using b(3) by simp
    have "double_bits n div 2 ^ 52 < 1086" using b(1,2) by simp
    then have "double_bits n < 1086 * 2 ^ 52" by (simp add: less_mult_imp_div_less div_less_iff_less_mult)
    then show ?thesis using m by simp
  qed
  then show ?thesis by (simp add: double_to_int64_def Let_def double_trunc_of_int [OF assms])
qed

end
