(* ===== verification/Vm.thy ===== *)
theory Vm
  imports Service MemView "HOL-Library.Multiset"
begin

text \<open>
  What the five backends under \<open>src/\<close> share: an action is a function on the backend's
  state that returns a value or the exception that left it; the views a call creates from
  its arguments live in \<open>createdViews\<close> and are destroyed, and written back, when it ends;
  a mutex is held for the length of a call; and the constructors run the preambles of the
  configuration. The locales at the end say what the provider relies on.
\<close>

section \<open>Actions\<close>

type_synonym ('a, 's) act = "'s \<Rightarrow> (exn + 'a) \<times> 's"

definition ret :: "'a \<Rightarrow> ('a, 's) act" where
  "ret x s = (Inr x, s)"

definition raise :: "exn \<Rightarrow> ('a, 's) act" where
  "raise e s = (Inl e, s)"

definition liftE :: "exn + 'a \<Rightarrow> ('a, 's) act" where
  "liftE r s = (r, s)"

definition modify :: "('s \<Rightarrow> 's) \<Rightarrow> (unit, 's) act" where
  "modify f s = (Inr (), f s)"

definition bindS :: "('a, 's) act \<Rightarrow> ('a \<Rightarrow> ('b, 's) act) \<Rightarrow> ('b, 's) act" where
  "bindS m f s = (case m s of (Inl e, s') \<Rightarrow> (Inl e, s') | (Inr x, s') \<Rightarrow> f x s')"

fun mapS :: "('a \<Rightarrow> ('b, 's) act) \<Rightarrow> 'a list \<Rightarrow> ('b list, 's) act" where
  "mapS f [] = ret []"
| "mapS f (x # xs) = bindS (f x) (\<lambda>y. bindS (mapS f xs) (\<lambda>ys. ret (y # ys)))"

text \<open>Something to be done whichever way an action ends, as a destructor does it.\<close>

definition finallyS :: "('a, 's) act \<Rightarrow> ('s \<Rightarrow> 's) \<Rightarrow> ('a, 's) act" where
  "finallyS m f s = (case m s of (r, s') \<Rightarrow> (r, f s'))"

named_theorems act_simps "running actions"

lemma run_simps [simp, act_simps]:
  "ret x s = (Inr x, s)" "raise e s = (Inl e, s)" "liftE r s = (r, s)" "modify f s = (Inr (), f s)"
  by (simp_all add: ret_def raise_def liftE_def modify_def)

lemma bindS_run [simp, act_simps]:
  "m s = (Inl e, s') \<Longrightarrow> bindS m f s = (Inl e, s')"
  "m s = (Inr x, s') \<Longrightarrow> bindS m f s = f x s'"
  by (simp_all add: bindS_def)

lemma bindS_Inr: "bindS m f s = (Inr y, s') \<longleftrightarrow> (\<exists>x s1. m s = (Inr x, s1) \<and> f x s1 = (Inr y, s'))"
  by (auto simp: bindS_def split: prod.split sum.split)

lemma bindS_cases:
  assumes "bindS m f s = (r, s')"
  obtains (fail) e where "m s = (Inl e, s')" "r = Inl e"
    | (go) x s1 where "m s = (Inr x, s1)" "f x s1 = (r, s')"
  using assms by (auto simp: bindS_def split: prod.splits sum.splits)

lemma mapS_cong [fundef_cong]:
  "xs = ys \<Longrightarrow> (\<And>x. x \<in> set ys \<Longrightarrow> f x = g x) \<Longrightarrow> mapS f xs = mapS g ys"
  by (induction ys arbitrary: xs) auto

lemma mapS_length: "mapS f xs s = (Inr ys, s') \<Longrightarrow> length ys = length xs"
  by (induction xs arbitrary: ys s) (auto simp: bindS_Inr)

text \<open>A relation between states that every step keeps is kept by the whole.\<close>

definition keeps :: "('s \<Rightarrow> 's \<Rightarrow> bool) \<Rightarrow> ('a, 's) act \<Rightarrow> bool" where
  "keeps R m = (\<forall>s. R s (snd (m s)))"

lemma keepsD: "keeps R m \<Longrightarrow> m s = (r, s') \<Longrightarrow> R s s'"
  unfolding keeps_def by (metis snd_conv)

lemma keepsI: "(\<And>s r s'. m s = (r, s') \<Longrightarrow> R s s') \<Longrightarrow> keeps R m"
  by (metis keeps_def prod.collapse)

lemma keeps_basic: "reflp R \<Longrightarrow> keeps R (ret x)" "reflp R \<Longrightarrow> keeps R (raise e)" "reflp R \<Longrightarrow> keeps R (liftE r)"
  "reflp R \<Longrightarrow> keeps R (Pair r)"
  by (auto simp: keeps_def reflp_def)

lemma keeps_bindS: "transp R \<Longrightarrow> keeps R m \<Longrightarrow> (\<And>x. keeps R (f x)) \<Longrightarrow> keeps R (bindS m f)"
  by (rule keepsI) (auto elim!: bindS_cases dest: keepsD intro: transpD)

lemma keeps_mapS: "reflp R \<Longrightarrow> transp R \<Longrightarrow> (\<And>x. x \<in> set xs \<Longrightarrow> keeps R (f x)) \<Longrightarrow> keeps R (mapS f xs)"
  by (induction xs) (auto intro!: keeps_bindS keeps_basic)

section \<open>The state backends share\<close>

text \<open>
  \<open>alive\<close> holds the views that exist, \<open>created\<close> the \<open>createdViews\<close> of the running call in
  order; \<open>pushed\<close> records the write-backs, each with the local data it sends.
\<close>

record ('bk, 'ep) vm_world =
  m_config :: json
  locked :: bool
  next_view :: nat
  alive :: "nat \<rightharpoonup> ('bk, 'ep) view"
  created :: "nat list"
  pushed :: "(('bk, 'ep) push_request \<times> local_data) list"

text \<open>Where the memory a script is given lies: in the bulk itself, or in the buffer of a view.\<close>

datatype 'bk mem_ptr = NullPtr | BulkPtr 'bk u64 | BufPtr nat

definition view_open :: "('bk, 'ep) net \<Rightarrow> json \<Rightarrow> (nat, ('bk, 'ep, 'z) vm_world_scheme) act" where
  "view_open net j s =
     (case MemoryView_json net j of
        Inl e \<Rightarrow> (Inl e, s)
      | Inr v \<Rightarrow> (Inr (next_view s),
          s\<lparr>next_view := Suc (next_view s), alive := (alive s)(next_view s \<mapsto> v)\<rparr>))"

definition view_keep :: "nat \<Rightarrow> ('bk, 'ep, 'z) vm_world_scheme \<Rightarrow> ('bk, 'ep, 'z) vm_world_scheme" where
  "view_keep n s = s\<lparr>created := created s @ [n]\<rparr>"

definition view_pointer ::
  "('bk, 'ep) net \<Rightarrow> nat \<Rightarrow> ('bk mem_ptr \<times> u64, ('bk, 'ep, 'z) vm_world_scheme) act"
where
  "view_pointer net n s =
     (case alive s n of
        None \<Rightarrow> (Inl UB, s)
      | Some v \<Rightarrow>
          (case prepareLocalData net v of
             (Some e, v') \<Rightarrow> (Inl e, s\<lparr>alive := (alive s)(n \<mapsto> v')\<rparr>)
           | (None, v') \<Rightarrow>
               (Inr (case m_local_data v' of NoData \<Rightarrow> NullPtr | InBulk off \<Rightarrow> BulkPtr (m_remote_bulk v') off
                     | Owned _ \<Rightarrow> BufPtr n, m_remote_size v'),
                s\<lparr>alive := (alive s)(n \<mapsto> v')\<rparr>)))"

definition pushes_of :: "('bk, 'ep) view \<Rightarrow> (('bk, 'ep) push_request \<times> local_data) list" where
  "pushes_of v = (case view_destroy v of None \<Rightarrow> [] | Some req \<Rightarrow> [(req, m_local_data v)])"

definition view_close :: "nat \<Rightarrow> ('bk, 'ep, 'z) vm_world_scheme \<Rightarrow> ('bk, 'ep, 'z) vm_world_scheme" where
  "view_close n s =
     (case alive s n of
        None \<Rightarrow> s
      | Some v \<Rightarrow> s\<lparr>alive := (alive s)(n := None), pushed := pushed s @ pushes_of v\<rparr>)"

definition close_created :: "('bk, 'ep, 'z) vm_world_scheme \<Rightarrow> ('bk, 'ep, 'z) vm_world_scheme" where
  "close_created s = (foldl (\<lambda>s n. view_close n s) s (created s))\<lparr>created := []\<rparr>"

text \<open>A block with its own \<open>createdViews\<close>, and one that holds the mutex.\<close>

definition with_views ::
  "('a, ('bk, 'ep, 'z) vm_world_scheme) act \<Rightarrow> ('a, ('bk, 'ep, 'z) vm_world_scheme) act"
where
  "with_views m s =
     finallyS m (\<lambda>s'. (close_created s')\<lparr>created := created s\<rparr>) (s\<lparr>created := []\<rparr>)"

definition with_lock ::
  "('a, ('bk, 'ep, 'z) vm_world_scheme) act \<Rightarrow> ('a, ('bk, 'ep, 'z) vm_world_scheme) act"
where
  "with_lock m s =
     (if locked s then (Inl Deadlock, s)
      else finallyS m (\<lambda>s'. s'\<lparr>locked := False\<rparr>) (s\<lparr>locked := True\<rparr>))"

text \<open>
  A script reads and writes the buffers of the views that exist; it reaches nothing else of
  them.
\<close>

type_synonym memory = "nat \<rightharpoonup> byte list"

definition view_buffer :: "('bk, 'ep) view \<Rightarrow> byte list option" where
  "view_buffer v = (case m_local_data v of Owned bs \<Rightarrow> Some bs | _ \<Rightarrow> None)"

definition view_memory :: "('bk, 'ep, 'z) vm_world_scheme \<Rightarrow> memory" where
  "view_memory s n = Option.bind (alive s n) view_buffer"

definition write_buffer :: "byte list option \<Rightarrow> ('bk, 'ep) view \<Rightarrow> ('bk, 'ep) view" where
  "write_buffer m v =
     (case (m_local_data v, m) of (Owned _, Some bs) \<Rightarrow> v\<lparr>m_local_data := Owned bs\<rparr> | _ \<Rightarrow> v)"

definition put_memory :: "memory \<Rightarrow> ('bk, 'ep, 'z) vm_world_scheme \<Rightarrow> ('bk, 'ep, 'z) vm_world_scheme" where
  "put_memory m s = s\<lparr>alive := \<lambda>n. map_option (write_buffer (m n)) (alive s n)\<rparr>"

section \<open>Results, files, preambles\<close>

definition failed :: "string \<Rightarrow> json result" where
  "failed e = (Result_default JNull)\<lparr>m_success := False, m_error := e\<rparr>"

definition succeeded :: "json \<Rightarrow> json result" where
  "succeeded v = (Result_default JNull)\<lparr>m_value := v\<rparr>"

text \<open>\<open>files\<close> is what opening and reading a file yields.\<close>

definition load_file ::
  "(string \<rightharpoonup> string) \<Rightarrow> string \<Rightarrow> (string \<Rightarrow> (json result, 's) act) \<Rightarrow> (json result, 's) act"
where
  "load_file files filename run =
     (case files filename of
        None \<Rightarrow> ret (failed (''Error opening file: '' @ filename))
      | Some code \<Rightarrow> run code)"

definition check_preamble :: "string \<Rightarrow> json result \<Rightarrow> (unit, 's) act" where
  "check_preamble msg r = (if \<not> m_success r then raise (Exn (msg @ m_error r)) else ret ())"

definition run_preamble ::
  "(string \<Rightarrow> json list \<Rightarrow> (json result, 's) act) \<Rightarrow> (string \<Rightarrow> json list \<Rightarrow> (json result, 's) act) \<Rightarrow>
     json \<Rightarrow> (unit, 's) act"
where
  "run_preamble load execute config =
     (if \<not> is_object config then ret ()
      else
        bindS (case member config ''preamble_argv'' of
                 None \<Rightarrow> ret []
               | Some (JArray vs) \<Rightarrow> ret vs
               | Some _ \<Rightarrow> raise (Exn ''\"preamble_argv\" should be an array'')) (\<lambda>args.
        bindS (case member config ''preamble_file'' of
                 Some (JString f) \<Rightarrow> bindS (load f args) (check_preamble ''Could not load preamble file: '')
               | _ \<Rightarrow> ret ()) (\<lambda>_.
        case member config ''preamble'' of
          Some (JString c) \<Rightarrow> bindS (execute c args) (check_preamble ''Could not execute preamble: '')
        | _ \<Rightarrow> ret ())))"

definition new_world :: "json \<Rightarrow> ('bk, 'ep) vm_world" where
  "new_world config =
     \<lparr>m_config = config, locked = False, next_view = 0, alive = Map.empty, created = [], pushed = []\<rparr>"

section \<open>Calls leave nothing behind\<close>

definition idle :: "('bk, 'ep, 'z) vm_world_scheme \<Rightarrow> bool" where
  "idle s \<longleftrightarrow> \<not> locked s \<and> created s = [] \<and> alive s = Map.empty"

definition tracked :: "('bk, 'ep, 'z) vm_world_scheme \<Rightarrow> bool" where
  "tracked s \<longleftrightarrow> dom (alive s) \<subseteq> set (created s)"

text \<open>What holds between two states inside a call: the views that exist are the call's own.\<close>

definition inside :: "('bk, 'ep, 'z) vm_world_scheme \<Rightarrow> ('bk, 'ep, 'z) vm_world_scheme \<Rightarrow> bool" where
  "inside s s' \<longleftrightarrow> m_config s' = m_config s \<and> locked s' = locked s \<and> (tracked s \<longrightarrow> tracked s')"

lemma inside_preorder [simp]: "reflp inside" "transp inside"
  by (auto simp: inside_def intro!: reflpI transpI)

lemma view_close_fields [simp]:
  "m_config (view_close n s) = m_config s" "locked (view_close n s) = locked s"
  "created (view_close n s) = created s" "next_view (view_close n s) = next_view s"
  "alive (view_close n s) = (alive s)(n := None)"
  by (auto simp: view_close_def split: option.split)

lemma close_all_fields:
  "m_config (foldl (\<lambda>s n. view_close n s) s ns) = m_config s"
  "locked (foldl (\<lambda>s n. view_close n s) s ns) = locked s"
  "alive (foldl (\<lambda>s n. view_close n s) s ns) = alive s |` (- set ns)"
  by (induction ns arbitrary: s) (auto simp: restrict_map_def)

lemma close_created_fields [simp]:
  "m_config (close_created s) = m_config s" "locked (close_created s) = locked s"
  "created (close_created s) = []" "alive (close_created s) = alive s |` (- set (created s))"
  by (simp_all add: close_created_def close_all_fields)

lemma close_created_tracked: "tracked s \<Longrightarrow> alive (close_created s) = Map.empty"
  unfolding close_created_fields by (rule ext) (auto simp: tracked_def restrict_map_def subset_iff domIff)

text \<open>Each view of the call is written back once, in the order of creation, as it then is.\<close>

definition final_pushes :: "('bk, 'ep, 'z) vm_world_scheme \<Rightarrow> (('bk, 'ep) push_request \<times> local_data) list" where
  "final_pushes s =
     concat (map (\<lambda>n. case alive s n of None \<Rightarrow> [] | Some v \<Rightarrow> pushes_of v) (created s))"

lemma close_all_pushed:
  "distinct ns \<Longrightarrow> pushed (foldl (\<lambda>s n. view_close n s) s ns) =
     pushed s @ concat (map (\<lambda>n. case alive s n of None \<Rightarrow> [] | Some v \<Rightarrow> pushes_of v) ns)"
proof (induction ns arbitrary: s)
  case (Cons n ns)
  have "concat (map (\<lambda>m. case alive (view_close n s) m of None \<Rightarrow> [] | Some v \<Rightarrow> pushes_of v) ns) =
      concat (map (\<lambda>m. case alive s m of None \<Rightarrow> [] | Some v \<Rightarrow> pushes_of v) ns)"
    using Cons.prems by (intro arg_cong [where f = concat] map_cong) auto
  moreover have "pushed (view_close n s) = pushed s @ (case alive s n of None \<Rightarrow> [] | Some v \<Rightarrow> pushes_of v)"
    by (auto simp: view_close_def split: option.split)
  moreover have "pushed (foldl (\<lambda>s n. view_close n s) (view_close n s) ns) =
      pushed (view_close n s) @ concat (map (\<lambda>m. case alive (view_close n s) m of None \<Rightarrow> [] | Some v \<Rightarrow> pushes_of v) ns)"
    using Cons by simp
  ultimately show ?case by (simp del: view_close_fields)
qed simp

lemma close_created_pushed: "distinct (created s) \<Longrightarrow> pushed (close_created s) = pushed s @ final_pushes s"
  by (simp add: close_created_def close_all_pushed final_pushes_def)

lemma keeps_view_pointer: "keeps inside (view_pointer net n)"
  by (rule keepsI)
    (auto simp: inside_def tracked_def view_pointer_def split: option.splits prod.splits)

lemma keeps_open_keep:
  assumes "\<And>n. keeps inside (g n)"
  shows "keeps inside (bindS (view_open net j) (\<lambda>n. bindS (modify (view_keep n)) (\<lambda>_. g n)))"
proof (rule keepsI)
  fix s r s'
  assume run: "bindS (view_open net j) (\<lambda>n. bindS (modify (view_keep n)) (\<lambda>_. g n)) s = (r, s')"
  show "inside s s'"
  proof (cases "MemoryView_json net j")
    case (Inl e)
    then show ?thesis using run by (simp add: view_open_def bindS_def inside_def)
  next
    case (Inr v)
    let ?s1 = "view_keep (next_view s) (s\<lparr>next_view := Suc (next_view s), alive := (alive s)(next_view s \<mapsto> v)\<rparr>)"
    have "g (next_view s) ?s1 = (r, s')" using run Inr by (simp add: view_open_def bindS_def)
    then have "inside ?s1 s'" by (rule keepsD [OF assms])
    moreover have "inside s ?s1" by (auto simp: inside_def tracked_def view_keep_def)
    ultimately show ?thesis using transpD [OF inside_preorder(2)] by blast
  qed
qed

lemma inside_put_memory: "inside s (put_memory m s)"
  by (auto simp: inside_def tracked_def put_memory_def)

lemma with_views_idle:
  assumes "keeps inside m" and "idle s" and "with_views m s = (r, s')"
  shows "idle s' \<and> m_config s' = m_config s"
proof -
  obtain s1 where m: "m (s\<lparr>created := []\<rparr>) = (r, s1)" and s': "s' = (close_created s1)\<lparr>created := created s\<rparr>"
    using assms(3) by (auto simp: with_views_def finallyS_def split: prod.splits)
  have "tracked (s\<lparr>created := []\<rparr>)" using assms(2) by (simp add: idle_def tracked_def)
  then have "tracked s1" "m_config s1 = m_config s" "locked s1 = locked s"
    using keepsD [OF assms(1) m] by (simp_all add: inside_def)
  then show ?thesis using assms(2) close_created_tracked [of s1] by (simp add: s' idle_def)
qed

lemma with_lock_idle:
  assumes "\<And>s r s'. alive s = Map.empty \<Longrightarrow> created s = [] \<Longrightarrow> locked s \<Longrightarrow> m s = (r, s') \<Longrightarrow>
      alive s' = Map.empty \<and> created s' = [] \<and> m_config s' = m_config s"
    and "idle s" and "with_lock m s = (r, s')"
  shows "idle s' \<and> m_config s' = m_config s"
proof -
  obtain s1 where m: "m (s\<lparr>locked := True\<rparr>) = (r, s1)" and s': "s' = s1\<lparr>locked := False\<rparr>"
    using assms(2,3) by (auto simp: with_lock_def finallyS_def idle_def split: prod.splits)
  from assms(1) [OF _ _ _ m] assms(2) show ?thesis by (simp add: s' idle_def)
qed

text \<open>A call: lock, own views, body.\<close>

lemma call_idle:
  assumes "keeps inside m" and "idle s" and "with_lock (with_views m) s = (r, s')"
  shows "idle s' \<and> m_config s' = m_config s"
proof (rule with_lock_idle [OF _ assms(2,3)])
  fix s r s'
  assume a: "alive s = Map.empty" "created s = []" and run: "with_views m s = (r, s')"
  obtain s1 where m: "m (s\<lparr>created := []\<rparr>) = (r, s1)" and s': "s' = (close_created s1)\<lparr>created := created s\<rparr>"
    using run by (auto simp: with_views_def finallyS_def split: prod.splits)
  have "tracked (s\<lparr>created := []\<rparr>)" using a by (simp add: tracked_def)
  then have "tracked s1" "m_config s1 = m_config s" using keepsD [OF assms(1) m] by (simp_all add: inside_def)
  then show "alive s' = Map.empty \<and> created s' = [] \<and> m_config s' = m_config s"
    using a close_created_tracked [of s1] by (simp add: s')
qed

lemma load_file_cases:
  "load_file files filename run s = (r, s') \<Longrightarrow>
     (s' = s \<and> r = Inr (failed (''Error opening file: '' @ filename)) \<and> files filename = None) \<or>
     (\<exists>code. files filename = Some code \<and> run code s = (r, s'))"
  by (auto simp: load_file_def split: option.splits)

text \<open>The constructors run at most two scripts, so they keep what the scripts keep.\<close>

lemma keeps_run_preamble:
  assumes "reflp R" and "transp R" and "\<And>f args. keeps R (load f args)" and "\<And>c args. keeps R (execute c args)"
  shows "keeps R (run_preamble load execute config)"
proof -
  have "keeps R (check_preamble msg r)" for msg r
    using assms(1) by (simp add: check_preamble_def keeps_basic)
  then show ?thesis
    using assms unfolding run_preamble_def
    by (auto split: option.split json.split intro!: keeps_bindS keeps_basic)
qed

text \<open>What a whole call keeps, and so what a constructor that succeeds has kept.\<close>

definition calm :: "('bk, 'ep, 'z) vm_world_scheme \<Rightarrow> ('bk, 'ep, 'z) vm_world_scheme \<Rightarrow> bool" where
  "calm s s' \<longleftrightarrow> (idle s \<longrightarrow> idle s' \<and> m_config s' = m_config s)"

lemma calm_preorder [simp]: "reflp calm" "transp calm"
proof -
  show "reflp calm" by (rule reflpI) (simp add: calm_def)
  show "transp calm" by (rule transpI) (simp add: calm_def)
qed

lemma keeps_calm: "(\<And>s r s'. idle s \<Longrightarrow> m s = (r, s') \<Longrightarrow> idle s' \<and> m_config s' = m_config s) \<Longrightarrow> keeps calm m"
  unfolding calm_def by (rule keepsI) blast

lemma run_preamble_idle:
  assumes "\<And>f args s r s'. idle s \<Longrightarrow> load f args s = (r, s') \<Longrightarrow> idle s' \<and> m_config s' = m_config s"
    and "\<And>c args s r s'. idle s \<Longrightarrow> execute c args s = (r, s') \<Longrightarrow> idle s' \<and> m_config s' = m_config s"
    and "run_preamble load execute config s = (r, s')" and "idle s"
  shows "idle s' \<and> m_config s' = m_config s"
proof -
  have "keeps calm (load f args)" for f args by (rule keeps_calm) (rule assms(1))
  moreover have "keeps calm (execute c args)" for c args by (rule keeps_calm) (rule assms(2))
  ultimately have "keeps calm (run_preamble load execute config)"
    by (intro keeps_run_preamble) simp_all
  from keepsD [OF this assms(3)] assms(4) show ?thesis by (simp add: calm_def)
qed

text \<open>A C string ends at the first zero byte.\<close>

definition cstr :: "string \<Rightarrow> string" where
  "cstr s = takeWhile (\<lambda>c. c \<noteq> CHR 0x00) s"

lemma cstr_id: "CHR 0x00 \<notin> set s \<Longrightarrow> cstr s = s"
  by (auto simp: cstr_def takeWhile_eq_all_conv)

section \<open>Conversions in general\<close>

text \<open>Building an object from its members in any order gives the object.\<close>

definition obj_of :: "(string \<times> json) list \<Rightarrow> json" where
  "obj_of ms = JObject (foldl (\<lambda>ms (k, v). obj_set k v ms) [] ms)"

lemma obj_ok_distinct: "obj_ok ms \<Longrightarrow> distinct (map fst ms)"
  by (simp add: strict_sorted_iff)

lemma obj_ok_unique:
  assumes "obj_ok ms" and "obj_ok ns" and "map_of ms = map_of ns"
  shows "ms = ns"
proof -
  have dm: "distinct (map fst ms)" and dn: "distinct (map fst ns)"
    using assms(1,2) obj_ok_distinct by auto
  have "set ms = set ns" using assms(3) map_of_inject_set [OF dm dn] by simp
  then have keys: "map fst ms = map fst ns"
    using assms(1,2) by (intro strict_sorted_equal) auto
  then have len: "length ms = length ns" by (metis length_map)
  show ?thesis
  proof (rule nth_equalityI [OF len])
    fix i assume i: "i < length ms"
    have f: "fst (ms ! i) = fst (ns ! i)" using keys i len by (metis nth_map)
    have "map_of ms (fst (ms ! i)) = Some (snd (ms ! i))" "map_of ns (fst (ns ! i)) = Some (snd (ns ! i))"
      using i len dm dn by (simp_all add: map_of_is_SomeI)
    then show "ms ! i = ns ! i" using f assms(3) by (metis option.inject prod_eqI)
  qed
qed

lemma foldl_obj_set:
  "map_of (foldl (\<lambda>ms (k, v). obj_set k v ms) a ns) = map_of a ++ map_of (rev ns)"
  "obj_ok a \<Longrightarrow> obj_ok (foldl (\<lambda>ms (k, v). obj_set k v ms) a ns)"
  by (induction ns arbitrary: a) (auto simp: map_of_obj_set obj_ok_set)

lemma obj_of_perm:
  assumes "obj_ok ms" and "mset ns = mset ms"
  shows "obj_of ns = JObject ms"
proof -
  have "distinct (map fst ms)" using assms(1) by (rule obj_ok_distinct)
  moreover have "mset (map fst (rev ns)) = mset (map fst ms)" using assms(2) by simp
  ultimately have d: "distinct (map fst (rev ns))" "distinct (map fst ms)" by (metis mset_eq_imp_distinct_iff)+
  have "set (rev ns) = set ms" using assms(2) by (metis mset_eq_setD set_rev)
  then have "map_of (rev ns) = map_of ms" using map_of_inject_set [OF d] by simp
  then have "foldl (\<lambda>ms (k, v). obj_set k v ms) [] ns = ms"
    using foldl_obj_set [of "[]" ns] assms(1) by (intro obj_ok_unique) simp_all
  then show ?thesis by (simp add: obj_of_def)
qed

text \<open>Reading an object back from its entries, which are traversed in any order.\<close>

lemma obj_of_traversal:
  assumes "obj_ok ms" and "mset t = mset es" and "length es = length ms"
    and f: "\<And>i. i < length ms \<Longrightarrow> f (es ! i) = Inr (fst (ms ! i), g (snd (ms ! i)))"
  shows "bindE (mapE f t) (\<lambda>ms. Inr (obj_of ms)) = Inr (JObject (map (\<lambda>m. (fst m, g (snd m))) ms))"
proof -
  define h where "h e = projr (f e)" for e
  let ?ns = "map (\<lambda>m. (fst m, g (snd m))) ms"
  have "f e = Inr (h e)" if "e \<in> set es" for e
    using that f assms(3) by (auto simp: in_set_conv_nth h_def)
  then have "mapE f t = Inr (map h t)"
    using assms(2) by (intro mapE_Inr_map) (metis mset_eq_setD)
  moreover have "map h es = ?ns" using f assms(3) by (intro nth_equalityI) (simp_all add: h_def)
  then have "mset (map h t) = mset ?ns" using assms(2) by (metis mset_map)
  then have "obj_of (map h t) = JObject ?ns" using assms(1) by (intro obj_of_perm) (simp_all add: o_def)
  ultimately show ?thesis by simp
qed

lemma mapE_mono:
  "mapE f xs = Inr ys \<Longrightarrow> (\<And>x y. x \<in> set xs \<Longrightarrow> f x = Inr y \<Longrightarrow> g x = Inr y) \<Longrightarrow> mapE g xs = Inr ys"
  by (induction xs arbitrary: ys) (auto simp: bindE_eq_Inr)

lemma mapE_map: "mapE f (map g xs) = mapE (\<lambda>x. f (g x)) xs"
  by (induction xs) simp_all

lemma mapE_all2: "list_all2 (\<lambda>x y. f x = Inr y) xs ys \<Longrightarrow> mapE f xs = Inr ys"
  by (induction xs ys rule: list_all2_induct) auto

text \<open>
  Converting the elements of a list one after the other, in a state that only grows: what
  was said of an element stays true.
\<close>

lemma mapS_grows:
  assumes "\<And>x s. x \<in> set xs \<Longrightarrow> I s \<Longrightarrow> \<exists>y s'. f x s = (Inr y, s') \<and> I s' \<and> R s s' \<and> P x y s'"
    and "reflp R" and "transp R" and "\<And>x y s s'. P x y s \<Longrightarrow> R s s' \<Longrightarrow> P x y s'" and "I s"
  shows "\<exists>ys s'. mapS f xs s = (Inr ys, s') \<and> I s' \<and> R s s' \<and> list_all2 (\<lambda>x y. P x y s') xs ys"
  using assms(1,5)
proof (induction xs arbitrary: s)
  case Nil
  then show ?case using assms(2) by (auto dest: reflpD)
next
  case (Cons x xs)
  obtain y s1 where y: "f x s = (Inr y, s1)" "I s1" "R s s1" "P x y s1"
    using Cons.prems(1) [of x s] Cons.prems(2) by auto
  obtain ys s2 where ys: "mapS f xs s1 = (Inr ys, s2)" "I s2" "R s1 s2" "list_all2 (\<lambda>x y. P x y s2) xs ys"
    using Cons.IH [of s1] Cons.prems(1) y(2) by auto
  have "R s s2" using transpD [OF assms(3) y(3) ys(3)] .
  moreover have "P x y s2" using assms(4) y(4) ys(3) .
  ultimately show ?case using y(1) ys by auto
qed

section \<open>What the provider relies on\<close>

text \<open>
  A backend reports the configuration it was created with, and after a request it answered
  it is ready for the next one, with the same configuration. A robust backend is so also
  after a request that ended with an exception.
\<close>

locale backend =
  fixes ops :: "'b backend_ops" and ready :: "'b \<Rightarrow> bool" and config_of :: "'b \<Rightarrow> json"
    and dump :: "json \<Rightarrow> string"
  assumes getConfig: "op_getConfig ops b = dump (config_of b)"
    and execute_ready: "ready b \<Longrightarrow> op_execute ops code args b = (Inr r, b') \<Longrightarrow>
      ready b' \<and> config_of b' = config_of b"
    and load_ready: "ready b \<Longrightarrow> op_load ops file args b = (Inr r, b') \<Longrightarrow>
      ready b' \<and> config_of b' = config_of b"
    and call_ready: "ready b \<Longrightarrow> op_call ops fname target args b = (Inr r, b') \<Longrightarrow>
      ready b' \<and> config_of b' = config_of b"

locale robust_backend =
  fixes ops :: "'b backend_ops" and ready :: "'b \<Rightarrow> bool" and config_of :: "'b \<Rightarrow> json"
    and dump :: "json \<Rightarrow> string"
  assumes getConfig_robust: "op_getConfig ops b = dump (config_of b)"
    and execute_robust: "ready b \<Longrightarrow> op_execute ops code args b = (r, b') \<Longrightarrow>
      ready b' \<and> config_of b' = config_of b"
    and load_robust: "ready b \<Longrightarrow> op_load ops file args b = (r, b') \<Longrightarrow>
      ready b' \<and> config_of b' = config_of b"
    and call_robust: "ready b \<Longrightarrow> op_call ops fname target args b = (r, b') \<Longrightarrow>
      ready b' \<and> config_of b' = config_of b"

sublocale robust_backend \<subseteq> backend ops ready config_of dump
  using getConfig_robust execute_robust load_robust call_robust by unfold_locales

text \<open>The requests a provider serves, and a sequence of them.\<close>

datatype request =
    Execute string "json list"
  | Load string "json list"
  | Call string string "json list"

fun serve :: "'b backend_ops \<Rightarrow> request \<Rightarrow> 'b provider \<Rightarrow> rpc_outcome \<times> 'b provider" where
  "serve ops (Execute code args) p = executeRPC ops code args p"
| "serve ops (Load file args) p = loadRPC ops file args p"
| "serve ops (Call f target args) p = callRPC ops f target args p"

inductive serves :: "'b backend_ops \<Rightarrow> 'b provider \<Rightarrow> (request \<times> rpc_outcome) list \<Rightarrow> 'b provider \<Rightarrow> bool"
  for ops where
  rest: "serves ops p [] p"
| one: "serve ops req p = (out, p') \<Longrightarrow> serves ops p' outs p'' \<Longrightarrow> serves ops p ((req, out) # outs) p''"

inductive_cases serves_NilE [elim!]: "serves ops p [] p'"
inductive_cases serves_ConsE [elim!]: "serves ops p (x # outs) p'"
fun_cases serveE: "serve ops req p = (out, p')"

definition provider_ready :: "('b \<Rightarrow> bool) \<Rightarrow> ('b \<Rightarrow> json) \<Rightarrow> string option \<Rightarrow> json \<Rightarrow> 'b provider \<Rightarrow> bool" where
  "provider_ready ready config_of name config p \<longleftrightarrow>
     map_option vm_name (m_backend p) = name \<and>
     (\<forall>vm. m_backend p = Some vm \<longrightarrow> ready (vm_impl vm) \<and> config_of (vm_impl vm) = config)"

lemma run_backend_ready:
  assumes "\<And>b r b'. ready b \<Longrightarrow> f b = (r, b') \<Longrightarrow> (fine \<or> (\<exists>x. r = Inr x)) \<Longrightarrow> ready b' \<and> config_of b' = config_of b"
    and "provider_ready ready config_of name config p"
    and "run_backend f p = (out, p')" and "fine \<or> (\<exists>r. out = Replies r)"
  shows "provider_ready ready config_of name config p'"
proof (cases "m_backend p")
  case None
  then show ?thesis using assms(2,3) by (simp add: run_backend_def provider_ready_def)
next
  case (Some vm)
  obtain r b' where f: "f (vm_impl vm) = (r, b')" by (cases "f (vm_impl vm)")
  have "fine \<or> (\<exists>x. r = Inr x)" using assms(3,4) Some f by (cases r) (auto simp: run_backend_def)
  then have "ready b' \<and> config_of b' = config_of (vm_impl vm)"
    using assms(1) [OF _ f] assms(2) Some by (simp add: provider_ready_def)
  then show ?thesis
    using assms(2,3) Some f by (cases r) (auto simp: run_backend_def provider_ready_def)
qed

lemma provider_config:
  assumes "\<And>b. op_getConfig ops b = dump (config_of b)"
    and "provider_ready ready config_of name config p" and "provider_ready ready config_of name config p'"
  shows "ProviderImpl_getConfig parse out ops p' = ProviderImpl_getConfig parse out ops p"
  using assms by (cases "m_backend p"; cases "m_backend p'")
    (auto simp: ProviderImpl_getConfig_def provider_ready_def)

context backend begin

lemma serve_reply:
  assumes "provider_ready ready config_of name config p" and "serve ops req p = (Replies r, p')"
  shows "provider_ready ready config_of name config p'"
  using assms
  by (cases req)
    (auto simp: executeRPC_def loadRPC_def callRPC_def dest: execute_ready load_ready call_ready
      elim!: run_backend_ready [where fine = False, rotated])

lemma serves_replies:
  "serves ops p outs p' \<Longrightarrow> provider_ready ready config_of name config p \<Longrightarrow>
     \<forall>(req, out) \<in> set outs. \<exists>r. out = Replies r \<Longrightarrow>
     provider_ready ready config_of name config p'"
  by (induction rule: serves.induct) (auto dest: serve_reply)

end

context robust_backend begin

lemma serve_robust:
  assumes "provider_ready ready config_of name config p" and "serve ops req p = (out, p')"
  shows "provider_ready ready config_of name config p'"
  using assms
  by (cases req)
    (auto simp: executeRPC_def loadRPC_def callRPC_def dest: execute_robust load_robust call_robust
      elim!: run_backend_ready [where fine = True, rotated])

lemma serves_robust:
  "serves ops p outs p' \<Longrightarrow> provider_ready ready config_of name config p \<Longrightarrow>
     provider_ready ready config_of name config p'"
  by (induction rule: serves.induct) (auto dest: serve_robust)

lemma serves_config:
  assumes "provider_ready ready config_of name config p" and "serves ops p outs p'"
  shows "ProviderImpl_getConfig parse out ops p' = ProviderImpl_getConfig parse out ops p"
  using provider_config [OF getConfig_robust assms(1)] serves_robust [OF assms(2,1)] by simp

end


end
