(* ===== verification/Store.thy ===== *)
theory Store
  imports Vm
begin

text \<open>
  A heap of cells within the state of a virtual machine, where the conversions from JSON
  allocate arrays and tables: a cell gets its address first and its contents once what it
  contains has been converted. The locale asks for nothing but a way to read and replace the
  heap of a state, and gives what a conversion of a list into a new cell does; the backends
  interpret it on their own heaps.
\<close>

record 'm store =
  cells :: "nat \<rightharpoonup> 'm"
  next_cell :: nat

definition empty_store :: "'m store" where
  "empty_store = \<lparr>cells = Map.empty, next_cell = 0\<rparr>"

definition reserve_cell :: "'m store \<Rightarrow> 'm store" where
  "reserve_cell h = h\<lparr>next_cell := Suc (next_cell h)\<rparr>"

definition fill_cell :: "nat \<Rightarrow> 'm \<Rightarrow> 'm store \<Rightarrow> 'm store" where
  "fill_cell a m h = h\<lparr>cells := (cells h)(a \<mapsto> m)\<rparr>"

definition store_ok :: "'m store \<Rightarrow> bool" where
  "store_ok h \<longleftrightarrow> (\<forall>a \<in> dom (cells h). a < next_cell h)"

definition store_grows :: "'m store \<Rightarrow> 'm store \<Rightarrow> bool" where
  "store_grows h h' \<longleftrightarrow> next_cell h \<le> next_cell h' \<and> (\<forall>a < next_cell h. cells h' a = cells h a) \<and>
     (store_ok h \<longrightarrow> store_ok h') \<and> cells h \<subseteq>\<^sub>m cells h'"

lemma store_grows_refl [simp]: "store_grows h h"
  by (simp add: store_grows_def)

lemma store_grows_trans: "store_grows h1 h2 \<Longrightarrow> store_grows h2 h3 \<Longrightarrow> store_grows h1 h3"
  by (auto simp: store_grows_def intro: map_le_trans)

lemma store_ok_basic [simp]: "store_ok empty_store" "store_ok h \<Longrightarrow> store_ok (reserve_cell h)"
  by (auto simp: store_ok_def empty_store_def reserve_cell_def less_SucI)

lemma store_fields [simp]:
  "cells (fill_cell a m h) = (cells h)(a \<mapsto> m)" "next_cell (fill_cell a m h) = next_cell h"
  "cells (reserve_cell h) = cells h" "next_cell (reserve_cell h) = Suc (next_cell h)"
  by (simp_all add: fill_cell_def reserve_cell_def)

lemma reserve_fill_grows:
  assumes "store_ok h" and "store_grows (reserve_cell h) h'"
  shows "store_grows h (fill_cell (next_cell h) m h')" and "cells h' \<subseteq>\<^sub>m cells (fill_cell (next_cell h) m h')"
proof -
  let ?a = "next_cell h"
  have lt: "?a < next_cell h'" using assms(2) by (simp add: store_grows_def)
  have "cells h' ?a = cells h ?a" using assms(2) by (simp add: store_grows_def)
  then have none: "cells h' ?a = None" using assms(1) by (auto simp: store_ok_def)
  then show le: "cells h' \<subseteq>\<^sub>m cells (fill_cell ?a m h')" by (simp add: map_le_def dom_def)
  have "cells h \<subseteq>\<^sub>m cells h'" using assms(2) by (simp add: store_grows_def)
  moreover have "store_ok h'" using assms by (simp add: store_grows_def)
  ultimately show "store_grows h (fill_cell ?a m h')"
    using assms lt le by (auto simp: store_grows_def store_ok_def intro: map_le_trans)
qed

locale heap_of =
  fixes get :: "'s \<Rightarrow> 'm store" and put :: "'m store \<Rightarrow> 's \<Rightarrow> 's"
  assumes get_put [simp]: "get (put h s) = h"
    and put_put [simp]: "put h' (put h s) = put h' s"
    and put_get [simp]: "put (get s) s = s"
begin

text \<open>Steps that only let the heap grow.\<close>

definition steps :: "'s \<Rightarrow> 's \<Rightarrow> bool" where
  "steps s s' \<longleftrightarrow> store_grows (get s) (get s') \<and> s' = put (get s') s"

lemma steps_refl [simp]: "steps s s"
  by (simp add: steps_def)

lemma steps_preorder: "reflp steps" "transp steps"
proof -
  show "reflp steps" by (rule reflpI) (simp add: steps_def)
  show "transp steps"
  proof (rule transpI)
    fix s1 s2 s3 assume a: "steps s1 s2" "steps s2 s3"
    then have "s3 = put (get s3) (put (get s2) s1)" unfolding steps_def by metis
    then have "s3 = put (get s3) s1" by simp
    then show "steps s1 s3" using a unfolding steps_def by (blast intro: store_grows_trans)
  qed
qed

lemma steps_ok: "steps s s' \<Longrightarrow> store_ok (get s) \<Longrightarrow> store_ok (get s')"
  by (simp add: steps_def store_grows_def)

text \<open>Converting the elements of a list and storing them in a new cell.\<close>

lemma build_cell:
  assumes new: "\<And>s. new s = (Inr (next_cell (get s)), put (reserve_cell (get s)) s)"
    and fill: "\<And>a ys m s. mk ys = Inr m \<Longrightarrow> fill a ys s = (Inr (), put (fill_cell a m (get s)) s)"
    and elem: "\<And>x s. x \<in> set xs \<Longrightarrow> store_ok (get s) \<Longrightarrow> \<exists>y s'. f x s = (Inr y, s') \<and> steps s s' \<and> P x y (get s')"
    and mono: "\<And>x y h h'. P x y h \<Longrightarrow> cells h \<subseteq>\<^sub>m cells h' \<Longrightarrow> P x y h'"
    and mk: "\<And>ys. length ys = length xs \<Longrightarrow> \<exists>m. mk ys = Inr m"
    and ok: "store_ok (get s)"
  shows "\<exists>ys m s'. bindS new (\<lambda>a. bindS (mapS f xs) (\<lambda>ys. bindS (fill a ys) (\<lambda>_. ret (c a)))) s
      = (Inr (c (next_cell (get s))), s') \<and> steps s s' \<and> list_all2 (\<lambda>x y. P x y (get s')) xs ys \<and>
      mk ys = Inr m \<and> cells (get s') (next_cell (get s)) = Some m"
proof -
  let ?a = "next_cell (get s)" and ?s1 = "put (reserve_cell (get s)) s"
  have "\<exists>ys s2. mapS f xs ?s1 = (Inr ys, s2) \<and> store_ok (get s2) \<and> steps ?s1 s2 \<and>
      list_all2 (\<lambda>x y. P x y (get s2)) xs ys"
  proof (rule mapS_grows)
    fix x s assume "x \<in> set xs" "store_ok (get s)"
    from elem [OF this] steps_ok [of s] this(2)
    show "\<exists>y s'. f x s = (Inr y, s') \<and> store_ok (get s') \<and> steps s s' \<and> P x y (get s')" by blast
  next
    fix x y s s' assume "P x y (get s)" "steps s s'"
    then show "P x y (get s')" by (auto simp: steps_def store_grows_def intro: mono)
  qed (use ok steps_preorder in auto)
  then obtain ys s2 where ys: "mapS f xs ?s1 = (Inr ys, s2)" "steps ?s1 s2" "list_all2 (\<lambda>x y. P x y (get s2)) xs ys"
    by blast
  obtain m where m: "mk ys = Inr m" using mk [of ys] ys(3) list_all2_lengthD by metis
  let ?s3 = "put (fill_cell ?a m (get s2)) s2"
  have g: "store_grows (get s) (get ?s3)" "cells (get s2) \<subseteq>\<^sub>m cells (get ?s3)"
    using reserve_fill_grows [OF ok, of "get s2" m] ys(2) by (simp_all add: steps_def)
  have "s2 = put (get s2) ?s1" using ys(2) by (simp add: steps_def)
  then have "?s3 = put (fill_cell ?a m (get s2)) (put (get s2) ?s1)" by simp
  then have "?s3 = put (get ?s3) s" by simp
  then have "steps s ?s3" using g(1) by (simp add: steps_def)
  moreover have "list_all2 (\<lambda>x y. P x y (get ?s3)) xs ys"
    using ys(3) mono [OF _ g(2)] by (rule list_all2_mono)
  ultimately show ?thesis
    using ys(1) m by (intro exI [of _ ys] exI [of _ m] exI [of _ ?s3]) (simp add: new fill [OF m])
qed

end

section \<open>Dictionaries\<close>

text \<open>\<open>dict[key] = value\<close>, in the order of insertion: a key that is there keeps its place.\<close>

fun dict_set :: "'k \<Rightarrow> 'v \<Rightarrow> ('k \<times> 'v) list \<Rightarrow> ('k \<times> 'v) list" where
  "dict_set k v [] = [(k, v)]"
| "dict_set k v ((k', v') # kvs) = (if k = k' then (k', v) # kvs else (k', v') # dict_set k v kvs)"

definition dict_of :: "('k \<times> 'v) list \<Rightarrow> ('k \<times> 'v) list" where
  "dict_of kvs = foldl (\<lambda>d (k, v). dict_set k v d) [] kvs"

lemma dict_of_distinct: "distinct (map fst kvs) \<Longrightarrow> dict_of kvs = kvs"
proof -
  have "dict_set k v d = d @ [(k, v)]" if "k \<notin> fst ` set d" for k :: 'a and v :: 'b and d :: "('a \<times> 'b) list"
    using that by (induction k v d rule: dict_set.induct) auto
  then have "foldl (\<lambda>d (k, v). dict_set k v d) d kvs = d @ kvs" if "distinct (map fst (d @ kvs))" for d kvs :: "('a \<times> 'b) list"
    using that by (induction kvs arbitrary: d) (auto simp: image_iff)
  from this [of "[]" kvs] show "distinct (map fst kvs) \<Longrightarrow> dict_of kvs = kvs" by (simp add: dict_of_def)
qed

end
