(* ===== verification/Demo.thy ===== *)
theory Demo
  imports MemView
begin

text \<open>
  A small network of two processes and a view on it, at which the properties about memory
  views are applied.
\<close>

definition demo_net :: "(u64, nat) net" where
  "demo_net = \<lparr>bulk_size = (\<lambda>b. b), bulk_serialize = u64_bytes, bulk_deserialize = u64_of_bytes,
     ep_string = (\<lambda>e. if e = 0 then ''na+sm://0'' else ''na+sm://1''),
     ep_lookup = (\<lambda>s. if s = ''na+sm://0'' then Inr 0 else if s = ''na+sm://1'' then Inr 1 else Inl (Exn ''unknown'')),
     ep_self = 0, string_max = 4096, resize_what = ''length_error'',
     bulk_access = (\<lambda>b off n. Some (1, n)), rdma_pull = (\<lambda>b e off n. Inr (replicate (unat n) 5)),
     expose_fails = (\<lambda>n mode. None), fresh_bytes = (\<lambda>n. replicate n 0)\<rparr>"

definition demo_view :: "(u64, nat) view" where
  "demo_view = \<lparr>m_intent = INOUT, m_remote_bulk = 100, m_remote_ep = 1, m_remote_offset = 10,
     m_remote_size = 20, m_local_data = NoData, m_local_bulk = NullBulk, m_owns_local_data = False\<rparr>"

lemma demo_view_json: "MemoryView_json demo_net (view_toJson demo_net (Some demo_view)) = Inr demo_view"
  using view_json_back [of "view_toJson demo_net (Some demo_view)" demo_net demo_view]
  by (simp add: demo_net_def demo_view_def size_max_def)

definition demo_bytes :: "byte list" where
  "demo_bytes = json_binary (view_toJson demo_net (Some demo_view))"

lemma demo_view_binary: "view_toJson demo_net (Some demo_view) = JBinary demo_bytes (Some MEMORY_VIEW_SUBTYPE_CODE)"
  by (simp add: demo_bytes_def json_binary_def view_toJson_def Let_def)

lemma demo_view_is: "IsMemoryView (JBinary demo_bytes (Some MEMORY_VIEW_SUBTYPE_CODE))"
  using IsMemoryView_toJson [of demo_net demo_view] by (simp add: demo_view_binary)

definition demo_ready :: "(u64, nat) view" where
  "demo_ready = demo_view\<lparr>m_local_data := Owned (replicate 20 5), m_local_bulk := Exposed read_write, m_owns_local_data := True\<rparr>"

lemma demo_prepare: "prepareLocalData demo_net demo_view = (None, demo_ready)"
  by (simp add: demo_ready_def demo_view_def demo_net_def prepareLocalData_def fetch_from_remote_def Let_def)

lemmas demo_view_facts = demo_view_is demo_view_json [unfolded demo_view_binary] demo_prepare

end
