(* ===== verification/Jx9Vm.thy ===== *)
theory Jx9Vm
  imports Store Demo Doubles Jx9Map
begin

text \<open>
  The JX9 backend (\<open>src/jx9/Jx9Backend.cpp\<close>). Every execution compiles the code, with the
  preamble in front, into a new machine, hands it the global value kept from the last one
  and the arguments, installs the foreign functions, runs it, and keeps what it left in the
  global value. Compiling and running are the parameter \<open>jx9_api\<close>: a script is a tree
  that ends with a value or calls a foreign function and goes on with its result. Arrays
  and objects live in the heap of the machine as the hashmaps of \<open>Jx9Map\<close>; a memory
  view is handed over as its address. Memory does not run out, and strings are shorter
  than 2 GB.
\<close>

section \<open>Values and the heap of a machine\<close>

datatype jval =
    VNull
  | VBool bool
  | VInt u64
  | VReal dbl
  | VStr "byte list"
  | VMap nat
  | VRes u64

type_synonym jx9_heap = "jval hashmap store"

datatype jx9_run =
    Finished jx9_heap jval "jval option"
  | Stopped string
  | Calls string "jval list" jx9_heap "jval \<times> jx9_heap \<Rightarrow> jx9_run"

datatype jx9_func =
    ViewLength
  | ViewToString
  | ViewGet
  | ViewSet
  | UserFn "json list \<Rightarrow> exn + json"

record jx9_api =
  engine_starts :: bool
  compile :: "string \<Rightarrow> string + (jval \<Rightarrow> jval \<Rightarrow> jx9_heap \<Rightarrow> jx9_run)"
  iterate :: "(string \<times> jx9_func \<times> nat) list \<Rightarrow> (string \<times> jx9_func \<times> nat) list"
  view_address :: "nat \<Rightarrow> u64"
  dump_json :: "json \<Rightarrow> exn + string"
  stack_depth :: nat

text \<open>\<open>local_mem\<close> is the memory of this process that bulk handles expose.\<close>

record ('bk, 'ep) jx9_vm = "('bk, 'ep) vm_world" +
  m_global :: json
  m_preamble :: string
  m_ffuncs :: "(string \<times> jx9_func \<times> nat) list"
  heap :: jx9_heap
  local_mem :: "'bk \<Rightarrow> nat \<Rightarrow> byte"

section \<open>Doubles that are integers\<close>

text \<open>
  Outside the 64-bit range, and for NaN, the smallest integer (for \<open>2 ^ 63\<close> itself and NaN
  the cast is undefined; this is what it yields on x86, and it is not used).
\<close>

definition SMALLEST_INT64 :: u64 where
  "SMALLEST_INT64 = 2 ^ 63"

definition LARGEST_INT64 :: u64 where
  "LARGEST_INT64 = 2 ^ 63 - 1"

definition MemObjRealToInt :: "dbl \<Rightarrow> u64" where
  "MemObjRealToInt r =
     (if unat r mod 2 ^ 63 < 1086 * 2 ^ 52 then word_of_int (double_trunc r) else SMALLEST_INT64)"

definition dbl_eq :: "dbl \<Rightarrow> dbl \<Rightarrow> bool" where
  "dbl_eq a b \<longleftrightarrow>
     unat a mod 2 ^ 63 \<le> 2047 * 2 ^ 52 \<and> unat b mod 2 ^ 63 \<le> 2047 * 2 ^ 52 \<and>
     (a = b \<or> unat a mod 2 ^ 63 = 0 \<and> unat b mod 2 ^ 63 = 0)"

definition MemObjTryIntger :: "dbl \<Rightarrow> jval" where
  "MemObjTryIntger r =
     (let iVal = MemObjRealToInt r
      in if dbl_eq r (double_of_int (sint iVal)) \<and> sint iVal > sint SMALLEST_INT64 \<and> sint iVal < sint LARGEST_INT64
         then VInt iVal else VReal r)"

definition jx9_value_double :: "dbl \<Rightarrow> jval" where
  "jx9_value_double d = MemObjTryIntger d"

definition jx9_value_int :: "u32 \<Rightarrow> jval" where
  "jx9_value_int i = VInt (scast i)"

definition jx9_value_to_int :: "u64 \<Rightarrow> u32" where
  "jx9_value_to_int i = ucast i"

text \<open>A double that holds an integer of at most 53 bits becomes that integer.\<close>

lemma TryIntger_of_int:
  assumes "\<bar>i\<bar> < 2 ^ 53"
  shows "MemObjTryIntger (double_of_int i) = VInt (word_of_int i)"
proof -
  have t: "double_trunc (double_of_int i) = i" by (rule double_trunc_of_int [OF assms])
  have r: "unat (double_of_int i) mod 2 ^ 63 < 1086 * 2 ^ 52"
    using double_to_int64_of_int [OF assms] assms by (auto simp: double_to_int64_def t Let_def split: if_splits)
  then have v: "MemObjRealToInt (double_of_int i) = word_of_int i" by (simp add: MemObjRealToInt_def t)
  have s: "sint (word_of_int i :: u64) = i"
    using assms by (simp add: int_word_sint)
  have "dbl_eq (double_of_int i) (double_of_int i)" using r by (simp add: dbl_eq_def)
  moreover have "sint SMALLEST_INT64 < i" "i < sint LARGEST_INT64"
    using assms by (simp_all add: SMALLEST_INT64_def LARGEST_INT64_def)
  ultimately show ?thesis by (simp add: MemObjTryIntger_def Let_def v s)
qed

section \<open>From JX9 to JSON\<close>

text \<open>The key as a C string; an integer is written in decimal.\<close>

definition key_text :: "hkey \<Rightarrow> string" where
  "key_text k = (case k of IntKey i \<Rightarrow> show_int (sint i) | BlobKey s \<Rightarrow> cstr (string_of s))"

fun Jx9ValueToJSON :: "jx9_heap \<Rightarrow> nat \<Rightarrow> jval \<Rightarrow> exn + json" where
  "Jx9ValueToJSON h n VNull = Inr JNull"
| "Jx9ValueToJSON h n (VBool b) = Inr (JBool b)"
| "Jx9ValueToJSON h n (VInt i) = Inr (JInt (scast (jx9_value_to_int i)))"
| "Jx9ValueToJSON h n (VReal d) = Inr (JFloat d)"
| "Jx9ValueToJSON h n (VStr s) = Inr (JString (cstr (string_of s)))"
| "Jx9ValueToJSON h n (VRes p) = Inr (JBinary (u64_bytes p) None)"
| "Jx9ValueToJSON h 0 (VMap a) = Inl Abort"
| "Jx9ValueToJSON h (Suc n) (VMap a) =
     (case cells h a of
        None \<Rightarrow> Inl UB
      | Some m \<Rightarrow>
          if json_object m
          then bindE (mapE (\<lambda>kv. bindE (Jx9ValueToJSON h n (snd kv)) (\<lambda>v. Inr (key_text (fst kv), v))) (entries m))
                 (\<lambda>ms. Inr (obj_of ms))
          else bindE (mapE (\<lambda>kv. Jx9ValueToJSON h n (snd kv)) (entries m)) (\<lambda>vs. Inr (JArray vs)))"

section \<open>From JSON to JX9\<close>

text \<open>
  A new array gets its address when it is created and its elements once all of them have been
  converted; in between nothing can reach it. The results of the insertions are not looked at.
\<close>

definition jx9_new_array :: "(nat, ('bk, 'ep) jx9_vm) act" where
  "jx9_new_array s = (Inr (next_cell (heap s)), s\<lparr>heap := reserve_cell (heap s)\<rparr>)"

fun add_elems :: "(hkey option \<times> jval) list \<Rightarrow> jval hashmap \<Rightarrow> exn + jval hashmap" where
  "add_elems [] m = Inr m"
| "add_elems ((k, v) # kvs) m = bindE (HashmapInsert all_room m k v) (\<lambda>(rc, m). add_elems kvs m)"

definition jx9_array_fill :: "nat \<Rightarrow> (hkey option \<times> jval) list \<Rightarrow> (unit, ('bk, 'ep) jx9_vm) act" where
  "jx9_array_fill a kvs s =
     (case add_elems kvs jx9NewHashmap of
        Inl e \<Rightarrow> (Inl e, s)
      | Inr m \<Rightarrow> (Inr (), s\<lparr>heap := fill_cell a m (heap s)\<rparr>))"

definition strkey :: "string \<Rightarrow> hkey option" where
  "strkey zKey = (if cstr zKey = [] then None else Some (BlobKey (bytes_of (cstr zKey))))"

definition resource :: "jx9_api \<Rightarrow> nat \<Rightarrow> jval" where
  "resource api n = VRes (view_address api n)"

function (sequential) JSONtoJx9Value ::
  "jx9_api \<Rightarrow> ('bk, 'ep) net \<Rightarrow> json \<Rightarrow> (jval, ('bk, 'ep) jx9_vm) act"
where
  "JSONtoJx9Value api net JNull = ret VNull"
| "JSONtoJx9Value api net (JBool b) = ret (VBool b)"
| "JSONtoJx9Value api net (JInt i) = ret (jx9_value_int (get_int (JInt i)))"
| "JSONtoJx9Value api net (JUInt u) = ret (jx9_value_int (get_int (JUInt u)))"
| "JSONtoJx9Value api net (JFloat d) = ret (jx9_value_double d)"
| "JSONtoJx9Value api net (JString s) = ret (VStr (bytes_of (cstr s)))"
| "JSONtoJx9Value api net (JArray vs) =
     bindS jx9_new_array (\<lambda>a.
     bindS (mapS (JSONtoJx9Value api net) vs) (\<lambda>xs.
     bindS (jx9_array_fill a (map (Pair None) xs)) (\<lambda>_.
     ret (VMap a))))"
| "JSONtoJx9Value api net (JObject ms) =
     bindS jx9_new_array (\<lambda>a.
     bindS (mapS (\<lambda>m. JSONtoJx9Value api net (snd m)) ms) (\<lambda>xs.
     bindS (jx9_array_fill a (zip (map (\<lambda>m. strkey (fst m)) ms) xs)) (\<lambda>_.
     ret (VMap a))))"
| "JSONtoJx9Value api net (JBinary bs st) =
     (if \<not> IsMemoryView (JBinary bs st) then ret (VStr bs)
      else
        bindS (view_open net (JBinary bs st)) (\<lambda>n.
        bindS (modify (view_keep n)) (\<lambda>_.
        ret (resource api n))))"
| "JSONtoJx9Value api net JDiscarded = ret VNull"
  by pat_completeness auto
termination
  by (relation "measure (\<lambda>(api, net, j). depth j)")
    (auto intro: depth_array_elem depth_object_member simp del: depth.simps)

text \<open>Inside a call of a foreign function there are no views to create.\<close>

function (sequential) JSONtoJx9Value_ctx :: "json \<Rightarrow> (jval, ('bk, 'ep) jx9_vm) act" where
  "JSONtoJx9Value_ctx JNull = ret VNull"
| "JSONtoJx9Value_ctx (JBool b) = ret (VBool b)"
| "JSONtoJx9Value_ctx (JInt i) = ret (jx9_value_int (get_int (JInt i)))"
| "JSONtoJx9Value_ctx (JUInt u) = ret (jx9_value_int (get_int (JUInt u)))"
| "JSONtoJx9Value_ctx (JFloat d) = ret (jx9_value_double d)"
| "JSONtoJx9Value_ctx (JString s) = ret (VStr (bytes_of (cstr s)))"
| "JSONtoJx9Value_ctx (JArray vs) =
     bindS jx9_new_array (\<lambda>a.
     bindS (mapS JSONtoJx9Value_ctx vs) (\<lambda>xs.
     bindS (jx9_array_fill a (map (Pair None) xs)) (\<lambda>_.
     ret (VMap a))))"
| "JSONtoJx9Value_ctx (JObject ms) =
     bindS jx9_new_array (\<lambda>a.
     bindS (mapS (\<lambda>m. JSONtoJx9Value_ctx (snd m)) ms) (\<lambda>xs.
     bindS (jx9_array_fill a (zip (map (\<lambda>m. strkey (fst m)) ms) xs)) (\<lambda>_.
     ret (VMap a))))"
| "JSONtoJx9Value_ctx (JBinary bs st) = ret (VStr bs)"
| "JSONtoJx9Value_ctx JDiscarded = ret VNull"
  by pat_completeness auto
termination
  by (relation "measure depth")
    (auto intro: depth_array_elem depth_object_member simp del: depth.simps)

section \<open>The functions on memory views\<close>

text \<open>
  The pointer is read back from the eight bytes of a resource; that it belongs to a view of
  the running call is not checked.
\<close>

definition view_at :: "jx9_api \<Rightarrow> u64 \<Rightarrow> ('bk, 'ep) jx9_vm \<Rightarrow> nat option" where
  "view_at api p s = find (\<lambda>n. alive s n \<noteq> None \<and> view_address api n = p) (created s)"

definition with_view ::
  "jx9_api \<Rightarrow> json \<Rightarrow> json \<Rightarrow> (nat \<Rightarrow> (json, ('bk, 'ep) jx9_vm) act) \<Rightarrow> (json, ('bk, 'ep) jx9_vm) act"
where
  "with_view api no j f s =
     (case j of
        JBinary bs st \<Rightarrow>
          if length bs \<noteq> 8 then (Inr no, s)
          else if u64_of_bytes bs = 0 then (Inr no, s)
          else (case view_at api (u64_of_bytes bs) s of None \<Rightarrow> (Inl UB, s) | Some n \<Rightarrow> f n s)
      | _ \<Rightarrow> (Inr no, s))"

definition view_length :: "nat \<Rightarrow> ('bk, 'ep) jx9_vm \<Rightarrow> u64" where
  "view_length n s = view_size (alive s n)"

text \<open>\<open>data()\<close>, and the bytes it points at.\<close>

definition data_of :: "('bk, 'ep) net \<Rightarrow> nat \<Rightarrow> (('bk, 'ep) view, ('bk, 'ep) jx9_vm) act" where
  "data_of net n s =
     (case alive s n of
        None \<Rightarrow> (Inl UB, s)
      | Some v \<Rightarrow>
          (case prepareLocalData net v of
             (Some e, v') \<Rightarrow> (Inl e, s\<lparr>alive := (alive s)(n \<mapsto> v')\<rparr>)
           | (None, v') \<Rightarrow> (Inr v', s\<lparr>alive := (alive s)(n \<mapsto> v')\<rparr>)))"

definition load_byte :: "('bk, 'ep) view \<Rightarrow> nat \<Rightarrow> (byte, ('bk, 'ep) jx9_vm) act" where
  "load_byte v i s =
     (case m_local_data v of
        NoData \<Rightarrow> (Inl UB, s)
      | InBulk off \<Rightarrow> (Inr (local_mem s (m_remote_bulk v) (unat off + i)), s)
      | Owned bs \<Rightarrow> (if i < length bs then Inr (bs ! i) else Inl UB, s))"

definition store_byte :: "nat \<Rightarrow> ('bk, 'ep) view \<Rightarrow> nat \<Rightarrow> byte \<Rightarrow> (unit, ('bk, 'ep) jx9_vm) act" where
  "store_byte n v i b s =
     (case m_local_data v of
        NoData \<Rightarrow> (Inl UB, s)
      | InBulk off \<Rightarrow>
          (Inr (), s\<lparr>local_mem := (local_mem s)(m_remote_bulk v := (local_mem s (m_remote_bulk v))(unat off + i := b))\<rparr>)
      | Owned bs \<Rightarrow>
          if i < length bs then (Inr (), s\<lparr>alive := (alive s)(n \<mapsto> v\<lparr>m_local_data := Owned (bs[i := b])\<rparr>)\<rparr>)
          else (Inl UB, s))"

fun json_is_number :: "json \<Rightarrow> bool" where
  "json_is_number (JInt _) = True"
| "json_is_number (JUInt _) = True"
| "json_is_number (JFloat _) = True"
| "json_is_number _ = False"

fun get_int64 :: "json \<Rightarrow> exn + u64" where
  "get_int64 (JInt i) = Inr i"
| "get_int64 (JUInt u) = Inr u"
| "get_int64 (JFloat d) = double_to_int64 d"
| "get_int64 _ = Inl UB"

definition MemoryView_length :: "jx9_api \<Rightarrow> json list \<Rightarrow> (json, ('bk, 'ep) jx9_vm) act" where
  "MemoryView_length api argv = with_view api JNull (argv ! 0) (\<lambda>n s. (Inr (JUInt (view_length n s)), s))"

definition MemoryView_to_string :: "jx9_api \<Rightarrow> ('bk, 'ep) net \<Rightarrow> json list \<Rightarrow> (json, ('bk, 'ep) jx9_vm) act" where
  "MemoryView_to_string api net argv =
     with_view api JNull (argv ! 0) (\<lambda>n.
       bindS (data_of net n) (\<lambda>v.
       bindS (mapS (load_byte v) [0..<unat (m_remote_size v)]) (\<lambda>bs.
       ret (JString (string_of bs)))))"

definition MemoryView_get :: "jx9_api \<Rightarrow> ('bk, 'ep) net \<Rightarrow> json list \<Rightarrow> (json, ('bk, 'ep) jx9_vm) act" where
  "MemoryView_get api net argv =
     (if \<not> is_binary (argv ! 0) then ret JNull
      else if \<not> json_is_number (argv ! 1) then ret JNull
      else
        bindS (liftE (get_int64 (argv ! 1))) (\<lambda>i.
        with_view api JNull (argv ! 0) (\<lambda>n s.
          if sint i < 0 \<or> sint i \<ge> sint (view_length n s) then (Inr JNull, s)
          else
            bindS (data_of net n) (\<lambda>v.
            bindS (load_byte v (unat i)) (\<lambda>b.
            ret (JInt (scast b)))) s)))"

definition MemoryView_set :: "jx9_api \<Rightarrow> ('bk, 'ep) net \<Rightarrow> json list \<Rightarrow> (json, ('bk, 'ep) jx9_vm) act" where
  "MemoryView_set api net argv =
     (if \<not> is_binary (argv ! 0) then ret (JBool False)
      else if \<not> json_is_number (argv ! 1) then ret (JBool False)
      else if \<not> json_is_number (argv ! 2) then ret (JBool False)
      else
        bindS (liftE (get_int64 (argv ! 1))) (\<lambda>i.
        bindS (liftE (get_int64 (argv ! 2))) (\<lambda>b.
        if sint b < 0 \<or> sint b > 255 then ret (JBool False)
        else
          with_view api (JBool False) (argv ! 0) (\<lambda>n s.
            if sint i < 0 \<or> sint i \<ge> sint (view_length n s) then (Inr (JBool False), s)
            else
              bindS (data_of net n) (\<lambda>v.
              bindS (store_byte n v (unat i) (ucast b)) (\<lambda>_.
              ret (JBool True))) s))))"

section \<open>Foreign functions\<close>

definition jx9_call_func ::
  "jx9_api \<Rightarrow> ('bk, 'ep) net \<Rightarrow> jx9_func \<Rightarrow> json list \<Rightarrow> (json, ('bk, 'ep) jx9_vm) act"
where
  "jx9_call_func api net func args =
     (case func of
        ViewLength \<Rightarrow> MemoryView_length api args
      | ViewToString \<Rightarrow> MemoryView_to_string api net args
      | ViewGet \<Rightarrow> MemoryView_get api net args
      | ViewSet \<Rightarrow> MemoryView_set api net args
      | UserFn f \<Rightarrow> liftE (f args))"

text \<open>A call with another number of arguments only yields \<open>null\<close>, and a message.\<close>

definition FunctionHolder_call ::
  "jx9_api \<Rightarrow> ('bk, 'ep) net \<Rightarrow> jx9_func \<times> nat \<Rightarrow> jval list \<Rightarrow> (jval, ('bk, 'ep) jx9_vm) act"
where
  "FunctionHolder_call api net holder argv s =
     (if length argv \<noteq> snd holder then (Inr VNull, s)
      else
        bindS (liftE (mapE (Jx9ValueToJSON (heap s) (stack_depth api)) argv)) (\<lambda>args.
        bindS (jx9_call_func api net (fst holder) args) (\<lambda>result.
        JSONtoJx9Value_ctx result)) s)"

definition SyStringFullTrim :: "byte list \<Rightarrow> byte list" where
  "SyStringFullTrim z =
     (let space = (\<lambda>c. c < 0xC0 \<and> SyisSpace c)
      in rev (dropWhile space (rev (dropWhile space z))))"

fun jx9_create_functions ::
  "(string \<times> jx9_func \<times> nat) list \<Rightarrow> (byte list \<rightharpoonup> jx9_func \<times> nat) \<Rightarrow> string + (byte list \<rightharpoonup> jx9_func \<times> nat)"
where
  "jx9_create_functions [] host = Inr host"
| "jx9_create_functions ((name, holder) # fs) host =
     (let z = SyStringFullTrim (bytes_of (cstr name))
      in if z = [] then Inl name else jx9_create_functions fs (host(z \<mapsto> holder)))"

section \<open>The virtual machine\<close>

primrec run_script ::
  "jx9_api \<Rightarrow> ('bk, 'ep) net \<Rightarrow> (byte list \<rightharpoonup> jx9_func \<times> nat) \<Rightarrow> jx9_run \<Rightarrow>
     (string + jval \<times> jval option, ('bk, 'ep) jx9_vm) act"
where
  "run_script api net host (Finished h v g) = (\<lambda>s. (Inr (Inr (v, g)), s\<lparr>heap := h\<rparr>))"
| "run_script api net host (Stopped log) = (\<lambda>s. (Inr (Inl log), s))"
| "run_script api net host (Calls f argv h k) =
     (\<lambda>s. case host (bytes_of f) of
            None \<Rightarrow> (Inl UB, s)
          | Some holder \<Rightarrow>
              (case FunctionHolder_call api net holder argv (s\<lparr>heap := h\<rparr>) of
                 (Inl e, s') \<Rightarrow> (Inl e, s')
               | (Inr v, s') \<Rightarrow> run_script api net host (k (v, heap s')) s'))"

definition full_code :: "string \<Rightarrow> string \<Rightarrow> string" where
  "full_code preamble code = (if preamble = [] then code else preamble @ cstr code)"

definition jx9_to_json :: "jx9_api \<Rightarrow> jval \<Rightarrow> (json, ('bk, 'ep) jx9_vm) act" where
  "jx9_to_json api v s = (Jx9ValueToJSON (heap s) (stack_depth api) v, s)"

definition jx9_finish ::
  "jx9_api \<Rightarrow> string + jval \<times> jval option \<Rightarrow> (json result, ('bk, 'ep) jx9_vm) act"
where
  "jx9_finish api r =
     (case r of
        Inl log \<Rightarrow> ret (failed (''Failed to execute Jx9 code: '' @ log))
      | Inr (v, g) \<Rightarrow>
          bindS (jx9_to_json api v) (\<lambda>value.
          bindS (case g of None \<Rightarrow> ret (JObject []) | Some g \<Rightarrow> jx9_to_json api g) (\<lambda>global.
          bindS (modify (\<lambda>s. s\<lparr>m_global := global\<rparr>)) (\<lambda>_.
          ret (succeeded value)))))"

definition jx9_start ::
  "jx9_api \<Rightarrow> ('bk, 'ep) net \<Rightarrow> (jval \<Rightarrow> jval \<Rightarrow> jx9_heap \<Rightarrow> jx9_run) \<Rightarrow> json list \<Rightarrow>
     (json result, ('bk, 'ep) jx9_vm) act"
where
  "jx9_start api net script args s =
     bindS (modify (\<lambda>s. s\<lparr>heap := empty_store\<rparr>)) (\<lambda>_.
     bindS (JSONtoJx9Value api net (m_global s)) (\<lambda>pGlobal.
     bindS (JSONtoJx9Value api net (JArray (JString ''poesie'' # args))) (\<lambda>pArgv.
     case jx9_create_functions (iterate api (m_ffuncs s)) Map.empty of
       Inl name \<Rightarrow> ret (failed (''Failed to install foreign function: '' @ name))
     | Inr host \<Rightarrow>
         bindS (\<lambda>s. run_script api net host (script pGlobal pArgv (heap s)) s) (jx9_finish api)))) s"

definition Jx9Vm_execute ::
  "jx9_api \<Rightarrow> ('bk, 'ep) net \<Rightarrow> string \<Rightarrow> json list \<Rightarrow> (json result, ('bk, 'ep) jx9_vm) act"
where
  "Jx9Vm_execute api net code args =
     with_lock (with_views (\<lambda>s.
       case compile api (full_code (m_preamble s) code) of
         Inl log \<Rightarrow> (Inr (failed (''Failed to compile Jx9 code: '' @ log)), s)
       | Inr script \<Rightarrow> jx9_start api net script args s))"

definition Jx9Vm_load ::
  "jx9_api \<Rightarrow> ('bk, 'ep) net \<Rightarrow> (string \<rightharpoonup> string) \<Rightarrow> string \<Rightarrow> json list \<Rightarrow> (json result, ('bk, 'ep) jx9_vm) act"
where
  "Jx9Vm_load api net files filename args =
     load_file files filename (\<lambda>code. Jx9Vm_execute api net code args)"

text \<open>
  The loop of \<open>call\<close> compares its index with the array of arguments; JSON values of
  different types are ordered by type, and numbers come before arrays.
\<close>

fun type_order :: "json \<Rightarrow> nat" where
  "type_order JNull = 0"
| "type_order (JBool _) = 1"
| "type_order (JInt _) = 2"
| "type_order (JUInt _) = 2"
| "type_order (JFloat _) = 2"
| "type_order (JObject _) = 3"
| "type_order (JArray _) = 4"
| "type_order (JString _) = 5"
| "type_order (JBinary _ _) = 6"
| "type_order JDiscarded = 7"

definition index_less_args :: "nat \<Rightarrow> json list \<Rightarrow> bool" where
  "index_less_args i args \<longleftrightarrow> type_order (JUInt (word_of_nat i)) < type_order (JArray args)"

fun call_args :: "jx9_api \<Rightarrow> json list \<Rightarrow> nat \<Rightarrow> json list \<Rightarrow> exn + string" where
  "call_args api args i [] = (if index_less_args i args then Inl UB else Inr [])"
| "call_args api args i (arg # rest) =
     (if index_less_args i args
      then bindE (dump_json api arg) (\<lambda>text.
           bindE (call_args api args (Suc i) rest) (\<lambda>more.
           Inr (text @ (if i + 1 = length args then '' '' else '','') @ more)))
      else Inr [])"

definition Jx9Vm_call ::
  "jx9_api \<Rightarrow> ('bk, 'ep) net \<Rightarrow> string \<Rightarrow> string \<Rightarrow> json list \<Rightarrow> (json result, ('bk, 'ep) jx9_vm) act"
where
  "Jx9Vm_call api net fname target args =
     bindS (liftE (call_args api args 0 args)) (\<lambda>text.
     Jx9Vm_execute api net
       (''return '' @ fname @ ''('' @ (if target \<noteq> [] then target @ '','' else []) @ text @ '');'') [])"

text \<open>Installing under a name that is taken keeps the function that is there.\<close>

definition Jx9Vm_install :: "string \<Rightarrow> jx9_func \<Rightarrow> nat \<Rightarrow> (bresult, ('bk, 'ep) jx9_vm) act" where
  "Jx9Vm_install name func nargs =
     with_lock (
       bindS (modify (\<lambda>s. if map_of (m_ffuncs s) name = None
                          then s\<lparr>m_ffuncs := m_ffuncs s @ [(name, func, nargs)]\<rparr> else s)) (\<lambda>_.
       ret BResult_default))"

definition Jx9Vm_destroy :: "(bresult, ('bk, 'ep) jx9_vm) act" where
  "Jx9Vm_destroy = ret (BResult_set_value True BResult_default)"

definition preamble_text :: "(string \<rightharpoonup> string) \<Rightarrow> json \<Rightarrow> exn + string" where
  "preamble_text files config =
     (if \<not> is_object config then Inr []
      else
        bindE (case member config ''preamble_file'' of
                 Some (JString f) \<Rightarrow> optE (Exn ''Could not open preamble file'') (files f)
               | _ \<Rightarrow> Inr []) (\<lambda>text.
        Inr (text @ (case member config ''preamble'' of Some (JString c) \<Rightarrow> CHR 0x0A # c | _ \<Rightarrow> []))))"

definition Jx9Vm_new ::
  "jx9_api \<Rightarrow> (string \<rightharpoonup> string) \<Rightarrow> ('bk \<Rightarrow> nat \<Rightarrow> byte) \<Rightarrow> json \<Rightarrow> exn + ('bk, 'ep) jx9_vm"
where
  "Jx9Vm_new api files mem config =
     (if \<not> engine_starts api then Inl (Exn ''Failed to initialize Jx9 engine'')
      else
        bindE (preamble_text files config) (\<lambda>text.
        case bindS (Jx9Vm_install ''memory_view_length'' ViewLength 1) (\<lambda>_.
             bindS (Jx9Vm_install ''memory_view_to_string'' ViewToString 1) (\<lambda>_.
             bindS (Jx9Vm_install ''memory_view_get'' ViewGet 2) (\<lambda>_.
             Jx9Vm_install ''memory_view_set'' ViewSet 3)))
             (vm_world.extend (new_world config)
               \<lparr>m_global = JObject [], m_preamble = text, m_ffuncs = [], heap = empty_store, local_mem = mem\<rparr>) of
          (Inl e, s) \<Rightarrow> Inl e
        | (Inr _, s) \<Rightarrow> Inr s))"

definition Jx9Vm_ops ::
  "jx9_api \<Rightarrow> ('bk, 'ep) net \<Rightarrow> (string \<rightharpoonup> string) \<Rightarrow> (json \<Rightarrow> string) \<Rightarrow> ('bk, 'ep) jx9_vm backend_ops"
where
  "Jx9Vm_ops api net files dump =
     \<lparr>op_getConfig = \<lambda>s. dump (m_config s),
      op_execute = Jx9Vm_execute api net,
      op_load = Jx9Vm_load api net files,
      op_call = Jx9Vm_call api net,
      op_destroy = \<lambda>s. snd (Jx9Vm_destroy s)\<rparr>"


section \<open>Arrays and objects in the heap\<close>

definition array_map :: "jval list \<Rightarrow> jval hashmap \<Rightarrow> bool" where
  "array_map xs m \<longleftrightarrow> map_ok m \<and> \<not> json_object m \<and> iNextIdx m = word_of_nat (length xs) \<and>
     entries m = zip (map (\<lambda>i. IntKey (word_of_nat i)) [0..<length xs]) xs"

lemma array_append:
  assumes "array_map xs m" and "length xs < 2 ^ 28"
  shows "\<exists>m'. HashmapInsert all_room m None x = Inr (SXRET_OK, m') \<and> array_map (xs @ [x]) m'"
proof -
  let ?n = "length xs" and ?k = "IntKey (iNextIdx m)"
  have ok: "map_ok m" and e: "entries m = zip (map (\<lambda>i. IntKey (word_of_nat i)) [0..<?n]) xs"
    and i: "iNextIdx m = word_of_nat ?n" using assms(1) by (simp_all add: array_map_def)
  have n: "nEntry m < 2 ^ 28" using assms(2) by (simp add: nEntry_entries [OF ok] e)
  have keys: "node_keys m = map (\<lambda>i. IntKey (word_of_nat i)) [0..<?n]" by (simp add: node_keys_def e)
  have "(word_of_nat ?n :: u64) \<noteq> word_of_nat k" if "k < ?n" for k
  proof
    assume "(word_of_nat ?n :: u64) = word_of_nat k"
    then have "unat (word_of_nat ?n :: u64) = unat (word_of_nat k :: u64)" by simp
    then show False using that assms(2) unat_word_of_nat [of ?n] unat_word_of_nat [of k] by simp
  qed
  then have new: "?k \<notin> set (node_keys m)" by (simp add: keys i image_iff)
  obtain rc m1 where ins: "insert_node all_room m ?k x = (rc, m1)" by fastforce
  have rc: "rc = SXRET_OK" using insert_node_plenty [OF all_room_plenty ins] .
  from insert_node_ok [OF map_okD(1) [OF ok] n ins] rc
  have m1: "map_wf m1" "entries m1 = entries m @ [(?k, x)]" "iNextIdx m1 = iNextIdx m" "json_object m1 = json_object m"
    by auto
  then have "map_ok m1" using ok new by (simp add: map_ok_def node_keys_def)
  then have "array_map (xs @ [x]) (m1\<lparr>iNextIdx := iNextIdx m1 + 1\<rparr>)"
    using assms(1) m1 by (simp add: array_map_def e i)
  moreover have "HashmapInsert all_room m None x = Inr (SXRET_OK, m1\<lparr>iNextIdx := iNextIdx m1 + 1\<rparr>)"
    using ins rc by (simp add: HashmapInsert_def is_string_key_def insert_auto_def HashmapInsertIntKey_def)
  ultimately show ?thesis by blast
qed

lemma array_elems:
  "array_map xs m \<Longrightarrow> length xs + length ys < 2 ^ 28 \<Longrightarrow>
     \<exists>m'. add_elems (map (Pair None) ys) m = Inr m' \<and> array_map (xs @ ys) m'"
proof (induction ys arbitrary: xs m)
  case (Cons y ys)
  obtain m1 where m1: "HashmapInsert all_room m None y = Inr (SXRET_OK, m1)" "array_map (xs @ [y]) m1"
    using array_append [OF Cons.prems(1)] Cons.prems(2) by fastforce
  from Cons.IH [OF m1(2)] Cons.prems(2) obtain m' where "add_elems (map (Pair None) ys) m1 = Inr m'" "array_map (xs @ y # ys) m'"
    by auto
  then show ?case using m1(1) by simp
qed simp

lemma array_new: "array_map [] jx9NewHashmap"
  by (simp add: array_map_def new_map_ok)

text \<open>Keys that stay what they are: not empty, without a zero byte, and not a decimal numeral.\<close>

definition plain_key :: "string \<Rightarrow> bool" where
  "plain_key k \<longleftrightarrow> k \<noteq> [] \<and> CHR 0x00 \<notin> set k \<and> \<not> HashmapIsIntKey (bytes_of k)"

definition object_map :: "(string \<times> jval) list \<Rightarrow> jval hashmap \<Rightarrow> bool" where
  "object_map kvs m \<longleftrightarrow> map_ok m \<and> json_object m = (kvs \<noteq> []) \<and>
     entries m = map (\<lambda>(k, v). (BlobKey (bytes_of k), v)) kvs"

lemma object_add:
  assumes "object_map kvs m" and "length kvs < 2 ^ 28" and "plain_key k" and "k \<notin> fst ` set kvs"
  shows "\<exists>m'. HashmapInsert all_room m (strkey k) v = Inr (SXRET_OK, m') \<and> object_map (kvs @ [(k, v)]) m'"
proof -
  have ok: "map_ok m" and e: "entries m = map (\<lambda>(k, v). (BlobKey (bytes_of k), v)) kvs"
    using assms(1) by (simp_all add: object_map_def)
  have "bytes_of k \<noteq> []" using assms(3) by (simp add: plain_key_def bytes_of_def)
  have key: "strkey k = Some (BlobKey (bytes_of k))" using assms(3) by (simp add: strkey_def plain_key_def cstr_id)
  have n: "nEntry m < 2 ^ 28" using assms(2) by (simp add: nEntry_entries [OF ok] e)
  have idx: "indices_ok m" by (auto simp: indices_ok_def node_keys_def e)
  have "stored_key m (strkey k) = Inr (BlobKey (bytes_of k))"
    using assms(3) by (simp add: key stored_key_def plain_key_def bytes_of_def)
  with HashmapInsert_ok [OF ok idx n, of "strkey k" all_room v] all_room_plenty
  obtain m' where m': "HashmapInsert all_room m (strkey k) v = Inr (SXRET_OK, m')" "map_ok m'"
    "entries m' = AList.update (BlobKey (bytes_of k)) v (entries m)"
    "json_object m' = (json_object m \<or> entries m = [] \<and> is_string_key (strkey k))" by auto
  have "inj bytes_of" by (metis injI string_bytes_inverse)
  then have "BlobKey (bytes_of k) \<notin> fst ` set (entries m)" using assms(4) by (force simp: e dest: injD)
  then have "object_map (kvs @ [(k, v)]) m'"
    using assms(1) m' by (auto simp: object_map_def AList_update_new e key is_string_key_def)
  then show ?thesis using m'(1) by blast
qed

lemma object_elems:
  "object_map kvs m \<Longrightarrow> length kvs + length ns < 2 ^ 28 \<Longrightarrow> list_all (\<lambda>n. plain_key (fst n)) ns \<Longrightarrow>
     distinct (map fst (kvs @ ns)) \<Longrightarrow>
     \<exists>m'. add_elems (map (\<lambda>n. (strkey (fst n), snd n)) ns) m = Inr m' \<and> object_map (kvs @ ns) m'"
proof (induction ns arbitrary: kvs m)
  case (Cons n ns)
  obtain k v where n: "n = (k, v)" by fastforce
  have "length kvs < 2 ^ 28" "plain_key k" "k \<notin> fst ` set kvs" using Cons.prems n by auto
  from object_add [OF Cons.prems(1) this] obtain m1
    where m1: "HashmapInsert all_room m (strkey k) v = Inr (SXRET_OK, m1)" "object_map (kvs @ [(k, v)]) m1" by blast
  from Cons.IH [OF m1(2)] Cons.prems n obtain m'
    where "add_elems (map (\<lambda>n. (strkey (fst n), snd n)) ns) m1 = Inr m'" "object_map (kvs @ n # ns) m'" by auto
  then show ?case using m1(1) n by simp
qed simp

lemma object_new: "object_map [] jx9NewHashmap"
  by (simp add: object_map_def new_map_ok)


section \<open>Values that survive the trip\<close>

text \<open>
  Objects with proper keys, and no views. Integers are cut to 32 bits, and so are doubles
  that are integers, which do not come back as doubles; strings end at their first zero
  byte, binaries come back as strings, and an empty object as an empty array.
\<close>

function (sequential) jx9_plain :: "json \<Rightarrow> bool" where
  "jx9_plain JDiscarded = False"
| "jx9_plain (JBinary bs st) = (\<not> IsMemoryView (JBinary bs st))"
| "jx9_plain (JArray vs) = (length vs < 2 ^ 28 \<and> list_all jx9_plain vs)"
| "jx9_plain (JObject ms) =
     (length ms < 2 ^ 28 \<and> obj_ok ms \<and> list_all (\<lambda>m. plain_key (fst m) \<and> jx9_plain (snd m)) ms)"
| "jx9_plain j = True"
  by pat_completeness auto
termination
  by (relation "measure depth") (auto intro: depth_array_elem depth_object_member simp del: depth.simps)

definition cut32 :: "u64 \<Rightarrow> json" where
  "cut32 i = JInt (scast (ucast i :: u32))"

function (sequential) jx9_norm :: "json \<Rightarrow> json" where
  "jx9_norm (JInt i) = cut32 i"
| "jx9_norm (JUInt u) = cut32 u"
| "jx9_norm (JFloat d) = (case MemObjTryIntger d of VInt i \<Rightarrow> cut32 i | _ \<Rightarrow> JFloat d)"
| "jx9_norm (JString s) = JString (cstr s)"
| "jx9_norm (JBinary bs st) = JString (cstr (string_of bs))"
| "jx9_norm (JArray vs) = JArray (map jx9_norm vs)"
| "jx9_norm (JObject ms) =
     (if ms = [] then JArray [] else JObject (map (\<lambda>m. (fst m, jx9_norm (snd m))) ms))"
| "jx9_norm j = j"
  by pat_completeness auto
termination
  by (relation "measure depth") (auto intro: depth_array_elem depth_object_member simp del: depth.simps)

lemma Jx9ValueToJSON_grows:
  "Jx9ValueToJSON h n v = Inr j \<Longrightarrow> cells h \<subseteq>\<^sub>m cells h' \<Longrightarrow> Jx9ValueToJSON h' n v = Inr j"
proof (induction h n v arbitrary: j rule: Jx9ValueToJSON.induct)
  case (8 h n a)
  obtain m where m: "cells h a = Some m" using "8.prems"(1) by (auto split: option.splits)
  then have m': "cells h' a = Some m" using "8.prems"(2) by (metis domI map_le_def)
  show ?case
  proof (cases "json_object m")
    case True
    let ?f = "\<lambda>h kv. bindE (Jx9ValueToJSON h n (snd kv)) (\<lambda>v. Inr (key_text (fst kv), v))"
    obtain ms where "mapE (?f h) (entries m) = Inr ms" "j = obj_of ms"
      using "8.prems"(1) m True by (auto simp: bindE_eq_Inr)
    moreover then have "mapE (?f h') (entries m) = Inr ms"
      using "8.IH"(1) [OF m True] "8.prems"(2) by (auto elim!: mapE_mono simp: bindE_eq_Inr)
    ultimately show ?thesis using m' True by simp
  next
    case False
    then obtain vs where "mapE (\<lambda>kv. Jx9ValueToJSON h n (snd kv)) (entries m) = Inr vs" "j = JArray vs"
      using "8.prems"(1) m by (auto simp: bindE_eq_Inr)
    moreover then have "mapE (\<lambda>kv. Jx9ValueToJSON h' n (snd kv)) (entries m) = Inr vs"
      using "8.IH"(2) [OF m False] "8.prems"(2) by (auto elim!: mapE_mono)
    ultimately show ?thesis using m' False by simp
  qed
qed auto

interpretation jh: heap_of heap "\<lambda>h s. s\<lparr>heap := h\<rparr>"
  by unfold_locales simp_all

definition jx9_reads :: "nat \<Rightarrow> json \<Rightarrow> jval \<Rightarrow> jx9_heap \<Rightarrow> bool" where
  "jx9_reads n j v h \<longleftrightarrow> Jx9ValueToJSON h n v = Inr (jx9_norm j)"

lemma jx9_reads_grows: "jx9_reads n j v h \<Longrightarrow> cells h \<subseteq>\<^sub>m cells h' \<Longrightarrow> jx9_reads n j v h'"
  by (auto simp: jx9_reads_def intro: Jx9ValueToJSON_grows)

lemma jx9_reads_array:
  assumes "list_all2 (\<lambda>v x. jx9_reads n v x h) vs xs" and "cells h a = Some m" and "array_map xs m"
  shows "jx9_reads (Suc n) (JArray vs) (VMap a) h"
proof -
  have "list_all2 (\<lambda>x v. Jx9ValueToJSON h n x = Inr (jx9_norm v)) xs vs"
    using assms(1) by (auto simp: list_all2_conv_all_nth jx9_reads_def)
  then have "mapE (Jx9ValueToJSON h n) xs = Inr (map jx9_norm vs)"
    by (intro mapE_all2) (simp add: list_all2_map2 list_all2_conv_all_nth)
  moreover have "mapE (\<lambda>kv. Jx9ValueToJSON h n (snd kv)) (entries m) = mapE (Jx9ValueToJSON h n) (map snd (entries m))"
    by (simp only: mapE_map)
  ultimately show ?thesis using assms(2,3) by (simp add: jx9_reads_def array_map_def)
qed

lemma jx9_reads_object:
  assumes "obj_ok ms" and "list_all (\<lambda>m. plain_key (fst m)) ms" and "list_all2 (\<lambda>m x. jx9_reads n (snd m) x h) ms xs"
    and "cells h a = Some m" and "object_map (zip (map fst ms) xs) m"
  shows "jx9_reads (Suc n) (JObject ms) (VMap a) h"
proof (cases "ms = []")
  case True
  then show ?thesis using assms(4,5) by (simp add: jx9_reads_def object_map_def)
next
  case False
  define f where "f = (\<lambda>kv. bindE (Jx9ValueToJSON h n (snd kv)) (\<lambda>v. Inr (key_text (fst kv), v)))"
  have len: "length xs = length ms" using assms(3) by (simp add: list_all2_lengthD)
  have e: "entries m = map (\<lambda>(k, v). (BlobKey (bytes_of k), v)) (zip (map fst ms) xs)"
    using assms(5) by (simp add: object_map_def)
  have f: "f (entries m ! i) = Inr (fst (ms ! i), jx9_norm (snd (ms ! i)))" if "i < length ms" for i
  proof -
    have "Jx9ValueToJSON h n (xs ! i) = Inr (jx9_norm (snd (ms ! i)))"
      using that assms(3) by (simp add: list_all2_conv_all_nth jx9_reads_def)
    moreover have "plain_key (fst (ms ! i))" using that assms(2) by (simp add: list_all_length)
    ultimately show ?thesis using that len by (simp add: f_def e key_text_def plain_key_def cstr_id)
  qed
  have "bindE (mapE f (entries m)) (\<lambda>ms. Inr (obj_of ms)) = Inr (JObject (map (\<lambda>m. (fst m, jx9_norm (snd m))) ms))"
    by (rule obj_of_traversal [OF assms(1) refl _ f]) (simp_all add: e len)
  moreover have "json_object m" using assms(5) False len by (auto simp: object_map_def)
  ultimately show ?thesis using assms(4) False by (simp add: jx9_reads_def f_def)
qed

lemma narrow_widen [simp]: "ucast (scast (w :: u32) :: u64) = w"
  by (rule bit_word_eqI) (simp add: bit_simps)

lemma cstr_cstr [simp]: "cstr (cstr s) = cstr s"
  by (rule cstr_id) (auto simp: cstr_def dest: set_takeWhileD)

lemma new_array_run: "jx9_new_array s = (Inr (next_cell (heap s)), s\<lparr>heap := reserve_cell (heap s)\<rparr>)"
  by (rule jx9_new_array_def)

lemma fill_array_run:
  "add_elems kvs jx9NewHashmap = Inr m \<Longrightarrow> jx9_array_fill a kvs s = (Inr (), s\<lparr>heap := fill_cell a m (heap s)\<rparr>)"
  by (simp add: jx9_array_fill_def)

lemma JSONtoJx9_reads:
  "jx9_plain j \<Longrightarrow> depth j \<le> n \<Longrightarrow> store_ok (heap s) \<Longrightarrow>
    \<exists>v s'. JSONtoJx9Value api net j s = (Inr v, s') \<and> jh.steps s s' \<and> jx9_reads n j v (heap s')"
proof (induction api net j arbitrary: n s rule: JSONtoJx9Value.induct)
  case (7 api net vs)
  obtain n' where n: "n = Suc n'" using "7.prems"(2) by (cases n) auto
  have elem: "\<exists>y s'. JSONtoJx9Value api net x s = (Inr y, s') \<and> jh.steps s s' \<and> jx9_reads n' x y (heap s')"
    if "x \<in> set vs" "store_ok (heap s)" for x s
    using "7.IH" [of x n' s] that "7.prems"(1,2) depth_array_elem [of x vs] n
    by (auto simp: list_all_iff simp del: depth.simps)
  have mk: "\<exists>m. add_elems (map (Pair None) ys) jx9NewHashmap = Inr m" if "length ys = length vs" for ys
    using array_elems [OF array_new, of ys] that "7.prems"(1) by auto
  have build: "\<exists>xs m s'. JSONtoJx9Value api net (JArray vs) s = (Inr (VMap (next_cell (heap s))), s') \<and> jh.steps s s' \<and>
      list_all2 (\<lambda>x y. jx9_reads n' x y (heap s')) vs xs \<and>
      add_elems (map (Pair None) xs) jx9NewHashmap = Inr m \<and> cells (heap s') (next_cell (heap s)) = Some m"
    unfolding JSONtoJx9Value.simps
    by (rule jh.build_cell [where mk = "\<lambda>ys. add_elems (map (Pair None) ys) jx9NewHashmap" and P = "jx9_reads n'"])
      (rule new_array_run | erule fill_array_run | erule (1) elem | erule (1) jx9_reads_grows | erule mk | rule "7.prems"(3))+
  obtain xs m s' where run: "JSONtoJx9Value api net (JArray vs) s = (Inr (VMap (next_cell (heap s))), s')"
    and s': "jh.steps s s'" "list_all2 (\<lambda>x y. jx9_reads n' x y (heap s')) vs xs"
    and m: "add_elems (map (Pair None) xs) jx9NewHashmap = Inr m" "cells (heap s') (next_cell (heap s)) = Some m"
    using build by blast
  have "array_map xs m"
    using array_elems [OF array_new, of xs] m(1) s'(2) "7.prems"(1) by (auto simp: list_all2_lengthD)
  then have "jx9_reads n (JArray vs) (VMap (next_cell (heap s))) (heap s')"
    unfolding n by (rule jx9_reads_array [OF s'(2) m(2)])
  then show ?case using run s'(1) by blast
next
  case (8 api net ms)
  obtain n' where n: "n = Suc n'" using "8.prems"(2) by (cases n) auto
  have elem: "\<exists>y s'. JSONtoJx9Value api net (snd x) s = (Inr y, s') \<and> jh.steps s s' \<and> jx9_reads n' (snd x) y (heap s')"
    if "x \<in> set ms" "store_ok (heap s)" for x s
    using "8.IH" [of x n' s] that "8.prems"(1,2) depth_object_member [of "fst x" "snd x" ms] n
    by (auto simp: list_all_iff simp del: depth.simps)
  define kvs where "kvs ys = zip (map fst ms) ys" for ys :: "jval list"
  have keys: "zip (map (\<lambda>m. strkey (fst m)) ms) ys = map (\<lambda>n. (strkey (fst n), snd n)) (kvs ys)" for ys
    unfolding kvs_def by (induction ms arbitrary: ys) (simp, case_tac ys, simp_all)
  have ok: "obj_ok ms" "list_all (\<lambda>m. plain_key (fst m)) ms" using "8.prems"(1) by (auto simp: list_all_iff)
  have mk: "\<exists>m. add_elems (map (\<lambda>n. (strkey (fst n), snd n)) (kvs ys)) jx9NewHashmap = Inr m \<and> object_map (kvs ys) m"
    if "length ys = length ms" for ys
  proof -
    have "map fst (kvs ys) = map fst ms" "length (kvs ys) = length ms" using that by (simp_all add: kvs_def)
    moreover then have "list_all (\<lambda>n. plain_key (fst n)) (kvs ys)" using ok(2) by (metis list.pred_map o_def list_all_cong)
    moreover have "distinct (map fst ms)" using ok(1) by (rule obj_ok_distinct)
    ultimately show ?thesis using object_elems [OF object_new, of "kvs ys"] "8.prems"(1) by auto
  qed
  have mk': "\<exists>m. add_elems (zip (map (\<lambda>m. strkey (fst m)) ms) ys) jx9NewHashmap = Inr m" if "length ys = length ms" for ys
    unfolding keys using mk [OF that] by blast
  have build: "\<exists>xs m s'. JSONtoJx9Value api net (JObject ms) s = (Inr (VMap (next_cell (heap s))), s') \<and> jh.steps s s' \<and>
      list_all2 (\<lambda>x y. jx9_reads n' (snd x) y (heap s')) ms xs \<and>
      add_elems (zip (map (\<lambda>m. strkey (fst m)) ms) xs) jx9NewHashmap = Inr m \<and> cells (heap s') (next_cell (heap s)) = Some m"
    unfolding JSONtoJx9Value.simps
    by (rule jh.build_cell [where mk = "\<lambda>ys. add_elems (zip (map (\<lambda>m. strkey (fst m)) ms) ys) jx9NewHashmap"
            and P = "\<lambda>x. jx9_reads n' (snd x)"])
      (rule new_array_run | erule fill_array_run | erule (1) elem | erule (1) jx9_reads_grows | erule mk' | rule "8.prems"(3))+
  obtain xs m s' where run: "JSONtoJx9Value api net (JObject ms) s = (Inr (VMap (next_cell (heap s))), s')"
    and s': "jh.steps s s'" "list_all2 (\<lambda>x y. jx9_reads n' (snd x) y (heap s')) ms xs"
    and m: "add_elems (zip (map (\<lambda>m. strkey (fst m)) ms) xs) jx9NewHashmap = Inr m"
      "cells (heap s') (next_cell (heap s)) = Some m"
    using build by blast
  have "length xs = length ms" using s'(2) by (simp add: list_all2_lengthD)
  from mk [OF this] have "object_map (zip (map fst ms) xs) m" using m(1) unfolding keys by (simp add: kvs_def)
  then have "jx9_reads n (JObject ms) (VMap (next_cell (heap s))) (heap s')"
    unfolding n by (rule jx9_reads_object [OF ok s'(2) m(2)])
  then show ?case using run s'(1) by blast
next
  case (5 api net d)
  have "MemObjTryIntger d = VReal d \<or> (\<exists>i. MemObjTryIntger d = VInt i)" by (simp add: MemObjTryIntger_def Let_def)
  then show ?case by (auto simp: jx9_reads_def jx9_value_double_def cut32_def jx9_value_to_int_def)
qed (auto simp: jx9_reads_def jx9_value_int_def jx9_value_to_int_def cut32_def)


section \<open>Calls leave nothing behind\<close>

lemma keeps_heap: "keeps inside jx9_new_array" "keeps inside (jx9_array_fill a kvs)" "keeps inside (jx9_to_json api v)"
  "keeps inside (modify (\<lambda>s. s\<lparr>heap := h\<rparr>))" "keeps inside (modify (\<lambda>s. s\<lparr>m_global := g\<rparr>))"
  by (auto simp: keeps_def inside_def tracked_def jx9_new_array_def jx9_array_fill_def jx9_to_json_def split: sum.split)

lemma keeps_JSONtoJx9Value: "keeps inside (JSONtoJx9Value api net j)"
  by (induction api net j rule: JSONtoJx9Value.induct)
    (auto intro!: keeps_open_keep keeps_bindS keeps_mapS keeps_basic keeps_heap)

lemma keeps_JSONtoJx9Value_ctx: "keeps inside (JSONtoJx9Value_ctx j)"
  by (induction j rule: JSONtoJx9Value_ctx.induct)
    (auto intro!: keeps_bindS keeps_mapS keeps_basic keeps_heap)

lemma keeps_data_of: "keeps inside (data_of net n)" "keeps inside (load_byte v i)"
  by (auto simp: keeps_def inside_def tracked_def data_of_def load_byte_def split: option.split prod.split local_data.split)

lemma keeps_with_view: "(\<And>n. keeps inside (f n)) \<Longrightarrow> keeps inside (with_view api no j f)"
  by (rule keepsI)
    (auto simp: with_view_def inside_preorder reflpD split: json.splits option.splits if_splits dest: keepsD)

text \<open>Storing a byte keeps what is alive: the view was found alive.\<close>

lemma keeps_set_byte:
  "keeps inside (bindS (data_of net n) (\<lambda>v. bindS (store_byte n v i b) (\<lambda>_. ret r)))"
proof (rule keepsI)
  fix s q s'
  assume run: "bindS (data_of net n) (\<lambda>v. bindS (store_byte n v i b) (\<lambda>_. ret r)) s = (q, s')"
  show "inside s s'"
  proof (cases "alive s n")
    case None
    then show ?thesis using run by (simp add: data_of_def bindS_def inside_def)
  next
    case (Some v)
    obtain e v' where p: "prepareLocalData net v = (e, v')" by fastforce
    then show ?thesis
      using run Some
      by (cases e) (auto simp: data_of_def bindS_def store_byte_def inside_def tracked_def subset_iff domIff
          split: local_data.splits if_splits)
  qed
qed

lemma keeps_call_func: "keeps inside (jx9_call_func api net func args)"
proof (cases func)
  case ViewLength
  have "keeps inside (\<lambda>s :: ('a, 'b) jx9_vm. (Inr (JUInt (view_length n s)), s))" for n by (simp add: keeps_def inside_def)
  then show ?thesis using ViewLength by (simp add: jx9_call_func_def MemoryView_length_def keeps_with_view)
next
  case ViewToString
  then show ?thesis
    by (auto simp: jx9_call_func_def MemoryView_to_string_def
        intro!: keeps_with_view keeps_bindS keeps_mapS keeps_data_of keeps_basic)
next
  case ViewGet
  have "keeps inside (\<lambda>s. if sint i < 0 \<or> sint i \<ge> sint (view_length n s) then (Inr JNull, s)
      else bindS (data_of net n) (\<lambda>v. bindS (load_byte v (unat i)) (\<lambda>b. ret (JInt (scast b)))) s)" for i :: u64 and n
    by (rule keepsI)
      (auto simp: inside_preorder reflpD split: if_splits
        dest!: keepsD [OF keeps_bindS, rotated -1] intro!: keeps_bindS keeps_data_of keeps_basic)
  then show ?thesis using ViewGet
    by (auto simp: jx9_call_func_def MemoryView_get_def intro!: keeps_with_view keeps_bindS keeps_basic)
next
  case ViewSet
  have "keeps inside (\<lambda>s. if sint i < 0 \<or> sint i \<ge> sint (view_length n s) then (Inr (JBool False), s)
      else bindS (data_of net n) (\<lambda>v. bindS (store_byte n v (unat i) b) (\<lambda>_. ret (JBool True))) s)" for i :: u64 and n b
    by (rule keepsI) (auto simp: inside_preorder reflpD split: if_splits dest: keepsD [OF keeps_set_byte])
  then show ?thesis using ViewSet
    by (auto simp: jx9_call_func_def MemoryView_set_def intro!: keeps_with_view keeps_bindS keeps_basic)
next
  case (UserFn f)
  then show ?thesis by (simp add: jx9_call_func_def keeps_basic)
qed

lemma keeps_holder: "keeps inside (FunctionHolder_call api net holder argv)"
proof (rule keepsI)
  fix s r s'
  assume run: "FunctionHolder_call api net holder argv s = (r, s')"
  have k: "keeps inside (bindS (liftE x) (\<lambda>args. bindS (jx9_call_func api net (fst holder) args) JSONtoJx9Value_ctx))" for x
    by (intro keeps_bindS keeps_basic keeps_call_func keeps_JSONtoJx9Value_ctx inside_preorder)
  show "inside s s'"
    using run keepsD [OF k] by (auto simp: FunctionHolder_call_def inside_preorder reflpD split: if_splits)
qed

lemma keeps_run_script: "keeps inside (run_script api net host run)"
proof (induction run)
  case (Finished h v g)
  show ?case by (simp add: keeps_def inside_def tracked_def)
next
  case (Stopped e)
  show ?case by (simp add: keeps_def inside_def)
next
  case (Calls f argv h k)
  show ?case
  proof (rule keepsI)
    fix s r s'
    assume run: "run_script api net host (Calls f argv h k) s = (r, s')"
    show "inside s s'"
    proof (cases "host (bytes_of f)")
      case None
      then show ?thesis using run by (simp add: inside_def)
    next
      case (Some holder)
      obtain q s1 where c: "FunctionHolder_call api net holder argv (s\<lparr>heap := h\<rparr>) = (q, s1)" by fastforce
      have "inside s (s\<lparr>heap := h\<rparr>)" by (simp add: inside_def tracked_def)
      then have i: "inside s s1" using keepsD [OF keeps_holder c] transpD [OF inside_preorder(2)] by blast
      show ?thesis
      proof (cases q)
        case (Inl e)
        then show ?thesis using run Some c i by simp
      next
        case (Inr v)
        then have "run_script api net host (k (v, heap s1)) s1 = (r, s')" using run Some c by simp
        moreover have "keeps inside (run_script api net host (k (v, heap s1)))" by (rule Calls.IH) (rule rangeI)
        ultimately have "inside s1 s'" by (rule keepsD [rotated])
        then show ?thesis using i transpD [OF inside_preorder(2)] by blast
      qed
    qed
  qed
qed


lemma keeps_finish: "keeps inside (jx9_finish api r)"
  by (auto simp: jx9_finish_def split: sum.split option.split intro!: keeps_bindS keeps_basic keeps_heap)

lemma keeps_start: "keeps inside (jx9_start api net script args)"
proof (rule keepsI)
  fix s r s'
  assume run: "jx9_start api net script args s = (r, s')"
  have "keeps inside (\<lambda>s :: ('a, 'b) jx9_vm. run_script api net host (script pGlobal pArgv (heap s)) s)" for host pGlobal pArgv
    by (rule keepsI) (erule keepsD [OF keeps_run_script])
  then have "keeps inside (bindS (modify (\<lambda>s :: ('a, 'b) jx9_vm. s\<lparr>heap := empty_store\<rparr>)) (\<lambda>_.
      bindS (JSONtoJx9Value api net g) (\<lambda>pGlobal. bindS (JSONtoJx9Value api net j) (\<lambda>pArgv.
      case jx9_create_functions fs Map.empty of
        Inl name \<Rightarrow> ret (failed (''Failed to install foreign function: '' @ name))
      | Inr host \<Rightarrow> bindS (\<lambda>s. run_script api net host (script pGlobal pArgv (heap s)) s) (jx9_finish api)))))" for g j fs
    by (intro keeps_bindS keeps_heap keeps_JSONtoJx9Value inside_preorder)
      (cases "jx9_create_functions fs Map.empty", auto intro!: keeps_bindS keeps_basic keeps_finish)
  from keepsD [OF this run [unfolded jx9_start_def]] show "inside s s'" .
qed

lemma Jx9Vm_execute_idle:
  assumes "idle s" and "Jx9Vm_execute api net code args s = (r, s')"
  shows "idle s' \<and> m_config s' = m_config s"
proof (rule call_idle [OF _ assms(1) assms(2) [unfolded Jx9Vm_execute_def]])
  show "keeps inside (\<lambda>s. case compile api (full_code (m_preamble s) code) of
      Inl log \<Rightarrow> (Inr (failed (''Failed to compile Jx9 code: '' @ log)), s)
    | Inr script \<Rightarrow> jx9_start api net script args s)"
    by (rule keepsI) (auto simp: inside_def split: sum.splits dest: keepsD [OF keeps_start])
qed

lemma Jx9Vm_load_idle: "idle s \<Longrightarrow> Jx9Vm_load api net files f args s = (r, s') \<Longrightarrow> idle s' \<and> m_config s' = m_config s"
  unfolding Jx9Vm_load_def by (auto dest!: load_file_cases dest: Jx9Vm_execute_idle)

lemma Jx9Vm_call_runs:
  "\<exists>e. Jx9Vm_call api net f target args s = (Inl e, s) \<and> ((\<forall>a \<in> set args. \<exists>t. dump_json api a = Inr t) \<longrightarrow> e = UB)"
proof -
  have "\<exists>e. call_args api args i rest = Inl e \<and> ((\<forall>a \<in> set rest. \<exists>t. dump_json api a = Inr t) \<longrightarrow> e = UB)" for i rest
  proof (induction rest arbitrary: i)
    case (Cons a rest)
    obtain e where e: "call_args api args (Suc i) rest = Inl e" "(\<forall>a \<in> set rest. \<exists>t. dump_json api a = Inr t) \<longrightarrow> e = UB"
      using Cons.IH [of "Suc i"] by blast
    then show ?case by (cases "dump_json api a") (simp_all add: index_less_args_def)
  qed (simp add: index_less_args_def)
  from this [of 0 args] show ?thesis by (auto simp: Jx9Vm_call_def)
qed

lemma Jx9Vm_call_idle: "idle s \<Longrightarrow> Jx9Vm_call api net f t args s = (r, s') \<Longrightarrow> idle s' \<and> m_config s' = m_config s"
  using Jx9Vm_call_runs [of api net f t args s] by auto

lemma Jx9Vm_install_idle:
  "idle s \<Longrightarrow> Jx9Vm_install name func nargs s = (r, s') \<Longrightarrow> r = Inr BResult_default \<and> idle s' \<and> m_config s' = m_config s"
  by (auto simp: Jx9Vm_install_def with_lock_def finallyS_def idle_def bindS_def)

lemma Jx9Vm_new_idle:
  assumes "Jx9Vm_new api files mem config = Inr s"
  shows "idle s \<and> m_config s = config"
proof -
  obtain pre where "preamble_text files config = Inr pre"
    using assms by (auto simp: Jx9Vm_new_def bindE_eq_Inr split: if_splits)
  then show ?thesis
    using assms
    by (auto simp: Jx9Vm_new_def Jx9Vm_install_def with_lock_def finallyS_def bindS_def idle_def new_world_def
        vm_world.defs jx9_vm.defs split: if_splits)
qed

interpretation jx9: robust_backend "Jx9Vm_ops api net files dump" idle m_config dump for api net files dump
proof unfold_locales
  fix b
  show "op_getConfig (Jx9Vm_ops api net files dump) b = dump (m_config b)" by (simp add: Jx9Vm_ops_def)
qed (auto simp: Jx9Vm_ops_def dest: Jx9Vm_execute_idle Jx9Vm_load_idle Jx9Vm_call_idle)

section \<open>What calls do\<close>

lemma start_converts:
  assumes "jx9_plain (m_global s)" and "jx9_plain (JArray args')" and "args' = JString ''poesie'' # args"
    and "depth (m_global s) \<le> stack_depth api" and "depth (JArray args') \<le> stack_depth api"
  shows "\<exists>pg pa h. jx9_reads (stack_depth api) (m_global s) pg h \<and> jx9_reads (stack_depth api) (JArray args') pa h \<and>
    jx9_start api net script args s =
      (case jx9_create_functions (iterate api (m_ffuncs s)) Map.empty of
         Inl name \<Rightarrow> ret (failed (''Failed to install foreign function: '' @ name))
       | Inr host \<Rightarrow> bindS (\<lambda>s. run_script api net host (script pg pa (heap s)) s) (jx9_finish api)) (s\<lparr>heap := h\<rparr>)"
proof -
  let ?s = "s\<lparr>heap := empty_store\<rparr>"
  obtain pg s1 where g: "JSONtoJx9Value api net (m_global s) ?s = (Inr pg, s1)" "jh.steps ?s s1"
    "jx9_reads (stack_depth api) (m_global s) pg (heap s1)"
    using JSONtoJx9_reads [OF assms(1,4), of ?s api net] by auto
  then have "store_ok (heap s1)" using jh.steps_ok [OF g(2)] by simp
  then obtain pa s2 where a: "JSONtoJx9Value api net (JArray args') s1 = (Inr pa, s2)" "jh.steps s1 s2"
    "jx9_reads (stack_depth api) (JArray args') pa (heap s2)"
    using JSONtoJx9_reads [OF assms(2,5), of s1 api net] by blast
  have "cells (heap s1) \<subseteq>\<^sub>m cells (heap s2)" using a(2) by (simp add: jh.steps_def store_grows_def)
  then have "jx9_reads (stack_depth api) (m_global s) pg (heap s2)" using g(3) by (rule jx9_reads_grows [rotated])
  moreover have "jh.steps ?s s2" using transpD [OF jh.steps_preorder(2) g(2) a(2)] .
  then have "s2 = s\<lparr>heap := heap s2\<rparr>" by (simp add: jh.steps_def)
  ultimately show ?thesis
    using g(1) a(1,3) assms(3) unfolding jx9_start_def
    by (intro exI [of _ pg] exI [of _ pa] exI [of _ "heap s2"]) simp
qed


text \<open>An execution whose values are plain, up to where the script starts.\<close>

definition ready_to_run :: "jx9_api \<Rightarrow> ('bk, 'ep) jx9_vm \<Rightarrow> json list \<Rightarrow> bool" where
  "ready_to_run api s args \<longleftrightarrow> idle s \<and> jx9_plain (m_global s) \<and> jx9_plain (JArray (JString ''poesie'' # args)) \<and>
     depth (m_global s) \<le> stack_depth api \<and> depth (JArray (JString ''poesie'' # args)) \<le> stack_depth api"

lemma execute_converts:
  assumes r: "ready_to_run api s args" and c: "compile api (full_code (m_preamble s) code) = Inr script"
  shows "\<exists>pg pa h. jx9_reads (stack_depth api) (m_global s) pg h \<and>
    jx9_reads (stack_depth api) (JArray (JString ''poesie'' # args)) pa h \<and>
    Jx9Vm_execute api net code args s =
      with_lock (with_views (\<lambda>s.
        (case jx9_create_functions (iterate api (m_ffuncs s)) Map.empty of
           Inl name \<Rightarrow> ret (failed (''Failed to install foreign function: '' @ name))
         | Inr host \<Rightarrow> bindS (\<lambda>s. run_script api net host (script pg pa (heap s)) s) (jx9_finish api)) (s\<lparr>heap := h\<rparr>))) s"
proof -
  let ?s = "s\<lparr>locked := True, created := []\<rparr>"
  have g: "jx9_plain (m_global ?s)" "depth (m_global ?s) \<le> stack_depth api" "\<not> locked s"
    and a: "jx9_plain (JArray (JString ''poesie'' # args))" "depth (JArray (JString ''poesie'' # args)) \<le> stack_depth api"
    using r by (simp_all add: ready_to_run_def idle_def)
  obtain pg pa h where "jx9_reads (stack_depth api) (m_global ?s) pg h"
    "jx9_reads (stack_depth api) (JArray (JString ''poesie'' # args)) pa h"
    and start: "jx9_start api net script args ?s =
      (case jx9_create_functions (iterate api (m_ffuncs ?s)) Map.empty of
         Inl name \<Rightarrow> ret (failed (''Failed to install foreign function: '' @ name))
       | Inr host \<Rightarrow> bindS (\<lambda>s. run_script api net host (script pg pa (heap s)) s) (jx9_finish api)) (?s\<lparr>heap := h\<rparr>)"
    using start_converts [OF g(1) a(1) refl g(2) a(2), of net script] by blast
  then show ?thesis
    using c g(3)
    by (intro exI [of _ pg] exI [of _ pa] exI [of _ h])
      (simp add: Jx9Vm_execute_def with_lock_def with_views_def finallyS_def)
qed

lemma Jx9Vm_execute_echo:
  assumes "ready_to_run api s args" and "jx9_create_functions (iterate api (m_ffuncs s)) Map.empty = Inr host"
    and "compile api (full_code (m_preamble s) code) = Inr (\<lambda>pg pa h. Finished h pa (Some pg))"
  shows "fst (Jx9Vm_execute api net code args s) = Inr (succeeded (jx9_norm (JArray (JString ''poesie'' # args)))) \<and>
    m_global (snd (Jx9Vm_execute api net code args s)) = jx9_norm (m_global s)"
proof -
  obtain pg pa h where rb: "Jx9ValueToJSON h (stack_depth api) pg = Inr (jx9_norm (m_global s))"
    "Jx9ValueToJSON h (stack_depth api) pa = Inr (jx9_norm (JArray (JString ''poesie'' # args)))"
    and run: "Jx9Vm_execute api net code args s =
      with_lock (with_views (\<lambda>s.
        (case jx9_create_functions (iterate api (m_ffuncs s)) Map.empty of
           Inl name \<Rightarrow> ret (failed (''Failed to install foreign function: '' @ name))
         | Inr host \<Rightarrow> bindS (\<lambda>s. run_script api net host (Finished (heap s) pa (Some pg)) s) (jx9_finish api)) (s\<lparr>heap := h\<rparr>))) s"
    using execute_converts [OF assms(1,3), of net] unfolding jx9_reads_def by blast
  have "\<not> locked s" using assms(1) by (simp add: ready_to_run_def idle_def)
  then show ?thesis
    using assms(2) rb
    by (simp add: run with_lock_def with_views_def finallyS_def jx9_finish_def jx9_to_json_def close_created_def
        del: jx9_norm.simps)
qed

text \<open>A name that is blank stops every execution.\<close>

lemma create_functions_blank:
  "(name, holder) \<in> set fs \<Longrightarrow> SyStringFullTrim (bytes_of (cstr name)) = [] \<Longrightarrow>
     \<exists>name'. jx9_create_functions fs host = Inl name'"
  by (induction fs host rule: jx9_create_functions.induct) (auto simp: Let_def)

lemma Jx9Vm_install_new:
  "\<not> locked s \<Longrightarrow> map_of (m_ffuncs s) name = None \<Longrightarrow>
     fst (Jx9Vm_install name func nargs s) = Inr BResult_default \<and>
     m_ffuncs (snd (Jx9Vm_install name func nargs s)) = m_ffuncs s @ [(name, func, nargs)]"
  by (simp add: Jx9Vm_install_def with_lock_def finallyS_def)

lemma Jx9Vm_execute_blank:
  assumes "ready_to_run api s args" and "compile api (full_code (m_preamble s) code) = Inr script"
    and "(name, holder) \<in> set (iterate api (m_ffuncs s))" and "SyStringFullTrim (bytes_of (cstr name)) = []"
  shows "\<exists>name'. fst (Jx9Vm_execute api net code args s) = Inr (failed (''Failed to install foreign function: '' @ name'))"
proof -
  obtain name' where "jx9_create_functions (iterate api (m_ffuncs s)) Map.empty = Inl name'"
    using create_functions_blank [OF assms(3,4)] by blast
  moreover have "\<not> locked s" using assms(1) by (simp add: ready_to_run_def idle_def)
  moreover obtain pg pa h where "Jx9Vm_execute api net code args s =
      with_lock (with_views (\<lambda>s.
        (case jx9_create_functions (iterate api (m_ffuncs s)) Map.empty of
           Inl name \<Rightarrow> ret (failed (''Failed to install foreign function: '' @ name))
         | Inr host \<Rightarrow> bindS (\<lambda>s. run_script api net host (script pg pa (heap s)) s) (jx9_finish api)) (s\<lparr>heap := h\<rparr>))) s"
    using execute_converts [OF assms(1,2), of net] by blast
  ultimately show ?thesis by (intro exI [of _ name']) (simp add: with_lock_def with_views_def finallyS_def)
qed

lemma signed_byte:
  assumes "0 \<le> sint b" and "sint b \<le> 255"
  shows "(scast (ucast b :: byte) :: u64) = (if sint b < 128 then b else b - 256)"
proof -
  have u: "sint b = uint b" using assms(1) by (rule sint_uint_pos)
  then have ub: "uint (ucast b :: byte) = uint b" using assms(2) by (simp add: uint_up_ucast unsigned_ucast_eq take_bit_eq_mod)
  have "sint (ucast b :: byte) = (uint b + 128) mod 256 - 128"
    using ub by (simp add: sint_uint signed_take_bit_eq_take_bit_shift take_bit_eq_mod)
  also have "\<dots> = (if uint b < 128 then uint b else uint b - 256)"
    using assms(2) u by (cases "uint b < 128") (simp_all add: mod_pos_pos_trivial mod_pos_geq)
  finally have s: "sint (ucast b :: byte) = (if uint b < 128 then uint b else uint b - 256)" .
  have "(scast (ucast b :: byte) :: u64) = word_of_int (sint (ucast b :: byte))" by (simp add: of_int_sint)
  then show ?thesis unfolding s u by simp
qed

text \<open>Reading a byte after writing it, through the functions on memory views.\<close>

lemma data_of_ready:
  "alive s n = Some v \<Longrightarrow> m_local_data v = Owned bs \<Longrightarrow> data_of net n s = (Inr v, s)"
  by (auto simp: data_of_def prepareLocalData_def intro!: vm_world.equality)

lemma set_then_get:
  assumes "view_at api p s = Some n" and "p \<noteq> 0" and "alive s n = Some v" and "m_local_data v = Owned bs"
    and "length bs = unat (m_remote_size v)" and "0 \<le> sint i" and "sint i < sint (m_remote_size v)"
    and "0 \<le> sint b" and "sint b \<le> 255"
  shows "\<exists>s'. MemoryView_set api net [JBinary (u64_bytes p) None, JInt i, JInt b] s = (Inr (JBool True), s') \<and>
    alive s' n = Some (v\<lparr>m_local_data := Owned (bs[unat i := ucast b])\<rparr>) \<and>
    fst (MemoryView_get api net [JBinary (u64_bytes p) None, JInt i] s') = Inr (JInt (if sint b < 128 then b else b - 256))"
proof -
  let ?v = "v\<lparr>m_local_data := Owned (bs[unat i := ucast b])\<rparr>"
  let ?s = "s\<lparr>alive := (alive s)(n \<mapsto> ?v)\<rparr>"
  have size: "view_length n s = m_remote_size v" "view_length n ?s = m_remote_size v"
    using assms(3) by (simp_all add: view_length_def view_size_def)
  have "uint i < uint (m_remote_size v)" using assms(6,7) sint_uint_pos by (metis order_le_less_trans order_less_imp_le)
  then have i: "unat i < length bs" unfolding assms(5) by (simp add: unat_mono word_less_def)
  have at: "view_at api p ?s = Some n"
  proof -
    have "(\<lambda>k. alive ?s k \<noteq> None \<and> view_address api k = p) = (\<lambda>k. alive s k \<noteq> None \<and> view_address api k = p)"
      using assms(3) by (intro ext) simp
    then show ?thesis using assms(1) unfolding view_at_def by simp
  qed
  have set: "MemoryView_set api net [JBinary (u64_bytes p) None, JInt i, JInt b] s = (Inr (JBool True), ?s)"
    using assms i size by (simp add: MemoryView_set_def with_view_def data_of_ready store_byte_def)
  have "data_of net n ?s = (Inr ?v, ?s)" by (rule data_of_ready) simp_all
  then have get: "fst (MemoryView_get api net [JBinary (u64_bytes p) None, JInt i] ?s) = Inr (JInt (scast (ucast b :: byte)))"
    using assms at i size by (simp add: MemoryView_get_def with_view_def load_byte_def)
  show ?thesis using set get signed_byte [OF assms(8,9)] by (intro exI [of _ ?s]) simp
qed


section \<open>What the JX9 backend promises\<close>

definition demo_jx9 :: jx9_api where
  "demo_jx9 = \<lparr>engine_starts = True,
     compile = (\<lambda>code. if code = ''return __argv__;'' then Inr (\<lambda>pg pa h. Finished h pa (Some pg)) else Inl ''syntax error''),
     iterate = (\<lambda>fs. fs), view_address = (\<lambda>n. 4096 + 64 * word_of_nat n), dump_json = (\<lambda>_. Inr ''0''), stack_depth = 200\<rparr>"

definition demo_jx9_vm :: "(u64, nat) jx9_vm" where
  "demo_jx9_vm = vm_world.extend (new_world JNull)
     \<lparr>m_global = JObject [(''n'', JInt 1)], m_preamble = [], m_ffuncs = [], heap = empty_store, local_mem = (\<lambda>_ _. 0)\<rparr>"

lemma demo_jx9_vm_fields [simp]:
  "m_global demo_jx9_vm = JObject [(''n'', JInt 1)]" "m_preamble demo_jx9_vm = []" "m_ffuncs demo_jx9_vm = []"
  "idle demo_jx9_vm" "\<not> locked demo_jx9_vm" "alive demo_jx9_vm = Map.empty" "created demo_jx9_vm = []"
  by (simp_all add: demo_jx9_vm_def new_world_def vm_world.defs idle_def)

lemma demo_compile: "compile demo_jx9 (full_code [] ''return __argv__;'') = Inr (\<lambda>pg pa h. Finished h pa (Some pg))"
  by (simp add: demo_jx9_def full_code_def)

lemma demo_key: "plain_key ''n''" "plain_key ''k''"
  by (simp_all add: plain_key_def bytes_of_def byte_of_char_def HashmapIsIntKey_def SyisDigit_def)

definition demo_args :: "json list" where
  "demo_args = [JInt (2 ^ 32 + 5), JFloat (double_of_int 3), JObject [], JObject [(''k'', JNull)]]"

lemma demo_three: "MemObjTryIntger (double_of_int 3) = VInt 3"
  using TryIntger_of_int [of 3] by simp

lemma demo_jx9_ready: "ready_to_run demo_jx9 demo_jx9_vm demo_args"
  by (simp add: ready_to_run_def demo_args_def demo_key) (simp add: demo_jx9_def)

text \<open>
  C32. A provider with a JX9 VM serves any sequence of requests, answered or ended by an
  exception, and still holds that VM: unlocked, without a view left alive, and with the
  configuration it was created from.
\<close>

theorem jx9_provider_invariant:
  assumes "Jx9Vm_new api preambles mem config = Inr s"
    and "serves (Jx9Vm_ops api net files dump) \<lparr>m_backend = Some \<lparr>vm_name = name, vm_impl = s\<rparr>\<rparr> outs p"
  shows "\<exists>vm. m_backend p = Some vm \<and> vm_name vm = name \<and> \<not> locked (vm_impl vm) \<and>
    alive (vm_impl vm) = Map.empty \<and> m_config (vm_impl vm) = config"
proof -
  have "provider_ready idle m_config (Some name) config \<lparr>m_backend = Some \<lparr>vm_name = name, vm_impl = s\<rparr>\<rparr>"
    using Jx9Vm_new_idle [OF assms(1)] by (simp add: provider_ready_def)
  from jx9.serves_robust [OF assms(2) this] show ?thesis
    by (cases "m_backend p") (auto simp: provider_ready_def idle_def)
qed

theorem jx9_provider_invariant_witness:
  "\<exists>(s :: (u64, nat) jx9_vm) vm out. Jx9Vm_new demo_jx9 Map.empty (\<lambda>_ _. 0) (JObject []) = Inr s \<and>
     executeRPC (Jx9Vm_ops demo_jx9 demo_net Map.empty (\<lambda>_. ''{}'')) ''return __argv__;'' [JBool True]
       \<lparr>m_backend = Some \<lparr>vm_name = ''jx9'', vm_impl = s\<rparr>\<rparr> = (out, \<lparr>m_backend = Some vm\<rparr>) \<and> alive (vm_impl vm) = Map.empty"
proof -
  have "\<exists>s :: (u64, nat) jx9_vm. Jx9Vm_new demo_jx9 Map.empty (\<lambda>_ _. 0) (JObject []) = Inr s"
    by (simp add: Jx9Vm_new_def preamble_text_def member_def demo_jx9_def Jx9Vm_install_def with_lock_def finallyS_def
        new_world_def vm_world.defs jx9_vm.defs)
  then obtain s :: "(u64, nat) jx9_vm" where s: "Jx9Vm_new demo_jx9 Map.empty (\<lambda>_ _. 0) (JObject []) = Inr s" by blast
  let ?ops = "Jx9Vm_ops demo_jx9 demo_net Map.empty (\<lambda>_. ''{}'')" and ?p = "\<lparr>m_backend = Some \<lparr>vm_name = ''jx9'', vm_impl = s\<rparr>\<rparr>"
  obtain out p where p: "executeRPC ?ops ''return __argv__;'' [JBool True] ?p = (out, p)" by fastforce
  have "serves ?ops ?p [(Execute ''return __argv__;'' [JBool True], out)] p"
    using p by (intro serves.one [OF _ serves.rest]) simp
  from jx9_provider_invariant [OF s this] obtain vm where "m_backend p = Some vm" "alive (vm_impl vm) = Map.empty" by blast
  then have "p = \<lparr>m_backend = Some vm\<rparr> \<and> alive (vm_impl vm) = Map.empty" by (cases p) simp
  then show ?thesis using s p by blast
qed

text \<open>
  C33. A script that returns its arguments shows what the trip into JX9 and back makes of them,
  through the hashmaps of the machine: integers, and doubles that are integers, come back as
  integers cut to 32 bits, binaries as strings, strings without what follows a zero byte, empty
  objects as empty arrays; the arguments come after the word \<open>poesie\<close>, and the global value of
  the backend goes the same way.
\<close>

theorem jx9_arguments_roundtrip:
  assumes "ready_to_run api s args" and "jx9_create_functions (iterate api (m_ffuncs s)) Map.empty = Inr host"
    and "compile api (full_code (m_preamble s) code) = Inr (\<lambda>pg pa h. Finished h pa (Some pg))"
  shows "fst (Jx9Vm_execute api net code args s) = Inr (succeeded (jx9_norm (JArray (JString ''poesie'' # args)))) \<and>
    m_global (snd (Jx9Vm_execute api net code args s)) = jx9_norm (m_global s)"
  by (rule Jx9Vm_execute_echo [OF assms])

theorem jx9_arguments_roundtrip_witness:
  "fst (Jx9Vm_execute demo_jx9 demo_net ''return __argv__;'' demo_args demo_jx9_vm) =
     Inr (succeeded (JArray [JString ''poesie'', JInt 5, JInt 3, JArray [], JObject [(''k'', JNull)]]))"
proof -
  have "jx9_create_functions (iterate demo_jx9 (m_ffuncs demo_jx9_vm)) Map.empty = Inr Map.empty"
    by (simp add: demo_jx9_def)
  moreover have "compile demo_jx9 (full_code (m_preamble demo_jx9_vm) ''return __argv__;'') = Inr (\<lambda>pg pa h. Finished h pa (Some pg))"
    using demo_compile by simp
  moreover have "jx9_norm (JArray (JString ''poesie'' # demo_args)) =
      JArray [JString ''poesie'', JInt 5, JInt 3, JArray [], JObject [(''k'', JNull)]]"
    by (simp add: demo_args_def demo_three cut32_def cstr_def)
  ultimately show ?thesis using jx9_arguments_roundtrip [OF demo_jx9_ready, of Map.empty "''return __argv__;''" demo_net] by simp
qed

text \<open>
  C34. A request to call a function never gets a reply from a provider with a JX9 VM: the loop
  over the arguments compares its index with the array of arguments, and a number is always
  less than an array, so that it reads past the last argument unless writing one down threw.
\<close>

theorem jx9_call_never_replies:
  assumes "m_backend p = Some vm"
  shows "\<exists>e r. callRPC (Jx9Vm_ops api net files dump) fname target args p = (Escapes e r, p) \<and>
    ((\<forall>a \<in> set args. \<exists>t. dump_json api a = Inr t) \<longrightarrow> e = UB)"
proof -
  obtain e where e: "Jx9Vm_call api net fname target args (vm_impl vm) = (Inl e, vm_impl vm)"
    "(\<forall>a \<in> set args. \<exists>t. dump_json api a = Inr t) \<longrightarrow> e = UB"
    using Jx9Vm_call_runs [of api net fname target args "vm_impl vm"] by blast
  have "p\<lparr>m_backend := Some (vm\<lparr>vm_impl := vm_impl vm\<rparr>)\<rparr> = p" using assms by (cases p) simp
  then show ?thesis using assms e by (simp add: callRPC_def run_backend_def Jx9Vm_ops_def)
qed

theorem jx9_call_never_replies_witness:
  "\<exists>r. callRPC (Jx9Vm_ops demo_jx9 demo_net Map.empty (\<lambda>_. ''{}'')) ''f'' '''' [JInt 1]
      \<lparr>m_backend = Some \<lparr>vm_name = ''jx9'', vm_impl = demo_jx9_vm\<rparr>\<rparr> =
     (Escapes UB r, \<lparr>m_backend = Some \<lparr>vm_name = ''jx9'', vm_impl = demo_jx9_vm\<rparr>\<rparr>)"
proof -
  have "\<forall>a \<in> set [JInt 1]. \<exists>t. dump_json demo_jx9 a = Inr t" by (simp add: demo_jx9_def)
  moreover have "m_backend \<lparr>m_backend = Some \<lparr>vm_name = ''jx9'', vm_impl = demo_jx9_vm\<rparr>\<rparr> =
      Some \<lparr>vm_name = ''jx9'', vm_impl = demo_jx9_vm\<rparr>" by simp
  ultimately show ?thesis
    using jx9_call_never_replies [of "\<lparr>m_backend = Some \<lparr>vm_name = ''jx9'', vm_impl = demo_jx9_vm\<rparr>\<rparr>" _ demo_jx9 demo_net
        Map.empty "\<lambda>_. ''{}''" "''f''" "''''" "[JInt 1]"] by blast
qed

text \<open>
  A byte written into a memory view by \<open>memory_view_set\<close> is in the view's data, and
  \<open>memory_view_get\<close> reads it back as a signed number: a value above 127 comes back
  negative, although setting takes none but 0 to 255.
\<close>

theorem jx9_view_set_get:
  assumes "view_at api p s = Some n" and "p \<noteq> 0" and "alive s n = Some v" and "m_local_data v = Owned bs"
    and "length bs = unat (m_remote_size v)" and "0 \<le> sint i" and "sint i < sint (m_remote_size v)"
    and "0 \<le> sint b" and "sint b \<le> 255"
  shows "\<exists>s'. MemoryView_set api net [JBinary (u64_bytes p) None, JInt i, JInt b] s = (Inr (JBool True), s') \<and>
    alive s' n = Some (v\<lparr>m_local_data := Owned (bs[unat i := ucast b])\<rparr>) \<and>
    fst (MemoryView_get api net [JBinary (u64_bytes p) None, JInt i] s') = Inr (JInt (if sint b < 128 then b else b - 256))"
  by (rule set_then_get [OF assms])

theorem jx9_view_set_get_witness:
  "\<exists>s'. MemoryView_set demo_jx9 demo_net [JBinary (u64_bytes 4096) None, JInt 3, JInt 200]
       (demo_jx9_vm\<lparr>alive := [0 \<mapsto> demo_ready], created := [0]\<rparr>) = (Inr (JBool True), s') \<and>
    fst (MemoryView_get demo_jx9 demo_net [JBinary (u64_bytes 4096) None, JInt 3] s') = Inr (JInt (- 56))"
proof -
  let ?s = "demo_jx9_vm\<lparr>alive := [0 \<mapsto> demo_ready], created := [0]\<rparr>"
  have h: "view_at demo_jx9 4096 ?s = Some 0" "(4096 :: u64) \<noteq> 0" "alive ?s 0 = Some demo_ready"
    "m_local_data demo_ready = Owned (replicate 20 5)" "length (replicate 20 (5 :: byte)) = unat (m_remote_size demo_ready)"
    by (simp_all add: view_at_def demo_jx9_def demo_ready_def demo_view_def)
  have i: "0 \<le> sint (3 :: u64)" "sint (3 :: u64) < sint (m_remote_size demo_ready)" "0 \<le> sint (200 :: u64)" "sint (200 :: u64) \<le> 255"
    by (simp_all add: demo_ready_def demo_view_def)
  have c: "(if sint (200 :: u64) < 128 then 200 else 200 - 256 :: u64) = - 56" by simp
  from jx9_view_set_get [OF h i, of demo_net] show ?thesis unfolding c by blast
qed

text \<open>
  A foreign function installed under a blank name is accepted, and from then on every
  execution that gets as far as installing the functions into its machine fails.
\<close>

theorem jx9_blank_name:
  assumes "\<not> locked s" and "map_of (m_ffuncs s) name = None" and "SyStringFullTrim (bytes_of (cstr name)) = []"
    and "\<And>fs. set (iterate api fs) = set fs"
    and "m_ffuncs s' = m_ffuncs (snd (Jx9Vm_install name func nargs s))" and "ready_to_run api s' args"
    and "compile api (full_code (m_preamble s') code) = Inr script"
  shows "fst (Jx9Vm_install name func nargs s) = Inr BResult_default \<and>
    (\<exists>name'. fst (Jx9Vm_execute api net code args s') = Inr (failed (''Failed to install foreign function: '' @ name')))"
proof -
  have i: "fst (Jx9Vm_install name func nargs s) = Inr BResult_default"
    "m_ffuncs (snd (Jx9Vm_install name func nargs s)) = m_ffuncs s @ [(name, func, nargs)]"
    using Jx9Vm_install_new [OF assms(1,2)] by auto
  then have "(name, func, nargs) \<in> set (iterate api (m_ffuncs s'))" using assms(4,5) by simp
  from Jx9Vm_execute_blank [OF assms(6,7) this assms(3)] i(1) show ?thesis by simp
qed

theorem jx9_blank_name_witness:
  "\<exists>name'. fst (Jx9Vm_execute demo_jx9 demo_net ''return __argv__;'' demo_args
      (demo_jx9_vm\<lparr>m_ffuncs := [('' '', ViewLength, 1)]\<rparr>)) = Inr (failed (''Failed to install foreign function: '' @ name'))"
proof -
  let ?s = "demo_jx9_vm\<lparr>m_ffuncs := [('' '', ViewLength, 1)]\<rparr>"
  have h: "\<not> locked demo_jx9_vm" "map_of (m_ffuncs demo_jx9_vm) '' '' = None"
    "SyStringFullTrim (bytes_of (cstr '' '')) = []"
    by (simp_all add: cstr_def bytes_of_def byte_of_char_def SyStringFullTrim_def SyisSpace_def)
  have p: "set (iterate demo_jx9 fs) = set fs" for fs by (simp add: demo_jx9_def)
  have f: "m_ffuncs ?s = m_ffuncs (snd (Jx9Vm_install '' '' ViewLength 1 demo_jx9_vm))"
    using Jx9Vm_install_new [of demo_jx9_vm "'' ''" ViewLength 1] by simp
  have r: "ready_to_run demo_jx9 ?s demo_args"
    using demo_jx9_ready by (simp add: ready_to_run_def idle_def)
  have c: "compile demo_jx9 (full_code (m_preamble ?s) ''return __argv__;'') = Inr (\<lambda>pg pa h. Finished h pa (Some pg))"
    using demo_compile by simp
  from jx9_blank_name [OF h p f r c, of demo_net] show ?thesis by (rule conjunct2)
qed

end

