(* ===== verification/Jx9Json.thy ===== *)
theory Jx9Json
  imports Jx9Vm
begin

text \<open>
  JSON in the JX9 engine (\<open>src/jx9/jx9/jx9.c\<close>): \<open>json_encode\<close> and \<open>json_decode\<close> of a script, with
  the encoder, the tokenizer and the decoder below them. Values live in the heap of \<open>Jx9Vm\<close>.
  Texts are followed by a zero byte, which is what reading one byte past the end of an
  identifier finds. Printing and scanning of doubles are the parameter \<open>reals\<close>. As in
  \<open>Jx9Vm\<close>, memory does not run out, and an array is filled once its elements are decoded.
\<close>

record reals =
  real_text :: "dbl \<Rightarrow> byte list"
  text_real :: "byte list \<Rightarrow> dbl"

section \<open>Encoding\<close>

definition encode_text :: "byte list \<Rightarrow> byte list" where
  "encode_text s = concat (map (\<lambda>c. if c = 34 \<or> c = 92 then [92, c] else [c]) s)"

text \<open>The walkers put a comma in front of every entry but the first.\<close>

fun separated :: "'a \<Rightarrow> 'a list list \<Rightarrow> 'a list" where
  "separated c [] = []"
| "separated c [s] = s"
| "separated c (s # t # ss) = s @ c # separated c (t # ss)"

definition key_bytes :: "hkey \<Rightarrow> byte list" where
  "key_bytes k = (case k of IntKey i \<Rightarrow> bytes_of (show_int (sint i)) | BlobKey s \<Rightarrow> s)"

definition VmJsonObjectEncode :: "hkey \<Rightarrow> byte list \<Rightarrow> byte list" where
  "VmJsonObjectEncode k v =
     (if key_bytes k \<noteq> [] then 34 # key_bytes k @ [34] else bytes_of ''null'') @ 58 # v"

text \<open>\<open>n\<close> is how often the walkers may still recurse: 32 less \<open>nRecCount\<close>.\<close>

fun VmJsonEncode :: "reals \<Rightarrow> jx9_heap \<Rightarrow> nat \<Rightarrow> jval \<Rightarrow> exn + byte list" where
  "VmJsonEncode R h n VNull = Inr (bytes_of ''null'')"
| "VmJsonEncode R h n (VRes p) = Inr (bytes_of ''null'')"
| "VmJsonEncode R h n (VBool b) = Inr (bytes_of (if b then ''true'' else ''false''))"
| "VmJsonEncode R h n (VInt i) = Inr (bytes_of (show_int (sint i)))"
| "VmJsonEncode R h n (VReal d) = Inr (real_text R d)"
| "VmJsonEncode R h n (VStr s) = Inr (34 # encode_text s @ [34])"
| "VmJsonEncode R h 0 (VMap a) =
     (case cells h a of
        None \<Rightarrow> Inl UB
      | Some m \<Rightarrow> Inr (if json_object m then [123, 125] else [91, 93]))"
| "VmJsonEncode R h (Suc n) (VMap a) =
     (case cells h a of
        None \<Rightarrow> Inl UB
      | Some m \<Rightarrow>
          if json_object m
          then bindE (mapE (\<lambda>kv. bindE (VmJsonEncode R h n (snd kv)) (\<lambda>s. Inr (VmJsonObjectEncode (fst kv) s))) (entries m))
                 (\<lambda>ss. Inr (123 # separated 44 ss @ [125]))
          else bindE (mapE (\<lambda>kv. VmJsonEncode R h n (snd kv)) (entries m)) (\<lambda>ss. Inr (91 # separated 44 ss @ [93])))"

definition json_levels :: nat where "json_levels = 32"

definition jx9JsonSerialize :: "reals \<Rightarrow> jx9_heap \<Rightarrow> jval \<Rightarrow> exn + byte list" where
  "jx9JsonSerialize R h v = VmJsonEncode R h json_levels v"

section \<open>Tokens\<close>

datatype jtok =
    TkTrue | TkFalse | TkNull
  | TkStr "byte list" | TkNum "byte list" | TkId "byte list"
  | TkOcb | TkCcb | TkOsb | TkCsb | TkColon | TkComma | TkInvalid

text \<open>A token, the text after it and whether a syntax error was recorded.\<close>

datatype lexed = LexEof | LexAbort | LexOk jtok "byte list" bool

definition id_cont :: "byte \<Rightarrow> bool" where
  "id_cont c = (c AND 0xC0 = 0x80)"

definition id_char :: "byte \<Rightarrow> bool" where
  "id_char c = (c < 0xC0 \<and> (SyisAlphaNum c \<or> c = 95))"

definition id_round :: "byte list \<Rightarrow> byte list \<times> byte list" where
  "id_round z =
     (let (u, r) = (case z of
                      [] \<Rightarrow> ([], [])
                    | c # r \<Rightarrow> if c \<ge> 0xC0 then (c # takeWhile id_cont r, dropWhile id_cont r) else ([], z))
      in (u @ takeWhile id_char r, dropWhile id_char r))"

lemma id_round_split: "id_round z = (a, r) \<Longrightarrow> a @ r = z"
  by (auto simp: id_round_def split: list.splits if_splits)

function id_run :: "byte list \<Rightarrow> byte list \<times> byte list" where
  "id_run z =
     (case id_round z of (a, r) \<Rightarrow>
        if a = [] then ([], z) else (case id_run r of (b, r') \<Rightarrow> (a @ b, r')))"
  by pat_completeness auto
termination
  by (relation "measure length") (auto simp: neq_Nil_conv dest!: id_round_split [OF sym])

declare id_run.simps [simp del]

definition word_token :: "byte list \<Rightarrow> jtok" where
  "word_token w =
     (if length w = 4 \<and> SyStrnicmp (Some w) (Some (bytes_of ''true'')) 4 = 0 then TkTrue
      else if length w = 5 \<and> SyStrnicmp (Some w) (Some (bytes_of ''false'')) 5 = 0 then TkFalse
      else if length w = 4 \<and> SyStrnicmp (Some w) (Some (bytes_of ''null'')) 4 = 0 then TkNull
      else TkId w)"

definition lex_word :: "byte list \<Rightarrow> lexed" where
  "lex_word z =
     (case (if hd z < 0xC0 then (case id_run (tl z) of (b, r) \<Rightarrow> (hd z # b, r)) else id_run z) of
        (w, r) \<Rightarrow> LexOk (word_token w) r False)"

text \<open>The text up to a quote that has no backslash before it; \<open>p\<close> is the byte before.\<close>

fun lex_string :: "byte \<Rightarrow> byte list \<Rightarrow> (byte list \<times> byte list) option" where
  "lex_string p [] = None"
| "lex_string p (c # z) =
     (if c = 34 \<and> p \<noteq> 92 then Some ([], z) else map_option (\<lambda>(s, r). (c # s, r)) (lex_string c z))"

definition exp_rest :: "byte list \<Rightarrow> byte list" where
  "exp_rest z = skip_digits (skip_sign z)"

definition num_rest :: "byte list \<Rightarrow> byte list" where
  "num_rest z =
     (case skip_digits z of
        [] \<Rightarrow> []
      | c # r \<Rightarrow>
          if c = 46 then
            (case skip_digits r of
               [] \<Rightarrow> []
             | e # r' \<Rightarrow> if e = 101 \<or> e = 69 then exp_rest r' else e # r')
          else if c = 101 \<or> c = 69 then exp_rest r
          else c # r)"

definition VmJsonTokenize :: "byte list \<Rightarrow> lexed" where
  "VmJsonTokenize z =
     (case dropWhile (\<lambda>c. c < 0xC0 \<and> SyisSpace c) z of
        [] \<Rightarrow> LexEof
      | c # r \<Rightarrow>
          if c \<ge> 0xC0 \<or> SyisAlpha c \<or> c = 95 then lex_word (c # r)
          else if c = 91 then LexOk TkOsb r False
          else if c = 123 then LexOk TkOcb r False
          else if c = 125 then LexOk TkCcb r False
          else if c = 93 then LexOk TkCsb r False
          else if c = 58 then LexOk TkColon r False
          else if c = 44 then LexOk TkComma r False
          else if c = 34 then
            (case lex_string 34 r of None \<Rightarrow> LexOk TkInvalid [] True | Some (s, r') \<Rightarrow> LexOk (TkStr s) r' False)
          else if SyisDigit c \<or> c = 45 \<or> c = 43 then
            LexOk (TkNum (c # take (length r - length (num_rest r)) r)) (num_rest r) False
          else LexAbort)"

lemma id_run_split: "id_run z = (a, r) \<Longrightarrow> a @ r = z"
proof (induction z arbitrary: a r rule: id_run.induct)
  case (1 z)
  obtain b s where b: "id_round z = (b, s)" by fastforce
  show ?case
  proof (cases "b = []")
    case True
    then show ?thesis using "1.prems" b by (subst (asm) id_run.simps) simp
  next
    case False
    obtain b' s' where c: "id_run s = (b', s')" by fastforce
    from "1.IH" [OF b [symmetric] False c] have "b' @ s' = s" .
    moreover have "a = b @ b'" "r = s'" using "1.prems" b c False by (subst (asm) id_run.simps, simp)+
    ultimately show ?thesis using id_round_split [OF b] by simp
  qed
qed

lemma lex_string_split: "lex_string p z = Some (s, r) \<Longrightarrow> z = s @ 34 # r"
  by (induction p z arbitrary: s r rule: lex_string.induct) (auto split: if_splits)

lemma skip_length: "length (skip_digits z) \<le> length z" "length (skip_sign z) \<le> length z"
  by (auto simp: skip_digits_def skip_sign_def length_dropWhile_le split: list.split)

lemma num_rest_length: "length (num_rest z) \<le> length z"
proof -
  have e: "length (exp_rest r) \<le> length r" for r
    using skip_length(1) [of "skip_sign r"] skip_length(2) [of r] by (simp add: exp_rest_def)
  have "length (num_rest z) \<le> length (skip_digits z)"
    using e skip_length(1)
    by (auto simp: num_rest_def split: list.split intro: le_SucI order_trans dest!: arg_cong [of "skip_digits _" _ length])
      (metis Suc_leD e le_SucI length_Cons order_trans skip_length(1))+
  then show ?thesis using skip_length(1) [of z] by simp
qed


lemma Tokenize_length: "VmJsonTokenize z = LexOk t r e \<Longrightarrow> length r < length z"
proof -
  assume ok: "VmJsonTokenize z = LexOk t r e"
  define y where "y = dropWhile (\<lambda>c. c < 0xC0 \<and> SyisSpace c) z"
  have y: "length y \<le> length z" by (simp add: y_def length_dropWhile_le)
  obtain c w where cw: "y = c # w" using ok by (cases y) (simp_all add: VmJsonTokenize_def y_def [symmetric])
  have word: "length r' < length y" if "lex_word y = LexOk t' r' e'" for t' r' e'
  proof (cases "c < 0xC0")
    case True
    obtain b s where b: "id_run w = (b, s)" by fastforce
    then show ?thesis using that True cw id_run_split [OF b] by (auto simp: lex_word_def)
  next
    case False
    obtain b s where b: "id_round y = (b, s)" by fastforce
    moreover have "b \<noteq> []" using b False cw by (auto simp: id_round_def not_less split: prod.splits if_splits)
    obtain b' s' where b': "id_run s = (b', s')" by fastforce
    have "id_run y = (b @ b', s')" using b b' \<open>b \<noteq> []\<close> by (subst id_run.simps) simp
    then have "r' = s'" using that False cw by (simp add: lex_word_def)
    moreover have "length s' \<le> length s" using id_run_split [OF b'] by auto
    moreover have "length s < length y" using id_round_split [OF b] \<open>b \<noteq> []\<close> by (cases b) auto
    ultimately show ?thesis by simp
  qed
  have "length r < length y"
    using ok word num_rest_length [of w] lex_string_split [of 34 w]
    by (fastforce simp: VmJsonTokenize_def y_def [symmetric] cw split: if_splits option.splits)
  then show ?thesis using y by simp
qed

function json_tokens :: "byte list \<Rightarrow> jtok list \<times> bool" where
  "json_tokens z =
     (if z = [] then ([], False)
      else
        (case VmJsonTokenize z of
           LexEof \<Rightarrow> ([], False)
         | LexAbort \<Rightarrow> ([], True)
         | LexOk t r e \<Rightarrow> (case json_tokens r of (ts, e') \<Rightarrow> (t # ts, e \<or> e'))))"
  by pat_completeness auto
termination
  by (relation "measure length") (auto dest!: Tokenize_length [OF sym] simp: Tokenize_length)

declare json_tokens.simps [simp del]

section \<open>Decoding\<close>

definition unescape :: "byte \<Rightarrow> byte" where
  "unescape c = (if c = 110 then 10 else if c = 114 then 13 else if c = 116 then 9 else if c = 102 then 12 else c)"

fun VmJsonDequoteString :: "byte list \<Rightarrow> byte list" where
  "VmJsonDequoteString [] = []"
| "VmJsonDequoteString [c] = (if c = 92 then [] else [c])"
| "VmJsonDequoteString (c # d # z) =
     (if c = 92 then unescape d # VmJsonDequoteString z else c # VmJsonDequoteString (d # z))"

text \<open>A numeric token becomes a string first; leading zeros make it octal.\<close>

definition MemObjToNumeric :: "reals \<Rightarrow> byte list \<Rightarrow> exn + jval" where
  "MemObjToNumeric R s =
     (case (if s \<noteq> [] then SyStrIsNumeric s False else (False, False, [])) of
        (ok, real, _) \<Rightarrow>
          if real then Inr (VReal (text_real R s))
          else if \<not> ok then Inr (VInt 0)
          else bindE (jx9TokenValueToInt64 s) (\<lambda>i. Inr (VInt i)))"

definition token_scalar :: "reals \<Rightarrow> jtok \<Rightarrow> (exn + jval) option" where
  "token_scalar R t =
     (case t of
        TkNull \<Rightarrow> Some (Inr VNull)
      | TkTrue \<Rightarrow> Some (Inr (VBool True))
      | TkFalse \<Rightarrow> Some (Inr (VBool False))
      | TkNum s \<Rightarrow> Some (MemObjToNumeric R s)
      | TkId s \<Rightarrow> Some (Inr (VStr s))
      | TkStr s \<Rightarrow> Some (Inr (VStr (VmJsonDequoteString s)))
      | _ \<Rightarrow> None)"

definition token_key :: "jtok \<Rightarrow> byte list option" where
  "token_key t = (case t of TkId s \<Rightarrow> Some s | TkStr s \<Rightarrow> Some (VmJsonDequoteString s) | _ \<Rightarrow> None)"

text \<open>
  A decoder yields nothing when it aborts, else a value, the tokens after it and the heap. The
  loops over the entries of an array and of an object are given the decoder of the entries and
  one more round than there are tokens.
\<close>

type_synonym 'a decoded = "exn + ('a \<times> jtok list \<times> jx9_heap) option"

definition skip_commas :: "jtok list \<Rightarrow> jtok list" where
  "skip_commas ts = dropWhile (\<lambda>t. t = TkComma) ts"

definition andE :: "'a decoded \<Rightarrow> ('a \<Rightarrow> jtok list \<Rightarrow> jx9_heap \<Rightarrow> 'b decoded) \<Rightarrow> 'b decoded" where
  "andE d f = bindE d (\<lambda>r. case r of None \<Rightarrow> Inr None | Some (v, ts, h) \<Rightarrow> f v ts h)"

fun array_items :: "(jtok list \<Rightarrow> jx9_heap \<Rightarrow> jval decoded) \<Rightarrow> nat \<Rightarrow> jtok list \<Rightarrow> jx9_heap \<Rightarrow> jval list decoded" where
  "array_items dec 0 ts h = Inl Abort"
| "array_items dec (Suc k) ts h =
     (case skip_commas ts of
        [] \<Rightarrow> Inr (Some ([], [], h))
      | t # r \<Rightarrow>
          if t = TkCsb then Inr (Some ([], r, h))
          else
            andE (dec (t # r) h) (\<lambda>v ts h.
              if ts \<noteq> [] \<and> hd ts \<noteq> TkCsb \<and> hd ts \<noteq> TkComma then Inr None
              else andE (array_items dec k ts h) (\<lambda>vs ts h. Inr (Some (v # vs, ts, h)))))"

fun object_items ::
  "(jtok list \<Rightarrow> jx9_heap \<Rightarrow> jval decoded) \<Rightarrow> nat \<Rightarrow> jtok list \<Rightarrow> jx9_heap \<Rightarrow> (byte list \<times> jval) list decoded"
where
  "object_items dec 0 ts h = Inl Abort"
| "object_items dec (Suc k) ts h =
     (case skip_commas ts of
        [] \<Rightarrow> Inr (Some ([], [], h))
      | t # r \<Rightarrow>
          if t = TkCcb then Inr (Some ([], r, h))
          else
            (case (token_key t, r) of
               (Some key, TkColon # r) \<Rightarrow>
                 andE (dec r h) (\<lambda>v ts h.
                 andE (object_items dec k ts h) (\<lambda>kvs ts h. Inr (Some ((key, v) # kvs, ts, h))))
             | _ \<Rightarrow> Inr None))"

definition array_cell :: "nat \<Rightarrow> (hkey option \<times> jval) list \<Rightarrow> jtok list \<Rightarrow> jx9_heap \<Rightarrow> jval decoded" where
  "array_cell a kvs ts h = bindE (add_elems kvs jx9NewHashmap) (\<lambda>m. Inr (Some (VMap a, ts, fill_cell a m h)))"

text \<open>\<open>n\<close> is 32 less \<open>rec_count\<close>. The first token is read whether there is one or not.\<close>

fun VmJsonDecode :: "reals \<Rightarrow> nat \<Rightarrow> jtok list \<Rightarrow> jx9_heap \<Rightarrow> jval decoded" where
  "VmJsonDecode R 0 ts h = Inr None"
| "VmJsonDecode R (Suc n) [] h = Inl UB"
| "VmJsonDecode R (Suc n) (t # r) h =
     (case token_scalar R t of
        Some v \<Rightarrow> bindE v (\<lambda>v. Inr (Some (v, r, h)))
      | None \<Rightarrow>
          if t = TkOsb then
            andE (array_items (VmJsonDecode R n) (Suc (length r)) r (reserve_cell h)) (\<lambda>vs ts h'.
              array_cell (next_cell h) (map (Pair None) vs) ts h')
          else if t = TkOcb then
            andE (object_items (VmJsonDecode R n) (Suc (length r)) r (reserve_cell h)) (\<lambda>kvs ts h'.
              array_cell (next_cell h) (map (\<lambda>(k, v). (Some (BlobKey k), v)) kvs) ts h')
          else Inr None)"

text \<open>What an aborted decoder left in the heap cannot be reached; the result is null.\<close>

definition jx9JsonDecode :: "reals \<Rightarrow> byte list \<Rightarrow> jx9_heap \<Rightarrow> exn + jval \<times> jx9_heap" where
  "jx9JsonDecode R zJSON h =
     (case json_tokens zJSON of (ts, err) \<Rightarrow>
        if err then Inr (VNull, h)
        else
          bindE (VmJsonDecode R json_levels ts h) (\<lambda>r.
            case r of None \<Rightarrow> Inr (VNull, h) | Some (v, ts, h') \<Rightarrow> Inr (v, h')))"

section \<open>The functions of a script\<close>

definition vm_builtin_json_encode :: "reals \<Rightarrow> jval list \<Rightarrow> jx9_heap \<Rightarrow> exn + jval \<times> jx9_heap" where
  "vm_builtin_json_encode R args h =
     (case args of
        [] \<Rightarrow> Inr (VBool False, h)
      | v # _ \<Rightarrow> bindE (jx9JsonSerialize R h v) (\<lambda>s. Inr (VStr s, h)))"

definition vm_builtin_json_decode :: "reals \<Rightarrow> jval list \<Rightarrow> jx9_heap \<Rightarrow> exn + jval \<times> jx9_heap" where
  "vm_builtin_json_decode R args h =
     (case args of
        VStr s # _ \<Rightarrow> if s = [] then Inr (VNull, h) else jx9JsonDecode R s h
      | _ \<Rightarrow> Inr (VNull, h))"


section \<open>Values as trees\<close>

datatype jtree =
    TNull
  | TBool bool
  | TInt u64
  | TStr "byte list"
  | TMap bool "(hkey \<times> jtree) list"

fun read_tree :: "jx9_heap \<Rightarrow> nat \<Rightarrow> jval \<Rightarrow> exn + jtree" where
  "read_tree h n VNull = Inr TNull"
| "read_tree h n (VBool b) = Inr (TBool b)"
| "read_tree h n (VInt i) = Inr (TInt i)"
| "read_tree h n (VStr s) = Inr (TStr s)"
| "read_tree h (Suc n) (VMap a) =
     (case cells h a of
        None \<Rightarrow> Inl UB
      | Some m \<Rightarrow>
          bindE (mapE (\<lambda>kv. bindE (read_tree h n (snd kv)) (\<lambda>t. Inr (fst kv, t))) (entries m)) (\<lambda>kvs.
          Inr (TMap (json_object m) kvs)))"
| "read_tree h n v = Inl Abort"

fun tree_depth :: "jtree \<Rightarrow> nat" where
  "tree_depth (TMap b kvs) = Suc (Max (insert 0 (set (map (\<lambda>kv. tree_depth (snd kv)) kvs))))"
| "tree_depth t = 1"

lemma depth_member: "kv \<in> set kvs \<Longrightarrow> tree_depth (snd kv) < tree_depth (TMap b kvs)"
  by (auto simp: less_Suc_eq_le intro!: Max_ge)

lemma read_tree_grows:
  "read_tree h n v = Inr t \<Longrightarrow> cells h \<subseteq>\<^sub>m cells h' \<Longrightarrow> read_tree h' n v = Inr t"
proof (induction h n v arbitrary: t rule: read_tree.induct)
  case (5 h n a)
  obtain m where m: "cells h a = Some m" using "5.prems"(1) by (auto split: option.splits)
  then have m': "cells h' a = Some m" using "5.prems"(2) by (metis domI map_le_def)
  let ?f = "\<lambda>h kv. bindE (read_tree h n (snd kv)) (\<lambda>t. Inr (fst kv, t))"
  obtain kvs where kvs: "mapE (?f h) (entries m) = Inr kvs" "t = TMap (json_object m) kvs"
    using "5.prems"(1) m by (auto simp: bindE_eq_Inr)
  then have "mapE (?f h') (entries m) = Inr kvs"
    using "5.IH" [OF m] "5.prems"(2) by (auto elim!: mapE_mono simp: bindE_eq_Inr)
  then show ?case using m' kvs(2) by simp
qed auto

text \<open>What the encoder writes for a tree.\<close>

fun tree_text :: "jtree \<Rightarrow> byte list" where
  "tree_text TNull = bytes_of ''null''"
| "tree_text (TBool b) = bytes_of (if b then ''true'' else ''false'')"
| "tree_text (TInt i) = bytes_of (show_int (sint i))"
| "tree_text (TStr s) = 34 # encode_text s @ [34]"
| "tree_text (TMap False kvs) = 91 # separated 44 (map (\<lambda>kv. tree_text (snd kv)) kvs) @ [93]"
| "tree_text (TMap True kvs) =
     123 # separated 44 (map (\<lambda>kv. VmJsonObjectEncode (fst kv) (tree_text (snd kv))) kvs) @ [125]"

lemma encode_tree:
  "read_tree h n v = Inr t \<Longrightarrow> VmJsonEncode R h n v = Inr (tree_text t)"
proof (induction h n v arbitrary: t rule: read_tree.induct)
  case (5 h n a)
  obtain m where m: "cells h a = Some m" using "5.prems" by (auto split: option.splits)
  let ?f = "\<lambda>kv. bindE (read_tree h n (snd kv)) (\<lambda>t. Inr (fst kv, t))"
  obtain kvs where kvs: "mapE ?f (entries m) = Inr kvs" "t = TMap (json_object m) kvs"
    using "5.prems" m by (auto simp: bindE_eq_Inr)
  have all: "mapE ?f es = Inr kvs \<Longrightarrow> set es \<subseteq> set (entries m) \<Longrightarrow>
      mapE (\<lambda>kv. VmJsonEncode R h n (snd kv)) es = Inr (map (\<lambda>kv. tree_text (snd kv)) kvs) \<and>
      mapE (\<lambda>kv. bindE (VmJsonEncode R h n (snd kv)) (\<lambda>s. Inr (VmJsonObjectEncode (fst kv) s))) es =
        Inr (map (\<lambda>kv. VmJsonObjectEncode (fst kv) (tree_text (snd kv))) kvs)" for es kvs
  proof (induction es arbitrary: kvs)
    case (Cons e es)
    then obtain t' kvs' where e: "read_tree h n (snd e) = Inr t'" "mapE ?f es = Inr kvs'" "kvs = (fst e, t') # kvs'"
      by (auto simp: bindE_eq_Inr)
    have "VmJsonEncode R h n (snd e) = Inr (tree_text t')" using "5.IH" [OF m _ e(1)] Cons.prems(2) by simp
    then show ?case using Cons.IH [OF e(2)] Cons.prems(2) e(3) by simp
  qed simp
  from all [OF kvs(1)] show ?case using m kvs(2) by (cases "json_object m") simp_all
qed simp_all

text \<open>The trees that survive a round trip: what the encoder does not escape must not need it.\<close>

definition json_key :: "hkey \<Rightarrow> bool" where
  "json_key k = (case k of IntKey i \<Rightarrow> False | BlobKey s \<Rightarrow> plain_key (string_of s) \<and> 34 \<notin> set s \<and> 92 \<notin> set s)"

fun tree_ok :: "jtree \<Rightarrow> bool" where
  "tree_ok (TStr s) = (s = [] \<or> last s \<noteq> 92)"
| "tree_ok (TMap False kvs) =
     (length kvs < 2 ^ 28 \<and> map fst kvs = map (\<lambda>i. IntKey (word_of_nat i)) [0..<length kvs] \<and>
      list_all (\<lambda>kv. tree_ok (snd kv)) kvs)"
| "tree_ok (TMap True kvs) =
     (kvs \<noteq> [] \<and> length kvs < 2 ^ 28 \<and> distinct (map fst kvs) \<and>
      list_all (\<lambda>kv. json_key (fst kv) \<and> tree_ok (snd kv)) kvs)"
| "tree_ok t = True"

fun tree_toks :: "jtree \<Rightarrow> jtok list" where
  "tree_toks TNull = [TkNull]"
| "tree_toks (TBool b) = [if b then TkTrue else TkFalse]"
| "tree_toks (TInt i) = [TkNum (bytes_of (show_int (sint i)))]"
| "tree_toks (TStr s) = [TkStr (encode_text s)]"
| "tree_toks (TMap False kvs) = TkOsb # separated TkComma (map (\<lambda>kv. tree_toks (snd kv)) kvs) @ [TkCsb]"
| "tree_toks (TMap True kvs) =
     TkOcb # separated TkComma (map (\<lambda>kv. TkStr (key_bytes (fst kv)) # TkColon # tree_toks (snd kv)) kvs) @ [TkCcb]"

section \<open>Tokens of an encoded value\<close>

definition then_tokens :: "jtok list \<Rightarrow> byte list \<Rightarrow> jtok list \<times> bool" where
  "then_tokens ts z = (case json_tokens z of (ts', e) \<Rightarrow> (ts @ ts', e))"

lemma then_tokens_simps:
  "json_tokens z = then_tokens [] z"
  "json_tokens z = then_tokens ts z' \<Longrightarrow> then_tokens ts' z = then_tokens (ts' @ ts) z'"
  by (simp_all add: then_tokens_def split: prod.splits)

lemma one_token: "VmJsonTokenize z = LexOk t r False \<Longrightarrow> json_tokens z = then_tokens [t] r"
proof -
  assume "VmJsonTokenize z = LexOk t r False"
  moreover then have "z \<noteq> []" using Tokenize_length by fastforce
  ultimately show ?thesis by (subst json_tokens.simps) (simp add: then_tokens_def split: prod.splits)
qed

definition punct :: "byte \<Rightarrow> jtok option" where
  "punct c = map_of [(91, TkOsb), (123, TkOcb), (125, TkCcb), (93, TkCsb), (58, TkColon), (44, TkComma)] c"

lemma token_punct: "punct c = Some t \<Longrightarrow> VmJsonTokenize (c # r) = LexOk t r False"
  by (auto simp: punct_def VmJsonTokenize_def SyisSpace_def SyisAlpha_def SyisUpper_def SyisLower_def split: if_splits)

lemma lex_string_key: "34 \<notin> set s \<Longrightarrow> 92 \<notin> set s \<Longrightarrow> p \<noteq> 92 \<Longrightarrow> lex_string p (s @ 34 # r) = Some (s, r)"
  by (induction s arbitrary: p) auto

lemma lex_string_encoded:
  "(if s = [] then p else last s) \<noteq> 92 \<Longrightarrow> lex_string p (encode_text s @ 34 # r) = Some (encode_text s, r)"
proof (induction s arbitrary: p)
  case (Cons c s)
  have l: "(if s = [] then c else last s) \<noteq> 92" using Cons.prems by simp
  then have "lex_string c (encode_text s @ 34 # r) = Some (encode_text s, r)" by (rule Cons.IH)
  then show ?case by (auto simp: encode_text_def)
qed (simp add: encode_text_def)

lemma token_quoted: "lex_string 34 (s @ 34 # r) = Some (s, r) \<Longrightarrow> VmJsonTokenize (34 # s @ 34 # r) = LexOk (TkStr s) r False"
  by (simp add: VmJsonTokenize_def SyisSpace_def SyisAlpha_def SyisUpper_def SyisLower_def)


text \<open>What may follow a value in an encoded text.\<close>

definition delim :: "byte list \<Rightarrow> bool" where
  "delim z \<longleftrightarrow> z = [] \<or> hd z \<in> {44, 93, 125}"

lemma delim_classes:
  assumes "delim z" and "z \<noteq> []"
  shows "\<not> id_char (hd z)" "hd z < 0xC0" "\<not> SyisDigit (hd z)" "hd z \<noteq> 46" "hd z \<noteq> 101" "hd z \<noteq> 69"
proof -
  have "list_all (\<lambda>c. \<not> id_char c \<and> c < 0xC0 \<and> \<not> SyisDigit c \<and> c \<noteq> 46 \<and> c \<noteq> 101 \<and> c \<noteq> 69) [44, 93, 125]" by code_simp
  moreover have "hd z \<in> set [44, 93, 125]" using assms by (simp add: delim_def)
  ultimately show "\<not> id_char (hd z)" "hd z < 0xC0" "\<not> SyisDigit (hd z)" "hd z \<noteq> 46" "hd z \<noteq> 101" "hd z \<noteq> 69"
    unfolding list_all_iff by blast+
qed

lemma drop_to_delim: "delim z \<Longrightarrow> dropWhile id_char z = z" "delim z \<Longrightarrow> takeWhile id_char z = []"
  using delim_classes(1) [of z] by (cases z; simp)+

lemma id_run_stops: "delim z \<Longrightarrow> id_run z = ([], z)"
proof -
  assume d: "delim z"
  have "id_round z = ([], z)"
    using drop_to_delim [OF d] delim_classes(2) [OF d] by (cases z) (auto simp: id_round_def)
  then show ?thesis by (subst id_run.simps) simp
qed

lemma id_run_word:
  assumes "\<forall>c \<in> set w. id_char c" and "delim z"
  shows "id_run (w @ z) = (w, z)"
proof (cases "w = []")
  case False
  then obtain c w' where w: "w = c # w'" by (cases w) auto
  have "id_round (w @ z) = (w, z)"
    using assms w drop_to_delim [OF assms(2)] by (auto simp: id_round_def id_char_def takeWhile_append dropWhile_append)
  then show ?thesis using False id_run_stops [OF assms(2)] by (subst id_run.simps) simp
qed (simp add: id_run_stops [OF assms(2)])

lemma token_word:
  assumes "SyisAlpha c" and "\<forall>x \<in> set w. id_char x" and "delim z"
  shows "VmJsonTokenize (c # w @ z) = LexOk (word_token (c # w)) z False"
proof -
  have c: "\<not> SyisSpace c" "c < 0xC0"
    using assms(1) by (auto simp: SyisAlpha_def SyisUpper_def SyisLower_def SyisSpace_def word_le_nat_alt word_less_nat_alt)
  then show ?thesis
    using assms(1) id_run_word [OF assms(2,3)] by (simp add: VmJsonTokenize_def lex_word_def)
qed

lemma literals:
  "bytes_of ''null'' = [110, 117, 108, 108]" "bytes_of ''true'' = [116, 114, 117, 101]"
  "bytes_of ''false'' = [102, 97, 108, 115, 101]"
  by (simp_all add: bytes_of_def byte_of_char_def)

lemma literal_tokens:
  "word_token [110, 117, 108, 108] = TkNull" "word_token [116, 114, 117, 101] = TkTrue"
  "word_token [102, 97, 108, 115, 101] = TkFalse"
  by code_simp+

lemma token_literal:
  assumes "delim z"
  shows "VmJsonTokenize (bytes_of ''null'' @ z) = LexOk TkNull z False"
    and "VmJsonTokenize (bytes_of ''true'' @ z) = LexOk TkTrue z False"
    and "VmJsonTokenize (bytes_of ''false'' @ z) = LexOk TkFalse z False"
proof -
  have "VmJsonTokenize (c # w @ z) = LexOk (word_token (c # w)) z False"
    if "SyisAlpha c" "list_all id_char w" for c w using that token_word [OF _ _ assms] by (simp add: list_all_iff)
  note t = this
  have a: "SyisAlpha 110" "SyisAlpha 116" "SyisAlpha 102" "list_all id_char [117, 108, 108]" "list_all id_char [114, 117, 101]"
    "list_all id_char [97, 108, 115, 101]" by code_simp+
  show "VmJsonTokenize (bytes_of ''null'' @ z) = LexOk TkNull z False"
    using t [OF a(1,4)] by (simp add: literals literal_tokens)
  show "VmJsonTokenize (bytes_of ''true'' @ z) = LexOk TkTrue z False"
    using t [OF a(2,5)] by (simp add: literals literal_tokens)
  show "VmJsonTokenize (bytes_of ''false'' @ z) = LexOk TkFalse z False"
    using t [OF a(3,6)] by (simp add: literals literal_tokens)
qed

section \<open>Integers\<close>

lemma digit_byte:
  assumes "n < 10"
  shows "SyisDigit (byte_of_char (char_of (48 + n)))" and "digit_val (byte_of_char (char_of (48 + n))) = n"
    and "byte_of_char (char_of (48 + n)) = 48 \<longleftrightarrow> n = 0"
proof -
  have "n \<in> {0, 1, 2, 3, 4, 5, 6, 7, 8, 9}" using assms by auto
  then show "SyisDigit (byte_of_char (char_of (48 + n)))" "digit_val (byte_of_char (char_of (48 + n))) = n"
    "byte_of_char (char_of (48 + n)) = 48 \<longleftrightarrow> n = 0"
    by (auto simp: byte_of_char_def SyisDigit_def digit_val_def)
qed

lemma show_nat_digits:
  "(\<forall>c \<in> set (bytes_of (show_nat n)). SyisDigit c) \<and> decimal (bytes_of (show_nat n)) = n \<and> show_nat n \<noteq> [] \<and>
   (hd (bytes_of (show_nat n)) = 48 \<longleftrightarrow> n = 0) \<and> (n = 0 \<longrightarrow> bytes_of (show_nat n) = [48])"
proof (induction n rule: show_nat.induct)
  case (1 n)
  show ?case
  proof (cases "n < 10")
    case True
    then show ?thesis using digit_byte [OF True] by (subst (1 2 3 4 5) show_nat.simps) (auto simp: bytes_of_def decimal_def)
  next
    case False
    let ?d = "byte_of_char (char_of (48 + n mod 10))"
    have s: "bytes_of (show_nat n) = bytes_of (show_nat (n div 10)) @ [?d]"
      using False by (subst show_nat.simps) (simp add: bytes_of_def)
    have d: "SyisDigit ?d" "digit_val ?d = n mod 10" using digit_byte [of "n mod 10"] by simp_all
    have ih: "\<forall>c \<in> set (bytes_of (show_nat (n div 10))). SyisDigit c" "decimal (bytes_of (show_nat (n div 10))) = n div 10"
      "bytes_of (show_nat (n div 10)) \<noteq> []" "hd (bytes_of (show_nat (n div 10))) \<noteq> 48"
      using "1.IH" [OF False] False by (auto simp: bytes_of_def)
    have "decimal (bytes_of (show_nat n)) = decimal (bytes_of (show_nat (n div 10))) * 10 + n mod 10"
      unfolding s by (simp add: decimal_def dval_def d(2))
    moreover have "show_nat n \<noteq> []" using False by (subst show_nat.simps) simp
    ultimately show ?thesis using s d ih False by auto
  qed
qed

lemma show_int_bytes:
  obtains ds where "bytes_of (show_int i) = (if i < 0 then [45] else []) @ ds" "\<forall>c \<in> set ds. SyisDigit c" "ds \<noteq> []"
    "decimal ds = nat \<bar>i\<bar>" "i \<noteq> 0 \<longrightarrow> hd ds \<noteq> 48" "i = 0 \<longrightarrow> ds = [48]"
proof
  let ?ds = "bytes_of (show_nat (nat \<bar>i\<bar>))"
  have "byte_of_char (CHR ''-'') = 45" by (simp add: byte_of_char_def)
  then show "bytes_of (show_int i) = (if i < 0 then [45] else []) @ ?ds" by (auto simp: show_int_def bytes_of_def)
  show "\<forall>c \<in> set ?ds. SyisDigit c" "?ds \<noteq> []" "decimal ?ds = nat \<bar>i\<bar>" "i \<noteq> 0 \<longrightarrow> hd ?ds \<noteq> 48" "i = 0 \<longrightarrow> ?ds = [48]"
    using show_nat_digits [of "nat \<bar>i\<bar>"] by (auto simp: bytes_of_def)
qed

lemma digit_low: "SyisDigit c \<Longrightarrow> c < 0xC0"
  by (simp add: SyisDigit_def word_le_nat_alt word_less_nat_alt)

lemma skip_digits_all: "\<forall>c \<in> set ds. SyisDigit c \<Longrightarrow> delim z \<Longrightarrow> skip_digits (ds @ z) = z"
proof -
  assume d: "\<forall>c \<in> set ds. SyisDigit c" "delim z"
  have "dropWhile (\<lambda>c. c < 0xC0 \<and> SyisDigit c) z = z" using delim_classes(3) [OF d(2)] by (cases z) auto
  then show ?thesis using d(1) digit_low by (simp add: skip_digits_def dropWhile_append2)
qed

lemma token_int:
  assumes "delim z"
  shows "VmJsonTokenize (bytes_of (show_int i) @ z) = LexOk (TkNum (bytes_of (show_int i))) z False"
proof -
  obtain ds where b: "bytes_of (show_int i) = (if i < 0 then [45] else []) @ ds" "\<forall>c \<in> set ds. SyisDigit c" "ds \<noteq> []"
    by (rule show_int_bytes)
  obtain c r where c: "bytes_of (show_int i) = c # r" "SyisDigit c \<or> c = 45" "\<forall>c \<in> set r. SyisDigit c"
    using b by (cases "i < 0"; cases ds) auto
  have "num_rest (r @ z) = z"
    using skip_digits_all [OF c(3) assms] delim_classes [OF assms] by (auto simp: num_rest_def split: list.split)
  moreover have "\<not> SyisSpace c" "\<not> SyisAlpha c" "c < 0xC0" "c \<notin> {91, 123, 125, 93, 58, 44, 34, 95}"
    using c(2) by (auto simp: SyisDigit_def SyisSpace_def SyisAlpha_def SyisUpper_def SyisLower_def word_le_nat_alt word_less_nat_alt)
  ultimately show ?thesis using c(1,2) by (auto simp: VmJsonTokenize_def)
qed

lemma numeric_int: "MemObjToNumeric R (bytes_of (show_int (sint (i :: u64)))) = Inr (VInt i)"
proof -
  obtain ds where ds: "bytes_of (show_int (sint i)) = (if sint i < 0 then [45] else []) @ ds" "\<forall>c \<in> set ds. SyisDigit c"
    "ds \<noteq> []" "decimal ds = nat \<bar>sint i\<bar>" "sint i \<noteq> 0 \<longrightarrow> hd ds \<noteq> 48" "sint i = 0 \<longrightarrow> ds = [48]"
    by (rule show_int_bytes)
  let ?s = "bytes_of (show_int (sint i))"
  obtain c r where cr: "ds = c # r" "SyisDigit c" using ds(2,3) by (cases ds) auto
  have "dropWhile (\<lambda>c. c < 0xC0 \<and> SyisSpace c) ?s = ?s" "skip_sign ?s = ds"
    using ds(1) cr digit_not_space [of c] by (auto simp: skip_sign_def SyisSpace_def)
  moreover have "skip_digits ds = []" using skip_digits_all [OF ds(2), of "[]"] by (simp add: delim_def)
  ultimately have "SyStrIsNumeric ?s False = (True, False, [])" using ds(3) by (simp add: SyStrIsNumeric_def)
  moreover have "jx9TokenValueToInt64 ?s = Inr i"
  proof (cases "sint i = 0")
    case True
    then have "i = 0" by (simp add: sint_eq_0_iff)
    then show ?thesis using ds(1,6) True by (simp add: jx9TokenValueToInt64_def)
  next
    case False
    let ?sg = "if sint i < 0 then Some True else None"
    have s: "[] @ numeral_sign ?sg @ [] @ ds @ [] = ?s" using ds(1) by (auto simp: numeral_sign_def)
    have "\<exists>ok v r. SyStrToInt64 ([] @ numeral_sign ?sg @ [] @ ds @ []) = Inr (ok, v, r) \<and>
      (ok \<longleftrightarrow> decimal ds \<le> (if is_neg ?sg then 2 ^ 63 else 2 ^ 63 - 1)) \<and>
      (ok \<longrightarrow> sint v = (if is_neg ?sg then - int (decimal ds) else int (decimal ds)) \<and> r = [])"
      by (rule SyStrToInt64_numeral) (use ds(2,3,5) False in auto)
    then obtain ok v r where v: "SyStrToInt64 ?s = Inr (ok, v, r)"
      "ok \<longleftrightarrow> decimal ds \<le> (if sint i < 0 then 2 ^ 63 else 2 ^ 63 - 1)"
      "ok \<longrightarrow> sint v = (if sint i < 0 then - int (decimal ds) else int (decimal ds))"
      unfolding s by (auto simp: is_neg_def split: if_splits)
    have ok using v(2) ds(4) sint_range [of i] by auto
    then have "sint v = sint i" using v(3) ds(4) by auto
    then have "v = i" by (simp add: signed_word_eqI)
    moreover have "\<exists>c r. ?s = c # r \<and> c \<noteq> 48" using ds(1,5) cr False by auto
    ultimately show ?thesis using v(1) by (auto simp: jx9TokenValueToInt64_def)
  qed
  moreover have "?s \<noteq> []" using ds(1,3) by auto
  ultimately show ?thesis by (simp add: MemObjToNumeric_def)
qed


section \<open>The tokens of an encoded tree\<close>

definition lexes :: "byte list \<Rightarrow> jtok list \<Rightarrow> bool" where
  "lexes s ts \<longleftrightarrow> (\<forall>z. delim z \<longrightarrow> json_tokens (s @ z) = then_tokens ts z)"

lemma then_tokens_trans: "json_tokens z = then_tokens ts z' \<Longrightarrow> then_tokens ts' z = then_tokens (ts' @ ts) z'"
  by (rule then_tokens_simps(2))

lemma punct_tokens: "punct c = Some t \<Longrightarrow> json_tokens (c # z) = then_tokens [t] z"
  by (rule one_token [OF token_punct])

lemma quoted_tokens: "lex_string 34 (s @ 34 # z) = Some (s, z) \<Longrightarrow> json_tokens (34 # s @ 34 # z) = then_tokens [TkStr s] z"
  by (rule one_token [OF token_quoted])

lemma puncts: "punct 91 = Some TkOsb" "punct 93 = Some TkCsb" "punct 123 = Some TkOcb" "punct 125 = Some TkCcb"
  "punct 58 = Some TkColon" "punct 44 = Some TkComma"
  by (simp_all add: punct_def)

lemma delim_puncts: "delim (93 # z)" "delim (125 # z)" "delim (44 # z)"
  by (simp_all add: delim_def)

lemma lexes_separated:
  assumes "list_all2 lexes ss tss" and "delim z"
  shows "json_tokens (separated 44 ss @ z) = then_tokens (separated TkComma tss) z"
  using assms
proof (induction "44 :: byte" ss arbitrary: tss rule: separated.induct)
  case 1
  then show ?case by (simp add: then_tokens_simps(1))
next
  case (2 s)
  then show ?case by (auto simp: list_all2_Cons1 lexes_def)
next
  case (3 s t ss)
  obtain ts us uss where tss: "tss = ts # us # uss" "lexes s ts" "list_all2 lexes (t # ss) (us # uss)"
    using "3.prems"(1) by (auto simp: list_all2_Cons1)
  have "json_tokens (s @ 44 # separated 44 (t # ss) @ z) = then_tokens ts (44 # separated 44 (t # ss) @ z)"
    using tss(2) delim_puncts(3) by (simp add: lexes_def)
  also have "\<dots> = then_tokens (ts @ [TkComma]) (separated 44 (t # ss) @ z)"
    by (rule then_tokens_trans [OF punct_tokens [OF puncts(6)]])
  also have "\<dots> = then_tokens ((ts @ [TkComma]) @ separated TkComma (us # uss)) z"
    by (rule then_tokens_trans, rule "3.hyps") (use tss(3) "3.prems"(2) in auto)
  finally show ?case using tss(1) by simp
qed

lemma lexes_bracketed:
  assumes "list_all2 lexes ss tss" and "punct o1 = Some t1" and "punct o2 = Some t2" and "o2 \<in> {93, 125}"
  shows "lexes (o1 # separated 44 ss @ [o2]) (t1 # separated TkComma tss @ [t2])"
  unfolding lexes_def
proof (intro allI impI)
  fix z :: "byte list"
  have d: "delim (o2 # z)" using assms(4) by (simp add: delim_def)
  have "json_tokens (o1 # separated 44 ss @ o2 # z) = then_tokens [t1] (separated 44 ss @ o2 # z)"
    by (rule punct_tokens [OF assms(2)])
  also have "\<dots> = then_tokens ([t1] @ separated TkComma tss) (o2 # z)"
    by (rule then_tokens_trans [OF lexes_separated [OF assms(1) d]])
  also have "\<dots> = then_tokens (([t1] @ separated TkComma tss) @ [t2]) z"
    by (rule then_tokens_trans [OF punct_tokens [OF assms(3)]])
  finally show "json_tokens ((o1 # separated 44 ss @ [o2]) @ z) = then_tokens (t1 # separated TkComma tss @ [t2]) z" by simp
qed

lemma lexes_member:
  assumes "json_key k" and "lexes s ts"
  shows "lexes (VmJsonObjectEncode k s) (TkStr (key_bytes k) # TkColon # ts)"
  unfolding lexes_def
proof (intro allI impI)
  fix z :: "byte list" assume d: "delim z"
  obtain b where b: "k = BlobKey b" "b \<noteq> []" "34 \<notin> set b" "92 \<notin> set b"
    using assms(1) by (cases k) (auto simp: json_key_def plain_key_def string_of_def)
  have "json_tokens (34 # b @ 34 # 58 # s @ z) = then_tokens [TkStr b] (58 # s @ z)"
    by (rule quoted_tokens) (use b lex_string_key in auto)
  also have "\<dots> = then_tokens ([TkStr b] @ [TkColon]) (s @ z)"
    by (rule then_tokens_trans [OF punct_tokens [OF puncts(5)]])
  also have "\<dots> = then_tokens (([TkStr b] @ [TkColon]) @ ts) z"
    by (rule then_tokens_trans) (use assms(2) d in \<open>simp add: lexes_def\<close>)
  finally show "json_tokens (VmJsonObjectEncode k s @ z) = then_tokens (TkStr (key_bytes k) # TkColon # ts) z"
    using b by (simp add: VmJsonObjectEncode_def key_bytes_def)
qed

lemma lexes_tree: "tree_ok t \<Longrightarrow> lexes (tree_text t) (tree_toks t)"
proof (induction t rule: tree_text.induct)
  case (4 s)
  have "json_tokens (34 # encode_text s @ 34 # z) = then_tokens [TkStr (encode_text s)] z" for z
    by (rule quoted_tokens [OF lex_string_encoded]) (use "4.prems" in auto)
  then show ?case by (simp add: lexes_def)
next
  case (5 kvs)
  have "list_all2 lexes (map (\<lambda>kv. tree_text (snd kv)) kvs) (map (\<lambda>kv. tree_toks (snd kv)) kvs)"
    using "5.IH" "5.prems" by (auto simp: list_all_iff list_all2_map1 list_all2_map2 intro!: list.rel_refl_strong)
  then show ?case using lexes_bracketed [OF _ puncts(1) puncts(2)] by simp
next
  case (6 kvs)
  have "list_all2 lexes (map (\<lambda>kv. VmJsonObjectEncode (fst kv) (tree_text (snd kv))) kvs)
      (map (\<lambda>kv. TkStr (key_bytes (fst kv)) # TkColon # tree_toks (snd kv)) kvs)"
    using "6.IH" "6.prems" lexes_member by (auto simp: list_all_iff list_all2_map1 list_all2_map2 intro!: list.rel_refl_strong)
  then show ?case using lexes_bracketed [OF _ puncts(3) puncts(4)] by simp
qed (auto simp: lexes_def intro!: one_token token_literal token_int)

lemma tree_tokens: "tree_ok t \<Longrightarrow> json_tokens (tree_text t) = (tree_toks t, False)"
proof -
  assume "tree_ok t"
  then have "json_tokens (tree_text t @ []) = then_tokens (tree_toks t) []"
    using lexes_tree by (simp add: lexes_def delim_def)
  moreover have "json_tokens [] = ([], False)" by (subst json_tokens.simps) simp
  ultimately show ?thesis by (simp add: then_tokens_def)
qed

section \<open>Decoding the tokens of a tree\<close>

lemma dequote_encoded: "VmJsonDequoteString (encode_text s) = s"
proof (induction s)
  case (Cons c s)
  have plain: "VmJsonDequoteString (c # z) = c # VmJsonDequoteString z" if "c \<noteq> 92" for z
    using that by (cases z) simp_all
  show ?case
  proof (cases "c = 34 \<or> c = 92")
    case True
    then have "encode_text (c # s) = 92 # c # encode_text s" by (simp add: encode_text_def)
    then show ?thesis using True Cons.IH by (auto simp: unescape_def)
  next
    case False
    then have "encode_text (c # s) = c # encode_text s" by (simp add: encode_text_def)
    then show ?thesis using False Cons.IH plain by simp
  qed
qed (simp add: encode_text_def)

lemma first_token: "tree_toks t \<noteq> [] \<and> hd (tree_toks t) \<notin> {TkComma, TkCsb, TkCcb, TkColon}"
  by (induction t rule: tree_toks.induct) auto

lemma skip_commas_tree: "skip_commas (tree_toks t @ ts) = tree_toks t @ ts"
  using first_token [of t] by (cases "tree_toks t") (auto simp: skip_commas_def)

text \<open>
  A decoder of a tree, on the tokens of the tree and any others after them. Whatever cells were
  in use before, the value it gives can be read without them.
\<close>

definition cells_from :: "nat \<Rightarrow> jx9_heap \<Rightarrow> jx9_heap" where
  "cells_from b h = h\<lparr>cells := cells h |` {b..}\<rparr>"

lemma cells_from_le: "cells h \<subseteq>\<^sub>m cells h' \<Longrightarrow> cells (cells_from b h) \<subseteq>\<^sub>m cells (cells_from b h')"
  unfolding cells_from_def map_le_def by (simp add: restrict_map_def dom_def)

lemma cells_from_grows: "store_grows h h' \<Longrightarrow> cells (cells_from b h) \<subseteq>\<^sub>m cells (cells_from b h')"
  by (rule cells_from_le) (simp add: store_grows_def)

lemma cells_from_0 [simp]: "cells_from 0 h = h"
  by (simp add: cells_from_def restrict_map_def)

definition decodes :: "(jtok list \<Rightarrow> jx9_heap \<Rightarrow> jval decoded) \<Rightarrow> nat \<Rightarrow> jtree \<Rightarrow> bool" where
  "decodes dec n t \<longleftrightarrow> (\<forall>ts h b. store_ok h \<longrightarrow> b \<le> next_cell h \<longrightarrow>
     (\<exists>v h'. dec (tree_toks t @ ts) h = Inr (Some (v, ts, h')) \<and> store_grows h h' \<and>
        read_tree (cells_from b h') n v = Inr t))"

definition reads_all :: "jx9_heap \<Rightarrow> nat \<Rightarrow> jtree list \<Rightarrow> jval list \<Rightarrow> bool" where
  "reads_all h n ts vs \<longleftrightarrow> list_all2 (\<lambda>t v. read_tree h n v = Inr t) ts vs"

lemma decodes_array_items:
  assumes "\<forall>t \<in> set us. decodes dec n t" and "store_ok h" and "b \<le> next_cell h" and "length us < k"
  shows "\<exists>vs h'. array_items dec k (separated TkComma (map tree_toks us) @ TkCsb # ts) h = Inr (Some (vs, ts, h')) \<and>
    store_grows h h' \<and> reads_all (cells_from b h') n us vs"
  using assms
proof (induction us arbitrary: k h)
  case Nil
  then obtain k' where "k = Suc k'" by (cases k) auto
  then show ?case by (simp add: skip_commas_def reads_all_def)
next
  case (Cons u us)
  obtain k' where k: "k = Suc k'" using Cons.prems(4) by (cases k) auto
  define rest where "rest = (if us = [] then [] else TkComma # separated TkComma (map tree_toks us)) @ TkCsb # ts"
  have toks: "separated TkComma (map tree_toks (u # us)) @ TkCsb # ts = tree_toks u @ rest"
    by (cases us) (simp_all add: rest_def)
  obtain v h1 where v: "dec (tree_toks u @ rest) h = Inr (Some (v, rest, h1))" "store_grows h h1" "read_tree (cells_from b h1) n v = Inr u"
    using Cons.prems(1-3) unfolding decodes_def by (metis list.set_intros(1))
  have ok1: "store_ok h1" "b \<le> next_cell h1" using v(2) Cons.prems(2,3) by (simp_all add: store_grows_def)
  have "array_items dec k' rest h1 = array_items dec k' (separated TkComma (map tree_toks us) @ TkCsb # ts) h1"
    using Cons.prems(4) k by (cases us; cases k') (auto simp: rest_def skip_commas_def)
  then obtain vs h' where r: "array_items dec k' rest h1 = Inr (Some (vs, ts, h'))" "store_grows h1 h'"
      "reads_all (cells_from b h') n us vs"
    using Cons.IH [OF _ ok1, of k'] Cons.prems(1,4) k by auto
  obtain x xs where x: "tree_toks u @ rest = x # xs" "x \<noteq> TkCsb" using first_token [of u] by (cases "tree_toks u") auto
  have hd: "\<not> (rest \<noteq> [] \<and> hd rest \<noteq> TkCsb \<and> hd rest \<noteq> TkComma)" by (simp add: rest_def)
  have s: "skip_commas (tree_toks u @ rest) = x # xs" using skip_commas_tree x(1) by metis
  have "array_items dec k (tree_toks u @ rest) h = Inr (Some (v # vs, ts, h'))"
    unfolding k array_items.simps s using v(1) x(2) hd r(1) by (simp add: x(1) andE_def)
  moreover have "read_tree (cells_from b h') n v = Inr u"
    by (rule read_tree_grows [OF v(3) cells_from_grows [OF r(2)]])
  then have "reads_all (cells_from b h') n (u # us) (v # vs)" using r(3) by (simp add: reads_all_def)
  moreover have "store_grows h h'" by (rule store_grows_trans [OF v(2) r(2)])
  ultimately show ?case unfolding toks by blast
qed


definition member_toks :: "hkey \<times> jtree \<Rightarrow> jtok list" where
  "member_toks m = TkStr (key_bytes (fst m)) # TkColon # tree_toks (snd m)"

lemma key_dequote: "json_key k \<Longrightarrow> \<exists>s. k = BlobKey s \<and> key_bytes k = s \<and> VmJsonDequoteString s = s"
proof -
  assume k: "json_key k"
  then obtain s where s: "k = BlobKey s" "34 \<notin> set s" "92 \<notin> set s" by (cases k) (simp_all add: json_key_def)
  then have "encode_text s = s" by (induction s arbitrary: k) (simp_all add: encode_text_def)
  then show ?thesis using s dequote_encoded [of s] by (simp add: key_bytes_def)
qed

lemma decodes_object_items:
  assumes "\<forall>m \<in> set ms. json_key (fst m) \<and> decodes dec n (snd m)" and "store_ok h" and "b \<le> next_cell h" and "length ms < k"
  shows "\<exists>vs h'. object_items dec k (separated TkComma (map member_toks ms) @ TkCcb # ts) h =
      Inr (Some (zip (map (\<lambda>m. key_bytes (fst m)) ms) vs, ts, h')) \<and>
    store_grows h h' \<and> reads_all (cells_from b h') n (map snd ms) vs"
  using assms
proof (induction ms arbitrary: k h)
  case Nil
  then obtain k' where "k = Suc k'" by (cases k) auto
  then show ?case by (simp add: skip_commas_def reads_all_def)
next
  case (Cons m ms)
  obtain k' where k: "k = Suc k'" using Cons.prems(4) by (cases k) auto
  define rest where "rest = (if ms = [] then [] else TkComma # separated TkComma (map member_toks ms)) @ TkCcb # ts"
  have toks: "separated TkComma (map member_toks (m # ms)) @ TkCcb # ts = member_toks m @ rest"
    by (cases ms) (simp_all add: rest_def)
  obtain v h1 where v: "dec (tree_toks (snd m) @ rest) h = Inr (Some (v, rest, h1))" "store_grows h h1"
      "read_tree (cells_from b h1) n v = Inr (snd m)"
    using Cons.prems(1-3) unfolding decodes_def by (metis list.set_intros(1))
  have ok1: "store_ok h1" "b \<le> next_cell h1" using v(2) Cons.prems(2,3) by (simp_all add: store_grows_def)
  have "object_items dec k' rest h1 = object_items dec k' (separated TkComma (map member_toks ms) @ TkCcb # ts) h1"
    using Cons.prems(4) k by (cases ms; cases k') (auto simp: rest_def skip_commas_def)
  then obtain vs h' where r: "object_items dec k' rest h1 = Inr (Some (zip (map (\<lambda>m. key_bytes (fst m)) ms) vs, ts, h'))"
      "store_grows h1 h'" "reads_all (cells_from b h') n (map snd ms) vs"
    using Cons.IH [OF _ ok1, of k'] Cons.prems(1,4) k by auto
  obtain s where s: "key_bytes (fst m) = s" "VmJsonDequoteString s = s" using key_dequote Cons.prems(1) by (metis list.set_intros(1))
  have c: "skip_commas (member_toks m @ rest) = TkStr s # TkColon # tree_toks (snd m) @ rest"
    by (simp add: member_toks_def skip_commas_def s(1))
  have "object_items dec k (member_toks m @ rest) h = Inr (Some ((s, v) # zip (map (\<lambda>m. key_bytes (fst m)) ms) vs, ts, h'))"
    unfolding k object_items.simps c using v(1) r(1) s(2) by (simp add: token_key_def andE_def)
  moreover have "read_tree (cells_from b h') n v = Inr (snd m)"
    by (rule read_tree_grows [OF v(3) cells_from_grows [OF r(2)]])
  then have "reads_all (cells_from b h') n (map snd (m # ms)) (v # vs)" using r(3) by (simp add: reads_all_def)
  moreover have "store_grows h h'" by (rule store_grows_trans [OF v(2) r(2)])
  moreover have "(s, v) # zip (map (\<lambda>m. key_bytes (fst m)) ms) vs = zip (map (\<lambda>m. key_bytes (fst m)) (m # ms)) (v # vs)"
    using s(1) by simp
  ultimately show ?case unfolding toks by metis
qed

lemma separated_length: "\<forall>xs \<in> set xss. xs \<noteq> [] \<Longrightarrow> length xss \<le> length (separated c xss)"
  by (induction c xss rule: separated.induct) (auto simp: Suc_le_eq)

text \<open>The filled cell reads as the tree.\<close>

lemma read_filled:
  assumes "store_ok h" and "b \<le> next_cell h" and "store_grows (reserve_cell h) h1"
    and "reads_all (cells_from b h1) n (map snd kvs) vs"
    and "entries m = zip (map fst kvs) vs" and "json_object m = obj"
  shows "store_grows h (fill_cell (next_cell h) m h1) \<and>
    read_tree (cells_from b (fill_cell (next_cell h) m h1)) (Suc n) (VMap (next_cell h)) = Inr (TMap obj kvs)"
proof -
  let ?h = "fill_cell (next_cell h) m h1"
  have g: "store_grows h ?h" "cells h1 \<subseteq>\<^sub>m cells ?h" using reserve_fill_grows [OF assms(1,3)] by blast+
  note mono = read_tree_grows [OF _ cells_from_le [OF g(2)]]
  have len: "length vs = length kvs" using assms(4) by (auto simp: reads_all_def dest: list_all2_lengthD)
  have "read_tree (cells_from b ?h) n (vs ! i) = Inr (snd (kvs ! i))" if "i < length kvs" for i
    using assms(4) that len mono by (simp add: reads_all_def list_all2_conv_all_nth)
  then have "mapE (\<lambda>kv. bindE (read_tree (cells_from b ?h) n (snd kv)) (\<lambda>t. Inr (fst kv, t))) (entries m) = Inr kvs"
    using len assms(5) by (intro mapE_all2) (simp add: list_all2_conv_all_nth)
  moreover have "cells (cells_from b ?h) (next_cell h) = Some m" using assms(2) by (simp add: cells_from_def)
  ultimately show ?thesis using g(1) assms(6) by simp
qed

lemma object_keys:
  assumes "list_all (\<lambda>m. json_key (fst m)) kvs" and "distinct (map fst kvs)" and "length vs = length kvs" and "length kvs < 2 ^ 28"
  shows "\<exists>m. add_elems (map (\<lambda>(k, v). (Some (BlobKey k), v)) (zip (map (\<lambda>m. key_bytes (fst m)) kvs) vs)) jx9NewHashmap = Inr m \<and>
    json_object m = (kvs \<noteq> []) \<and> entries m = zip (map fst kvs) vs"
proof -
  define ns where "ns = zip (map (\<lambda>m. string_of (key_bytes (fst m))) kvs) vs"
  have key: "\<exists>s. fst (kvs ! i) = BlobKey s \<and> key_bytes (fst (kvs ! i)) = s \<and> plain_key (string_of s)" if "i < length kvs" for i
    using assms(1) that by (cases "fst (kvs ! i)") (auto simp: list_all_length json_key_def key_bytes_def)
  have strkey: "strkey (string_of s) = Some (BlobKey s)" if "plain_key (string_of s)" for s
    using that by (auto simp: strkey_def plain_key_def cstr_id)
  have len: "length ns = length kvs" using assms(3) by (simp add: ns_def)
  have plain: "list_all (\<lambda>n. plain_key (fst n)) ns"
    unfolding list_all_length ns_def using key assms(3) by fastforce
  have "map fst ns = map (\<lambda>m. string_of (key_bytes (fst m))) kvs" using assms(3) by (simp add: ns_def)
  moreover have "distinct (map (\<lambda>m. string_of (key_bytes (fst m))) kvs)"
  proof (subst distinct_conv_nth, intro allI impI)
    fix i j assume ij: "i < length (map (\<lambda>m. string_of (key_bytes (fst m))) kvs)"
      "j < length (map (\<lambda>m. string_of (key_bytes (fst m))) kvs)" "i \<noteq> j"
    then have "fst (kvs ! i) \<noteq> fst (kvs ! j)" using assms(2) by (simp add: distinct_conv_nth)
    then have "key_bytes (fst (kvs ! i)) \<noteq> key_bytes (fst (kvs ! j))" using key [of i] key [of j] ij by auto
    then show "map (\<lambda>m. string_of (key_bytes (fst m))) kvs ! i \<noteq> map (\<lambda>m. string_of (key_bytes (fst m))) kvs ! j"
      using ij by simp (metis bytes_string_inverse)
  qed
  ultimately obtain m where m: "add_elems (map (\<lambda>n. (strkey (fst n), snd n)) ns) jx9NewHashmap = Inr m" "object_map ns m"
    using object_elems [OF object_new, of ns] plain len assms(4) by auto
  have "map (\<lambda>n. (strkey (fst n), snd n)) ns = map (\<lambda>(k, v). (Some (BlobKey k), v)) (zip (map (\<lambda>m. key_bytes (fst m)) kvs) vs)"
    using key strkey assms(3) by (intro nth_equalityI) (auto simp: ns_def)
  moreover have "map (\<lambda>(k, v). (BlobKey (bytes_of k), v)) ns = zip (map fst kvs) vs"
    using key assms(3) by (intro nth_equalityI) (auto simp: ns_def)
  ultimately show ?thesis using m len by (auto simp: object_map_def)
qed

lemma decodes_tree: "tree_ok t \<Longrightarrow> tree_depth t \<le> n \<Longrightarrow> decodes (VmJsonDecode R n) n t"
proof (induction t arbitrary: n rule: tree_toks.induct)
  case (5 kvs)
  obtain n' where n: "n = Suc n'" using "5.prems"(2) by (cases n) auto
  have elems: "\<forall>t \<in> set (map snd kvs). decodes (VmJsonDecode R n') n' t"
  proof
    fix t assume "t \<in> set (map snd kvs)"
    then obtain kv where kv: "kv \<in> set kvs" "t = snd kv" by auto
    then have "tree_ok t" "tree_depth t \<le> n'"
      using "5.prems" depth_member [OF kv(1), of False] n by (auto simp: list_all_iff)
    then show "decodes (VmJsonDecode R n') n' t" using "5.IH" kv by blast
  qed
  show ?case
    unfolding decodes_def
  proof (intro allI impI)
    fix ts h b assume ok: "store_ok (h :: jx9_heap)" and b: "b \<le> next_cell h"
    let ?r = "separated TkComma (map tree_toks (map snd kvs)) @ TkCsb # ts"
    have "length (map snd kvs) \<le> length (separated TkComma (map tree_toks (map snd kvs)))"
      using separated_length [of "map tree_toks (map snd kvs)" TkComma] first_token by auto
    then have "length (map snd kvs) < Suc (length ?r)" by simp
    from decodes_array_items [OF elems _ _ this, of "reserve_cell h" b ts] ok b obtain vs h1
      where v: "array_items (VmJsonDecode R n') (Suc (length ?r)) ?r (reserve_cell h) = Inr (Some (vs, ts, h1))"
        "store_grows (reserve_cell h) h1" "reads_all (cells_from b h1) n' (map snd kvs) vs" by auto
    have len: "length vs = length kvs" using v(3) by (auto simp: reads_all_def dest: list_all2_lengthD)
    obtain m where m: "add_elems (map (Pair None) vs) jx9NewHashmap = Inr m" "array_map vs m"
      using array_elems [OF array_new, of vs] len "5.prems"(1) by auto
    have keys: "map fst kvs = map (\<lambda>i. IntKey (word_of_nat i)) [0..<length kvs]" using "5.prems"(1) by simp
    have "store_grows h (fill_cell (next_cell h) m h1) \<and>
      read_tree (cells_from b (fill_cell (next_cell h) m h1)) (Suc n') (VMap (next_cell h)) = Inr (TMap False kvs)"
      by (rule read_filled [OF ok b v(2,3)]) (use m(2) keys len in \<open>simp_all add: array_map_def\<close>)
    moreover have "VmJsonDecode R n (tree_toks (TMap False kvs) @ ts) h =
        Inr (Some (VMap (next_cell h), ts, fill_cell (next_cell h) m h1))"
      using v(1) m(1) by (simp add: n token_scalar_def andE_def array_cell_def o_def)
    ultimately show "\<exists>v h'. VmJsonDecode R n (tree_toks (TMap False kvs) @ ts) h = Inr (Some (v, ts, h')) \<and> store_grows h h' \<and>
        read_tree (cells_from b h') n v = Inr (TMap False kvs)" unfolding n by blast
  qed
next
  case (6 kvs)
  obtain n' where n: "n = Suc n'" using "6.prems"(2) by (cases n) auto
  have elems: "\<forall>m \<in> set kvs. json_key (fst m) \<and> decodes (VmJsonDecode R n') n' (snd m)"
  proof
    fix m assume m: "m \<in> set kvs"
    then have "tree_ok (snd m)" "tree_depth (snd m) \<le> n'" "json_key (fst m)"
      using "6.prems" depth_member [OF m, of True] n by (auto simp: list_all_iff)
    then show "json_key (fst m) \<and> decodes (VmJsonDecode R n') n' (snd m)" using "6.IH" m by blast
  qed
  show ?case
    unfolding decodes_def
  proof (intro allI impI)
    fix ts h b assume ok: "store_ok (h :: jx9_heap)" and b: "b \<le> next_cell h"
    let ?r = "separated TkComma (map member_toks kvs) @ TkCcb # ts"
    have "length kvs \<le> length (separated TkComma (map member_toks kvs))"
      using separated_length [of "map member_toks kvs" TkComma] by (simp add: member_toks_def)
    then have "length kvs < Suc (length ?r)" by simp
    from decodes_object_items [OF elems _ _ this, of "reserve_cell h" b ts] ok b obtain vs h1
      where v: "object_items (VmJsonDecode R n') (Suc (length ?r)) ?r (reserve_cell h) =
          Inr (Some (zip (map (\<lambda>m. key_bytes (fst m)) kvs) vs, ts, h1))"
        "store_grows (reserve_cell h) h1" "reads_all (cells_from b h1) n' (map snd kvs) vs" by auto
    have len: "length vs = length kvs" using v(3) by (auto simp: reads_all_def dest: list_all2_lengthD)
    obtain m where m: "add_elems (map (\<lambda>(k, v). (Some (BlobKey k), v)) (zip (map (\<lambda>m. key_bytes (fst m)) kvs) vs)) jx9NewHashmap = Inr m"
      "json_object m" "entries m = zip (map fst kvs) vs"
      using object_keys [of kvs vs] len "6.prems"(1) by (auto simp: list_all_iff)
    have "store_grows h (fill_cell (next_cell h) m h1) \<and>
      read_tree (cells_from b (fill_cell (next_cell h) m h1)) (Suc n') (VMap (next_cell h)) = Inr (TMap True kvs)"
      by (rule read_filled [OF ok b v(2,3) m(3)]) (simp add: m(2))
    moreover have "tree_toks (TMap True kvs) @ ts = TkOcb # ?r" by (simp add: member_toks_def [abs_def])
    then have "VmJsonDecode R n (tree_toks (TMap True kvs) @ ts) h =
        Inr (Some (VMap (next_cell h), ts, fill_cell (next_cell h) m h1))"
      using v(1) m(1) by (simp add: n token_scalar_def andE_def array_cell_def)
    ultimately show "\<exists>v h'. VmJsonDecode R n (tree_toks (TMap True kvs) @ ts) h = Inr (Some (v, ts, h')) \<and> store_grows h h' \<and>
        read_tree (cells_from b h') n v = Inr (TMap True kvs)" unfolding n by blast
  qed
next
  case (3 i)
  then obtain n' where "n = Suc n'" by (cases n) auto
  then show ?case by (simp add: decodes_def token_scalar_def numeric_int)
next
  case (4 s)
  then obtain n' where "n = Suc n'" by (cases n) auto
  then show ?case by (simp add: decodes_def token_scalar_def dequote_encoded)
next
  case 1
  then obtain n' where "n = Suc n'" by (cases n) auto
  then show ?case by (simp add: decodes_def token_scalar_def)
next
  case (2 b)
  then obtain n' where "n = Suc n'" by (cases n) auto
  then show ?case by (simp add: decodes_def token_scalar_def)
qed


section \<open>How decoding ends\<close>

text \<open>
  A decoder never runs out of rounds; when it succeeds it has used up at least one token, and it
  goes wrong only at the end of the tokens, where a value is missing.
\<close>

definition value_missing :: "jtok list \<Rightarrow> bool" where
  "value_missing ts \<longleftrightarrow> ts = [] \<or> last ts = TkColon"

definition ends_well :: "'a decoded \<Rightarrow> jtok list \<Rightarrow> nat \<Rightarrow> bool" where
  "ends_well d ts k \<longleftrightarrow>
     (case d of
        Inl e \<Rightarrow> e = UB \<and> value_missing ts
      | Inr None \<Rightarrow> True
      | Inr (Some (v, r, h)) \<Rightarrow> \<exists>p. ts = p @ r \<and> k \<le> length p)"

lemma ends_well_simps [simp]:
  "ends_well (Inr None) ts k" "ends_well (Inr (Some (v, r, h))) ts k \<longleftrightarrow> (\<exists>p. ts = p @ r \<and> k \<le> length p)"
  "ends_well (Inl e) ts k \<longleftrightarrow> e = UB \<and> value_missing ts"
  by (simp_all add: ends_well_def)

lemma missing_suffix: "value_missing r \<Longrightarrow> r \<noteq> [] \<Longrightarrow> value_missing (p @ r)"
  by (simp add: value_missing_def)

lemma ends_well_andE:
  assumes "ends_well d ts k" and "\<And>v r h p. d = Inr (Some (v, r, h)) \<Longrightarrow> ts = p @ r \<Longrightarrow> k \<le> length p \<Longrightarrow> ends_well (f v r h) ts k'"
  shows "ends_well (andE d f) ts k'"
proof (cases d)
  case (Inl e)
  then show ?thesis using assms(1) by (simp add: andE_def)
next
  case (Inr x)
  show ?thesis
  proof (cases x)
    case (Some r)
    then obtain v ts' h where "d = Inr (Some (v, ts', h))" using Inr by (cases r) auto
    then show ?thesis using assms by (auto simp: andE_def)
  qed (simp add: Inr andE_def)
qed

lemma ends_well_prefix:
  assumes "ends_well d r k" and "r \<noteq> [] \<or> (\<forall>e. d \<noteq> Inl e)"
  shows "ends_well d (p @ r) (length p + k)"
proof (cases d)
  case (Inl e)
  then show ?thesis using assms missing_suffix by auto
next
  case (Inr x)
  show ?thesis
  proof (cases x)
    case (Some y)
    then obtain v ts h where x: "d = Inr (Some (v, ts, h))" using Inr by (cases y) auto
    then obtain q where "r = q @ ts" "k \<le> length q" using assms(1) by auto
    then have "p @ r = (p @ q) @ ts \<and> length p + k \<le> length (p @ q)" by simp
    then show ?thesis unfolding x ends_well_simps by blast
  qed (simp add: Inr)
qed

lemma skip_commas_split: "\<exists>p. ts = p @ skip_commas ts"
  by (metis skip_commas_def takeWhile_dropWhile_id)

lemma array_items_ends:
  assumes "\<And>ts h. ends_well (dec ts h) ts 1" and "length ts < k"
  shows "ends_well (array_items dec k ts h) ts 0 \<and> (ts = [] \<longrightarrow> (\<forall>e. array_items dec k ts h \<noteq> Inl e))"
  using assms(2)
proof (induction k arbitrary: ts h)
  case (Suc k)
  obtain p where p: "ts = p @ skip_commas ts" using skip_commas_split by blast
  show ?case
  proof (cases "skip_commas ts")
    case Nil
    have "skip_commas [] = []" by (simp add: skip_commas_def)
    then show ?thesis using Nil by simp
  next
    case (Cons t r)
    then have ts: "ts = p @ t # r" using p by simp
    show ?thesis
    proof (cases "t = TkCsb")
      case True
      have "ts = (p @ [t]) @ r" using ts by simp
      then show ?thesis using True Cons ts by fastforce
    next
      case False
      have "ends_well (andE (dec (t # r) h) (\<lambda>v ts h.
          if ts \<noteq> [] \<and> hd ts \<noteq> TkCsb \<and> hd ts \<noteq> TkComma then Inr None
          else andE (array_items dec k ts h) (\<lambda>vs ts h. Inr (Some (v # vs, ts, h))))) (t # r) 0"
      proof (rule ends_well_andE [OF assms(1)])
        fix v r' h' q assume q: "t # r = q @ r'" "1 \<le> length q"
        then have "length r' < k" using Suc.prems ts arg_cong [OF q(1), of length] by simp
        note ih = Suc.IH [OF this, of h']
        have "ends_well (array_items dec k r' h') (t # r) 0"
          using ends_well_prefix [of "array_items dec k r' h'" r' 0 q] ih unfolding q(1)
          by (auto simp: ends_well_def split: sum.splits option.splits)
        then have "ends_well (andE (array_items dec k r' h') (\<lambda>vs ts h. Inr (Some (v # vs, ts, h)))) (t # r) 0"
          by (rule ends_well_andE) auto
        then show "ends_well (if r' \<noteq> [] \<and> hd r' \<noteq> TkCsb \<and> hd r' \<noteq> TkComma then Inr None
          else andE (array_items dec k r' h') (\<lambda>vs ts h. Inr (Some (v # vs, ts, h)))) (t # r) 0" by simp
      qed
      then have "ends_well (array_items dec (Suc k) ts h) (t # r) 0" using Cons False by simp
      then have "ends_well (array_items dec (Suc k) ts h) (p @ t # r) (length p + 0)" by (rule ends_well_prefix) simp
      then show ?thesis using ts by (auto simp: ends_well_def split: sum.splits option.splits)
    qed
  qed
qed simp


lemma object_items_ends:
  assumes "\<And>ts h. ends_well (dec ts h) ts 1" and "length ts < k"
  shows "ends_well (object_items dec k ts h) ts 0 \<and> (ts = [] \<longrightarrow> (\<forall>e. object_items dec k ts h \<noteq> Inl e))"
  using assms(2)
proof (induction k arbitrary: ts h)
  case (Suc k)
  obtain p where p: "ts = p @ skip_commas ts" using skip_commas_split by blast
  show ?case
  proof (cases "skip_commas ts")
    case Nil
    have "skip_commas [] = []" by (simp add: skip_commas_def)
    then show ?thesis using Nil by simp
  next
    case (Cons t r)
    then have ts: "ts = p @ t # r" using p by simp
    consider "t = TkCcb" | key r1 where "t \<noteq> TkCcb" "token_key t = Some key" "r = TkColon # r1"
      | "t \<noteq> TkCcb" "object_items dec (Suc k) ts h = Inr None"
      using Cons by (cases "token_key t"; cases r; cases "hd r") auto
    then show ?thesis
    proof cases
      case 1
      have "ts = (p @ [t]) @ r" using ts by simp
      then show ?thesis using 1 Cons ts by fastforce
    next
      case 2
      have "ends_well (andE (dec r1 h) (\<lambda>v ts h.
          andE (object_items dec k ts h) (\<lambda>kvs ts h. Inr (Some ((key, v) # kvs, ts, h))))) (t # r) 0"
      proof (rule ends_well_andE)
        show "ends_well (dec r1 h) (t # r) 1"
        proof (cases "r1 = []")
          case True
          then show ?thesis using assms(1) [of r1 h] 2(3) by (auto simp: ends_well_def value_missing_def split: sum.splits option.splits)
        next
          case False
          have "ends_well (dec r1 h) ([t, TkColon] @ r1) (length [t, TkColon] + 1)"
            by (rule ends_well_prefix [OF assms(1)]) (simp add: False)
          then show ?thesis using 2(3) by (auto simp: ends_well_def split: sum.splits option.splits)
        qed
      next
        fix v r' h' q assume q: "t # r = q @ r'" "1 \<le> length q"
        then have "length r' < k" using Suc.prems ts arg_cong [OF q(1), of length] by simp
        note ih = Suc.IH [OF this, of h']
        have "ends_well (object_items dec k r' h') (t # r) 0"
          using ends_well_prefix [of "object_items dec k r' h'" r' 0 q] ih unfolding q(1)
          by (auto simp: ends_well_def split: sum.splits option.splits)
        then show "ends_well (andE (object_items dec k r' h') (\<lambda>kvs ts h. Inr (Some ((key, v) # kvs, ts, h)))) (t # r) 0"
          by (rule ends_well_andE) auto
      qed
      then have "ends_well (object_items dec (Suc k) ts h) (t # r) 0" using Cons 2 by simp
      then have "ends_well (object_items dec (Suc k) ts h) (p @ t # r) (length p + 0)" by (rule ends_well_prefix) simp
      then show ?thesis using ts by (auto simp: ends_well_def split: sum.splits option.splits)
    qed (simp add: ts del: object_items.simps)
  qed
qed simp

lemma numeric_total: "\<exists>v. MemObjToNumeric R s = Inr v"
  using TokenValue_total [of s] by (auto simp: MemObjToNumeric_def split: prod.split)

lemma scalar_total: "token_scalar R t = Some x \<Longrightarrow> \<exists>v. x = Inr v"
  using numeric_total [of R] by (auto simp: token_scalar_def split: jtok.splits)

lemma HashmapInsert_total: "\<exists>m'. HashmapInsert al m k v = Inr m'"
  using TokenValue_total
  by (auto simp: HashmapInsert_def Let_def bindE_def split: option.split hkey.split sum.split) (metis sum.simps(4))+

lemma add_elems_total: "\<exists>m'. add_elems kvs m = Inr m'"
proof (induction kvs arbitrary: m)
  case (Cons kv kvs)
  obtain k v where kv: "kv = (k, v)" by fastforce
  obtain rc m1 where "HashmapInsert all_room m k v = Inr (rc, m1)" using HashmapInsert_total by (metis surj_pair)
  then show ?case using Cons.IH [of m1] kv by simp
qed simp

lemma array_cell_ends: "ends_well (array_cell a kvs r h) ts k \<longleftrightarrow> (\<exists>p. ts = p @ r \<and> k \<le> length p)"
  using add_elems_total [of kvs jx9NewHashmap] by (auto simp: array_cell_def)

lemma Decode_ends: "ends_well (VmJsonDecode R n ts h) ts 1"
proof (induction n arbitrary: ts h)
  case (Suc n)
  show ?case
  proof (cases ts)
    case Nil
    then show ?thesis by (simp add: value_missing_def)
  next
    case (Cons t r)
    have len: "length r < Suc (length r)" by simp
    have one: "ends_well d (t # r) 1" if "ends_well d r 0 \<and> (r = [] \<longrightarrow> (\<forall>e. d \<noteq> Inl e))" for d :: "'x decoded"
      using ends_well_prefix [of d r 0 "[t]"] that by auto
    show ?thesis
    proof (cases "token_scalar R t")
      case (Some x)
      then obtain v where "x = Inr v" using scalar_total by blast
      moreover have "\<exists>p. t # r = p @ r \<and> 1 \<le> length p" by (rule exI [of _ "[t]"]) simp
      ultimately show ?thesis using Some Cons by simp
    next
      case None
      have arr: "ends_well (andE (array_items (VmJsonDecode R n) (Suc (length r)) r (reserve_cell h)) (\<lambda>vs ts h'.
          array_cell (next_cell h) (map (Pair None) vs) ts h')) (t # r) 1"
        by (rule ends_well_andE [OF one [OF array_items_ends [OF Suc.IH len]]]) (auto simp: array_cell_ends)
      have obj: "ends_well (andE (object_items (VmJsonDecode R n) (Suc (length r)) r (reserve_cell h)) (\<lambda>kvs ts h'.
          array_cell (next_cell h) (map (\<lambda>(k, v). (Some (BlobKey k), v)) kvs) ts h')) (t # r) 1"
        by (rule ends_well_andE [OF one [OF object_items_ends [OF Suc.IH len]]]) (auto simp: array_cell_ends)
      show ?thesis unfolding Cons VmJsonDecode.simps None using arr obj
        by (cases "t = TkOsb"; cases "t = TkOcb") (simp_all del: array_items.simps object_items.simps)
    qed
  qed
qed simp

lemma blank_tokens: "s \<noteq> [] \<Longrightarrow> \<forall>c \<in> set s. SyisSpace c \<Longrightarrow> json_tokens s = ([], False)"
proof -
  assume s: "s \<noteq> []" "\<forall>c \<in> set s. SyisSpace c"
  have "c < 0xC0" if "SyisSpace c" for c
    using that by (auto simp: SyisSpace_def word_le_nat_alt word_less_nat_alt)
  then have d: "dropWhile (\<lambda>c. c < 0xC0 \<and> SyisSpace c) s = []" using s(2) by simp
  have "VmJsonTokenize s = LexEof" unfolding VmJsonTokenize_def d by simp
  then show ?thesis using s(1) by (subst json_tokens.simps) simp
qed

text \<open>A string that ends with a backslash is encoded so that its closing quote counts as escaped.\<close>

lemma backslash_not_closed: "lex_string p (encode_text (s @ [92]) @ [34]) = None"
proof (induction s arbitrary: p)
  case (Cons c s)
  then have "lex_string c (encode_text (s @ [92]) @ [34]) = None" .
  moreover have "lex_string 92 (c # encode_text (s @ [92]) @ [34]) = None" using calculation by simp
  ultimately show ?case by (auto simp: encode_text_def)
qed (simp add: encode_text_def)

lemma backslash_lost:
  "bindE (jx9JsonSerialize R h (VStr (s @ [92]))) (\<lambda>z. jx9JsonDecode R z h) = Inr (VNull, h)"
proof -
  let ?z = "34 # encode_text (s @ [92]) @ [34]"
  have "VmJsonTokenize ?z = LexOk TkInvalid [] True"
    using backslash_not_closed [of 34 s]
    by (simp add: VmJsonTokenize_def SyisSpace_def SyisAlpha_def SyisUpper_def SyisLower_def)
  then have "snd (json_tokens ?z)" by (subst json_tokens.simps) (simp split: prod.split)
  then obtain ts where "json_tokens ?z = (ts, True)" by (cases "json_tokens ?z") simp
  then show ?thesis by (simp add: jx9JsonSerialize_def jx9JsonDecode_def)
qed


section \<open>Properties of JSON in scripts\<close>

lemma text_not_empty: "tree_text t \<noteq> []"
  by (cases t rule: tree_text.cases) (auto simp: literals show_int_def bytes_of_def show_nat_digits)

text \<open>
  C28. What \<open>json_encode\<close> writes for a value, \<open>json_decode\<close> reads back: an equal value, with
  64-bit integers, strings and nested arrays and objects unchanged. The value is made of fresh
  cells only, since it reads the same when the cells the heap had before are taken away, and those
  keep their contents, the value that was encoded among them. It holds for values without doubles
  and resources, nested at most 32 deep, whose strings do not end with a backslash, whose objects
  are not empty and have keys that need no escape, and whose arrays are numbered from 0; the lemma
  \<open>backslash_lost\<close> shows what happens to the others.
\<close>

theorem json_encode_decode:
  assumes "read_tree h json_levels v = Inr t" and "tree_ok t" and "tree_depth t \<le> json_levels" and "store_ok h"
  shows "\<exists>s v' h'. vm_builtin_json_encode R [v] h = Inr (VStr s, h) \<and>
    vm_builtin_json_decode R [VStr s] h = Inr (v', h') \<and>
    read_tree (cells_from (next_cell h) h') json_levels v' = Inr t \<and> cells h \<subseteq>\<^sub>m cells h' \<and>
    read_tree h' json_levels v' = Inr t \<and> read_tree h' json_levels v = Inr t"
proof -
  have "jx9JsonSerialize R h v = Inr (tree_text t)"
    unfolding jx9JsonSerialize_def by (rule encode_tree [OF assms(1)])
  then have e: "vm_builtin_json_encode R [v] h = Inr (VStr (tree_text t), h)" by (simp add: vm_builtin_json_encode_def)
  obtain v' h' where d: "VmJsonDecode R json_levels (tree_toks t @ []) h = Inr (Some (v', [], h'))" "store_grows h h'"
      "read_tree (cells_from (next_cell h) h') json_levels v' = Inr t"
    using decodes_tree [OF assms(2,3), of R] assms(4) unfolding decodes_def by blast
  have old: "cells h \<subseteq>\<^sub>m cells h'" using d(2) by (simp add: store_grows_def)
  have "cells (cells_from (next_cell h) h') \<subseteq>\<^sub>m cells h'" by (auto simp: cells_from_def map_le_def restrict_map_def)
  then have "read_tree h' json_levels v' = Inr t" by (rule read_tree_grows [OF d(3)])
  moreover have "read_tree h' json_levels v = Inr t" by (rule read_tree_grows [OF assms(1) old])
  moreover have "vm_builtin_json_decode R [VStr (tree_text t)] h = Inr (v', h')"
    using tree_tokens [OF assms(2)] d(1) text_not_empty [of t]
    by (simp add: vm_builtin_json_decode_def jx9JsonDecode_def)
  ultimately show ?thesis using e d(3) old by blast
qed

definition demo_reals :: reals where
  "demo_reals = \<lparr>real_text = (\<lambda>_. [48]), text_real = (\<lambda>_. 0)\<rparr>"

definition demo_tree :: jtree where
  "demo_tree = TMap False [(IntKey 0, TInt (- 5)), (IntKey 1, TStr [34, 97, 92, 34])]"

lemma demo_tree_stored: "\<exists>h. store_ok h \<and> read_tree h json_levels (VMap 0) = Inr demo_tree"
proof -
  let ?kvs = "[(IntKey 0, TInt (- 5)), (IntKey 1, TStr [34, 97, 92, 34])]" and ?vs = "[VInt (- 5), VStr [34, 97, 92, 34]]"
  obtain m where m: "array_map ?vs m" using array_elems [OF array_new, of ?vs] by auto
  let ?e = "empty_store :: jx9_heap"
  let ?h = "fill_cell (next_cell ?e) m (reserve_cell ?e)"
  have "store_grows ?e ?h \<and> read_tree ?h (Suc 31) (VMap (next_cell ?e)) = Inr (TMap False ?kvs)"
    by (rule read_filled [where vs = ?vs and b = 0, simplified cells_from_0]) (use m in \<open>simp_all add: reads_all_def array_map_def upt_rec\<close>)
  moreover have "next_cell ?e = 0" "Suc 31 = json_levels" by (simp_all add: empty_store_def json_levels_def)
  moreover have "store_ok ?h" using calculation by (simp add: store_grows_def)
  ultimately show ?thesis unfolding demo_tree_def by metis
qed

lemma json_encode_decode_witness:
  "\<exists>h s v' h'. vm_builtin_json_encode demo_reals [VMap 0] h = Inr (VStr s, h) \<and>
    vm_builtin_json_decode demo_reals [VStr s] h = Inr (v', h') \<and> read_tree h' json_levels v' = Inr demo_tree"
proof -
  obtain h where h: "store_ok h" "read_tree h json_levels (VMap 0) = Inr demo_tree" using demo_tree_stored by blast
  have t: "tree_ok demo_tree" "tree_depth demo_tree \<le> json_levels"
    by (simp_all add: demo_tree_def json_levels_def upt_rec)
  from json_encode_decode [OF h(2) t h(1), of demo_reals] show ?thesis by blast
qed

text \<open>
  C29. \<open>json_decode\<close> always comes to an end, with a value or null, except that it reads past the
  end of the tokens where a value is missing: after a colon, or when there is no token at all.
  A text of spaces is enough for the latter.
\<close>

theorem json_decode_errors:
  "(\<forall>e. vm_builtin_json_decode R [VStr s] h = Inl e \<longrightarrow> e = UB \<and> value_missing (fst (json_tokens s))) \<and>
   (s \<noteq> [] \<and> (\<forall>c \<in> set s. SyisSpace c) \<longrightarrow> vm_builtin_json_decode R [VStr s] h = Inl UB)"
proof (intro conjI allI impI)
  fix e assume e: "vm_builtin_json_decode R [VStr s] h = Inl e"
  obtain ts err where ts: "json_tokens s = (ts, err)" by fastforce
  then have "VmJsonDecode R json_levels ts h = Inl e"
    using e by (auto simp: vm_builtin_json_decode_def jx9JsonDecode_def bindE_eq_Inl split: if_splits option.splits)
  then show "e = UB" "value_missing (fst (json_tokens s))" using Decode_ends [of R json_levels ts h] ts by simp_all
next
  assume "s \<noteq> [] \<and> (\<forall>c \<in> set s. SyisSpace c)"
  then show "vm_builtin_json_decode R [VStr s] h = Inl UB"
    using blank_tokens [of s] by (simp add: vm_builtin_json_decode_def jx9JsonDecode_def json_levels_def numeral_eq_Suc)
qed

lemma json_decode_errors_witness: "vm_builtin_json_decode demo_reals [VStr [32]] empty_store = Inl UB"
  using json_decode_errors [of demo_reals "[32]" empty_store] by (simp add: SyisSpace_def)

text \<open>An object cut off behind a colon.\<close>

lemma json_decode_overrun: "vm_builtin_json_decode R [VStr [123, 34, 97, 34, 58]] h = Inl UB"
proof -
  have "json_tokens [123, 34, 97, 34, 58] = then_tokens [TkOcb] [34, 97, 34, 58]"
    by (rule punct_tokens [OF puncts(3)])
  also have "\<dots> = then_tokens ([TkOcb] @ [TkStr [97]]) [58]"
    by (rule then_tokens_trans) (use quoted_tokens [of "[97]" "[58]"] in simp)
  also have "\<dots> = then_tokens (([TkOcb] @ [TkStr [97]]) @ [TkColon]) []"
    by (rule then_tokens_trans [OF punct_tokens [OF puncts(5)]])
  finally have "json_tokens [123, 34, 97, 34, 58] = ([TkOcb, TkStr [97], TkColon], False)"
    by (simp add: then_tokens_def json_tokens.simps)
  then show ?thesis
    by (simp add: vm_builtin_json_decode_def jx9JsonDecode_def json_levels_def numeral_eq_Suc token_scalar_def
        andE_def skip_commas_def token_key_def)
qed

end

