(* ===== verification/Jx9Compare.thy ===== *)
theory Jx9Compare
  imports Jx9Json "HOL-Library.Multiset"
begin

text \<open>
  Conversions and comparison of the values of JX9 (\<open>memobj.c\<close> within \<open>src/jx9/jx9/jx9.c\<close>) and the
  search for a value in a hashmap. Printing and scanning of doubles are the parameter \<open>reals\<close>
  of \<open>Jx9Json\<close>. Integers compare as integers, strings as their bytes in lexicographic order,
  doubles as the numbers they are; a strict search finds exactly the values that are there.
\<close>

section \<open>Conversions\<close>

definition MEMOBJ_flags :: "jval \<Rightarrow> nat" where
  "MEMOBJ_flags v =
     (case v of VStr s \<Rightarrow> 0x001 | VInt i \<Rightarrow> 0x002 | VReal d \<Rightarrow> 0x004 | VBool b \<Rightarrow> 0x008
      | VNull \<Rightarrow> 0x020 | VMap a \<Rightarrow> 0x040 | VRes p \<Rightarrow> 0x100)"

definition count_entries :: "jx9_heap \<Rightarrow> nat \<Rightarrow> exn + nat" where
  "count_entries h a = (case cells h a of None \<Rightarrow> Inl UB | Some m \<Rightarrow> Inr (nEntry m))"

definition same_word :: "byte list \<Rightarrow> string \<Rightarrow> bool" where
  "same_word s w \<longleftrightarrow> length s = length w \<and> SyStrnicmp (Some s) (Some (bytes_of w)) (length w) = 0"

definition string_truth :: "byte list \<Rightarrow> bool" where
  "string_truth s =
     (if s = [] then False
      else if same_word s ''true'' \<or> same_word s ''on'' \<or> same_word s ''yes'' then True
      else if same_word s ''false'' then False
      else dropWhile (\<lambda>c. c = 48) s \<noteq> [])"

definition MemObjBooleanValue :: "jx9_heap \<Rightarrow> jval \<Rightarrow> exn + bool" where
  "MemObjBooleanValue h v =
     (case v of
        VReal d \<Rightarrow> Inr (unat d mod 2 ^ 63 \<noteq> 0)
      | VInt i \<Rightarrow> Inr (i \<noteq> 0)
      | VStr s \<Rightarrow> Inr (string_truth s)
      | VNull \<Rightarrow> Inr False
      | VMap a \<Rightarrow> bindE (count_entries h a) (\<lambda>n. Inr (0 < n))
      | VRes p \<Rightarrow> Inr (p \<noteq> 0)
      | VBool b \<Rightarrow> Inr b)"

definition MemObjIntValue :: "jx9_heap \<Rightarrow> jval \<Rightarrow> exn + u64" where
  "MemObjIntValue h v =
     (case v of
        VReal d \<Rightarrow> Inr (MemObjRealToInt d)
      | VInt i \<Rightarrow> Inr i
      | VBool b \<Rightarrow> Inr (of_bool b)
      | VStr s \<Rightarrow> jx9TokenValueToInt64 s
      | VNull \<Rightarrow> Inr 0
      | VMap a \<Rightarrow> bindE (count_entries h a) (\<lambda>n. Inr (word_of_nat n))
      | VRes p \<Rightarrow> Inr (of_bool (p \<noteq> 0)))"

definition MemObjRealValue :: "reals \<Rightarrow> jx9_heap \<Rightarrow> jval \<Rightarrow> exn + dbl" where
  "MemObjRealValue R h v =
     (case v of
        VReal d \<Rightarrow> Inr d
      | VInt i \<Rightarrow> Inr (double_of_int (sint i))
      | VBool b \<Rightarrow> Inr (double_of_int (of_bool b))
      | VStr s \<Rightarrow> Inr (if s \<noteq> [] then text_real R s else 0)
      | VNull \<Rightarrow> Inr 0
      | VMap a \<Rightarrow> bindE (count_entries h a) (\<lambda>n. Inr (double_of_int (int n)))
      | VRes p \<Rightarrow> Inr (double_of_int (of_bool (p \<noteq> 0))))"

text \<open>Hexadecimal digits, and what \<open>%#x\<close> makes of the lower half of an address.\<close>

fun hex_digits :: "nat \<Rightarrow> byte list" where
  "hex_digits n = (if n < 16 then [] else hex_digits (n div 16)) @ [bytes_of ''0123456789abcdef'' ! (n mod 16)]"

declare hex_digits.simps [simp del]

definition alternate_hex :: "u64 \<Rightarrow> byte list" where
  "alternate_hex p = (let n = unat (ucast p :: u32) in (if n = 0 then [] else bytes_of ''0x'') @ hex_digits n)"

definition MemObjStringValue :: "reals \<Rightarrow> jx9_heap \<Rightarrow> jval \<Rightarrow> exn + byte list" where
  "MemObjStringValue R h v =
     (case v of
        VReal d \<Rightarrow> Inr (real_text R d)
      | VInt i \<Rightarrow> Inr (bytes_of (show_int (sint i)))
      | VBool b \<Rightarrow> Inr (bytes_of (if b then ''true'' else ''false''))
      | VMap a \<Rightarrow> jx9JsonSerialize R h (VMap a)
      | VRes p \<Rightarrow> Inr (bytes_of ''ResourceID_'' @ alternate_hex p)
      | VNull \<Rightarrow> Inr []
      | VStr s \<Rightarrow> Inr s)"

definition jx9MemObjToNumeric :: "reals \<Rightarrow> jx9_heap \<Rightarrow> jval \<Rightarrow> exn + jval" where
  "jx9MemObjToNumeric R h v =
     (case v of
        VInt i \<Rightarrow> Inr (VInt i)
      | VReal d \<Rightarrow> Inr (VReal d)
      | VBool b \<Rightarrow> Inr (VInt (of_bool b))
      | VNull \<Rightarrow> Inr (VInt 0)
      | VStr s \<Rightarrow> MemObjToNumeric R s
      | VMap a \<Rightarrow> bindE (MemObjIntValue h v) (\<lambda>i. Inr (VInt i))
      | VRes p \<Rightarrow> bindE (MemObjIntValue h v) (\<lambda>i. Inr (VInt i)))"

definition jx9_value_as_int :: "jx9_heap \<Rightarrow> jval \<Rightarrow> exn + u32" where
  "jx9_value_as_int h v = bindE (MemObjIntValue h v) (\<lambda>i. Inr (jx9_value_to_int i))"

section \<open>Comparison\<close>

text \<open>Doubles as the integers that are ordered as they are; nothing is less than a NaN or greater.\<close>

definition dbl_key :: "dbl \<Rightarrow> int" where
  "dbl_key d = (let n = int (unat d mod 2 ^ 63) in if unat d < 2 ^ 63 then n else - n)"

definition dbl_nan :: "dbl \<Rightarrow> bool" where
  "dbl_nan d \<longleftrightarrow> 2047 * 2 ^ 52 < unat d mod 2 ^ 63"

definition dbl_less :: "dbl \<Rightarrow> dbl \<Rightarrow> bool" where
  "dbl_less a b \<longleftrightarrow> \<not> dbl_nan a \<and> \<not> dbl_nan b \<and> dbl_key a < dbl_key b"

definition bool_cmp :: "bool \<Rightarrow> bool \<Rightarrow> int" where
  "bool_cmp a b = of_bool a - of_bool b"

definition real_cmp :: "dbl \<Rightarrow> dbl \<Rightarrow> int" where
  "real_cmp r1 r2 = (if dbl_less r2 r1 then 1 else if dbl_less r1 r2 then - 1 else 0)"

definition int_cmp :: "u64 \<Rightarrow> u64 \<Rightarrow> int" where
  "int_cmp i j = (if sint i > sint j then 1 else if sint i < sint j then - 1 else 0)"

definition string_cmp :: "byte list \<Rightarrow> byte list \<Rightarrow> exn + int" where
  "string_cmp s t =
     bindE (SyMemcmp (Some s) (Some t) (min (length s) (length t))) (\<lambda>rc.
       Inr (if rc = 0 \<and> length s \<noteq> length t then if length s < length t then - 1 else 1 else rc))"

text \<open>The entries of the left map are looked up in the right one.\<close>

fun cmp_entries :: "(jval \<Rightarrow> jval \<Rightarrow> exn + int) \<Rightarrow> jval hashmap \<Rightarrow> (hkey \<times> jval) list \<Rightarrow> exn + int" where
  "cmp_entries f r [] = Inr 0"
| "cmp_entries f r ((k, v) # kvs) =
     (case lookup_key r k of
        None \<Rightarrow> Inr 1
      | Some a \<Rightarrow>
          (case nodes r a of
             None \<Rightarrow> Inl UB
           | Some nd \<Rightarrow> bindE (f v (nVal nd)) (\<lambda>rc. if rc \<noteq> 0 then Inr rc else cmp_entries f r kvs)))"

definition jx9HashmapCmp :: "(jval \<Rightarrow> jval \<Rightarrow> exn + int) \<Rightarrow> jx9_heap \<Rightarrow> nat \<Rightarrow> nat \<Rightarrow> exn + int" where
  "jx9HashmapCmp f h a b =
     (if a = b then Inr 0
      else
        (case (cells h a, cells h b) of
           (Some l, Some r) \<Rightarrow>
             if nEntry l \<noteq> nEntry r then Inr (if nEntry l > nEntry r then 1 else - 1)
             else cmp_entries f r (entries l)
         | _ \<Rightarrow> Inl UB))"

definition to_bool_first :: "jval \<Rightarrow> bool" where
  "to_bool_first v = (case v of VNull \<Rightarrow> True | VRes p \<Rightarrow> True | VBool b \<Rightarrow> True | _ \<Rightarrow> False)"

definition is_map :: "jval \<Rightarrow> bool" where
  "is_map v = (case v of VMap a \<Rightarrow> True | _ \<Rightarrow> False)"

definition is_text :: "jval \<Rightarrow> bool" where
  "is_text v = (case v of VStr s \<Rightarrow> True | _ \<Rightarrow> False)"

definition compare_values :: "(jval \<Rightarrow> jval \<Rightarrow> exn + int) \<Rightarrow> reals \<Rightarrow> jx9_heap \<Rightarrow> bool \<Rightarrow> jval \<Rightarrow> jval \<Rightarrow> exn + int" where
  "compare_values f R h bStrict v w =
     (if bStrict \<and> MEMOBJ_flags v \<noteq> MEMOBJ_flags w then Inr 1
      else if to_bool_first v \<or> to_bool_first w then
        bindE (MemObjBooleanValue h v) (\<lambda>a. bindE (MemObjBooleanValue h w) (\<lambda>b. Inr (bool_cmp a b)))
      else if is_map v \<or> is_map w then
        (case (v, w) of
           (VMap a, VMap b) \<Rightarrow> jx9HashmapCmp f h a b
         | (VMap a, _) \<Rightarrow> Inr 1
         | _ \<Rightarrow> Inr (- 1))
      else if is_text v \<or> is_text w then
        bindE (MemObjStringValue R h v) (\<lambda>s. bindE (MemObjStringValue R h w) (\<lambda>t. string_cmp s t))
      else
        (case (v, w) of
           (VInt i, VInt j) \<Rightarrow> Inr (int_cmp i j)
         | _ \<Rightarrow> bindE (MemObjRealValue R h v) (\<lambda>r1. bindE (MemObjRealValue R h w) (\<lambda>r2. Inr (real_cmp r1 r2)))))"

text \<open>\<open>n\<close> nested arrays fit on the stack of the process.\<close>

fun jx9MemObjCmp :: "reals \<Rightarrow> jx9_heap \<Rightarrow> nat \<Rightarrow> bool \<Rightarrow> jval \<Rightarrow> jval \<Rightarrow> exn + int" where
  "jx9MemObjCmp R h 0 bStrict v w = compare_values (\<lambda>_ _. Inl Abort) R h bStrict v w"
| "jx9MemObjCmp R h (Suc n) bStrict v w = compare_values (jx9MemObjCmp R h n bStrict) R h bStrict v w"

fun find_value :: "(jval \<Rightarrow> jval \<Rightarrow> exn + int) \<Rightarrow> jval \<Rightarrow> jval list \<Rightarrow> exn + bool" where
  "find_value f pNeedle [] = Inr False"
| "find_value f pNeedle (v # vs) =
     (if v = VNull \<or> pNeedle = VNull
      then if v = pNeedle then Inr True else find_value f pNeedle vs
      else bindE (f pNeedle v) (\<lambda>rc. if rc = 0 then Inr True else find_value f pNeedle vs))"

definition values_of :: "'v hashmap \<Rightarrow> 'v list" where
  "values_of m = map snd (entries m)"

definition HashmapFindValue :: "reals \<Rightarrow> jx9_heap \<Rightarrow> nat \<Rightarrow> bool \<Rightarrow> jval \<Rightarrow> jval hashmap \<Rightarrow> exn + bool" where
  "HashmapFindValue R h n bStrict pNeedle m = find_value (jx9MemObjCmp R h n bStrict) pNeedle (values_of m)"

section \<open>What the comparisons decide\<close>

definition text_le :: "byte list \<Rightarrow> byte list \<Rightarrow> bool" where
  "text_le s t \<longleftrightarrow> s = t \<or> (s, t) \<in> lexord {(a, b). a < b}"

lemma text_le_simps [simp]:
  "text_le [] t" "\<not> text_le (a # s) []" "text_le (a # s) (b # t) \<longleftrightarrow> a < b \<or> a = b \<and> text_le s t"
  by (cases t) (auto simp: text_le_def)

lemma text_le_refl [simp]: "text_le s s"
  by (simp add: text_le_def)

lemma text_le_trans: "text_le s t \<Longrightarrow> text_le t u \<Longrightarrow> text_le s u"
proof -
  have "trans {(a, b). a < (b :: byte)}" by (auto intro: transI)
  then show "text_le s t \<Longrightarrow> text_le t u \<Longrightarrow> text_le s u"
    unfolding text_le_def using lexord_trans [of s t "{(a, b). a < b}" u] by blast
qed

lemma text_le_total: "text_le s t \<or> text_le t s"
proof (induction s arbitrary: t)
  case (Cons a s)
  then show ?case by (cases t) auto
qed simp

lemma text_le_antisym: "text_le s t \<Longrightarrow> text_le t s \<Longrightarrow> s = t"
proof (induction s arbitrary: t)
  case Nil
  then show ?case by (cases t) auto
next
  case (Cons a s)
  then show ?case by (cases t) auto
qed

text \<open>\<open>memcmp\<close> on the common length, then the shorter text first.\<close>

lemma string_cmp_order: "\<exists>c. string_cmp s t = Inr c \<and> (c \<le> 0 \<longleftrightarrow> text_le s t) \<and> (0 \<le> c \<longleftrightarrow> text_le t s)"
proof -
  have "\<exists>c. fast_cmp s t (min (length s) (length t)) = Inr c \<and>
      (let c' = (if c = 0 \<and> length s \<noteq> length t then if length s < length t then - 1 else 1 else c) in
       (c' \<le> 0 \<longleftrightarrow> text_le s t) \<and> (0 \<le> c' \<longleftrightarrow> text_le t s))"
  proof (induction s arbitrary: t)
    case Nil
    then show ?case by (cases t) simp_all
  next
    case (Cons a s)
    show ?case
    proof (cases t)
      case (Cons b u)
      consider "a < b" | "b < a" | "a = b" by (meson linorder_less_linear)
      then show ?thesis
      proof cases
        case 3
        obtain c where "fast_cmp s u (min (length s) (length u)) = Inr c"
          "let c' = (if c = 0 \<and> length s \<noteq> length u then if length s < length u then - 1 else 1 else c) in
             (c' \<le> 0 \<longleftrightarrow> text_le s u) \<and> (0 \<le> c' \<longleftrightarrow> text_le u s)"
          using Cons.IH [of u] by blast
        then show ?thesis using 3 Cons by (intro exI [of _ c]) (auto simp: Let_def split: if_splits)
      qed (auto simp: Cons word_less_def word_uint_eq_iff)
    qed simp
  qed
  moreover have "SyMemcmp (Some s) (Some t) n = fast_cmp s t n" for n by (cases n) (simp_all add: SyMemcmp_def)
  ultimately show ?thesis unfolding string_cmp_def Let_def by (auto split: if_splits)
qed

text \<open>The values that sort among themselves, and their order.\<close>

definition ints :: "jval set" where
  "ints = range VInt"

definition strings :: "jval set" where
  "strings = range VStr"

definition numbers :: "jval set" where
  "numbers = VReal ` {d. \<not> dbl_nan d}"

fun value_le :: "jval \<Rightarrow> jval \<Rightarrow> bool" where
  "value_le (VInt i) (VInt j) = (sint i \<le> sint j)"
| "value_le (VStr s) (VStr t) = text_le s t"
| "value_le (VReal a) (VReal b) = (dbl_key a \<le> dbl_key b)"
| "value_le _ _ = False"

definition cmp_of :: "exn + int \<Rightarrow> int" where
  "cmp_of r = (case r of Inl e \<Rightarrow> 0 | Inr c \<Rightarrow> c)"

lemma MemObjCmp_unfold:
  "\<exists>f. jx9MemObjCmp R h n b v w = compare_values f R h b v w"
  by (cases n) auto

lemma scalar_cmp:
  "jx9MemObjCmp R h n b (VInt i) (VInt j) = Inr (int_cmp i j)"
  "jx9MemObjCmp R h n b (VReal x) (VReal y) = Inr (real_cmp x y)"
  "jx9MemObjCmp R h n b (VStr s) (VStr t) = string_cmp s t"
  by (cases n; simp add: compare_values_def to_bool_first_def is_map_def is_text_def MEMOBJ_flags_def
      MemObjRealValue_def MemObjStringValue_def)+

lemma scalar_cmp_order:
  assumes "K \<in> {ints, strings, numbers}" and "v \<in> K" and "w \<in> K"
  shows "\<exists>c. jx9MemObjCmp R h n b v w = Inr c \<and> (c \<le> 0 \<longleftrightarrow> value_le v w) \<and> (0 \<le> c \<longleftrightarrow> value_le w v)"
proof -
  consider i j where "v = VInt i" "w = VInt j" | s t where "v = VStr s" "w = VStr t"
    | x y where "v = VReal x" "w = VReal y" "\<not> dbl_nan x" "\<not> dbl_nan y"
    using assms by (auto simp: ints_def strings_def numbers_def)
  then show ?thesis
  proof cases
    case 1
    then show ?thesis by (simp add: scalar_cmp int_cmp_def)
  next
    case 2
    then show ?thesis using string_cmp_order [of s t] by (simp add: scalar_cmp)
  next
    case 3
    then show ?thesis by (auto simp: scalar_cmp real_cmp_def dbl_less_def)
  qed
qed

lemma value_le_order:
  assumes "K \<in> {ints, strings, numbers}" and "x \<in> K" and "y \<in> K" and "z \<in> K"
  shows "value_le x x" and "value_le x y \<Longrightarrow> value_le y z \<Longrightarrow> value_le x z"
proof -
  have "value_le x x \<and> (value_le x y \<longrightarrow> value_le y z \<longrightarrow> value_le x z)"
    using assms text_le_trans
    by (auto simp: ints_def strings_def numbers_def)
  then show "value_le x x" and "value_le x y \<Longrightarrow> value_le y z \<Longrightarrow> value_le x z" by blast+
qed

text \<open>Two values of one of these kinds compare as equal exactly when they are, but for zeros.\<close>

lemma scalar_cmp_eq:
  "jx9MemObjCmp R h n b (VInt i) (VInt j) = Inr 0 \<longleftrightarrow> i = j"
  "jx9MemObjCmp R h n b (VStr s) (VStr t) = Inr 0 \<longleftrightarrow> s = t"
proof -
  show "jx9MemObjCmp R h n b (VInt i) (VInt j) = Inr 0 \<longleftrightarrow> i = j"
  proof -
    have "sint i = sint j \<longleftrightarrow> i = j" by (rule word_eq_iff_signed [symmetric])
    then show ?thesis by (auto simp: scalar_cmp int_cmp_def)
  qed
  obtain c where c: "string_cmp s t = Inr c" "c \<le> 0 \<longleftrightarrow> text_le s t" "0 \<le> c \<longleftrightarrow> text_le t s"
    using string_cmp_order by blast
  then show "jx9MemObjCmp R h n b (VStr s) (VStr t) = Inr 0 \<longleftrightarrow> s = t"
    using c text_le_antisym [of s t] text_le_refl by (auto simp: scalar_cmp)
qed

text \<open>A strict search among nulls, booleans, integers and strings finds exactly what is there.\<close>

definition plain :: "jval \<Rightarrow> bool" where
  "plain v = (case v of VNull \<Rightarrow> True | VBool b \<Rightarrow> True | VInt i \<Rightarrow> True | VStr s \<Rightarrow> True | _ \<Rightarrow> False)"

lemma strict_plain_cmp:
  "plain v \<Longrightarrow> plain w \<Longrightarrow> v \<noteq> VNull \<Longrightarrow> w \<noteq> VNull \<Longrightarrow>
    \<exists>c. jx9MemObjCmp R h n True v w = Inr c \<and> (c = 0 \<longleftrightarrow> v = w)"
proof -
  assume p: "plain v" "plain w" "v \<noteq> VNull" "w \<noteq> VNull"
  show ?thesis
  proof (cases "MEMOBJ_flags v = MEMOBJ_flags w")
    case True
    consider i j where "v = VInt i" "w = VInt j" | s t where "v = VStr s" "w = VStr t" | x y where "v = VBool x" "w = VBool y"
      using p True by (auto simp: plain_def MEMOBJ_flags_def split: jval.splits)
    then show ?thesis
    proof cases
      case 1
      then show ?thesis using scalar_cmp_eq(1) [of R h n True i j] by (auto simp: scalar_cmp)
    next
      case 2
      then show ?thesis
        using scalar_cmp_eq(2) [of R h n True s t] string_cmp_order [of s t] by (auto simp: scalar_cmp)
    next
      case 3
      then show ?thesis
        by (cases n) (auto simp: compare_values_def to_bool_first_def MemObjBooleanValue_def bool_cmp_def MEMOBJ_flags_def)
    qed
  next
    case False
    moreover obtain f where "jx9MemObjCmp R h n True v w = compare_values f R h True v w"
      using MemObjCmp_unfold by blast
    ultimately show ?thesis by (auto simp: compare_values_def)
  qed
qed

lemma find_plain:
  assumes "plain v" and "list_all plain vs"
  shows "find_value (jx9MemObjCmp R h n True) v vs = Inr (v \<in> set vs)"
  using assms(2)
proof (induction vs)
  case (Cons w vs)
  show ?case
  proof (cases "w = VNull \<or> v = VNull")
    case True
    then show ?thesis using Cons by auto
  next
    case False
    then obtain c where "jx9MemObjCmp R h n True v w = Inr c" "c = 0 \<longleftrightarrow> v = w"
      using strict_plain_cmp [of v w R h n] assms(1) Cons.prems by auto
    then show ?thesis using Cons False by simp
  qed
qed simp

text \<open>
  Three entries of the table of loose comparisons above the code: 0 is not equal to a word or to
  the empty string, for the comparison is one of strings, and the string 0 is equal to null.
\<close>

lemma loose_comparisons:
  "jx9MemObjCmp R h n False (VInt 0) (VStr (bytes_of ''jx9'')) = Inr (- 58)"
  "jx9MemObjCmp R h n False (VInt 0) (VStr []) = Inr 1"
  "jx9MemObjCmp R h n False (VStr (bytes_of ''0'')) VNull = Inr 0"
proof -
  have show_zero: "show_int 0 = ''0''" by code_simp
  have b: "bytes_of ''0'' = [48]" "bytes_of ''jx9'' = [106, 120, 57]" by (simp_all add: bytes_of_def byte_of_char_def)
  have t: "string_truth [48] = False" by (simp add: string_truth_def same_word_def)
  have e: "compare_values f R h False (VInt 0) (VStr (bytes_of ''jx9'')) = Inr (- 58)"
    "compare_values f R h False (VInt 0) (VStr []) = Inr 1"
    "compare_values f R h False (VStr (bytes_of ''0'')) VNull = Inr 0" for f
    by (simp_all add: compare_values_def to_bool_first_def is_map_def is_text_def MemObjStringValue_def show_zero b t
        string_cmp_def SyMemcmp_def MemObjBooleanValue_def bool_cmp_def)
  show "jx9MemObjCmp R h n False (VInt 0) (VStr (bytes_of ''jx9'')) = Inr (- 58)"
    "jx9MemObjCmp R h n False (VInt 0) (VStr []) = Inr 1"
    "jx9MemObjCmp R h n False (VStr (bytes_of ''0'')) VNull = Inr 0"
    by (cases n; simp only: jx9MemObjCmp.simps e)+
qed

end
