(* ===== verification/Jx9Sort.thy ===== *)
theory Jx9Sort
  imports Jx9Compare
begin

text \<open>
  Sorting of arrays in JX9 (\<open>hashmap.c\<close> within \<open>src/jx9/jx9/jx9.c\<close>): the merge sort of the list of
  nodes, the comparisons of \<open>sort\<close>, \<open>rsort\<close> and \<open>usort\<close>, and the renumbering of the keys
  afterwards. What sorting needs of a comparison is the locale \<open>total_comparison\<close>, interpreted
  on the comparison of the values of JX9 for integers, for strings and for doubles that are
  numbers. A comparison may fail, and a function of the script may be called for it; it leaves
  the array alone.
\<close>

section \<open>Merge sort of the list of nodes\<close>

type_synonym node_cmp = "nat \<Rightarrow> nat \<Rightarrow> exn + int"

fun HashmapNodeMerge :: "node_cmp \<Rightarrow> nat list \<Rightarrow> nat list \<Rightarrow> exn + nat list" where
  "HashmapNodeMerge xCmp [] bs = Inr bs"
| "HashmapNodeMerge xCmp (a # as) [] = Inr (a # as)"
| "HashmapNodeMerge xCmp (a # as) (b # bs) =
     bindE (xCmp a b) (\<lambda>rc.
       if rc < 0 then bindE (HashmapNodeMerge xCmp as (b # bs)) (\<lambda>l. Inr (a # l))
       else bindE (HashmapNodeMerge xCmp (a # as) bs) (\<lambda>l. Inr (b # l)))"

definition N_SORT_BUCKET :: nat where
  "N_SORT_BUCKET = 32"

text \<open>
  A run is merged into the buckets from the first one on until one is empty, which it takes;
  the last bucket takes every run that comes to it.
\<close>

fun put_run :: "node_cmp \<Rightarrow> nat list \<Rightarrow> nat list list \<Rightarrow> exn + nat list list" where
  "put_run xCmp p [] = Inr []"
| "put_run xCmp p [b] = bindE (HashmapNodeMerge xCmp b p) (\<lambda>l. Inr [l])"
| "put_run xCmp p (b # c # bs) =
     (if b = [] then Inr (p # c # bs)
      else bindE (HashmapNodeMerge xCmp b p) (\<lambda>l. bindE (put_run xCmp l (c # bs)) (\<lambda>bs. Inr ([] # bs))))"

fun put_runs :: "node_cmp \<Rightarrow> nat list \<Rightarrow> nat list list \<Rightarrow> exn + nat list list" where
  "put_runs xCmp [] bs = Inr bs"
| "put_runs xCmp (a # as) bs = bindE (put_run xCmp [a] bs) (\<lambda>bs. put_runs xCmp as bs)"

fun merge_buckets :: "node_cmp \<Rightarrow> nat list \<Rightarrow> nat list list \<Rightarrow> exn + nat list" where
  "merge_buckets xCmp p [] = Inr p"
| "merge_buckets xCmp p (b # bs) = bindE (HashmapNodeMerge xCmp p b) (\<lambda>p. merge_buckets xCmp p bs)"

definition HashmapMergeSort :: "node_cmp \<Rightarrow> 'v hashmap \<Rightarrow> exn + 'v hashmap" where
  "HashmapMergeSort xCmp m =
     bindE (put_runs xCmp (linked m) (replicate N_SORT_BUCKET [])) (\<lambda>bs.
     bindE (merge_buckets xCmp (hd bs) (tl bs)) (\<lambda>l.
     case l of [] \<Rightarrow> Inl UB | a # _ \<Rightarrow> Inr (m\<lparr>linked := l, pCur := Some a\<rparr>)))"

section \<open>New keys\<close>

definition HashmapRehashIntNode :: "nat \<Rightarrow> 'v hashmap \<Rightarrow> 'v hashmap" where
  "HashmapRehashIntNode a m =
     (case nodes m a of
        None \<Rightarrow> m
      | Some nd \<Rightarrow>
          (let b = bucket_of (nHash nd) (nSize m);
               bs = (apBucket m)[b := remove1 a (apBucket m ! b)];
               h = IntHash (iNextIdx m)
           in m\<lparr>nodes := (nodes m)(a \<mapsto> nd\<lparr>xKey := IntKey (iNextIdx m), nHash := h\<rparr>),
                apBucket := push_bucket a (bucket_of h (nSize m)) bs, iNextIdx := iNextIdx m + 1\<rparr>))"

definition int_at :: "'v hashmap \<Rightarrow> nat \<Rightarrow> bool" where
  "int_at m a = (case nodes m a of None \<Rightarrow> False | Some nd \<Rightarrow> (case xKey nd of IntKey i \<Rightarrow> True | BlobKey s \<Rightarrow> False))"

text \<open>Sorting renumbers every node, removing the first one only those with an integer key.\<close>

fun rehash_nodes :: "bool \<Rightarrow> nat list \<Rightarrow> 'v hashmap \<Rightarrow> 'v hashmap" where
  "rehash_nodes every [] m = m"
| "rehash_nodes every (a # as) m = rehash_nodes every as (if every \<or> int_at m a then HashmapRehashIntNode a m else m)"

definition HashmapSortRehash :: "'v hashmap \<Rightarrow> 'v hashmap" where
  "HashmapSortRehash m = rehash_nodes True (linked m) (m\<lparr>iNextIdx := 0\<rparr>)"

definition sort_nodes :: "node_cmp \<Rightarrow> 'v hashmap \<Rightarrow> exn + 'v hashmap" where
  "sort_nodes xCmp m = bindE (HashmapMergeSort xCmp m) (\<lambda>m. Inr (HashmapSortRehash m))"

section \<open>The comparisons\<close>

definition with_values :: "('v \<Rightarrow> 'v \<Rightarrow> exn + int) \<Rightarrow> 'v hashmap \<Rightarrow> node_cmp" where
  "with_values f m a b = (case (nodes m a, nodes m b) of (Some x, Some y) \<Rightarrow> f (nVal x) (nVal y) | _ \<Rightarrow> Inl UB)"

definition HashmapNodeCmp :: "reals \<Rightarrow> jx9_heap \<Rightarrow> nat \<Rightarrow> jval hashmap \<Rightarrow> node_cmp" where
  "HashmapNodeCmp R h n m pLeft pRight =
     (if pLeft = pRight then Inr 0 else with_values (jx9MemObjCmp R h n False) m pLeft pRight)"

definition HashmapCmpCallback1 :: "reals \<Rightarrow> jx9_heap \<Rightarrow> nat \<Rightarrow> u32 \<Rightarrow> jval hashmap \<Rightarrow> node_cmp" where
  "HashmapCmpCallback1 R h n iFlags m pA pB =
     (if iFlags = 0 then HashmapNodeCmp R h n m pA pB
      else
        with_values (\<lambda>v w.
          if iFlags = 5
          then bindE (MemObjStringValue R h v) (\<lambda>s. bindE (MemObjStringValue R h w) (\<lambda>t.
                 jx9MemObjCmp R h n False (VStr s) (VStr t)))
          else bindE (jx9MemObjToNumeric R h v) (\<lambda>v. bindE (jx9MemObjToNumeric R h w) (\<lambda>w.
                 jx9MemObjCmp R h n False v w))) m pA pB)"

definition HashmapCmpCallback3 :: "reals \<Rightarrow> jx9_heap \<Rightarrow> nat \<Rightarrow> u32 \<Rightarrow> jval hashmap \<Rightarrow> node_cmp" where
  "HashmapCmpCallback3 R h n iFlags m pA pB = bindE (HashmapCmpCallback1 R h n iFlags m pA pB) (\<lambda>rc. Inr (- rc))"

text \<open>A function of the script yields its result, or nothing when the call fails.\<close>

type_synonym user_function = "jval \<Rightarrow> jval \<Rightarrow> exn + jval option"

definition HashmapCmpCallback4 :: "user_function \<Rightarrow> jx9_heap \<Rightarrow> jval hashmap \<Rightarrow> node_cmp" where
  "HashmapCmpCallback4 pCallback h =
     with_values (\<lambda>v w. bindE (pCallback v w) (\<lambda>r.
       case r of None \<Rightarrow> Inr (- 1) | Some x \<Rightarrow> bindE (jx9_value_as_int h x) (\<lambda>i. Inr (sint i))))"

section \<open>The functions of a script\<close>

definition sort_cell :: "exn + (jval hashmap \<Rightarrow> node_cmp) \<Rightarrow> jx9_heap \<Rightarrow> nat \<Rightarrow> exn + jval \<times> jx9_heap" where
  "sort_cell xCmp h a =
     (case cells h a of
        None \<Rightarrow> Inl UB
      | Some m \<Rightarrow>
          if nEntry m > 1
          then bindE xCmp (\<lambda>c. bindE (sort_nodes (c m) m) (\<lambda>m'. Inr (VBool True, fill_cell a m' h)))
          else Inr (VBool True, h))"

definition sort_flags :: "jx9_heap \<Rightarrow> jval list \<Rightarrow> exn + u32" where
  "sort_flags h opts =
     (case opts of [] \<Rightarrow> Inr 0 | v # _ \<Rightarrow> bindE (jx9_value_as_int h v) (\<lambda>i. Inr (if i = 3 then 0 else i)))"

definition jx9_hashmap_sort :: "reals \<Rightarrow> nat \<Rightarrow> jx9_heap \<Rightarrow> jval list \<Rightarrow> exn + jval \<times> jx9_heap" where
  "jx9_hashmap_sort R n h apArg =
     (case apArg of
        VMap a # opts \<Rightarrow> sort_cell (bindE (sort_flags h opts) (\<lambda>i. Inr (HashmapCmpCallback1 R h n i))) h a
      | _ \<Rightarrow> Inr (VBool False, h))"

definition jx9_hashmap_rsort :: "reals \<Rightarrow> nat \<Rightarrow> jx9_heap \<Rightarrow> jval list \<Rightarrow> exn + jval \<times> jx9_heap" where
  "jx9_hashmap_rsort R n h apArg =
     (case apArg of
        VMap a # opts \<Rightarrow> sort_cell (bindE (sort_flags h opts) (\<lambda>i. Inr (HashmapCmpCallback3 R h n i))) h a
      | _ \<Rightarrow> Inr (VBool False, h))"

text \<open>\<open>callable\<close> finds the function a value names.\<close>

definition jx9_hashmap_usort ::
  "reals \<Rightarrow> nat \<Rightarrow> (jval \<Rightarrow> user_function option) \<Rightarrow> jx9_heap \<Rightarrow> jval list \<Rightarrow> exn + jval \<times> jx9_heap"
where
  "jx9_hashmap_usort R n callable h apArg =
     (case apArg of
        VMap a # opts \<Rightarrow>
          sort_cell (Inr (case Option.bind (case opts of [] \<Rightarrow> None | v # _ \<Rightarrow> Some v) callable of
                            Some f \<Rightarrow> HashmapCmpCallback4 f h
                          | None \<Rightarrow> HashmapCmpCallback1 R h n 0)) h a
      | _ \<Rightarrow> Inr (VBool False, h))"

section \<open>Sorting by a total comparison\<close>

lemma set_of_sum: "mset l = mset xs + mset ys \<Longrightarrow> set l = set xs \<union> set ys"
  by (metis set_mset_mset set_mset_union)

locale total_comparison =
  fixes cmp :: "'a \<Rightarrow> 'a \<Rightarrow> int" and carrier :: "'a set"
  assumes same: "x \<in> carrier \<Longrightarrow> cmp x x = 0"
    and flip: "x \<in> carrier \<Longrightarrow> y \<in> carrier \<Longrightarrow> cmp x y \<le> 0 \<longleftrightarrow> 0 \<le> cmp y x"
    and chain: "x \<in> carrier \<Longrightarrow> y \<in> carrier \<Longrightarrow> z \<in> carrier \<Longrightarrow> cmp x y \<le> 0 \<Longrightarrow> cmp y z \<le> 0 \<Longrightarrow> cmp x z \<le> 0"
begin

lemma downwards: "total_comparison (\<lambda>x y. - cmp x y) carrier"
proof (rule total_comparison.intro)
  fix x y z assume c: "x \<in> carrier" "y \<in> carrier"
  show "- cmp x y \<le> 0 \<longleftrightarrow> 0 \<le> - cmp y x" using flip [OF c(2,1)] by simp
  show "- cmp x z \<le> 0" if "z \<in> carrier" "- cmp x y \<le> 0" "- cmp y z \<le> 0"
    using that chain [OF that(1) c(2,1)] flip [OF c(2,1)] flip [OF that(1) c(2)] flip [OF that(1) c(1)] by simp
qed (simp add: same)

lemma merge_sorts:
  assumes "\<forall>a \<in> set as \<union> set bs. \<forall>b \<in> set as \<union> set bs. c a b = Inr (cmp (f a) (f b))"
    and "f ` (set as \<union> set bs) \<subseteq> carrier"
    and "sorted_wrt (\<lambda>a b. cmp (f a) (f b) \<le> 0) as" and "sorted_wrt (\<lambda>a b. cmp (f a) (f b) \<le> 0) bs"
  shows "\<exists>l. HashmapNodeMerge c as bs = Inr l \<and> mset l = mset as + mset bs \<and> sorted_wrt (\<lambda>a b. cmp (f a) (f b) \<le> 0) l"
  using assms
proof (induction c as bs rule: HashmapNodeMerge.induct)
  case (3 c a as b bs)
  have in_c: "f x \<in> carrier" if "x \<in> set (a # as) \<union> set (b # bs)" for x using 3(4) that by blast
  have at: "c a b = Inr (cmp (f a) (f b))" using 3(3) by simp
  show ?case
  proof (cases "cmp (f a) (f b) < 0")
    case True
    obtain l where l: "HashmapNodeMerge c as (b # bs) = Inr l" "mset l = mset as + mset (b # bs)"
      "sorted_wrt (\<lambda>a b. cmp (f a) (f b) \<le> 0) l"
      using 3(1) [OF at True] 3(3-) by (auto simp del: HashmapNodeMerge.simps)
    have "cmp (f a) (f x) \<le> 0" if "x \<in> set l" for x
      using that True 3(5,6) chain [of "f a" "f b" "f x"] in_c by (auto simp: set_of_sum [OF l(2)])
    then show ?thesis using l at True by simp
  next
    case False
    obtain l where l: "HashmapNodeMerge c (a # as) bs = Inr l" "mset l = mset (a # as) + mset bs"
      "sorted_wrt (\<lambda>a b. cmp (f a) (f b) \<le> 0) l"
      using 3(2) [OF at False] 3(3-) by (auto simp del: HashmapNodeMerge.simps)
    have ba: "cmp (f b) (f a) \<le> 0" using False flip [of "f b" "f a"] in_c by simp
    have "cmp (f b) (f x) \<le> 0" if "x \<in> set l" for x
      using that ba 3(5,6) chain [of "f b" "f a" "f x"] in_c by (auto simp: set_of_sum [OF l(2)])
    then show ?thesis using l at False by simp
  qed
qed simp_all

text \<open>The buckets hold sorted runs, and no node gets lost.\<close>

definition runs :: "('b \<Rightarrow> 'a) \<Rightarrow> 'b list list \<Rightarrow> bool" where
  "runs f bs \<longleftrightarrow> (\<forall>b \<in> set bs. sorted_wrt (\<lambda>a b. cmp (f a) (f b) \<le> 0) b)"

lemma runs_simps [simp]:
  "runs f []" "runs f (b # bs) \<longleftrightarrow> sorted_wrt (\<lambda>a b. cmp (f a) (f b) \<le> 0) b \<and> runs f bs"
  by (simp_all add: runs_def)

definition agrees :: "node_cmp \<Rightarrow> (nat \<Rightarrow> 'a) \<Rightarrow> nat set \<Rightarrow> bool" where
  "agrees c f U \<longleftrightarrow> (\<forall>a \<in> U. \<forall>b \<in> U. c a b = Inr (cmp (f a) (f b))) \<and> f ` U \<subseteq> carrier"

lemma merge_run:
  assumes "agrees c f U" and "set as \<subseteq> U" and "set bs \<subseteq> U" and "runs f [as, bs]"
  shows "\<exists>l. HashmapNodeMerge c as bs = Inr l \<and> mset l = mset as + mset bs \<and> runs f [l]"
proof -
  have "\<forall>a \<in> set as \<union> set bs. \<forall>b \<in> set as \<union> set bs. c a b = Inr (cmp (f a) (f b))"
    and "f ` (set as \<union> set bs) \<subseteq> carrier"
    using assms(1-3) unfolding agrees_def by blast+
  from merge_sorts [OF this] assms(4) show ?thesis by simp
qed

lemma put_run_sorts:
  assumes "agrees c f U" and "set p \<subseteq> U" and "set (concat bs) \<subseteq> U" and "runs f (p # bs)" and "bs \<noteq> []"
  shows "\<exists>bs'. put_run c p bs = Inr bs' \<and> length bs' = length bs \<and> mset (concat bs') = mset p + mset (concat bs) \<and> runs f bs'"
  using assms
proof (induction c p bs rule: put_run.induct)
  case (2 c p b)
  then show ?case using merge_run [of c f U b p] by auto
next
  case (3 c p b b' bs)
  show ?case
  proof (cases "b = []")
    case True
    then show ?thesis using 3(5) by simp
  next
    case False
    obtain l where l: "HashmapNodeMerge c b p = Inr l" "mset l = mset b + mset p" "runs f [l]"
      using merge_run [of c f U b p] 3(2-5) by auto
    then have "set l \<subseteq> U" using 3(3,4) set_of_sum [OF l(2)] by auto
    then obtain bs' where "put_run c l (b' # bs) = Inr bs'" "length bs' = length (b' # bs)"
      "mset (concat bs') = mset l + mset (concat (b' # bs))" "runs f bs'"
      using 3(1) [OF False l(1)] 3(2,4,5) l(3) by auto
    then show ?thesis using False l(1,2) by simp
  qed
qed simp

lemma put_runs_sorts:
  assumes "agrees c f U" and "set as \<subseteq> U" and "set (concat bs) \<subseteq> U" and "runs f bs" and "bs \<noteq> []"
  shows "\<exists>bs'. put_runs c as bs = Inr bs' \<and> length bs' = length bs \<and> mset (concat bs') = mset as + mset (concat bs) \<and> runs f bs'"
  using assms
proof (induction as arbitrary: bs)
  case (Cons a as)
  obtain b1 where b1: "put_run c [a] bs = Inr b1" "length b1 = length bs"
    "mset (concat b1) = mset [a] + mset (concat bs)" "runs f b1"
    using put_run_sorts [OF Cons.prems(1), of "[a]" bs] Cons.prems(2-) by auto
  have "set (concat b1) \<subseteq> U" using Cons.prems(2,3) set_of_sum [OF b1(3)] by simp
  moreover have "b1 \<noteq> []" using b1(2) Cons.prems(5) by auto
  ultimately obtain bs' where "put_runs c as b1 = Inr bs'" "length bs' = length b1"
    "mset (concat bs') = mset as + mset (concat b1)" "runs f bs'"
    using Cons.IH [OF Cons.prems(1), of b1] Cons.prems(2) b1(4) by auto
  then show ?case using b1 by simp
qed simp

lemma merge_buckets_sorts:
  assumes "agrees c f U" and "set p \<subseteq> U" and "set (concat bs) \<subseteq> U" and "runs f (p # bs)"
  shows "\<exists>l. merge_buckets c p bs = Inr l \<and> mset l = mset p + mset (concat bs) \<and> runs f [l]"
  using assms
proof (induction bs arbitrary: p)
  case (Cons b bs)
  obtain l where l: "HashmapNodeMerge c p b = Inr l" "mset l = mset p + mset b" "runs f [l]"
    using merge_run [of c f U p b] Cons.prems by auto
  then have "set l \<subseteq> U" using Cons.prems(2,3) set_of_sum [OF l(2)] by auto
  then obtain l' where "merge_buckets c l bs = Inr l'" "mset l' = mset l + mset (concat bs)" "runs f [l']"
    using Cons.IH [OF Cons.prems(1), of l] Cons.prems(3,4) l(3) by auto
  then show ?case using l(1,2) by simp
qed simp

lemma HashmapMergeSort_sorts:
  assumes "agrees c f (set (linked m))" and "linked m \<noteq> []"
  shows "\<exists>l. HashmapMergeSort c m = Inr (m\<lparr>linked := l, pCur := Some (hd l)\<rparr>) \<and> mset l = mset (linked m) \<and>
    sorted_wrt (\<lambda>a b. cmp (f a) (f b) \<le> 0) l"
proof -
  have e: "concat (replicate n []) = ([] :: nat list)" "runs f (replicate n [])" for n
    by (induction n) simp_all
  obtain bs where bs: "put_runs c (linked m) (replicate N_SORT_BUCKET []) = Inr bs" "length bs = N_SORT_BUCKET"
    "mset (concat bs) = mset (linked m)" "runs f bs"
    using put_runs_sorts [OF assms(1), of "linked m" "replicate N_SORT_BUCKET []"] e by (auto simp: N_SORT_BUCKET_def)
  obtain p bs' where p: "bs = p # bs'" using bs(2) by (cases bs) (auto simp: N_SORT_BUCKET_def)
  have "set (concat bs) = set (linked m)" using bs(3) by (rule mset_eq_setD)
  then obtain l where l: "merge_buckets c p bs' = Inr l" "mset l = mset (linked m)" "runs f [l]"
    using merge_buckets_sorts [OF assms(1), of p bs'] bs(3,4) by (auto simp: p)
  then have "l \<noteq> []" using assms(2) by auto
  then show ?thesis using bs(1) l by (intro exI [of _ l]) (cases l; simp add: HashmapMergeSort_def p)
qed

end

section \<open>Renumbering\<close>

text \<open>What rehashing does to the entries.\<close>

fun renumber :: "bool \<Rightarrow> u64 \<Rightarrow> (hkey \<times> 'v) list \<Rightarrow> (hkey \<times> 'v) list" where
  "renumber every i [] = []"
| "renumber every i ((k, v) # kvs) =
     (if every \<or> (case k of IntKey j \<Rightarrow> True | BlobKey s \<Rightarrow> False)
      then (IntKey i, v) # renumber every (i + 1) kvs else (k, v) # renumber every i kvs)"

lemma rehash_node:
  assumes ok: "map_wf m" and a: "a \<in> set (linked m)" "nodes m a = Some nd"
  defines "m' \<equiv> HashmapRehashIntNode a m"
  shows "map_wf m'" and "linked m' = linked m" and "pCur m' = pCur m" and "json_object m' = json_object m"
    and "iNextIdx m' = iNextIdx m + 1"
    and "nodes m' = (nodes m)(a \<mapsto> nd\<lparr>xKey := IntKey (iNextIdx m), nHash := IntHash (iNextIdx m)\<rparr>)"
proof -
  let ?h = "IntHash (iNextIdx m)" and ?n = "nSize m"
  let ?b = "bucket_of (nHash nd) ?n" and ?c = "bucket_of ?h ?n"
  let ?bs = "(apBucket m)[?b := remove1 a (apBucket m ! ?b)]"
  have m': "nodes m' = (nodes m)(a \<mapsto> nd\<lparr>xKey := IntKey (iNextIdx m), nHash := ?h\<rparr>)"
    "apBucket m' = push_bucket a ?c ?bs" "linked m' = linked m" "next_node m' = next_node m" "pCur m' = pCur m"
    "json_object m' = json_object m" "iNextIdx m' = iNextIdx m + 1"
    using a by (simp_all add: m'_def HashmapRehashIntNode_def Let_def)
  then show "linked m' = linked m" "pCur m' = pCur m" "json_object m' = json_object m" "iNextIdx m' = iNextIdx m + 1"
    "nodes m' = (nodes m)(a \<mapsto> nd\<lparr>xKey := IntKey (iNextIdx m), nHash := IntHash (iNextIdx m)\<rparr>)" by simp_all
  have nok: "nodes_ok m" and lt: "?n < 2 ^ 32" and pos: "0 < ?n" using ok a(1) by (auto simp: map_wf_def)
  have nok': "nodes_ok m'" using nok by (auto simp: nodes_ok_def m' key_hash_def)
  have b: "?b < ?n" "?c < ?n" using bucket_less [OF pos lt] by blast+
  have len: "length ?bs = ?n" "nSize m' = ?n" by (simp_all add: m' nSize_def push_bucket_def)
  have "chains_ok m'"
    unfolding chains_ok_def
  proof (intro allI impI)
    fix x assume "x < nSize m'"
    then have x: "x < ?n" by (simp add: len)
    have old: "distinct (apBucket m ! x)" "set (apBucket m ! x) = {y \<in> set (linked m). in_bucket m y = x}"
      using ok x by (auto simp: map_wf_def chains_ok_def)
    have rest: "?bs ! y = (if y = ?b then remove1 a (apBucket m ! ?b) else apBucket m ! y)" if "y < ?n" for y
      using b(1) that by (simp add: nSize_def)
    have at: "apBucket m' ! x = (if x = ?c then a # ?bs ! ?c else ?bs ! x)"
      unfolding m'(2) using b(2) len(1) by (intro push_bucket_simps(2)) simp
    have inb: "in_bucket m' y = (if y = a then ?c else in_bucket m y)" for y
      by (simp add: in_bucket_def m' len split: option.split)
    have ina: "in_bucket m a = ?b" using a by (simp add: in_bucket_def)
    have gone: "distinct (?bs ! x) \<and> set (?bs ! x) = {y \<in> set (linked m). in_bucket m y = x} - {a}"
    proof (cases "x = ?b")
      case True
      then show ?thesis unfolding rest [OF x] using old by simp
    next
      case False
      then have "a \<notin> {y \<in> set (linked m). in_bucket m y = x}" using ina by simp
      then show ?thesis unfolding rest [OF x] using old False by simp
    qed
    show "distinct (apBucket m' ! x) \<and> set (apBucket m' ! x) = {y \<in> set (linked m'). in_bucket m' y = x}"
    proof (cases "x = ?c")
      case True
      then have "{y \<in> set (linked m). in_bucket m' y = x} = insert a ({y \<in> set (linked m). in_bucket m y = x} - {a})"
        using a(1) by (auto simp: inb)
      then show ?thesis unfolding at m'(3) using gone True by simp
    next
      case False
      then have "{y \<in> set (linked m). in_bucket m' y = x} = {y \<in> set (linked m). in_bucket m y = x} - {a}"
        by (auto simp: inb)
      then show ?thesis unfolding at m'(3) using gone False by simp
    qed
  qed
  then show "map_wf m'" using nok' pos lt by (simp add: map_wf_def len)
qed

definition entry_at :: "'v hashmap \<Rightarrow> nat \<Rightarrow> hkey \<times> 'v" where
  "entry_at m a = (xKey (the (nodes m a)), nVal (the (nodes m a)))"

lemma entries_at: "map_wf m \<Longrightarrow> entries m = map (entry_at m) (linked m)"
  unfolding entry_at_def by (rule entries_nodes_ok) (simp add: map_wf_def)

lemma node_at: "map_wf m \<Longrightarrow> a \<in> set (linked m) \<Longrightarrow> \<exists>nd. nodes m a = Some nd"
  by (auto simp: map_wf_def nodes_ok_def)

lemma rehash_nodes_ok:
  assumes "map_wf m" and "distinct as" and "set as \<subseteq> set (linked m)"
  shows "map_wf (rehash_nodes every as m) \<and> linked (rehash_nodes every as m) = linked m \<and>
    pCur (rehash_nodes every as m) = pCur m \<and> json_object (rehash_nodes every as m) = json_object m \<and>
    (\<forall>x. x \<notin> set as \<longrightarrow> nodes (rehash_nodes every as m) x = nodes m x) \<and>
    map (entry_at (rehash_nodes every as m)) as = renumber every (iNextIdx m) (map (entry_at m) as) \<and>
    iNextIdx (rehash_nodes every as m) = iNextIdx m + word_of_nat (length (filter (\<lambda>a. every \<or> int_at m a) as))"
  using assms
proof (induction as arbitrary: m)
  case (Cons a as)
  obtain nd where nd: "nodes m a = Some nd" using node_at [OF Cons.prems(1)] Cons.prems(3) by auto
  let ?t = "every \<or> int_at m a"
  let ?nd = "if ?t then nd\<lparr>xKey := IntKey (iNextIdx m), nHash := IntHash (iNextIdx m)\<rparr> else nd"
  define m1 where "m1 = (if ?t then HashmapRehashIntNode a m else m)"
  define m' where "m' = rehash_nodes every as m1"
  have a: "a \<in> set (linked m)" using Cons.prems(3) by simp
  have step: "map_wf m1" "linked m1 = linked m" "pCur m1 = pCur m" "json_object m1 = json_object m"
    "iNextIdx m1 = (if ?t then iNextIdx m + 1 else iNextIdx m)" "nodes m1 = (nodes m)(a \<mapsto> ?nd)"
    using rehash_node [OF Cons.prems(1) a nd] Cons.prems(1) nd by (simp_all add: m1_def fun_upd_idem)
  have "nodes m1 x = nodes m x" if "x \<in> set as" for x using Cons.prems(2) that by (auto simp: step(6))
  then have same: "map (entry_at m1) as = map (entry_at m) as"
    "filter (\<lambda>x. every \<or> int_at m1 x) as = filter (\<lambda>x. every \<or> int_at m x) as"
    by (auto simp: entry_at_def int_at_def intro!: map_cong filter_cong)
  have r: "rehash_nodes every (a # as) m = m'" by (simp add: m'_def m1_def)
  have IH: "map_wf m' \<and> linked m' = linked m1 \<and> pCur m' = pCur m1 \<and> json_object m' = json_object m1 \<and>
    (\<forall>x. x \<notin> set as \<longrightarrow> nodes m' x = nodes m1 x) \<and>
    map (entry_at m') as = renumber every (iNextIdx m1) (map (entry_at m1) as) \<and>
    iNextIdx m' = iNextIdx m1 + word_of_nat (length (filter (\<lambda>a. every \<or> int_at m1 a) as))"
    unfolding m'_def using Cons.prems step(2) by (intro Cons.IH [OF step(1)]) simp_all
  then have at: "nodes m' a = Some ?nd" using Cons.prems(2) step(6) by simp
  have t: "?t \<longleftrightarrow> every \<or> (case xKey nd of IntKey j \<Rightarrow> True | BlobKey s \<Rightarrow> False)" by (simp add: int_at_def nd)
  have "entry_at m' a # renumber every (iNextIdx m1) (map (entry_at m) as) =
      renumber every (iNextIdx m) (map (entry_at m) (a # as))"
    unfolding step(5) using t by (simp add: entry_at_def at nd)
  moreover have "iNextIdx m1 + word_of_nat (length (filter (\<lambda>x. every \<or> int_at m x) as)) =
      iNextIdx m + word_of_nat (length (filter (\<lambda>x. every \<or> int_at m x) (a # as)))"
    unfolding step(5) by simp
  ultimately show ?case unfolding r using IH unfolding step(2-4) same by (simp add: step(6))
qed simp

text \<open>An array: its entries are numbered from zero on, and the next index is its size.\<close>

fun indexed :: "u64 \<Rightarrow> 'v list \<Rightarrow> (hkey \<times> 'v) list" where
  "indexed i [] = []"
| "indexed i (v # vs) = (IntKey i, v) # indexed (i + 1) vs"

definition array_of :: "'v list \<Rightarrow> 'v hashmap \<Rightarrow> bool" where
  "array_of vs m \<longleftrightarrow> map_ok m \<and> entries m = indexed 0 vs \<and> iNextIdx m = word_of_nat (length vs)"

lemma renumber_every: "renumber True i kvs = indexed i (map snd kvs)"
  by (induction kvs arbitrary: i) auto

lemma indexed_facts [simp]: "map snd (indexed i vs) = vs" "length (indexed i vs) = length vs"
  by (induction vs arbitrary: i) auto

lemma indexed_append: "indexed i (vs @ ws) = indexed i vs @ indexed (i + word_of_nat (length vs)) ws"
  by (induction vs arbitrary: i) (simp_all add: algebra_simps)

lemma indexed_keys: "map fst (indexed i vs) = map (\<lambda>j. IntKey (i + word_of_nat j)) [0..<length vs]"
proof (induction vs rule: rev_induct)
  case (snoc v vs)
  then show ?case by (simp add: indexed_append)
qed simp

lemma indexed_distinct:
  assumes "length vs < 2 ^ 63"
  shows "distinct (map fst (indexed 0 vs))"
proof -
  have "inj_on (\<lambda>j. IntKey (0 + word_of_nat j :: u64)) {0..<length vs}"
  proof (rule inj_onI)
    fix j k assume a: "j \<in> {0..<length vs}" "k \<in> {0..<length vs}" and "IntKey (0 + word_of_nat j) = IntKey (0 + word_of_nat k)"
    then have "unat (word_of_nat j :: u64) = unat (word_of_nat k :: u64)" by simp
    then show "j = k" using a assms by (simp add: unat_word_of_nat)
  qed
  then show ?thesis by (simp add: indexed_keys distinct_map)
qed

lemma relink_ok:
  assumes "map_wf m" and "mset l = mset (linked m)"
  shows "map_wf (m\<lparr>linked := l, pCur := c, iNextIdx := i\<rparr>)"
proof -
  let ?m = "m\<lparr>linked := l, pCur := c, iNextIdx := i\<rparr>"
  have s: "set l = set (linked m)" "distinct l = distinct (linked m)" "l = [] \<longleftrightarrow> linked m = []"
    using mset_eq_setD [OF assms(2)] mset_eq_imp_distinct_iff [OF assms(2)] by auto
  have "in_bucket ?m x = in_bucket m x" for x by (simp add: in_bucket_def nSize_def cong: option.case_cong)
  then show ?thesis
    using assms(1) by (simp add: map_wf_def nodes_ok_def chains_ok_def nSize_def s)
qed

lemma values_at: "map_wf m \<Longrightarrow> values_of m = map (\<lambda>a. nVal (the (nodes m a))) (linked m)"
  by (simp add: values_of_def entries_at entry_at_def)

text \<open>Renumbering every node makes an array of the values.\<close>

lemma renumbered_array:
  assumes "map_wf m" and "length (linked m) < 2 ^ 63" and "entries m = indexed 0 vs" and "iNextIdx m = word_of_nat (length vs)"
  shows "array_of vs m"
proof -
  have "length (entries m) = length (linked m)" by (simp add: entries_at [OF assms(1)])
  then have "length vs < 2 ^ 63" using assms(2,3) by simp
  then show ?thesis using assms indexed_distinct [of vs] by (simp add: array_of_def map_ok_def node_keys_def)
qed

lemma HashmapSortRehash_array:
  assumes "map_wf m" and "length (linked m) < 2 ^ 63"
  shows "array_of (values_of m) (HashmapSortRehash m)" and "json_object (HashmapSortRehash m) = json_object m"
proof -
  let ?m = "m\<lparr>iNextIdx := 0\<rparr>"
  have wf: "map_wf ?m" using relink_ok [OF assms(1) refl, of 0 "pCur m"] by simp
  have "distinct (linked ?m)" using assms(1) by (simp add: map_wf_def nodes_ok_def)
  from rehash_nodes_ok [OF wf this subset_refl, of True]
  have r: "map_wf (HashmapSortRehash m)" "linked (HashmapSortRehash m) = linked m"
    "map (entry_at (HashmapSortRehash m)) (linked m) = renumber True 0 (map (entry_at ?m) (linked m))"
    "iNextIdx (HashmapSortRehash m) = word_of_nat (length (linked m))" "json_object (HashmapSortRehash m) = json_object m"
    by (simp_all add: HashmapSortRehash_def)
  have "map (entry_at ?m) (linked m) = entries m" using entries_at [OF assms(1)] by (simp add: entry_at_def)
  then have "entries (HashmapSortRehash m) = indexed 0 (values_of m)"
    using r(3) by (simp add: entries_at [OF r(1)] r(2) renumber_every values_of_def)
  moreover have "length (values_of m) = length (linked m)" by (simp add: values_at [OF assms(1)])
  ultimately show "array_of (values_of m) (HashmapSortRehash m)"
    using r(1,2,4) assms(2) by (intro renumbered_array) simp_all
  show "json_object (HashmapSortRehash m) = json_object m" by (rule r(5))
qed

context total_comparison
begin

lemma sort_nodes_sorts:
  assumes ok: "map_wf m" "linked m \<noteq> []" "length (linked m) < 2 ^ 63" and vals: "set (values_of m) \<subseteq> carrier"
    and c: "\<And>a b x y. a \<in> set (linked m) \<Longrightarrow> b \<in> set (linked m) \<Longrightarrow> nodes m a = Some x \<Longrightarrow> nodes m b = Some y \<Longrightarrow>
      c a b = Inr (cmp (nVal x) (nVal y))"
  shows "\<exists>m'. sort_nodes c m = Inr m' \<and> array_of (values_of m') m' \<and> mset (values_of m') = mset (values_of m) \<and>
    sorted_wrt (\<lambda>v w. cmp v w \<le> 0) (values_of m') \<and> json_object m' = json_object m"
proof -
  define f where "f = (\<lambda>a. nVal (the (nodes m a)))"
  have "agrees c f (set (linked m))"
    unfolding agrees_def
  proof (intro conjI ballI)
    show "f ` set (linked m) \<subseteq> carrier" using vals by (simp add: values_at [OF ok(1)] f_def)
    show "c a b = Inr (cmp (f a) (f b))" if "a \<in> set (linked m)" "b \<in> set (linked m)" for a b
      using c [OF that] node_at [OF ok(1) that(1)] node_at [OF ok(1) that(2)] by (auto simp: f_def)
  qed
  from HashmapMergeSort_sorts [OF this ok(2)] obtain l
    where l: "HashmapMergeSort c m = Inr (m\<lparr>linked := l, pCur := Some (hd l)\<rparr>)" "mset l = mset (linked m)"
      "sorted_wrt (\<lambda>a b. cmp (f a) (f b) \<le> 0) l" by blast
  define m1 where "m1 = m\<lparr>linked := l, pCur := Some (hd l)\<rparr>"
  have wf: "map_wf m1" using relink_ok [OF ok(1) l(2), of "iNextIdx m" "Some (hd l)"] by (simp add: m1_def)
  have v: "values_of m1 = map f l" unfolding values_at [OF wf] by (simp add: m1_def f_def)
  have len: "length (linked m1) < 2 ^ 63" using ok(3) mset_eq_length [OF l(2)] by (simp add: m1_def)
  have "mset (values_of m1) = mset (values_of m)"
    using l(2) unfolding v values_at [OF ok(1)] f_def [symmetric] by (simp only: mset_map)
  moreover have "sorted_wrt (\<lambda>v w. cmp v w \<le> 0) (values_of m1)" using l(3) by (simp add: v sorted_wrt_map)
  moreover have "sort_nodes c m = Inr (HashmapSortRehash m1)" by (simp add: sort_nodes_def l(1) m1_def)
  moreover have "array_of (values_of m1) (HashmapSortRehash m1)" "json_object (HashmapSortRehash m1) = json_object m"
    using HashmapSortRehash_array [OF wf len] by (simp_all add: m1_def)
  moreover have "values_of (HashmapSortRehash m1) = values_of m1"
    using calculation(4) by (simp add: array_of_def values_of_def)
  ultimately show ?thesis by simp
qed

end

lemma cmp_of_order:
  assumes "K \<in> {ints, strings, numbers}" and "v \<in> K" and "w \<in> K"
  shows "cmp_of (jx9MemObjCmp R h n False v w) \<le> 0 \<longleftrightarrow> value_le v w"
    and "0 \<le> cmp_of (jx9MemObjCmp R h n False v w) \<longleftrightarrow> value_le w v"
    and "\<exists>r. jx9MemObjCmp R h n False v w = Inr r"
  using scalar_cmp_order [OF assms, of R h n False] by (auto simp: cmp_of_def)

lemma kind_total:
  assumes "K \<in> {ints, strings, numbers}"
  shows "total_comparison (\<lambda>v w. cmp_of (jx9MemObjCmp R h n False v w)) K"
proof (rule total_comparison.intro)
  note c = cmp_of_order(1,2) [OF assms]
  fix x y z assume k: "x \<in> K" "y \<in> K"
  show "cmp_of (jx9MemObjCmp R h n False x y) \<le> 0 \<longleftrightarrow> 0 \<le> cmp_of (jx9MemObjCmp R h n False y x)"
    using k by (simp add: c)
  show "cmp_of (jx9MemObjCmp R h n False x z) \<le> 0" if "z \<in> K" "cmp_of (jx9MemObjCmp R h n False x y) \<le> 0"
    "cmp_of (jx9MemObjCmp R h n False y z) \<le> 0"
    using that k value_le_order(2) [OF assms k that(1)] by (simp add: c)
next
  fix x assume "x \<in> K"
  then show "cmp_of (jx9MemObjCmp R h n False x x) = 0"
    using scalar_cmp_order [OF assms, of x x R h n False] value_le_order(1) [OF assms, of x x x] by (auto simp: cmp_of_def)
qed

interpretation int_order: total_comparison "\<lambda>v w. cmp_of (jx9MemObjCmp R h n False v w)" ints for R h n
  by (rule kind_total) simp

interpretation string_order: total_comparison "\<lambda>v w. cmp_of (jx9MemObjCmp R h n False v w)" strings for R h n
  by (rule kind_total) simp

interpretation number_order: total_comparison "\<lambda>v w. cmp_of (jx9MemObjCmp R h n False v w)" numbers for R h n
  by (rule kind_total) simp

section \<open>Sorting arrays of scalars\<close>

definition sortable :: "jval list \<Rightarrow> bool" where
  "sortable vs \<longleftrightarrow> (\<exists>K \<in> {ints, strings, numbers}. set vs \<subseteq> K)"

definition sorts_to :: "(jval \<Rightarrow> jval \<Rightarrow> bool) \<Rightarrow> jval hashmap \<Rightarrow> jval hashmap \<Rightarrow> bool" where
  "sorts_to le m m' \<longleftrightarrow> array_of (values_of m') m' \<and> mset (values_of m') = mset (values_of m) \<and>
     sorted_wrt le (values_of m') \<and> json_object m' = json_object m"

lemma sorted_value_le:
  assumes "K \<in> {ints, strings, numbers}" and "set vs \<subseteq> K"
  shows "sorted_wrt (\<lambda>v w. cmp_of (jx9MemObjCmp R h n False v w) \<le> 0) vs \<longleftrightarrow> sorted_wrt value_le vs"
    and "sorted_wrt (\<lambda>v w. - cmp_of (jx9MemObjCmp R h n False v w) \<le> 0) vs \<longleftrightarrow> sorted_wrt (\<lambda>v w. value_le w v) vs"
proof -
  have k: "v \<in> K" if "v \<in> set vs" for v using assms(2) that by blast
  show "sorted_wrt (\<lambda>v w. cmp_of (jx9MemObjCmp R h n False v w) \<le> 0) vs \<longleftrightarrow> sorted_wrt value_le vs"
    "sorted_wrt (\<lambda>v w. - cmp_of (jx9MemObjCmp R h n False v w) \<le> 0) vs \<longleftrightarrow> sorted_wrt (\<lambda>v w. value_le w v) vs"
    using k by (simp_all add: sorted_wrt_iff_nth_less cmp_of_order [OF assms(1)])
qed

lemma callback_values:
  assumes "K \<in> {ints, strings, numbers}" and "map_wf m" and "set (values_of m) \<subseteq> K"
    and "a \<in> set (linked m)" "b \<in> set (linked m)" "nodes m a = Some x" "nodes m b = Some y"
  shows "HashmapCmpCallback1 R h n 0 m a b = Inr (cmp_of (jx9MemObjCmp R h n False (nVal x) (nVal y)))"
    and "HashmapCmpCallback3 R h n 0 m a b = Inr (- cmp_of (jx9MemObjCmp R h n False (nVal x) (nVal y)))"
proof -
  have k: "nVal x \<in> K" "nVal y \<in> K" using assms(3-) by (force simp: values_at [OF assms(2)])+
  obtain r where r: "jx9MemObjCmp R h n False (nVal x) (nVal y) = Inr r" using scalar_cmp_order [OF assms(1) k] by blast
  have "r = 0" if "a = b"
    using that assms(6,7) r scalar_cmp_order [OF assms(1) k, of R h n False] value_le_order(1) [OF assms(1) k(1) k(1) k(1)]
    by auto
  then show "HashmapCmpCallback1 R h n 0 m a b = Inr (cmp_of (jx9MemObjCmp R h n False (nVal x) (nVal y)))"
    and "HashmapCmpCallback3 R h n 0 m a b = Inr (- cmp_of (jx9MemObjCmp R h n False (nVal x) (nVal y)))"
    using assms(6,7) r by (auto simp: HashmapCmpCallback3_def HashmapCmpCallback1_def HashmapNodeCmp_def with_values_def cmp_of_def)
qed

lemma sort_callbacks:
  assumes "map_wf m" and "linked m \<noteq> []" and "length (linked m) < 2 ^ 63" and "sortable (values_of m)"
  shows "\<exists>m'. sort_nodes (HashmapCmpCallback1 R h n 0 m) m = Inr m' \<and> sorts_to value_le m m'"
    and "\<exists>m'. sort_nodes (HashmapCmpCallback3 R h n 0 m) m = Inr m' \<and> sorts_to (\<lambda>v w. value_le w v) m m'"
proof -
  let ?cmp = "\<lambda>v w. cmp_of (jx9MemObjCmp R h n False v w)"
  obtain K where K: "K \<in> {ints, strings, numbers}" "set (values_of m) \<subseteq> K" using assms(4) unfolding sortable_def by blast
  note cb = callback_values [OF K(1) assms(1) K(2)]
  have set: "set (values_of m') \<subseteq> K" if "mset (values_of m') = mset (values_of m)" for m' :: "jval hashmap"
    using mset_eq_setD [OF that] K(2) by simp
  have up: "total_comparison ?cmp K" and down: "total_comparison (\<lambda>v w. - ?cmp v w) K"
    using K(1) int_order.total_comparison_axioms string_order.total_comparison_axioms number_order.total_comparison_axioms
      int_order.downwards string_order.downwards number_order.downwards by auto
  show "\<exists>m'. sort_nodes (HashmapCmpCallback1 R h n 0 m) m = Inr m' \<and> sorts_to value_le m m'"
    using total_comparison.sort_nodes_sorts [OF up assms(1-3) K(2), of "HashmapCmpCallback1 R h n 0 m"] cb(1)
      sorted_value_le(1) [OF K(1) set] unfolding sorts_to_def by blast
  show "\<exists>m'. sort_nodes (HashmapCmpCallback3 R h n 0 m) m = Inr m' \<and> sorts_to (\<lambda>v w. value_le w v) m m'"
    using total_comparison.sort_nodes_sorts [OF down assms(1-3) K(2), of "HashmapCmpCallback3 R h n 0 m"] cb(2)
      sorted_value_le(2) [OF K(1) set] unfolding sorts_to_def by blast
qed

text \<open>
  A function of the script that orders the values decides; an array with less than two entries
  is left as it is, its key included.
\<close>

lemma usort_correct:
  assumes "cells h a = Some m" and "map_ok m" and "1 < nEntry m" and "nEntry m < 2 ^ 32" and "callable g = Some f"
    and "\<And>v w. v \<in> K \<Longrightarrow> w \<in> K \<Longrightarrow> f v w = Inr (Some (VInt (c v w)))" and "set (values_of m) \<subseteq> K"
    and "total_comparison (\<lambda>v w. sint (ucast (c v w) :: u32)) K"
  shows "\<exists>m'. jx9_hashmap_usort R n callable h [VMap a, g] = Inr (VBool True, fill_cell a m' h) \<and>
    sorts_to (\<lambda>v w. sint (ucast (c v w) :: u32) \<le> 0) m m'"
proof -
  have ok: "map_wf m" "linked m \<noteq> []" "length (linked m) < 2 ^ 63"
    using assms(2-4) by (auto simp: map_ok_def nEntry_def)
  have "HashmapCmpCallback4 f h m a b = Inr (sint (ucast (c (nVal x) (nVal y)) :: u32))"
    if "a \<in> set (linked m)" "b \<in> set (linked m)" "nodes m a = Some x" "nodes m b = Some y" for a b x y
  proof -
    have "nVal x \<in> K" "nVal y \<in> K" using that assms(7) by (force simp: values_at [OF ok(1)])+
    then show ?thesis
      using that assms(6) by (simp add: HashmapCmpCallback4_def with_values_def jx9_value_as_int_def MemObjIntValue_def jx9_value_to_int_def)
  qed
  note cb = this
  obtain m' where "sort_nodes (HashmapCmpCallback4 f h m) m = Inr m'" "sorts_to (\<lambda>v w. sint (ucast (c v w) :: u32) \<le> 0) m m'"
    using total_comparison.sort_nodes_sorts [OF assms(8) ok assms(7), of "HashmapCmpCallback4 f h m"] cb
    unfolding sorts_to_def by blast
  then show ?thesis using assms(1,3,5) by (auto simp: jx9_hashmap_usort_def sort_cell_def)
qed

lemma sort_small:
  "cells h a = Some m \<Longrightarrow> nEntry m \<le> 1 \<Longrightarrow> jx9_hashmap_sort R n h (VMap a # opts) = Inr (VBool True, h)"
  by (simp add: jx9_hashmap_sort_def sort_cell_def)

lemma array_map_iff: "array_map vs m \<longleftrightarrow> array_of vs m \<and> \<not> json_object m"
proof -
  have "zip (map (\<lambda>i. IntKey (word_of_nat i)) [0..<length vs]) vs = indexed 0 vs"
    by (rule nth_equalityI) (simp_all add: prod_eq_iff flip: nth_map [of _ _ fst] nth_map [of _ _ snd] add: indexed_keys)
  then show ?thesis by (auto simp: array_map_def array_of_def)
qed

text \<open>
  C30. The functions \<open>sort\<close> and \<open>rsort\<close> of a script, called without flags on an array of integers, of strings
  or of doubles that are numbers, leave in its cell a proper array of the same values, in
  ascending or descending order, numbered from zero on, and return true.
\<close>

theorem sort_correct:
  assumes "cells h a = Some m" and "map_ok m" and "1 < nEntry m" and "nEntry m < 2 ^ 32" and "sortable (values_of m)"
  shows "(\<exists>m'. jx9_hashmap_sort R n h [VMap a] = Inr (VBool True, fill_cell a m' h) \<and> sorts_to value_le m m') \<and>
    (\<exists>m'. jx9_hashmap_rsort R n h [VMap a] = Inr (VBool True, fill_cell a m' h) \<and> sorts_to (\<lambda>v w. value_le w v) m m')"
proof -
  have "map_wf m" "linked m \<noteq> []" "length (linked m) < 2 ^ 63"
    using assms(2-4) by (auto simp: map_ok_def nEntry_def)
  note s = sort_callbacks [OF this assms(5), of R h n]
  obtain m1 where m1: "sort_nodes (HashmapCmpCallback1 R h n 0 m) m = Inr m1" "sorts_to value_le m m1" using s(1) by blast
  obtain m2 where m2: "sort_nodes (HashmapCmpCallback3 R h n 0 m) m = Inr m2" "sorts_to (\<lambda>v w. value_le w v) m m2"
    using s(2) by blast
  have "jx9_hashmap_sort R n h [VMap a] = Inr (VBool True, fill_cell a m1 h)"
    "jx9_hashmap_rsort R n h [VMap a] = Inr (VBool True, fill_cell a m2 h)"
    using assms(1,3) m1(1) m2(1)
    by (simp_all add: jx9_hashmap_sort_def jx9_hashmap_rsort_def sort_cell_def sort_flags_def)
  then show ?thesis using m1(2) m2(2) by blast
qed

lemma sort_correct_witness:
  "\<exists>m m'. values_of m = [VInt 3, VInt 1] \<and> values_of m' = [VInt 1, VInt 3] \<and>
    jx9_hashmap_sort demo_reals 0 (fill_cell 0 m (reserve_cell empty_store)) [VMap 0] =
      Inr (VBool True, fill_cell 0 m' (fill_cell 0 m (reserve_cell empty_store)))"
proof -
  obtain m where "array_map [VInt 3, VInt 1] m" using array_elems [OF array_new, of "[VInt 3, VInt 1]"] by auto
  then have m: "map_ok m" "values_of m = [VInt 3, VInt 1]" "nEntry m = 2"
    by (simp_all add: array_map_iff array_of_def values_of_def nEntry_entries)
  let ?h = "fill_cell 0 m (reserve_cell empty_store)"
  have c: "cells ?h 0 = Some m" by simp
  have n: "1 < nEntry m" "nEntry m < 2 ^ 32" using m(3) by simp_all
  have s: "sortable (values_of m)" using m(2) by (simp add: sortable_def ints_def)
  from sort_correct [OF c m(1) n s, of demo_reals 0] obtain m'
    where m': "jx9_hashmap_sort demo_reals 0 ?h [VMap 0] = Inr (VBool True, fill_cell 0 m' ?h)" "sorts_to value_le m m'"
    by blast
  have "mset (values_of m') = {#VInt 3, VInt 1#}" "sorted_wrt value_le (values_of m')"
    using m'(2) m(2) by (simp_all add: sorts_to_def)
  moreover have "length (values_of m') = 2" using mset_eq_length [of "values_of m'" "[VInt 3, VInt 1]"] calculation(1) by simp
  then obtain x y where xy: "values_of m' = [x, y]" by (auto simp: length_Suc_conv numeral_2_eq_2)
  ultimately have "x = VInt 1 \<and> y = VInt 3" by (auto simp: add_eq_conv_ex)
  then show ?thesis using m(2) m'(1) xy by blast
qed

end
