(* ===== verification/Jx9Array.thy ===== *)
theory Jx9Array
  imports Jx9Sort
begin

text \<open>
  The functions on arrays that the scripts of JX9 call (\<open>hashmap.c\<close> within
  \<open>src/jx9/jx9/jx9.c\<close>): an array as a stack and as a queue, its cursor, its values, merging,
  copying, searching, difference and intersection. A call has its arguments and the heap, and
  yields its result and the heap. As in \<open>Jx9Vm\<close>, memory does not run out.
\<close>

section \<open>Arrays as arguments and results\<close>

definition new_cell :: "jval hashmap \<Rightarrow> jx9_heap \<Rightarrow> jval \<times> jx9_heap" where
  "new_cell m h = (VMap (next_cell h), fill_cell (next_cell h) m (reserve_cell h))"

definition on_map :: "jx9_heap \<Rightarrow> nat \<Rightarrow> (jval hashmap \<Rightarrow> exn + 'a) \<Rightarrow> exn + 'a" where
  "on_map h a f = (case cells h a of None \<Rightarrow> Inl UB | Some m \<Rightarrow> f m)"

definition first_node :: "'v hashmap \<Rightarrow> nat option" where
  "first_node m = (case linked m of [] \<Rightarrow> None | a # _ \<Rightarrow> Some a)"

definition HashmapExtractNodeValue :: "'v hashmap \<Rightarrow> nat \<Rightarrow> exn + 'v" where
  "HashmapExtractNodeValue m a = (case nodes m a of None \<Rightarrow> Inl UB | Some nd \<Rightarrow> Inr (nVal nd))"

definition key_value :: "hkey \<Rightarrow> jval" where
  "key_value k = (case k of IntKey i \<Rightarrow> VInt i | BlobKey s \<Rightarrow> VStr s)"

section \<open>Counting and looking up keys\<close>

text \<open>\<open>rec\<close> counts a nested array, or is missing once 32 of them are nested: then the count stops.\<close>

fun count_nested :: "(nat \<Rightarrow> exn + u64) option \<Rightarrow> jval list \<Rightarrow> u64 \<Rightarrow> exn + bool \<times> u64" where
  "count_nested rec [] iCount = Inr (True, iCount)"
| "count_nested rec (v # vs) iCount =
     (case v of
        VMap a \<Rightarrow>
          (case rec of
             None \<Rightarrow> Inr (False, iCount)
           | Some f \<Rightarrow> bindE (f a) (\<lambda>n. count_nested rec vs (iCount + n)))
      | _ \<Rightarrow> count_nested rec vs iCount)"

definition count_level :: "(nat \<Rightarrow> exn + u64) option \<Rightarrow> jx9_heap \<Rightarrow> nat \<Rightarrow> exn + u64" where
  "count_level rec h a =
     on_map h a (\<lambda>m. bindE (count_nested rec (rev (values_of m)) 0) (\<lambda>(whole, n).
       Inr (if whole then n + word_of_nat (nEntry m) else n)))"

fun HashmapCount_rec :: "jx9_heap \<Rightarrow> nat \<Rightarrow> nat \<Rightarrow> exn + u64" where
  "HashmapCount_rec h 0 a = count_level None h a"
| "HashmapCount_rec h (Suc n) a = count_level (Some (HashmapCount_rec h n)) h a"

definition HashmapCount :: "jx9_heap \<Rightarrow> bool \<Rightarrow> nat \<Rightarrow> exn + u64" where
  "HashmapCount h bRecursive a =
     (if \<not> bRecursive then on_map h a (\<lambda>m. Inr (word_of_nat (nEntry m))) else HashmapCount_rec h 32 a)"

definition jx9_hashmap_count :: "jx9_heap \<Rightarrow> jval list \<Rightarrow> exn + jval" where
  "jx9_hashmap_count h apArg =
     (case apArg of
        [] \<Rightarrow> Inr (VInt 0)
      | VMap a # opts \<Rightarrow>
          bindE (case opts of [] \<Rightarrow> Inr False | v # _ \<Rightarrow> bindE (jx9_value_as_int h v) (\<lambda>i. Inr (i = 1))) (\<lambda>bRecursive.
          bindE (HashmapCount h bRecursive a) (\<lambda>n. Inr (VInt n)))
      | v # opts \<Rightarrow> Inr (VInt (of_bool (v \<noteq> VNull))))"

text \<open>The key a value stands for when it is looked up.\<close>

definition lookup_value_key :: "reals \<Rightarrow> jx9_heap \<Rightarrow> jval \<Rightarrow> exn + hkey" where
  "lookup_value_key R h v =
     (if is_text v \<or> is_map v \<or> (case v of VRes p \<Rightarrow> True | _ \<Rightarrow> False)
      then bindE (MemObjStringValue R h v) (\<lambda>s. Inr (BlobKey s))
      else bindE (MemObjIntValue h v) (\<lambda>i. Inr (IntKey i)))"

definition jx9_hashmap_key_exists :: "reals \<Rightarrow> jx9_heap \<Rightarrow> jval list \<Rightarrow> exn + jval" where
  "jx9_hashmap_key_exists R h apArg =
     (case apArg of
        v # VMap a # _ \<Rightarrow>
          on_map h a (\<lambda>m.
            if nEntry m < 1 then Inr (VBool False)
            else bindE (lookup_value_key R h v) (\<lambda>k. bindE (jx9HashmapLookup m k) (\<lambda>r. Inr (VBool (r \<noteq> None)))))
      | _ \<Rightarrow> Inr (VBool False))"

section \<open>Stack and queue\<close>

definition jx9_hashmap_pop :: "jx9_heap \<Rightarrow> jval list \<Rightarrow> exn + jval \<times> jx9_heap" where
  "jx9_hashmap_pop h apArg =
     (case apArg of
        VMap a # _ \<Rightarrow>
          on_map h a (\<lambda>m.
            if nEntry m < 1 then Inr (VNull, h)
            else
              (let pLast = last (linked m)
               in bindE (HashmapExtractNodeValue m pLast) (\<lambda>v.
                  let m' = jx9HashmapUnlinkNode pLast m
                  in Inr (v, fill_cell a (m'\<lparr>pCur := first_node m'\<rparr>) h))))
      | _ \<Rightarrow> Inr (VNull, h))"

fun push_values :: "jval list \<Rightarrow> jval hashmap \<Rightarrow> exn + jval hashmap" where
  "push_values [] m = Inr m"
| "push_values (v # vs) m =
     bindE (HashmapInsert all_room m None v) (\<lambda>(rc, m). if rc \<noteq> SXRET_OK then Inr m else push_values vs m)"

definition jx9_hashmap_push :: "jx9_heap \<Rightarrow> jval list \<Rightarrow> exn + jval \<times> jx9_heap" where
  "jx9_hashmap_push h apArg =
     (case apArg of
        VMap a # vs \<Rightarrow>
          on_map h a (\<lambda>m. bindE (push_values vs m) (\<lambda>m. Inr (VInt (word_of_nat (nEntry m)), fill_cell a m h)))
      | _ \<Rightarrow> Inr (VInt 0, h))"

definition jx9_hashmap_shift :: "jx9_heap \<Rightarrow> jval list \<Rightarrow> exn + jval \<times> jx9_heap" where
  "jx9_hashmap_shift h apArg =
     (case apArg of
        VMap a # _ \<Rightarrow>
          on_map h a (\<lambda>m.
            if nEntry m < 1 then Inr (VNull, h)
            else
              (let pEntry = hd (linked m)
               in bindE (HashmapExtractNodeValue m pEntry) (\<lambda>v.
                  let m' = jx9HashmapUnlinkNode pEntry m;
                      m' = rehash_nodes False (linked m') (m'\<lparr>iNextIdx := 0\<rparr>)
                  in Inr (v, fill_cell a (m'\<lparr>pCur := first_node m'\<rparr>) h))))
      | _ \<Rightarrow> Inr (VNull, h))"

section \<open>The cursor\<close>

definition HashmapCurrentValue :: "jval hashmap \<Rightarrow> int \<Rightarrow> exn + jval \<times> jval hashmap" where
  "HashmapCurrentValue m iDirection =
     (case pCur m of
        None \<Rightarrow> Inr (VBool False, m)
      | Some a \<Rightarrow>
          (let pCur' = (if iDirection = 0 then Some a
                        else if iDirection > 0 then next_after a (linked m) else next_after a (rev (linked m)));
               m = m\<lparr>pCur := pCur'\<rparr>
           in case pCur' of
                None \<Rightarrow> Inr (VBool False, m)
              | Some b \<Rightarrow> bindE (HashmapExtractNodeValue m b) (\<lambda>v. Inr (v, m))))"

definition cursor_function ::
  "(jval hashmap \<Rightarrow> exn + jval \<times> jval hashmap) \<Rightarrow> jval \<Rightarrow> jx9_heap \<Rightarrow> jval list \<Rightarrow> exn + jval \<times> jx9_heap"
where
  "cursor_function f missing h apArg =
     (case apArg of
        VMap a # _ \<Rightarrow> on_map h a (\<lambda>m. bindE (f m) (\<lambda>(v, m). Inr (v, fill_cell a m h)))
      | _ \<Rightarrow> Inr (missing, h))"

definition jx9_hashmap_current :: "jx9_heap \<Rightarrow> jval list \<Rightarrow> exn + jval \<times> jx9_heap" where
  "jx9_hashmap_current = cursor_function (\<lambda>m. HashmapCurrentValue m 0) (VBool False)"

definition jx9_hashmap_next :: "jx9_heap \<Rightarrow> jval list \<Rightarrow> exn + jval \<times> jx9_heap" where
  "jx9_hashmap_next = cursor_function (\<lambda>m. HashmapCurrentValue m 1) (VBool False)"

definition jx9_hashmap_prev :: "jx9_heap \<Rightarrow> jval list \<Rightarrow> exn + jval \<times> jx9_heap" where
  "jx9_hashmap_prev = cursor_function (\<lambda>m. HashmapCurrentValue m (- 1)) (VBool False)"

definition jx9_hashmap_end :: "jx9_heap \<Rightarrow> jval list \<Rightarrow> exn + jval \<times> jx9_heap" where
  "jx9_hashmap_end =
     cursor_function
       (\<lambda>m. HashmapCurrentValue (m\<lparr>pCur := (if linked m = [] then None else Some (last (linked m)))\<rparr>) 0) (VBool False)"

definition jx9_hashmap_reset :: "jx9_heap \<Rightarrow> jval list \<Rightarrow> exn + jval \<times> jx9_heap" where
  "jx9_hashmap_reset = cursor_function (\<lambda>m. HashmapCurrentValue (m\<lparr>pCur := first_node m\<rparr>) 0) (VBool False)"

definition current_key :: "jval hashmap \<Rightarrow> exn + jval \<times> jval hashmap" where
  "current_key m =
     (case pCur m of
        None \<Rightarrow> Inr (VNull, m)
      | Some a \<Rightarrow> (case nodes m a of None \<Rightarrow> Inl UB | Some nd \<Rightarrow> Inr (key_value (xKey nd), m)))"

definition jx9_hashmap_simple_key :: "jx9_heap \<Rightarrow> jval list \<Rightarrow> exn + jval \<times> jx9_heap" where
  "jx9_hashmap_simple_key = cursor_function current_key VNull"

text \<open>The value under the keys that are to be 1 and value, the key under those to be 0 and key.\<close>

definition each_pair :: "hkey \<Rightarrow> jval \<Rightarrow> exn + jval hashmap" where
  "each_pair k v =
     add_elems [(strkey ''1'', v), (strkey ''value'', v), (None, key_value k), (strkey ''key'', key_value k)] jx9NewHashmap"

definition jx9_hashmap_each :: "jx9_heap \<Rightarrow> jval list \<Rightarrow> exn + jval \<times> jx9_heap" where
  "jx9_hashmap_each h apArg =
     (case apArg of
        VMap a # _ \<Rightarrow>
          on_map h a (\<lambda>m.
            case pCur m of
              None \<Rightarrow> Inr (VBool False, h)
            | Some b \<Rightarrow>
                (case nodes m b of
                   None \<Rightarrow> Inl UB
                 | Some nd \<Rightarrow>
                     bindE (each_pair (xKey nd) (nVal nd)) (\<lambda>p.
                     Inr (new_cell p (fill_cell a (m\<lparr>pCur := next_after b (linked m)\<rparr>) h)))))
      | _ \<Rightarrow> Inr (VBool False, h))"

section \<open>Values, merging, copying\<close>

definition jx9_hashmap_values :: "jx9_heap \<Rightarrow> jval list \<Rightarrow> exn + jval \<times> jx9_heap" where
  "jx9_hashmap_values h apArg =
     (case apArg of
        VMap a # _ \<Rightarrow>
          on_map h a (\<lambda>m. bindE (add_elems (map (Pair None) (values_of m)) jx9NewHashmap) (\<lambda>p. Inr (new_cell p h)))
      | _ \<Rightarrow> Inr (VNull, h))"

definition jx9_hashmap_same :: "jval list \<Rightarrow> jval" where
  "jx9_hashmap_same apArg = (case apArg of VMap a # VMap b # _ \<Rightarrow> VBool (a = b) | _ \<Rightarrow> VBool False)"

fun merge_arguments :: "jx9_heap \<Rightarrow> jval list \<Rightarrow> jval hashmap \<Rightarrow> exn + jval hashmap" where
  "merge_arguments h [] m = Inr m"
| "merge_arguments h (v # vs) m =
     (case v of
        VMap a \<Rightarrow> on_map h a (\<lambda>pSrc. bindE (HashmapMerge all_room pSrc m) (\<lambda>(rc, m). merge_arguments h vs m))
      | _ \<Rightarrow> bindE (HashmapInsert all_room m None v) (\<lambda>(rc, m). merge_arguments h vs m))"

definition jx9_hashmap_merge :: "jx9_heap \<Rightarrow> jval list \<Rightarrow> exn + jval \<times> jx9_heap" where
  "jx9_hashmap_merge h apArg =
     (if apArg = [] then Inr (VNull, h)
      else bindE (merge_arguments h apArg jx9NewHashmap) (\<lambda>m. Inr (new_cell m h)))"

definition jx9_hashmap_copy :: "jx9_heap \<Rightarrow> jval list \<Rightarrow> exn + jval \<times> jx9_heap" where
  "jx9_hashmap_copy h apArg =
     (case apArg of
        [] \<Rightarrow> Inr (VNull, h)
      | VMap a # _ \<Rightarrow>
          on_map h a (\<lambda>pSrc. bindE (jx9HashmapDup all_room pSrc jx9NewHashmap) (\<lambda>(rc, m). Inr (new_cell m h)))
      | v # _ \<Rightarrow> bindE (HashmapInsert all_room jx9NewHashmap None v) (\<lambda>(rc, m). Inr (new_cell m h)))"

text \<open>The argument is not checked, and the result is left as it was, which is null.\<close>

definition jx9_hashmap_erase :: "jx9_heap \<Rightarrow> jval list \<Rightarrow> exn + jval \<times> jx9_heap" where
  "jx9_hashmap_erase h apArg =
     (case apArg of
        [] \<Rightarrow> Inr (VBool False, h)
      | VMap a # _ \<Rightarrow> on_map h a (\<lambda>m. Inr (VNull, fill_cell a (jx9HashmapRelease m) h))
      | _ \<Rightarrow> Inl UB)"

section \<open>Searching\<close>

definition jx9_hashmap_in_array :: "reals \<Rightarrow> nat \<Rightarrow> jx9_heap \<Rightarrow> jval list \<Rightarrow> exn + jval" where
  "jx9_hashmap_in_array R n h apArg =
     (case apArg of
        pNeedle # hay # opts \<Rightarrow>
          bindE (case opts of [] \<Rightarrow> Inr False | v # _ \<Rightarrow> MemObjBooleanValue h v) (\<lambda>bStrict.
          case hay of
            VMap a \<Rightarrow> on_map h a (\<lambda>m. bindE (HashmapFindValue R h n bStrict pNeedle m) (\<lambda>b. Inr (VBool b)))
          | _ \<Rightarrow> bindE (jx9MemObjCmp R h n bStrict pNeedle hay) (\<lambda>rc. Inr (VBool (rc = 0))))
      | _ \<Rightarrow> Inr (VBool False))"

text \<open>The loop over the other arrays: it ends early once the search in one of them yields \<open>stop\<close>.\<close>

fun passes :: "bool \<Rightarrow> (nat \<Rightarrow> exn + bool) \<Rightarrow> jval list \<Rightarrow> exn + bool" where
  "passes stop search [] = Inr True"
| "passes stop search (w # ws) =
     (case w of
        VMap b \<Rightarrow> bindE (search b) (\<lambda>r. if r = stop then Inr False else passes stop search ws)
      | _ \<Rightarrow> passes stop search ws)"

text \<open>\<open>HashmapInsertNode\<close>, keeping the key; what it returns is not looked at.\<close>

definition HashmapInsertNode :: "jval hashmap \<Rightarrow> hkey \<Rightarrow> jval \<Rightarrow> jval hashmap" where
  "HashmapInsertNode m k v =
     snd (case k of IntKey i \<Rightarrow> HashmapInsertIntKey all_room m i v | BlobKey s \<Rightarrow> HashmapInsertBlobKey all_room m s v)"

fun keep_entries :: "(jval \<Rightarrow> exn + bool) \<Rightarrow> (hkey \<times> jval) list \<Rightarrow> jval hashmap \<Rightarrow> exn + jval hashmap" where
  "keep_entries test [] m = Inr m"
| "keep_entries test ((k, v) # kvs) m =
     bindE (test v) (\<lambda>b. keep_entries test kvs (if b then HashmapInsertNode m k v else m))"

definition select_entries :: "bool \<Rightarrow> reals \<Rightarrow> nat \<Rightarrow> jx9_heap \<Rightarrow> jval list \<Rightarrow> exn + jval \<times> jx9_heap" where
  "select_entries stop R n h apArg =
     (case apArg of
        VMap a # ws \<Rightarrow>
          if ws = [] then Inr (VMap a, h)
          else
            on_map h a (\<lambda>m.
              bindE (keep_entries
                (\<lambda>v. passes stop (\<lambda>b. on_map h b (\<lambda>w. HashmapFindValue R h n True v w)) ws) (entries m) jx9NewHashmap)
                (\<lambda>p. Inr (new_cell p h)))
      | _ \<Rightarrow> Inr (VNull, h))"

definition jx9_hashmap_diff :: "reals \<Rightarrow> nat \<Rightarrow> jx9_heap \<Rightarrow> jval list \<Rightarrow> exn + jval \<times> jx9_heap" where
  "jx9_hashmap_diff = select_entries True"

definition jx9_hashmap_intersect :: "reals \<Rightarrow> nat \<Rightarrow> jx9_heap \<Rightarrow> jval list \<Rightarrow> exn + jval \<times> jx9_heap" where
  "jx9_hashmap_intersect = select_entries False"

text \<open>A function of the script that leaves the arrays alone; its value is kept when a call fails.\<close>

fun map_entries :: "(jval \<Rightarrow> exn + jval option) \<Rightarrow> (hkey \<times> jval) list \<Rightarrow> exn + (hkey option \<times> jval) list" where
  "map_entries f [] = Inr []"
| "map_entries f ((k, v) # kvs) =
     bindE (f v) (\<lambda>r. bindE (map_entries f kvs) (\<lambda>l. Inr ((Some k, case r of None \<Rightarrow> v | Some w \<Rightarrow> w) # l)))"

definition jx9_hashmap_map :: "(jval \<Rightarrow> jval \<Rightarrow> exn + jval option) \<Rightarrow> jx9_heap \<Rightarrow> jval list \<Rightarrow> exn + jval \<times> jx9_heap" where
  "jx9_hashmap_map call h apArg =
     (case apArg of
        g # VMap a # _ \<Rightarrow>
          on_map h a (\<lambda>m.
            bindE (map_entries (call g) (entries m)) (\<lambda>kvs.
            bindE (add_elems kvs jx9NewHashmap) (\<lambda>p. Inr (new_cell p h))))
      | _ \<Rightarrow> Inr (VNull, h))"

section \<open>An array as a stack and as a queue\<close>

lemma array_of_facts:
  assumes "array_of vs m"
  shows "map_ok m" "map_wf m" "entries m = indexed 0 vs" "iNextIdx m = word_of_nat (length vs)" "nEntry m = length vs"
    "values_of m = vs" "length (linked m) = length vs"
  using assms by (auto simp: array_of_def nEntry_entries values_of_def map_ok_def) (simp_all add: nEntry_def [symmetric] nEntry_entries map_ok_def)

lemma array_push:
  assumes "array_of vs m" and "length vs < 2 ^ 28"
  shows "\<exists>m'. HashmapInsert all_room m None v = Inr (SXRET_OK, m') \<and> array_of (vs @ [v]) m'"
proof -
  note a = array_of_facts [OF assms(1)]
  obtain rc m1 where ins: "insert_node all_room m (IntKey (iNextIdx m)) v = (rc, m1)" by fastforce
  have rc: "rc = SXRET_OK" using insert_node_plenty [OF all_room_plenty ins] .
  have "nEntry m < 2 ^ 28" using assms(2) a(5) by simp
  from insert_node_ok [OF a(2) this ins] rc
  have m1: "map_wf m1" "entries m1 = indexed 0 (vs @ [v])" "iNextIdx m1 = iNextIdx m" "nEntry m1 = Suc (nEntry m)"
    by (auto simp: a(3,4) indexed_append)
  let ?m = "m1\<lparr>iNextIdx := iNextIdx m1 + 1\<rparr>"
  have "map_wf ?m" using relink_ok [OF m1(1) refl, of "iNextIdx m1 + 1" "pCur m1"] by simp
  moreover have "length (linked ?m) < 2 ^ 63" using m1(4) a(5) assms(2) by (simp add: nEntry_def)
  ultimately have "array_of (vs @ [v]) ?m" using m1(2,3) a(4) by (intro renumbered_array) simp_all
  moreover have "HashmapInsert all_room m None v = Inr (SXRET_OK, ?m)"
    using ins rc by (simp add: HashmapInsert_def is_string_key_def insert_auto_def HashmapInsertIntKey_def)
  ultimately show ?thesis by blast
qed

lemma push_values_array:
  "array_of vs m \<Longrightarrow> length vs + length ws < 2 ^ 28 \<Longrightarrow> \<exists>m'. push_values ws m = Inr m' \<and> array_of (vs @ ws) m'"
proof (induction ws arbitrary: vs m)
  case (Cons w ws)
  obtain m1 where m1: "HashmapInsert all_room m None w = Inr (SXRET_OK, m1)" "array_of (vs @ [w]) m1"
    using array_push [OF Cons.prems(1)] Cons.prems(2) by fastforce
  from Cons.IH [OF m1(2)] Cons.prems(2) obtain m' where "push_values ws m1 = Inr m'" "array_of (vs @ w # ws) m'" by auto
  then show ?case using m1(1) by simp
qed simp

lemma node_entry: "map_wf m \<Longrightarrow> a \<in> set (linked m) \<Longrightarrow> HashmapExtractNodeValue m a = Inr (snd (entry_at m a))"
  using node_at [of m a] by (auto simp: HashmapExtractNodeValue_def entry_at_def)

lemma unlink_entry:
  assumes "map_ok m" and "a \<in> set (linked m)"
  shows "map_ok (jx9HashmapUnlinkNode a m)"
    and "entries (jx9HashmapUnlinkNode a m) = AList.delete (fst (entry_at m a)) (entries m)"
    and "iNextIdx (jx9HashmapUnlinkNode a m) = iNextIdx m"
proof -
  obtain nd where "nodes m a = Some nd" using node_at [OF map_okD(1) [OF assms(1)] assms(2)] by blast
  then show "map_ok (jx9HashmapUnlinkNode a m)"
    "entries (jx9HashmapUnlinkNode a m) = AList.delete (fst (entry_at m a)) (entries m)"
    "iNextIdx (jx9HashmapUnlinkNode a m) = iNextIdx m"
    using unlink_ok [OF assms] by (simp_all add: entry_at_def jx9HashmapUnlinkNode_def Let_def)
qed

text \<open>The node at a position of an array, and the entries without it.\<close>

lemma array_node:
  assumes "array_of vs m" and "j < length vs"
  shows "linked m ! j \<in> set (linked m)" and "entry_at m (linked m ! j) = (IntKey (word_of_nat j), vs ! j)"
proof -
  note a = array_of_facts [OF assms(1)]
  show "linked m ! j \<in> set (linked m)" using assms(2) a(7) by simp
  have "entry_at m (linked m ! j) = indexed 0 vs ! j"
    using entries_at [OF a(2)] a(3,7) assms(2) by (metis nth_map)
  moreover have "fst (indexed 0 vs ! j) = IntKey (word_of_nat j)" "snd (indexed 0 vs ! j) = vs ! j"
    using assms(2) indexed_keys [of 0 vs] indexed_facts [of 0 vs]
    by (simp_all flip: nth_map [of j "indexed 0 vs"])
  ultimately show "entry_at m (linked m ! j) = (IntKey (word_of_nat j), vs ! j)" by (simp add: prod_eq_iff)
qed

lemma delete_other: "k \<notin> set (map fst kvs) \<Longrightarrow> AList.delete k kvs = kvs"
  by (induction kvs) auto

lemma delete_last: "k \<notin> set (map fst kvs) \<Longrightarrow> AList.delete k (kvs @ [(k, v)]) = kvs"
  by (induction kvs) auto

lemma renumber_indexed: "renumber every i (indexed j vs) = indexed i vs"
  by (induction vs arbitrary: i j) auto

lemma int_at_entry: "map_wf m \<Longrightarrow> a \<in> set (linked m) \<Longrightarrow> int_at m a \<longleftrightarrow> (case fst (entry_at m a) of IntKey i \<Rightarrow> True | BlobKey s \<Rightarrow> False)"
  using node_at [of m a] by (auto simp: int_at_def entry_at_def)

lemma shifted_array:
  assumes "map_ok m" and "entries m = indexed j vs" and "length vs < 2 ^ 63"
  shows "array_of vs (rehash_nodes False (linked m) (m\<lparr>iNextIdx := 0\<rparr>))"
proof -
  let ?m = "m\<lparr>iNextIdx := 0\<rparr>"
  define m' where "m' = rehash_nodes False (linked m) ?m"
  have ok: "map_wf m" using assms(1) by (rule map_okD)
  have wf: "map_wf ?m" using relink_ok [OF ok refl, of 0 "pCur m"] by simp
  have d: "distinct (linked ?m)" using ok by (simp add: map_wf_def nodes_ok_def)
  have at: "entry_at ?m = entry_at m" "int_at ?m = int_at m" by (simp_all add: entry_at_def int_at_def fun_eq_iff)
  have e: "map (entry_at m) (linked m) = indexed j vs" using entries_at [OF ok] assms(2) by simp
  have len: "length (linked m) = length vs" using arg_cong [OF e, of length] by simp
  have "int_at m a" if a: "a \<in> set (linked m)" for a
  proof -
    have "fst (entry_at m a) \<in> set (map fst (indexed j vs))" using a unfolding e [symmetric] by simp
    then show ?thesis by (auto simp: int_at_entry [OF ok a] indexed_keys)
  qed
  then have "filter (\<lambda>a. False \<or> int_at ?m a) (linked m) = linked m" by (simp add: at)
  then have r: "map_wf m'" "linked m' = linked m" "map (entry_at m') (linked m) = renumber False 0 (map (entry_at m) (linked m))"
    "iNextIdx m' = word_of_nat (length (linked m))"
    using rehash_nodes_ok [OF wf d subset_refl, of False] by (simp_all add: m'_def at)
  have "entries m' = indexed 0 vs" using r(3) by (simp add: entries_at [OF r(1)] r(2) e renumber_indexed)
  then have "array_of vs m'" using r assms(3) len by (intro renumbered_array) simp_all
  then show ?thesis by (simp add: m'_def)
qed

lemma array_of_cursor: "array_of vs (m\<lparr>pCur := c\<rparr>) \<longleftrightarrow> array_of vs m"
  by (simp add: array_of_def map_ok_def map_wf_def nodes_ok_def chains_ok_def in_bucket_def nSize_def node_keys_def
      entries_def cong: option.case_cong)

lemma array_shift:
  assumes "cells h a = Some m" and "array_of (v # vs) m" and "length vs < 2 ^ 28"
  shows "\<exists>m'. jx9_hashmap_shift h [VMap a] = Inr (v, fill_cell a m' h) \<and> array_of vs m'"
proof -
  note f = array_of_facts [OF assms(2)]
  have "linked m \<noteq> []" using f(7) by auto
  then have h: "hd (linked m) = linked m ! 0" by (rule hd_conv_nth)
  note n = array_node [OF assms(2), of 0, folded h, simplified]
  define m1 where "m1 = jx9HashmapUnlinkNode (hd (linked m)) m"
  note u = unlink_entry [OF f(1) n(1), folded m1_def]
  have "distinct (map fst (indexed 0 (v # vs)))" using assms(3) by (intro indexed_distinct) simp
  then have "entries m1 = indexed 1 vs" using u(2) by (simp add: n(2) f(3) delete_other)
  then have m2: "array_of vs (rehash_nodes False (linked m1) (m1\<lparr>iNextIdx := 0\<rparr>))" (is "array_of vs ?m")
    using u(1) assms(3) by (intro shifted_array) simp_all
  have "jx9_hashmap_shift h [VMap a] = Inr (v, fill_cell a (?m\<lparr>pCur := first_node ?m\<rparr>) h)"
    using assms(1) f(5) node_entry [OF f(2) n(1)] n(2)
    by (simp add: jx9_hashmap_shift_def on_map_def Let_def m1_def [symmetric])
  then show ?thesis using m2 by (auto simp: array_of_cursor)
qed

lemma array_pop:
  assumes "cells h a = Some m" and "array_of (vs @ [v]) m" and "length vs < 2 ^ 28"
  shows "\<exists>m'. jx9_hashmap_pop h [VMap a] = Inr (v, fill_cell a m' h) \<and> map_ok m' \<and> entries m' = indexed 0 vs \<and>
    iNextIdx m' = word_of_nat (Suc (length vs))"
proof -
  note f = array_of_facts [OF assms(2)]
  have "linked m \<noteq> []" using f(7) by auto
  then have h: "last (linked m) = linked m ! length vs" using f(7) by (simp add: last_conv_nth)
  note n = array_node [OF assms(2), of "length vs", folded h, simplified]
  define m1 where "m1 = jx9HashmapUnlinkNode (last (linked m)) m"
  note u = unlink_entry [OF f(1) n(1), folded m1_def]
  have d: "distinct (map fst (indexed 0 (vs @ [v])))" using assms(3) by (intro indexed_distinct) simp
  then have "IntKey (word_of_nat (length vs)) \<notin> set (map fst (indexed 0 vs))" by (simp add: indexed_append)
  then have "AList.delete (IntKey (word_of_nat (length vs))) (indexed 0 (vs @ [v])) = indexed 0 vs"
    by (simp add: indexed_append delete_last)
  then have "map_ok (m1\<lparr>pCur := first_node m1\<rparr>)" "entries (m1\<lparr>pCur := first_node m1\<rparr>) = indexed 0 vs"
    "iNextIdx (m1\<lparr>pCur := first_node m1\<rparr>) = word_of_nat (Suc (length vs))"
    using u f(3,4) n(2) by (simp_all add: map_ok_def map_wf_def nodes_ok_def chains_ok_def in_bucket_def nSize_def
        node_keys_def entries_def cong: option.case_cong)
  moreover have "jx9_hashmap_pop h [VMap a] = Inr (v, fill_cell a (m1\<lparr>pCur := first_node m1\<rparr>) h)"
    using assms(1) f(5) node_entry [OF f(2) n(1)] n(2) by (simp add: jx9_hashmap_pop_def on_map_def Let_def m1_def [symmetric])
  ultimately show ?thesis by blast
qed

lemma array_push_cell:
  assumes "cells h a = Some m" and "array_of vs m" and "length vs + length ws < 2 ^ 28"
  shows "\<exists>m'. jx9_hashmap_push h (VMap a # ws) = Inr (VInt (word_of_nat (length vs + length ws)), fill_cell a m' h) \<and>
    array_of (vs @ ws) m'"
proof -
  obtain m' where m': "push_values ws m = Inr m'" "array_of (vs @ ws) m'"
    using push_values_array [OF assms(2,3)] by blast
  then show ?thesis
    using assms(1) array_of_facts(5) [OF m'(2)] by (auto simp: jx9_hashmap_push_def on_map_def)
qed

lemma array_values:
  assumes "cells h a = Some m" and "length (values_of m) < 2 ^ 28"
  shows "\<exists>m'. jx9_hashmap_values h [VMap a] = Inr (new_cell m' h) \<and> array_of (values_of m) m'"
  using assms array_elems [OF array_new, of "values_of m"]
  by (auto simp: jx9_hashmap_values_def on_map_def array_map_iff)

text \<open>
  C31. An array numbered from zero on is a queue and a stack for \<open>array_push\<close>, \<open>array_shift\<close> and
  \<open>array_pop\<close>: pushing puts values behind the others and yields the new size; shifting takes
  the first value and renumbers the others; popping takes the last value but not its index,
  so that a value pushed next leaves a hole. \<open>array_values\<close> makes such an array of any other.
\<close>

theorem array_queue:
  assumes "cells h a = Some m" and "array_of us m" and "us \<noteq> []" and "length us + length ws < 2 ^ 28"
  shows "(\<exists>m'. jx9_hashmap_push h (VMap a # ws) = Inr (VInt (word_of_nat (length us + length ws)), fill_cell a m' h) \<and>
      array_of (us @ ws) m') \<and>
    (\<exists>m'. jx9_hashmap_shift h [VMap a] = Inr (hd us, fill_cell a m' h) \<and> array_of (tl us) m') \<and>
    (\<exists>m'. jx9_hashmap_pop h [VMap a] = Inr (last us, fill_cell a m' h) \<and> map_ok m' \<and>
      entries m' = indexed 0 (butlast us) \<and> iNextIdx m' = word_of_nat (length us)) \<and>
    (\<exists>m'. jx9_hashmap_values h [VMap a] = Inr (new_cell m' h) \<and> array_of us m')"
proof -
  have front: "array_of (hd us # tl us) m" and rear: "array_of (butlast us @ [last us]) m" using assms(2,3) by simp_all
  show ?thesis
    using array_push_cell [OF assms(1,2,4)] array_shift [OF assms(1) front] array_pop [OF assms(1) rear]
      array_values [OF assms(1)] array_of_facts(6) [OF assms(2)] assms(3,4) by simp
qed

lemma array_queue_witness:
  "\<exists>m m'. array_of [VInt 7, VInt 8] m \<and>
    jx9_hashmap_shift (fill_cell 0 m (reserve_cell empty_store)) [VMap 0] =
      Inr (VInt 7, fill_cell 0 m' (fill_cell 0 m (reserve_cell empty_store))) \<and> array_of [VInt 8] m'"
proof -
  obtain m where "array_map [VInt 7, VInt 8] m" using array_elems [OF array_new, of "[VInt 7, VInt 8]"] by auto
  then have m: "array_of [VInt 7, VInt 8] m" by (simp add: array_map_iff)
  have c: "cells (fill_cell 0 m (reserve_cell empty_store)) 0 = Some m" by simp
  have n: "[VInt 7, VInt 8] \<noteq> []" "length [VInt 7, VInt 8] + length [VInt 9] < 2 ^ 28" by simp_all
  from array_queue [OF c m n] m show ?thesis by auto
qed

section \<open>Further behaviour\<close>

text \<open>
  \<open>each\<close> is documented to give the key under 0 and key and the value under 1 and value. The
  automatic index behind the key 1 is 2, so that there is nothing under 0.
\<close>

lemma strkeys:
  "strkey ''1'' = Some (BlobKey [49])" "strkey ''value'' = Some (BlobKey [118, 97, 108, 117, 101])"
  "strkey ''key'' = Some (BlobKey [107, 101, 121])"
  by (simp_all add: strkey_def cstr_def bytes_of_def byte_of_char_def)

lemma insert_step:
  assumes "map_ok m" and "indices_ok m" and "nEntry m < 2 ^ 28" and "stored_key m pKey = Inr k"
  shows "\<exists>m'. HashmapInsert all_room m pKey v = Inr (SXRET_OK, m') \<and> map_ok m' \<and> entries m' = AList.update k v (entries m)"
  using HashmapInsert_ok [OF assms(1-3), of pKey all_room v] assms(4) all_room_plenty by auto

lemma each_keys:
  "map_sum id entries (each_pair (IntKey 0) (VInt 7)) =
     Inr [(IntKey 1, VInt 7), (BlobKey (bytes_of ''value''), VInt 7), (IntKey 2, VInt 0), (BlobKey (bytes_of ''key''), VInt 0)]"
  by code_simp

text \<open>After a pop the next value is stored under the index after the one that was freed.\<close>

lemma pop_hole:
  "bindE (add_elems [(None, VInt 7), (None, VInt 8)] jx9NewHashmap) (\<lambda>m.
   bindE (jx9_hashmap_pop (fill_cell 0 m (reserve_cell empty_store)) [VMap 0]) (\<lambda>(v, h).
   bindE (jx9_hashmap_push h [VMap 0, VInt 9]) (\<lambda>(n, h). on_map h 0 (\<lambda>m. Inr (entries m))))) =
     Inr [(IntKey 0, VInt 7), (IntKey 2, VInt 9)]"
  by code_simp

text \<open>An intersection keeps the keys but not the next index: a value pushed on it gets a key that is taken.\<close>

lemma intersect_push:
  "bindE (add_elems [(None, VInt 7)] jx9NewHashmap) (\<lambda>m.
   bindE (jx9_hashmap_intersect demo_reals 0 (fill_cell 0 m (reserve_cell empty_store)) [VMap 0, VMap 0]) (\<lambda>(v, h).
   bindE (jx9_hashmap_push h [v, VInt 8]) (\<lambda>(n, h). on_map h 1 (\<lambda>m. Inr (entries m))))) =
     Inr [(IntKey 0, VInt 7), (IntKey 0, VInt 8)]"
  by code_simp

lemma InsertNode: "HashmapInsertNode m k v = snd (insert_node all_room m k v)"
  by (cases k) (simp_all add: HashmapInsertNode_def HashmapInsertIntKey_def HashmapInsertBlobKey_def)

lemma keep_entries_filter:
  assumes "\<And>v. v \<in> snd ` set kvs \<Longrightarrow> test v = Inr (t v)" and "map_wf m" and "nEntry m + length kvs < 2 ^ 28"
  shows "\<exists>m'. keep_entries test kvs m = Inr m' \<and> map_wf m' \<and> iNextIdx m' = iNextIdx m \<and>
    entries m' = entries m @ filter (\<lambda>kv. t (snd kv)) kvs"
  using assms
proof (induction kvs arbitrary: m)
  case (Cons kv kvs)
  obtain k v where kv: "kv = (k, v)" by fastforce
  have tv: "test v = Inr (t v)" using Cons.prems(1) by (simp add: kv)
  show ?case
  proof (cases "t v")
    case True
    obtain rc m1 where i: "insert_node all_room m k v = (rc, m1)" by fastforce
    have rc: "rc = SXRET_OK" using insert_node_plenty [OF all_room_plenty i] .
    have "nEntry m < 2 ^ 28" using Cons.prems(3) by simp
    from insert_node_ok [OF Cons.prems(2) this i] rc
    have m1: "map_wf m1" "entries m1 = entries m @ [(k, v)]" "iNextIdx m1 = iNextIdx m" "nEntry m1 = Suc (nEntry m)" by auto
    then obtain m' where "keep_entries test kvs m1 = Inr m'" "map_wf m'" "iNextIdx m' = iNextIdx m1"
      "entries m' = entries m1 @ filter (\<lambda>kv. t (snd kv)) kvs"
      using Cons.IH [OF Cons.prems(1), of m1] Cons.prems(3) by auto
    then show ?thesis using m1 tv True i by (simp add: kv InsertNode)
  next
    case False
    then show ?thesis using Cons.IH [OF Cons.prems(1), of m] Cons.prems(2,3) tv by (simp add: kv)
  qed
qed simp

text \<open>
  \<open>array_diff\<close> and \<open>array_intersect\<close> select the entries whose value is in none, or in every one,
  of the other arrays, with their keys, for arrays of nulls, booleans, integers and strings.
\<close>

definition plain_cell :: "jx9_heap \<Rightarrow> nat \<Rightarrow> bool" where
  "plain_cell h b \<longleftrightarrow> (\<exists>w. cells h b = Some w \<and> list_all plain (values_of w))"

definition cell_values :: "jx9_heap \<Rightarrow> nat \<Rightarrow> jval set" where
  "cell_values h b = (case cells h b of None \<Rightarrow> {} | Some w \<Rightarrow> set (values_of w))"

lemma passes_plain:
  assumes "plain v" and "\<And>b. VMap b \<in> set ws \<Longrightarrow> plain_cell h b"
  shows "passes stop (\<lambda>b. on_map h b (\<lambda>w. HashmapFindValue R h n True v w)) ws =
    Inr (\<forall>b. VMap b \<in> set ws \<longrightarrow> (v \<in> cell_values h b) \<noteq> stop)"
  using assms(2)
proof (induction ws)
  case (Cons w ws)
  then have IH: "passes stop (\<lambda>b. on_map h b (\<lambda>w. HashmapFindValue R h n True v w)) ws =
    Inr (\<forall>b. VMap b \<in> set ws \<longrightarrow> (v \<in> cell_values h b) \<noteq> stop)" by simp
  show ?case
  proof (cases w)
    case (VMap b)
    then obtain m where "cells h b = Some m" "list_all plain (values_of m)"
      using Cons.prems by (auto simp: plain_cell_def)
    then have "on_map h b (\<lambda>w. HashmapFindValue R h n True v w) = Inr (v \<in> cell_values h b)"
      using find_plain [OF assms(1), of "values_of m" R h n] by (simp add: on_map_def HashmapFindValue_def cell_values_def)
    then show ?thesis using IH VMap by auto
  qed (use IH in auto)
qed simp

lemma array_diff_intersect:
  assumes "cells h a = Some m" and "map_ok m" and "nEntry m < 2 ^ 28" and "ws \<noteq> []" and "list_all plain (values_of m)"
    and "\<And>b. VMap b \<in> set ws \<Longrightarrow> plain_cell h b"
  shows "(\<exists>m'. jx9_hashmap_diff R n h (VMap a # ws) = Inr (new_cell m' h) \<and> map_ok m' \<and> iNextIdx m' = 0 \<and>
      entries m' = filter (\<lambda>kv. \<forall>b. VMap b \<in> set ws \<longrightarrow> snd kv \<notin> cell_values h b) (entries m)) \<and>
    (\<exists>m'. jx9_hashmap_intersect R n h (VMap a # ws) = Inr (new_cell m' h) \<and> map_ok m' \<and> iNextIdx m' = 0 \<and>
      entries m' = filter (\<lambda>kv. \<forall>b. VMap b \<in> set ws \<longrightarrow> snd kv \<in> cell_values h b) (entries m))"
proof -
  have "\<exists>m'. select_entries stop R n h (VMap a # ws) = Inr (new_cell m' h) \<and> map_ok m' \<and> iNextIdx m' = 0 \<and>
      entries m' = filter (\<lambda>kv. \<forall>b. VMap b \<in> set ws \<longrightarrow> (snd kv \<in> cell_values h b) \<noteq> stop) (entries m)" for stop
  proof -
    let ?test = "\<lambda>v. passes stop (\<lambda>b. on_map h b (\<lambda>w. HashmapFindValue R h n True v w)) ws"
    let ?t = "\<lambda>v. \<forall>b. VMap b \<in> set ws \<longrightarrow> (v \<in> cell_values h b) \<noteq> stop"
    have t: "?test v = Inr (?t v)" if "v \<in> snd ` set (entries m)" for v
      using that assms(5) by (intro passes_plain assms(6)) (auto simp: values_of_def list_all_iff)
    have "map_wf (jx9NewHashmap :: jval hashmap)" using new_map_ok by (rule map_okD)
    moreover have "nEntry (jx9NewHashmap :: jval hashmap) + length (entries m) < 2 ^ 28"
      using assms(2,3) by (simp add: nEntry_entries)
    ultimately obtain m' where m': "keep_entries ?test (entries m) jx9NewHashmap = Inr m'" "map_wf m'" "iNextIdx m' = 0"
        "entries m' = filter (\<lambda>kv. \<forall>b. VMap b \<in> set ws \<longrightarrow> (snd kv \<in> cell_values h b) \<noteq> stop) (entries m)"
      using keep_entries_filter [of "entries m" ?test ?t jx9NewHashmap] t by auto
    then have "map_ok m'" using map_okD(3) [OF assms(2)] by (simp add: map_ok_def node_keys_def distinct_map_filter)
    moreover have "select_entries stop R n h (VMap a # ws) = Inr (new_cell m' h)"
      using m'(1) assms(1,4) by (simp add: select_entries_def on_map_def)
    ultimately show ?thesis using m'(3,4) by blast
  qed
  from this [of True] this [of False] show ?thesis by (simp add: jx9_hashmap_diff_def jx9_hashmap_intersect_def)
qed

text \<open>The cursor goes to the neighbour of its node, and off the array at either end.\<close>

lemma next_after_nth:
  "distinct as \<Longrightarrow> j < length as \<Longrightarrow> next_after (as ! j) as = (if Suc j < length as then Some (as ! Suc j) else None)"
proof (induction as arbitrary: j)
  case (Cons a as)
  show ?case
  proof (cases j)
    case 0
    then show ?thesis by (cases as) auto
  next
    case (Suc i)
    then have "i < length as" "as ! i \<noteq> a" using Cons.prems by auto
    moreover have "next_after (as ! i) (a # as) = next_after (as ! i) as" using calculation by (cases as) auto
    ultimately show ?thesis using Cons Suc by simp
  qed
qed simp

lemma cursor_moves:
  assumes "map_wf m" and "j < length (linked m)" and "pCur m = Some (linked m ! j)"
  shows "HashmapCurrentValue m 0 = Inr (values_of m ! j, m)"
    and "HashmapCurrentValue m 1 =
      (if Suc j < length (linked m) then Inr (values_of m ! Suc j, m\<lparr>pCur := Some (linked m ! Suc j)\<rparr>)
       else Inr (VBool False, m\<lparr>pCur := None\<rparr>))"
    and "HashmapCurrentValue m (- 1) =
      (if 0 < j then Inr (values_of m ! (j - 1), m\<lparr>pCur := Some (linked m ! (j - 1))\<rparr>)
       else Inr (VBool False, m\<lparr>pCur := None\<rparr>))"
proof -
  have d: "distinct (linked m)" using assms(1) by (simp add: map_wf_def nodes_ok_def)
  have v: "HashmapExtractNodeValue (m\<lparr>pCur := c\<rparr>) (linked m ! i) = Inr (values_of m ! i)" if "i < length (linked m)" for i c
  proof -
    have "HashmapExtractNodeValue m (linked m ! i) = Inr (snd (entry_at m (linked m ! i)))"
      by (rule node_entry [OF assms(1)]) (use that in simp)
    then show ?thesis using that by (simp add: values_of_def entries_at [OF assms(1)] HashmapExtractNodeValue_def)
  qed
  have m: "m\<lparr>pCur := Some (linked m ! j)\<rparr> = m" using assms(3) by simp
  show "HashmapCurrentValue m 0 = Inr (values_of m ! j, m)"
    using v [OF assms(2), of "Some (linked m ! j)"] assms(3) by (simp add: HashmapCurrentValue_def Let_def m)
  show "HashmapCurrentValue m 1 =
      (if Suc j < length (linked m) then Inr (values_of m ! Suc j, m\<lparr>pCur := Some (linked m ! Suc j)\<rparr>)
       else Inr (VBool False, m\<lparr>pCur := None\<rparr>))"
    using assms(3) v [of "Suc j"] by (simp add: HashmapCurrentValue_def Let_def next_after_nth [OF d assms(2)])
  have r: "linked m ! j = rev (linked m) ! (length (linked m) - Suc j)" using assms(2) by (simp add: rev_nth)
  have e: "length (linked m) - Suc (Suc (length (linked m) - Suc j)) = j - 1" if "0 < j" using assms(2) that by linarith
  have "next_after (linked m ! j) (rev (linked m)) = (if 0 < j then Some (linked m ! (j - 1)) else None)"
    unfolding r using assms(2) d by (subst next_after_nth) (auto simp: rev_nth e)
  then show "HashmapCurrentValue m (- 1) =
      (if 0 < j then Inr (values_of m ! (j - 1), m\<lparr>pCur := Some (linked m ! (j - 1))\<rparr>)
       else Inr (VBool False, m\<lparr>pCur := None\<rparr>))"
    using assms(2,3) v [of "j - 1"] by (simp add: HashmapCurrentValue_def Let_def)
qed

end
