(* ===== verification/Jx9Text.thy ===== *)
theory Jx9Text
  imports Jx9Ds Jx9Codec Jx9Array
begin

text \<open>
  The functions on strings that the scripts of JX9 call (\<open>builtin.c\<close> within
  \<open>src/jx9/jx9/jx9.c\<close>): parts of a string, comparison, search, trimming, padding. A call
  has its arguments and yields its result; an argument is converted to a string or an integer where
  the function does so. Strings are shorter than a gigabyte, so that their length is an \<open>int\<close>
  and the sum of two lengths as well; arithmetic on integers of the script that leaves the
  range of \<open>int\<close> is undefined. Letters are those of the C locale, bytes from 128 on are none, and
  a byte read as an integer is signed. Memory does not run out.
\<close>

section \<open>Arguments and results\<close>

definition int_arg :: "jx9_heap \<Rightarrow> jval \<Rightarrow> exn + int" where
  "int_arg h v = bindE (jx9_value_as_int h v) (\<lambda>w. Inr (sint w))"

definition int_range :: "int \<Rightarrow> exn + int" where
  "int_range i = (if - (2 ^ 31) \<le> i \<and> i < 2 ^ 31 then Inr i else Inl UB)"

definition int_result :: "int \<Rightarrow> jval" where
  "int_result i = VInt (word_of_int i)"

text \<open>A string is appended to a result that is a string already.\<close>

definition jx9_result_string :: "byte list \<Rightarrow> jval \<Rightarrow> jval" where
  "jx9_result_string s result = (case result of VStr t \<Rightarrow> VStr (t @ s) | _ \<Rightarrow> VStr s)"

definition result_buf_length :: "jval \<Rightarrow> nat" where
  "result_buf_length result = (case result of VStr t \<Rightarrow> length t | _ \<Rightarrow> 0)"

text \<open>What a function sees that takes its string to be terminated by a zero byte.\<close>

definition until_nul :: "byte list \<Rightarrow> byte list" where
  "until_nul s = takeWhile (\<lambda>b. b \<noteq> 0) s"

section \<open>Parts of a string\<close>

text \<open>The position an offset stands for; a negative one counts from the end.\<close>

definition offset_of :: "int \<Rightarrow> byte list \<Rightarrow> nat option" where
  "offset_of nOfft zSource =
     (if nOfft < 0 then if int (length zSource) + nOfft < 0 then None else Some (nat (int (length zSource) + nOfft))
      else if nOfft \<ge> int (length zSource) then None else Some (nat nOfft))"

definition jx9Builtin_substr :: "reals \<Rightarrow> jx9_heap \<Rightarrow> jval list \<Rightarrow> exn + jval" where
  "jx9Builtin_substr R h apArg =
     (case apArg of
        src # ofs # opts \<Rightarrow>
          bindE (MemObjStringValue R h src) (\<lambda>zSource.
          if zSource = [] then Inr (VBool False)
          else
            bindE (int_arg h ofs) (\<lambda>nOfft.
            case offset_of nOfft zSource of
              None \<Rightarrow> Inr (VBool False)
            | Some p \<Rightarrow>
                (let nSrcLen = int (length zSource); all_left = nSrcLen - int p
                 in case opts of
                      [] \<Rightarrow> Inr (VStr (drop p zSource))
                    | v # _ \<Rightarrow>
                        bindE (int_arg h v) (\<lambda>nLen.
                        if nLen = 0 then Inr (VStr [])
                        else
                          (let nLen = (if nLen < 0 then if all_left + nLen < 1 then all_left else all_left + nLen else nLen)
                           in bindE (int_range (nLen + int p)) (\<lambda>end.
                              Inr (VStr (take (nat (if end > nSrcLen then all_left else nLen)) (drop p zSource)))))))))
      | _ \<Rightarrow> Inr (VBool False))"

definition jx9Builtin_substr_compare :: "reals \<Rightarrow> jx9_heap \<Rightarrow> jval list \<Rightarrow> exn + jval" where
  "jx9Builtin_substr_compare R h apArg =
     (case apArg of
        src # sub # ofs # opts \<Rightarrow>
          bindE (MemObjStringValue R h src) (\<lambda>zSource.
          if zSource = [] then Inr (VBool False)
          else
            bindE (MemObjStringValue R h sub) (\<lambda>zSub.
            if zSub = [] \<or> length zSub > length zSource then Inr (VBool False)
            else
              bindE (int_arg h ofs) (\<lambda>nOfft.
              case offset_of nOfft zSource of
                None \<Rightarrow> Inr (VBool False)
              | Some p \<Rightarrow>
                  (let all_left = int (length zSource) - int p;
                       left = Some (until_nul (drop p zSource)); right = Some (until_nul zSub)
                   in case opts of
                        [] \<Rightarrow> Inr (int_result (SyStrncmp left right (nat all_left)))
                      | v # more_opts \<Rightarrow>
                          bindE (int_arg h v) (\<lambda>nLen.
                          if nLen < 1 then Inr (int_result 1)
                          else
                            bindE (int_range (nLen + int p)) (\<lambda>end.
                            bindE (case more_opts of [] \<Rightarrow> Inr False | w # _ \<Rightarrow> MemObjBooleanValue h w) (\<lambda>iCase.
                            let n = nat (if end > int (length zSource) then all_left else nLen)
                            in Inr (int_result (if iCase then SyStrnicmp left right n else SyStrncmp left right n)))))))))
      | _ \<Rightarrow> Inr (VBool False))"

section \<open>Searching\<close>

text \<open>\<open>SyBlobSearch\<close> of \<open>Jx9Ds\<close> is one matcher, the other one takes no account of case.\<close>

type_synonym matcher = "byte list \<Rightarrow> byte list \<Rightarrow> exn + nat option"

fun tail_matches :: "byte list \<Rightarrow> byte list \<Rightarrow> bool" where
  "tail_matches cs [] = True"
| "tail_matches [] (d # ds) = False"
| "tail_matches (c # cs) (d # ds) = (SyCharToLower c = SyCharToLower d \<and> tail_matches cs ds)"

text \<open>The first byte of an empty pattern is the terminator behind it.\<close>

fun match_from :: "byte list \<Rightarrow> byte list \<Rightarrow> nat option" where
  "match_from [] pat = None"
| "match_from (c # cs) pat =
     (if SyCharToLower c = SyCharToLower (case pat of [] \<Rightarrow> 0 | d # _ \<Rightarrow> d) \<and> tail_matches cs (tl pat) then Some 0
      else map_option Suc (match_from cs pat))"

definition iPatternMatch :: matcher where
  "iPatternMatch text pat = Inr (if length pat > length text then None else match_from text pat)"

text \<open>The functions are written twice in the source, for either \<open>ProcStringMatch\<close>.\<close>

definition search_first :: "matcher \<Rightarrow> reals \<Rightarrow> jx9_heap \<Rightarrow> jval list \<Rightarrow> exn + jval" where
  "search_first xPatternMatch R h apArg =
     (case apArg of
        hay # needle # opts \<Rightarrow>
          bindE (MemObjStringValue R h hay) (\<lambda>zBlob. bindE (MemObjStringValue R h needle) (\<lambda>zPattern.
          if zBlob \<noteq> [] \<and> zPattern \<noteq> []
          then
            bindE (xPatternMatch zBlob zPattern) (\<lambda>rc.
            case rc of
              None \<Rightarrow> Inr (VBool False)
            | Some nOfft \<Rightarrow>
                bindE (case opts of [] \<Rightarrow> Inr 0 | v # _ \<Rightarrow> int_arg h v) (\<lambda>before.
                Inr (VStr (if before \<noteq> 0 then take nOfft zBlob else drop nOfft zBlob))))
          else Inr (VBool False)))
      | _ \<Rightarrow> Inr (VBool False))"

definition position_first :: "matcher \<Rightarrow> reals \<Rightarrow> jx9_heap \<Rightarrow> jval list \<Rightarrow> exn + jval" where
  "position_first xPatternMatch R h apArg =
     (case apArg of
        hay # needle # opts \<Rightarrow>
          bindE (MemObjStringValue R h hay) (\<lambda>zBlob. bindE (MemObjStringValue R h needle) (\<lambda>zPattern.
          bindE (case opts of
                   [] \<Rightarrow> Inr 0
                 | v # _ \<Rightarrow> bindE (int_arg h v) (\<lambda>i. bindE (if i < 0 then int_range (- i) else Inr i) (\<lambda>i.
                     Inr (if i \<ge> int (length zBlob) then 0 else nat i)))) (\<lambda>nStart.
          let zBlob = drop nStart zBlob
          in if zBlob \<noteq> [] \<and> zPattern \<noteq> []
             then bindE (xPatternMatch zBlob zPattern) (\<lambda>rc.
               Inr (case rc of
                      None \<Rightarrow> VBool False
                    | Some nOfft \<Rightarrow> VInt (ucast (word_of_nat nOfft + word_of_nat nStart :: u32))))
             else Inr (VBool False))))
      | _ \<Rightarrow> Inr (VBool False))"

text \<open>From the last byte back to the one after \<open>zBlob\<close>: the byte at \<open>zBlob\<close> is left out.\<close>

fun search_back :: "matcher \<Rightarrow> byte list \<Rightarrow> byte list \<Rightarrow> nat \<Rightarrow> nat \<Rightarrow> nat \<Rightarrow> exn + nat option" where
  "search_back xPatternMatch zStart zPattern zBlob zEnd 0 = Inr None"
| "search_back xPatternMatch zStart zPattern zBlob zEnd (Suc zPtr) =
     (if zBlob \<ge> Suc zPtr then Inr None
      else
        bindE (xPatternMatch (take (zEnd - Suc zPtr) (drop (Suc zPtr) zStart)) zPattern) (\<lambda>rc.
        case rc of
          Some nOfft \<Rightarrow> Inr (Some (Suc zPtr + nOfft))
        | None \<Rightarrow> search_back xPatternMatch zStart zPattern zBlob zEnd zPtr))"

definition position_last :: "matcher \<Rightarrow> reals \<Rightarrow> jx9_heap \<Rightarrow> jval list \<Rightarrow> exn + jval" where
  "position_last xPatternMatch R h apArg =
     (case apArg of
        hay # needle # opts \<Rightarrow>
          bindE (MemObjStringValue R h hay) (\<lambda>zStart. bindE (MemObjStringValue R h needle) (\<lambda>zPattern.
          bindE (case opts of
                   [] \<Rightarrow> Inr (Some (0, length zStart))
                 | v # _ \<Rightarrow>
                     bindE (int_arg h v) (\<lambda>nStart.
                     if nStart < 0
                     then bindE (int_range (- nStart)) (\<lambda>n.
                       Inr (if n \<ge> int (length zStart) then None else Some (0, length zStart - nat n)))
                     else Inr (if nStart \<ge> int (length zStart) then None else Some (nat nStart, length zStart))))
            (\<lambda>bounds.
          case bounds of
            None \<Rightarrow> Inr (VBool False)
          | Some (zBlob, zEnd) \<Rightarrow>
              if zBlob < zEnd \<and> zPattern \<noteq> []
              then bindE (search_back xPatternMatch zStart zPattern zBlob zEnd (zEnd - 1)) (\<lambda>rc.
                Inr (case rc of None \<Rightarrow> VBool False | Some p \<Rightarrow> VInt (word_of_nat p)))
              else Inr (VBool False))))
      | _ \<Rightarrow> Inr (VBool False))"

definition jx9Builtin_strstr :: "reals \<Rightarrow> jx9_heap \<Rightarrow> jval list \<Rightarrow> exn + jval" where
  "jx9Builtin_strstr = search_first SyBlobSearch"

definition jx9Builtin_stristr :: "reals \<Rightarrow> jx9_heap \<Rightarrow> jval list \<Rightarrow> exn + jval" where
  "jx9Builtin_stristr = search_first iPatternMatch"

definition jx9Builtin_strpos :: "reals \<Rightarrow> jx9_heap \<Rightarrow> jval list \<Rightarrow> exn + jval" where
  "jx9Builtin_strpos = position_first SyBlobSearch"

definition jx9Builtin_stripos :: "reals \<Rightarrow> jx9_heap \<Rightarrow> jval list \<Rightarrow> exn + jval" where
  "jx9Builtin_stripos = position_first iPatternMatch"

definition jx9Builtin_strrpos :: "reals \<Rightarrow> jx9_heap \<Rightarrow> jval list \<Rightarrow> exn + jval" where
  "jx9Builtin_strrpos = position_last SyBlobSearch"

definition jx9Builtin_strripos :: "reals \<Rightarrow> jx9_heap \<Rightarrow> jval list \<Rightarrow> exn + jval" where
  "jx9Builtin_strripos = position_last iPatternMatch"

definition jx9Builtin_strrchr :: "reals \<Rightarrow> jx9_heap \<Rightarrow> jval list \<Rightarrow> exn + jval" where
  "jx9Builtin_strrchr R h apArg =
     (case apArg of
        hay # needle # _ \<Rightarrow>
          bindE (MemObjStringValue R h hay) (\<lambda>zBlob.
          if zBlob = [] then Inr (VBool False)
          else
            bindE (case needle of VStr s \<Rightarrow> Inr (case s of [] \<Rightarrow> 0 | b # _ \<Rightarrow> sint b) | _ \<Rightarrow> int_arg h needle) (\<lambda>c.
            bindE (SyByteFind2 zBlob c) (\<lambda>r.
            Inr (case r of None \<Rightarrow> VBool False | Some nOfft \<Rightarrow> VStr (drop nOfft zBlob)))))
      | _ \<Rightarrow> Inr (VBool False))"

text \<open>Occurrences are counted without overlaps; the length that may follow the offset is looked at.\<close>

function count_from :: "byte list \<Rightarrow> byte list \<Rightarrow> exn + nat" where
  "count_from zText zPattern =
     (if zPattern = [] then Inr 0
      else
        bindE (SyBlobSearch zText zPattern) (\<lambda>rc.
        case rc of
          None \<Rightarrow> Inr 0
        | Some nOfft \<Rightarrow>
            (let zText' = drop (nOfft + length zPattern) zText
             in if zText' = [] then Inr 1 else bindE (count_from zText' zPattern) (\<lambda>n. Inr (Suc n)))))"
  by pat_completeness auto
termination
  by (relation "measure (\<lambda>(zText, zPattern). length zText)") (auto simp flip: length_greater_0_conv)

declare count_from.simps [simp del]

definition jx9Builtin_substr_count :: "reals \<Rightarrow> jx9_heap \<Rightarrow> jval list \<Rightarrow> exn + jval" where
  "jx9Builtin_substr_count R h apArg =
     (case apArg of
        hay # needle # opts \<Rightarrow>
          bindE (MemObjStringValue R h hay) (\<lambda>zText. bindE (MemObjStringValue R h needle) (\<lambda>zPattern.
          if zText = [] \<or> zPattern = [] \<or> length zPattern > length zText then Inr (VInt 0)
          else
            bindE (case opts of [] \<Rightarrow> Inr 0 | v # _ \<Rightarrow> int_arg h v) (\<lambda>nOfft.
            if nOfft < 0 \<or> nOfft > int (length zText) then Inr (VInt 0)
            else
              (let zText = drop (nat nOfft) zText
               in bindE (case opts of _ # w # _ \<Rightarrow> int_arg h w | _ \<Rightarrow> Inr (int (length zText))) (\<lambda>nLen.
                  if nLen < 0 \<or> nLen > int (length zText) then Inr (VInt 0)
                  else bindE (count_from (take (nat nLen) zText) zPattern) (\<lambda>n. Inr (VInt (word_of_nat n))))))))
      | _ \<Rightarrow> Inr (VInt 0))"

section \<open>Comparing\<close>

type_synonym comparer = "byte list option \<Rightarrow> byte list option \<Rightarrow> nat \<Rightarrow> int"

definition compare_whole :: "comparer \<Rightarrow> reals \<Rightarrow> jx9_heap \<Rightarrow> jval list \<Rightarrow> exn + jval" where
  "compare_whole cmp R h apArg =
     (case apArg of
        v # w # _ \<Rightarrow>
          bindE (MemObjStringValue R h v) (\<lambda>z1. bindE (MemObjStringValue R h w) (\<lambda>z2.
          Inr (int_result (cmp (Some (until_nul z1)) (Some (until_nul z2)) (max (length z1) (length z2))))))
      | _ \<Rightarrow> Inr (int_result (if apArg = [] then 0 else 1)))"

definition compare_part :: "comparer \<Rightarrow> reals \<Rightarrow> jx9_heap \<Rightarrow> jval list \<Rightarrow> exn + jval" where
  "compare_part cmp R h apArg =
     (case apArg of
        v # w # len # _ \<Rightarrow>
          bindE (int_arg h len) (\<lambda>n.
          if n < 0 then Inr (int_result (- 1))
          else bindE (MemObjStringValue R h v) (\<lambda>z1. bindE (MemObjStringValue R h w) (\<lambda>z2.
            Inr (int_result (cmp (Some (until_nul z1)) (Some (until_nul z2)) (nat n))))))
      | _ \<Rightarrow> compare_whole cmp R h apArg)"

definition jx9Builtin_strcmp :: "reals \<Rightarrow> jx9_heap \<Rightarrow> jval list \<Rightarrow> exn + jval" where
  "jx9Builtin_strcmp = compare_whole SyStrncmp"

definition jx9Builtin_strncmp :: "reals \<Rightarrow> jx9_heap \<Rightarrow> jval list \<Rightarrow> exn + jval" where
  "jx9Builtin_strncmp = compare_part SyStrncmp"

definition jx9Builtin_strcasecmp :: "reals \<Rightarrow> jx9_heap \<Rightarrow> jval list \<Rightarrow> exn + jval" where
  "jx9Builtin_strcasecmp = compare_whole SyStrnicmp"

definition jx9Builtin_strncasecmp :: "reals \<Rightarrow> jx9_heap \<Rightarrow> jval list \<Rightarrow> exn + jval" where
  "jx9Builtin_strncasecmp = compare_part SyStrnicmp"

definition jx9Builtin_strlen :: "reals \<Rightarrow> jx9_heap \<Rightarrow> jval list \<Rightarrow> exn + jval" where
  "jx9Builtin_strlen R h apArg =
     (case apArg of [] \<Rightarrow> Inr (VInt 0) | v # _ \<Rightarrow> bindE (MemObjStringValue R h v) (\<lambda>s. Inr (VInt (word_of_nat (length s)))))"

section \<open>Trimming\<close>

definition safe_space :: "byte \<Rightarrow> bool" where
  "safe_space c \<longleftrightarrow> c < 0xC0 \<and> (c = 0 \<or> SyisSpace c)"

definition SyStringLeftTrimSafe :: "byte list \<Rightarrow> byte list" where
  "SyStringLeftTrimSafe s = dropWhile safe_space s"

definition SyStringRightTrimSafe :: "byte list \<Rightarrow> byte list" where
  "SyStringRightTrimSafe s = rev (dropWhile safe_space (rev s))"

definition SyStringFullTrimSafe :: "byte list \<Rightarrow> byte list" where
  "SyStringFullTrimSafe s = SyStringRightTrimSafe (SyStringLeftTrimSafe s)"

text \<open>
  One pass over the list of bytes takes a byte away for every one of the list that stands at the
  front by then, as long as more than \<open>keep\<close> bytes are left; the passes end with one that took nothing.
\<close>

fun trim_pass :: "nat \<Rightarrow> byte list \<Rightarrow> byte list \<Rightarrow> byte list" where
  "trim_pass keep [] s = s"
| "trim_pass keep (l # zList) s =
     trim_pass keep zList (if length s > keep \<and> s \<noteq> [] \<and> hd s = l then tl s else s)"

lemma trim_pass_length: "length (trim_pass keep zList s) \<le> length s"
proof (induction zList arbitrary: s)
  case (Cons l zList)
  have "length (if length s > keep \<and> s \<noteq> [] \<and> hd s = l then tl s else s) \<le> length s" by simp
  then show ?case using le_trans [OF Cons.IH] by (simp only: trim_pass.simps)
qed simp

function trim_front :: "nat \<Rightarrow> byte list \<Rightarrow> byte list \<Rightarrow> byte list" where
  "trim_front keep zList s =
     (if length s \<le> keep then s
      else
        (let s' = trim_pass keep zList s
         in if length s' = length s then s' else trim_front keep zList s'))"
  by pat_completeness auto
termination
  by (relation "measure (\<lambda>(keep, zList, s). length s)") (auto simp: le_neq_implies_less trim_pass_length)

declare trim_front.simps [simp del]

text \<open>From the end the pointers stay on a byte of the string: its last one is never taken.\<close>

definition right_trim :: "byte list \<Rightarrow> byte list \<Rightarrow> byte list" where
  "right_trim zList s = (let s' = rev (trim_front 1 zList (rev s)) in if length s' \<le> 1 then [] else s')"

definition trim_function ::
  "(byte list \<Rightarrow> byte list) \<Rightarrow> (byte list \<Rightarrow> byte list \<Rightarrow> byte list) \<Rightarrow> reals \<Rightarrow> jx9_heap \<Rightarrow> jval list \<Rightarrow> exn + jval"
where
  "trim_function spaces listed R h apArg =
     (case apArg of
        [] \<Rightarrow> Inr VNull
      | v # opts \<Rightarrow>
          bindE (MemObjStringValue R h v) (\<lambda>zString.
          if zString = [] then Inr (VStr [])
          else
            case opts of
              [] \<Rightarrow> Inr (VStr (spaces zString))
            | w # _ \<Rightarrow>
                bindE (MemObjStringValue R h w) (\<lambda>zList.
                Inr (VStr (if zList = [] then zString else listed zList zString)))))"

definition jx9Builtin_trim :: "reals \<Rightarrow> jx9_heap \<Rightarrow> jval list \<Rightarrow> exn + jval" where
  "jx9Builtin_trim = trim_function SyStringFullTrimSafe (\<lambda>zList s. right_trim zList (trim_front 0 zList s))"

definition jx9Builtin_rtrim :: "reals \<Rightarrow> jx9_heap \<Rightarrow> jval list \<Rightarrow> exn + jval" where
  "jx9Builtin_rtrim = trim_function SyStringRightTrimSafe right_trim"

definition jx9Builtin_ltrim :: "reals \<Rightarrow> jx9_heap \<Rightarrow> jval list \<Rightarrow> exn + jval" where
  "jx9Builtin_ltrim = trim_function SyStringLeftTrimSafe (trim_front 0)"

section \<open>Bytes one by one\<close>

text \<open>A byte from 0xC0 on and the continuation bytes behind it are copied.\<close>

fun change_case :: "(byte \<Rightarrow> byte) \<Rightarrow> bool \<Rightarrow> byte list \<Rightarrow> byte list" where
  "change_case f utf8 [] = []"
| "change_case f utf8 (c # cs) =
     (if c \<ge> 0xC0 then c # change_case f True cs
      else if utf8 \<and> c AND 0xC0 = 0x80 then c # change_case f True cs
      else f c # change_case f False cs)"

definition case_function :: "(byte \<Rightarrow> byte) \<Rightarrow> reals \<Rightarrow> jx9_heap \<Rightarrow> jval list \<Rightarrow> exn + jval" where
  "case_function f R h apArg =
     (case apArg of
        [] \<Rightarrow> Inr VNull
      | v # _ \<Rightarrow> bindE (MemObjStringValue R h v) (\<lambda>zString. Inr (VStr (change_case f False zString))))"

definition jx9Builtin_strtolower :: "reals \<Rightarrow> jx9_heap \<Rightarrow> jval list \<Rightarrow> exn + jval" where
  "jx9Builtin_strtolower = case_function (\<lambda>c. if SyisUpper c then c + 32 else c)"

definition jx9Builtin_strtoupper :: "reals \<Rightarrow> jx9_heap \<Rightarrow> jval list \<Rightarrow> exn + jval" where
  "jx9Builtin_strtoupper = case_function (\<lambda>c. if SyisLower c then c - 32 else c)"

definition jx9Builtin_ord :: "reals \<Rightarrow> jx9_heap \<Rightarrow> jval list \<Rightarrow> exn + jval" where
  "jx9Builtin_ord R h apArg =
     (case apArg of
        [] \<Rightarrow> Inr (int_result (- 1))
      | v # _ \<Rightarrow> bindE (MemObjStringValue R h v) (\<lambda>zString.
          Inr (int_result (case zString of [] \<Rightarrow> - 1 | c # _ \<Rightarrow> sint c))))"

definition jx9Builtin_chr :: "jx9_heap \<Rightarrow> jval list \<Rightarrow> exn + jval" where
  "jx9Builtin_chr h apArg =
     (case apArg of
        [] \<Rightarrow> Inr VNull
      | v # _ \<Rightarrow> bindE (jx9_value_as_int h v) (\<lambda>c. Inr (VStr [ucast c])))"

definition jx9Builtin_bin2hex :: "reals \<Rightarrow> jx9_heap \<Rightarrow> jval list \<Rightarrow> exn + jval" where
  "jx9Builtin_bin2hex R h apArg =
     (case apArg of
        [] \<Rightarrow> Inr VNull
      | v # _ \<Rightarrow> bindE (MemObjStringValue R h v) (\<lambda>zString.
          Inr (VStr (if zString = [] then [] else snd (SyBinToHexConsumer zString Consumer [])))))"

definition jx9Builtin_strrev :: "reals \<Rightarrow> jx9_heap \<Rightarrow> jval list \<Rightarrow> exn + jval" where
  "jx9Builtin_strrev R h apArg =
     (case apArg of
        [] \<Rightarrow> Inr VNull
      | v # _ \<Rightarrow> bindE (MemObjStringValue R h v) (\<lambda>zIn. Inr (if zIn = [] then VNull else VStr (rev zIn))))"

fun repeat_string :: "byte list \<Rightarrow> nat \<Rightarrow> jval \<Rightarrow> jval" where
  "repeat_string zIn 0 result = result"
| "repeat_string zIn (Suc nMul) result = repeat_string zIn nMul (jx9_result_string zIn result)"

definition jx9Builtin_str_repeat :: "reals \<Rightarrow> jx9_heap \<Rightarrow> jval list \<Rightarrow> exn + jval" where
  "jx9Builtin_str_repeat R h apArg =
     (case apArg of
        v # w # _ \<Rightarrow>
          bindE (MemObjStringValue R h v) (\<lambda>zIn.
          if zIn = [] then Inr VNull
          else bindE (int_arg h w) (\<lambda>nMul. Inr (if nMul < 1 then VStr [] else repeat_string zIn (nat nMul) VNull)))
      | _ \<Rightarrow> Inr VNull)"

definition line_end :: "byte \<Rightarrow> bool" where
  "line_end c \<longleftrightarrow> c = 10 \<or> c = 13"

function break_lines :: "byte list \<Rightarrow> byte list \<Rightarrow> byte list" where
  "break_lines br zIn =
     (let chunk = takeWhile (\<lambda>c. \<not> line_end c) zIn; left = dropWhile (\<lambda>c. \<not> line_end c) zIn
      in if left = [] then chunk
         else chunk @ br @ takeWhile line_end left @ break_lines br (dropWhile line_end left))"
  by pat_completeness auto
termination
proof (relation "measure (\<lambda>(br, zIn). length zIn)")
  fix br zIn :: "byte list" and chunk left
  assume l: "left = dropWhile (\<lambda>c. \<not> line_end c) zIn" "left \<noteq> []"
  then have "line_end (hd left)" using hd_dropWhile [of "\<lambda>c. \<not> line_end c" zIn] by simp
  then have "length (dropWhile line_end left) < length left"
    using l(2) length_dropWhile_le [of line_end "tl left"] by (cases left) auto
  also have "\<dots> \<le> length zIn" unfolding l(1) by (rule length_dropWhile_le)
  finally show "((br, dropWhile line_end left), br, zIn) \<in> measure (\<lambda>(br, zIn). length zIn)" by simp
qed simp

declare break_lines.simps [simp del]

definition jx9Builtin_nl2br :: "reals \<Rightarrow> jx9_heap \<Rightarrow> jval list \<Rightarrow> exn + jval" where
  "jx9Builtin_nl2br R h apArg =
     (case apArg of
        [] \<Rightarrow> Inr (VStr [])
      | v # opts \<Rightarrow>
          bindE (MemObjStringValue R h v) (\<lambda>zIn.
          if zIn = [] then Inr VNull
          else bindE (case opts of [] \<Rightarrow> Inr False | w # _ \<Rightarrow> MemObjBooleanValue h w) (\<lambda>is_xhtml.
            Inr (VStr (break_lines (bytes_of (if is_xhtml then ''<br>'' else ''<br/>'')) zIn)))))"

section \<open>Masks\<close>

text \<open>The token ends at a space and at a byte from 0xC0 on.\<close>

definition plain_space :: "byte \<Rightarrow> bool" where
  "plain_space c \<longleftrightarrow> c < 0xC0 \<and> SyisSpace c"

definition ExtractNonSpaceToken :: "byte list \<Rightarrow> byte list option" where
  "ExtractNonSpaceToken zIn =
     (let zIn = dropWhile plain_space zIn
      in if zIn = [] then None else Some (takeWhile (\<lambda>c. c < 0xC0 \<and> \<not> SyisSpace c) zIn))"

definition LongestStringMask :: "byte list \<Rightarrow> byte list \<Rightarrow> nat" where
  "LongestStringMask zString zMask = length (takeWhile (\<lambda>c. c \<in> set zMask) zString)"

definition LongestStringMask2 :: "byte list \<Rightarrow> byte list \<Rightarrow> nat" where
  "LongestStringMask2 zString zMask = length (takeWhile (\<lambda>c. c \<notin> set zMask) zString)"

text \<open>The part of the string that is looked at, \<open>None\<close> for an invalid offset.\<close>

definition mask_part :: "jx9_heap \<Rightarrow> jval list \<Rightarrow> byte list \<Rightarrow> exn + byte list option" where
  "mask_part h opts zString =
     (case opts of
        [] \<Rightarrow> Inr (Some zString)
      | v # more_opts \<Rightarrow>
          bindE (int_arg h v) (\<lambda>nOfft.
          let iLen = int (length zString);
              start = (if nOfft < 0 then if iLen + nOfft > 0 then Some (nat (iLen + nOfft)) else None
                       else if nOfft \<ge> iLen then None else Some (nat nOfft))
          in case start of
               None \<Rightarrow> Inr None
             | Some p \<Rightarrow>
                 (case more_opts of
                    [] \<Rightarrow> Inr (Some (drop p zString))
                  | w # _ \<Rightarrow>
                      bindE (int_arg h w) (\<lambda>iUserlen.
                      Inr (Some (if iUserlen > 0 \<and> iUserlen < iLen - int p then take (nat iUserlen) (drop p zString)
                                 else drop p zString))))))"

definition mask_function ::
  "(byte list \<Rightarrow> byte list \<Rightarrow> nat) \<Rightarrow> (byte list \<Rightarrow> nat) \<Rightarrow> reals \<Rightarrow> jx9_heap \<Rightarrow> jval list \<Rightarrow> exn + jval"
where
  "mask_function longest no_mask R h apArg =
     (case apArg of
        v # w # opts \<Rightarrow>
          bindE (MemObjStringValue R h v) (\<lambda>zString. bindE (MemObjStringValue R h w) (\<lambda>zMask.
          if zString = [] then Inr (VInt 0)
          else if zMask = [] then Inr (VInt (word_of_nat (no_mask zString)))
          else bindE (mask_part h opts zString) (\<lambda>part.
            Inr (VInt (word_of_nat (case Option.bind part ExtractNonSpaceToken of None \<Rightarrow> 0 | Some sToken \<Rightarrow> longest sToken zMask))))))
      | _ \<Rightarrow> Inr (VInt 0))"

definition jx9Builtin_strspn :: "reals \<Rightarrow> jx9_heap \<Rightarrow> jval list \<Rightarrow> exn + jval" where
  "jx9Builtin_strspn = mask_function LongestStringMask (\<lambda>s. 0)"

definition jx9Builtin_strcspn :: "reals \<Rightarrow> jx9_heap \<Rightarrow> jval list \<Rightarrow> exn + jval" where
  "jx9Builtin_strcspn = mask_function LongestStringMask2 length"

fun first_listed :: "byte list \<Rightarrow> byte list \<Rightarrow> nat option \<Rightarrow> nat option" where
  "first_listed zString [] nOfft = nOfft"
| "first_listed zString (c # zList) nOfft =
     first_listed zString zList
       (case SyByteFind zString (sint c) of
          None \<Rightarrow> nOfft
        | Some nMax \<Rightarrow> (case nOfft of None \<Rightarrow> Some nMax | Some n \<Rightarrow> Some (min nMax n)))"

definition jx9Builtin_strpbrk :: "reals \<Rightarrow> jx9_heap \<Rightarrow> jval list \<Rightarrow> exn + jval" where
  "jx9Builtin_strpbrk R h apArg =
     (case apArg of
        v # w # _ \<Rightarrow>
          bindE (MemObjStringValue R h v) (\<lambda>zString. bindE (MemObjStringValue R h w) (\<lambda>zList.
          Inr (if zString = [] then VBool False
               else case first_listed zString zList None of None \<Rightarrow> VBool False | Some nOfft \<Rightarrow> VStr (drop nOfft zString))))
      | _ \<Rightarrow> Inr (VBool False))"

section \<open>Padding and chunks\<close>

text \<open>
  Whole paddings as long as the result, with \<open>base\<close> bytes still to come, stays shorter than
  asked for; then what is missing, the last padding cut off. A padding is never empty.
\<close>

function pad_whole :: "byte list \<Rightarrow> nat \<Rightarrow> nat \<Rightarrow> nat \<Rightarrow> nat \<Rightarrow> jval \<Rightarrow> jval" where
  "pad_whole zPad base iRealPad n i result =
     (if zPad = [] \<or> i \<ge> n \<or> result_buf_length result + base + length zPad \<ge> iRealPad then result
      else pad_whole zPad base iRealPad n (i + length zPad) (jx9_result_string zPad result))"
  by pat_completeness auto
termination
  by (relation "measure (\<lambda>(zPad, base, iRealPad, n, i, result). n - i)") (auto simp flip: length_greater_0_conv)

lemma result_buf_length_string [simp]:
  "result_buf_length (jx9_result_string s result) = result_buf_length result + length s"
  by (cases result) (simp_all add: result_buf_length_def jx9_result_string_def)

function pad_rest :: "byte list \<Rightarrow> nat \<Rightarrow> nat \<Rightarrow> jval \<Rightarrow> jval" where
  "pad_rest zPad base iRealPad result =
     (let jPad = min (iRealPad - (base + result_buf_length result)) (length zPad)
      in if jPad < 1 then result
         else pad_rest zPad base iRealPad (jx9_result_string (take jPad zPad) result))"
  by pat_completeness auto
termination
  by (relation "measure (\<lambda>(zPad, base, iRealPad, result). iRealPad - (base + result_buf_length result))")
    (auto simp: min_def simp flip: length_greater_0_conv)

declare pad_whole.simps [simp del] pad_rest.simps [simp del]

definition pad_string :: "int \<Rightarrow> byte list \<Rightarrow> byte list \<Rightarrow> nat \<Rightarrow> jval" where
  "pad_string iType zIn zPad iRealPad =
     (let n = (iRealPad - length zIn) div (if iType = 2 then 2 else 1);
          left = (if iType = 0 \<or> iType = 2 then pad_whole zPad (length zIn) iRealPad n 0 VNull else VNull);
          left = (if iType = 0 then pad_rest zPad (length zIn) iRealPad left else left);
          body = (if zIn \<noteq> [] then jx9_result_string zIn left else left)
      in if iType = 1 \<or> iType = 2
         then pad_rest zPad 0 iRealPad (pad_whole zPad 0 iRealPad n 0 body) else body)"

definition jx9Builtin_str_pad :: "reals \<Rightarrow> jx9_heap \<Rightarrow> jval list \<Rightarrow> exn + jval" where
  "jx9Builtin_str_pad R h apArg =
     (case apArg of
        v # w # opts \<Rightarrow>
          bindE (MemObjStringValue R h v) (\<lambda>zIn. bindE (int_arg h w) (\<lambda>iRealPad.
          if iRealPad \<le> int (length zIn) then Inr (VStr zIn)
          else
            bindE (case opts of [] \<Rightarrow> Inr [32] | x # _ \<Rightarrow> bindE (MemObjStringValue R h x) (\<lambda>z. Inr (if z = [] then [32] else z)))
              (\<lambda>zPad.
            bindE (case opts of _ # y # _ \<Rightarrow> bindE (int_arg h y) (\<lambda>t. Inr (if t \<noteq> 0 \<and> t \<noteq> 2 then 1 else t)) | _ \<Rightarrow> Inr 1)
              (\<lambda>iType.
            Inr (pad_string iType zIn zPad (nat iRealPad))))))
      | _ \<Rightarrow> Inr (VStr []))"

function chunks_of :: "nat \<Rightarrow> byte list \<Rightarrow> byte list list" where
  "chunks_of n s = (if s = [] \<or> n = 0 then [] else take n s # chunks_of n (drop n s))"
  by pat_completeness auto
termination
  by (relation "measure (\<lambda>(n, s). length s)") (auto simp flip: length_greater_0_conv)

declare chunks_of.simps [simp del]

text \<open>A chunk and the separator are appended with \<open>%.*s%.*s\<close>, which copies the given lengths.\<close>

definition jx9Builtin_chunk_split :: "reals \<Rightarrow> jx9_heap \<Rightarrow> jval list \<Rightarrow> exn + jval" where
  "jx9Builtin_chunk_split R h apArg =
     (case apArg of
        VStr zIn # opts \<Rightarrow>
          bindE (case opts of [] \<Rightarrow> Inr 76 | v # _ \<Rightarrow> bindE (int_arg h v) (\<lambda>n. Inr (if n < 1 then 76 else n))) (\<lambda>nChunkLen.
          bindE (case opts of
                   _ # w # _ \<Rightarrow> bindE (MemObjStringValue R h w) (\<lambda>z. Inr (if z = [] then [13, 10] else z))
                 | _ \<Rightarrow> Inr [13, 10]) (\<lambda>zSep.
          Inr (VStr (if nChunkLen > int (length zIn) then zIn @ zSep
                     else concat (map (\<lambda>c. c @ zSep) (chunks_of (nat nChunkLen) zIn))))))
      | _ \<Rightarrow> Inr VNull)"

section \<open>Facts about arguments\<close>

lemma string_arg [simp]: "MemObjStringValue R h (VStr s) = Inr s"
  by (simp add: MemObjStringValue_def)

lemma sint_u32_of_int: "- (2 ^ 31) \<le> k \<Longrightarrow> k < 2 ^ 31 \<Longrightarrow> sint (word_of_int k :: u32) = k"
  by (simp add: signed_of_int signed_take_bit_int_eq_self)

lemma int_arg_int:
  assumes "- (2 ^ 31) \<le> k" and "k < 2 ^ 31"
  shows "int_arg h (VInt (word_of_int k)) = Inr k"
proof -
  have "(ucast (word_of_int k :: u64) :: u32) = word_of_int k"
    by (rule bit_word_eqI) (simp add: bit_simps)
  then show ?thesis
    using sint_u32_of_int [OF assms] by (simp add: int_arg_def jx9_value_as_int_def MemObjIntValue_def jx9_value_to_int_def)
qed

lemma int_range_Inr [simp]: "- (2 ^ 31) \<le> i \<Longrightarrow> i < 2 ^ 31 \<Longrightarrow> int_range i = Inr i"
  and int_range_UB [simp]: "2 ^ 31 \<le> i \<Longrightarrow> int_range i = Inl UB"
  by (simp_all add: int_range_def)

section \<open>What the searches find\<close>

definition stands :: "(byte \<Rightarrow> byte \<Rightarrow> bool) \<Rightarrow> byte list \<Rightarrow> byte list \<Rightarrow> nat \<Rightarrow> bool" where
  "stands same pat text i \<longleftrightarrow> i + length pat \<le> length text \<and> list_all2 same (take (length pat) (drop i text)) pat"

lemma stands_Cons [simp]: "stands same pat (c # cs) (Suc i) \<longleftrightarrow> stands same pat cs i"
  by (simp add: stands_def)

lemma stands_Nil [simp]: "pat \<noteq> [] \<Longrightarrow> \<not> stands same pat [] i"
  by (simp add: stands_def)

lemma stands_drop: "p \<le> length text \<Longrightarrow> stands same pat (drop p text) i \<longleftrightarrow> stands same pat text (p + i)"
  by (auto simp: stands_def add.commute)

text \<open>The first place at which the pattern stands.\<close>

definition place :: "(byte \<Rightarrow> byte \<Rightarrow> bool) \<Rightarrow> byte list \<Rightarrow> byte list \<Rightarrow> nat option" where
  "place same pat z = (if \<exists>i. stands same pat z i then Some (LEAST i. stands same pat z i) else None)"

lemma place_Some: "place same pat z = Some i \<longleftrightarrow> stands same pat z i \<and> (\<forall>j<i. \<not> stands same pat z j)"
proof -
  have "(LEAST i. stands same pat z i) = i" if "stands same pat z i" "\<forall>j<i. \<not> stands same pat z j"
    using that by (intro Least_equality) (auto simp: not_less [symmetric])
  then show ?thesis by (auto simp: place_def intro: LeastI dest: not_less_Least)
qed

lemma place_None: "place same pat z = None \<longleftrightarrow> (\<forall>i. \<not> stands same pat z i)"
  by (simp add: place_def)

lemma place_Cons:
  "place same pat (c # cs) = (if stands same pat (c # cs) 0 then Some 0 else map_option Suc (place same pat cs))"
proof (cases "stands same pat (c # cs) 0")
  case True
  then show ?thesis by (simp add: place_Some)
next
  case first: False
  show ?thesis
  proof (cases "place same pat cs")
    case None
    have "\<not> stands same pat (c # cs) i" for i using None first by (cases i) (auto simp: place_None)
    then have "place same pat (c # cs) = None" by (simp add: place_None)
    then show ?thesis using None first by simp
  next
    case (Some i)
    have "\<not> stands same pat (c # cs) j" if "j < Suc i" for j
      using Some first that by (cases j) (auto simp: place_Some)
    moreover have "stands same pat (c # cs) (Suc i)" using Some by (simp add: place_Some)
    ultimately have "place same pat (c # cs) = Some (Suc i)" by (simp add: place_Some)
    then show ?thesis using Some first by simp
  qed
qed

lemma place_short: "length z < length pat \<Longrightarrow> place same pat z = None"
  by (simp add: place_None stands_def)

text \<open>A matcher finds the first place at which the pattern stands.\<close>

locale pattern_search =
  fixes xMatch :: matcher and same :: "byte \<Rightarrow> byte \<Rightarrow> bool"
  assumes finds: "pat \<noteq> [] \<Longrightarrow> xMatch z pat = Inr (place same pat z)"
begin

lemma search_back_last:
  assumes "pat \<noteq> []" and "p < zEnd" and "zEnd \<le> length s" and "\<And>j. p < j \<Longrightarrow> \<not> stands same pat (take zEnd s) j"
  shows "search_back xMatch s pat zBlob zEnd p =
    Inr (if \<exists>i>zBlob. stands same pat (take zEnd s) i then Some (GREATEST i. stands same pat (take zEnd s) i) else None)"
  using assms(2,4)
proof (induction p)
  case 0
  then show ?case by auto
next
  case (Suc p)
  let ?z = "take zEnd s"
  have part: "take (zEnd - Suc p) (drop (Suc p) s) = drop (Suc p) ?z" by (simp add: drop_take)
  have at: "stands same pat (drop (Suc p) ?z) i \<longleftrightarrow> stands same pat ?z (Suc p + i)" for i
    using Suc.prems(1) assms(3) by (intro stands_drop) simp
  show ?case
  proof (cases "zBlob \<ge> Suc p")
    case True
    then show ?thesis using Suc.prems(2) by (auto simp: le_less_trans)
  next
    case before: False
    show ?thesis
    proof (cases "stands same pat ?z (Suc p)")
      case True
      then have "place same pat (drop (Suc p) ?z) = Some 0" using at [of 0] by (simp add: place_Some)
      moreover have "(GREATEST i. stands same pat ?z i) = Suc p"
        using True Suc.prems(2) by (intro Greatest_equality) (auto simp: not_less [symmetric])
      moreover have "\<exists>i>zBlob. stands same pat ?z i" using True before by (auto intro: exI [of _ "Suc p"])
      ultimately show ?thesis using before finds [OF assms(1)] by (simp add: part)
    next
      case False
      have later: "\<not> stands same pat ?z j" if "p < j" for j
        using Suc.prems(2) [of j] False that by (cases "j = Suc p") auto
      then have "place same pat (drop (Suc p) ?z) = None" using at by (simp add: place_None)
      then show ?thesis using Suc.IH [OF _ later] Suc.prems(1) before finds [OF assms(1)] by (simp add: part)
    qed
  qed
qed

lemma search_first_place:
  assumes "s \<noteq> []" and "pat \<noteq> []"
  shows "search_first xMatch R h [VStr s, VStr pat] =
    Inr (case place same pat s of None \<Rightarrow> VBool False | Some i \<Rightarrow> VStr (drop i s))"
  using assms finds [OF assms(2)] by (simp add: search_first_def split: option.split)

lemma position_first_place:
  assumes "pat \<noteq> []" and "length s < 2 ^ 31" and "k < length s" and opts: "opts = [VInt (word_of_nat k)] \<or> opts = [] \<and> k = 0"
  shows "position_first xMatch R h (VStr s # VStr pat # opts) =
    Inr (case place same pat (drop k s) of None \<Rightarrow> VBool False | Some i \<Rightarrow> VInt (word_of_nat (k + i)))"
proof -
  have k: "(ucast (word_of_nat i + word_of_nat k :: u32) :: u64) = word_of_nat (k + i)"
    if "place same pat (drop k s) = Some i" for i
  proof -
    have "i + length pat \<le> length s - k" using that by (simp add: place_Some stands_def)
    then have "k + i < 2 ^ 32" using assms(2,3) by simp
    then have "take_bit 32 (k + i) = k + i" by (simp add: take_bit_nat_eq_self_iff)
    moreover have "(ucast (word_of_nat (k + i) :: u32) :: u64) = word_of_nat (take_bit 32 (k + i))"
      by (simp add: unsigned_of_nat del: of_nat_add)
    ultimately show ?thesis by (simp add: add.commute)
  qed
  have "int_arg h (VInt (word_of_nat k)) = Inr (int k)"
    using int_arg_int [of "int k" h] assms(2,3) by simp
  then show ?thesis
    using opts assms(1,3) finds [OF assms(1)] k
    by (elim disjE) (simp_all add: position_first_def Let_def split: option.split)
qed

lemma position_last_place:
  assumes "s \<noteq> []" and "pat \<noteq> []"
  shows "position_last xMatch R h [VStr s, VStr pat] =
    Inr (if \<exists>i>0. stands same pat s i then VInt (word_of_nat (GREATEST i. stands same pat s i)) else VBool False)"
proof -
  have "\<not> stands same pat (take (length s) s) j" if "length s - 1 < j" for j
    using that assms(2) by (cases pat) (auto simp: stands_def)
  moreover have "length s - 1 < length s" using assms(1) by (cases s) simp_all
  ultimately have "search_back xMatch s pat 0 (length s) (length s - 1) =
    Inr (if \<exists>i>0. stands same pat (take (length s) s) i then Some (GREATEST i. stands same pat (take (length s) s) i) else None)"
    by (intro search_back_last [OF assms(2)]) simp_all
  then show ?thesis using assms by (simp add: position_last_def)
qed

end

definition same_letter :: "byte \<Rightarrow> byte \<Rightarrow> bool" where
  "same_letter c d \<longleftrightarrow> SyCharToLower c = SyCharToLower d"

text \<open>Byte by byte, \<open>SyBlobSearch\<close> looks for equal ones, \<open>iPatternMatch\<close> for equal letters.\<close>

lemma fast_cmp_zero: "length pat \<le> length z \<Longrightarrow> fast_cmp z pat (length pat) = Inr 0 \<longleftrightarrow> take (length pat) z = pat"
proof (induction pat arbitrary: z)
  case (Cons d pat)
  then show ?case by (cases z) (auto simp: word_uint_eq_iff)
qed simp

lemma list_all2_same: "list_all2 (=) xs ys \<longleftrightarrow> xs = ys"
  by (simp add: list.rel_eq)

lemma blob_search_place:
  "length pat \<le> length z \<Longrightarrow> left = Suc (length z - length pat) \<Longrightarrow> pat \<noteq> [] \<Longrightarrow>
    blob_search z pat i left = Inr (map_option ((+) i) (place (=) pat z))"
proof (induction z arbitrary: i left)
  case (Cons c cs)
  obtain k where k: "fast_cmp (c # cs) pat (length pat) = Inr k"
    using fast_cmp_total [of "length pat" "c # cs" pat] Cons.prems(1) by auto
  have here: "k = 0 \<longleftrightarrow> stands (=) pat (c # cs) 0"
    using fast_cmp_zero [OF Cons.prems(1)] k Cons.prems(1) by (simp add: stands_def list_all2_same)
  show ?case
  proof (cases "k = 0")
    case True
    then show ?thesis using k here Cons.prems(2) by (simp add: place_Cons)
  next
    case False
    show ?thesis
    proof (cases "length pat \<le> length cs")
      case True
      then have "blob_search cs pat (Suc i) (length (c # cs) - length pat) = Inr (map_option ((+) (Suc i)) (place (=) pat cs))"
        using Cons.prems(3) by (intro Cons.IH) simp_all
      then show ?thesis using False k here Cons.prems(2)
        by (cases "place (=) pat cs") (simp_all add: place_Cons)
    next
      case short: False
      then have "left = Suc 0" using Cons.prems(1,2) by simp
      then show ?thesis using False k here place_short [of cs pat] short by (simp add: place_Cons)
    qed
  qed
qed simp

lemma tail_matches_all: "tail_matches cs ds \<longleftrightarrow>
    length ds \<le> length cs \<and> list_all2 same_letter (take (length ds) cs) ds"
  by (induction cs ds rule: tail_matches.induct) (auto simp: same_letter_def)

lemma match_from_place:
  assumes "pat \<noteq> []"
  shows "match_from z pat = place same_letter pat z"
proof (induction z)
  case Nil
  have "place same_letter pat [] = None" using assms by (simp add: place_None)
  then show ?case by simp
next
  case (Cons c cs)
  obtain d ds where pat: "pat = d # ds" using assms by (cases pat) auto
  have "stands same_letter pat (c # cs) 0 \<longleftrightarrow>
      SyCharToLower c = SyCharToLower d \<and> tail_matches cs ds"
    by (auto simp: pat stands_def tail_matches_all same_letter_def)
  then show ?case using Cons.IH pat by (simp add: place_Cons)
qed

interpretation exact: pattern_search SyBlobSearch "(=)"
proof unfold_locales
  fix pat z :: "byte list" assume "pat \<noteq> []"
  then show "SyBlobSearch z pat = Inr (place (=) pat z)"
    using blob_search_place [of pat z _ 0] place_short [of z pat]
    by (cases "length pat \<le> length z"; cases "place (=) pat z") (simp_all add: SyBlobSearch_def)
qed

interpretation caseless: pattern_search iPatternMatch same_letter
  by unfold_locales (auto simp: iPatternMatch_def match_from_place place_short)

lemma substr_inside:
  assumes "n \<noteq> 0" and "p + n \<le> length s" and "length s < 2 ^ 31"
  shows "jx9Builtin_substr R h [VStr s, VInt (word_of_nat p), VInt (word_of_nat n)] = Inr (VStr (take n (drop p s)))"
proof -
  have "int_arg h (VInt (word_of_nat p)) = Inr (int p)" "int_arg h (VInt (word_of_nat n)) = Inr (int n)"
    using int_arg_int [of "int p" h] int_arg_int [of "int n" h] assms(2,3) by simp_all
  moreover have "s \<noteq> []" "offset_of (int p) s = Some p" using assms(1,2) by (auto simp: offset_of_def)
  ultimately show ?thesis using assms by (simp add: jx9Builtin_substr_def Let_def nat_int_add)
qed

section \<open>What the functions on strings promise\<close>

text \<open>
  C40. For a string and a pattern that are not empty: \<open>strstr\<close> returns the string from the first
  place at which the pattern stands and \<open>strpos\<close> that place, counted from the beginning of the
  string even when the search starts at an offset within it, and \<open>substr\<close> finds the pattern there;
  \<open>strrpos\<close> returns the last place, except that it never finds the pattern at the beginning of
  the string; \<open>stristr\<close>, \<open>stripos\<close> and \<open>strripos\<close> do the same up to the case of letters; without
  a place the result is \<open>FALSE\<close>.
\<close>

theorem string_search_correct:
  assumes "s \<noteq> []" and "pat \<noteq> []" and "length s < 2 ^ 31" and "k < length s"
    and "opts = [VInt (word_of_nat k)] \<or> opts = [] \<and> k = 0"
  shows "jx9Builtin_strstr R h [VStr s, VStr pat] =
      Inr (case place (=) pat s of None \<Rightarrow> VBool False | Some i \<Rightarrow> VStr (drop i s)) \<and>
    jx9Builtin_strpos R h (VStr s # VStr pat # opts) =
      Inr (case place (=) pat (drop k s) of None \<Rightarrow> VBool False | Some i \<Rightarrow> VInt (word_of_nat (k + i))) \<and>
    (\<forall>i. place (=) pat (drop k s) = Some i \<longrightarrow>
      jx9Builtin_substr R h [VStr s, VInt (word_of_nat (k + i)), VInt (word_of_nat (length pat))] = Inr (VStr pat)) \<and>
    jx9Builtin_strrpos R h [VStr s, VStr pat] =
      Inr (if \<exists>i>0. stands (=) pat s i then VInt (word_of_nat (GREATEST i. stands (=) pat s i)) else VBool False) \<and>
    jx9Builtin_stristr R h [VStr s, VStr pat] =
      Inr (case place same_letter pat s of None \<Rightarrow> VBool False | Some i \<Rightarrow> VStr (drop i s)) \<and>
    jx9Builtin_stripos R h (VStr s # VStr pat # opts) =
      Inr (case place same_letter pat (drop k s) of None \<Rightarrow> VBool False | Some i \<Rightarrow> VInt (word_of_nat (k + i))) \<and>
    jx9Builtin_strripos R h [VStr s, VStr pat] =
      Inr (if \<exists>i>0. stands same_letter pat s i then VInt (word_of_nat (GREATEST i. stands same_letter pat s i)) else VBool False)"
proof (intro conjI allI impI)
  fix i assume "place (=) pat (drop k s) = Some i"
  then have i: "i + length pat \<le> length s - k" "take (length pat) (drop (k + i) s) = pat"
    by (simp_all add: place_Some stands_def list_all2_same add.commute)
  then show "jx9Builtin_substr R h [VStr s, VInt (word_of_nat (k + i)), VInt (word_of_nat (length pat))] = Inr (VStr pat)"
    using substr_inside [of "length pat" "k + i" s R h] assms(2-4) by simp
qed (use exact.search_first_place [OF assms(1,2)] exact.position_first_place [OF assms(2-5)]
      exact.position_last_place [OF assms(1,2)] caseless.search_first_place [OF assms(1,2)]
      caseless.position_first_place [OF assms(2-5)] caseless.position_last_place [OF assms(1,2)] in
    \<open>simp_all only: jx9Builtin_strstr_def jx9Builtin_strpos_def jx9Builtin_strrpos_def jx9Builtin_stristr_def
      jx9Builtin_stripos_def jx9Builtin_strripos_def\<close>)

text \<open>In \<open>abAb\<close>: \<open>ab\<close> stands at 0, and at 2 up to case; \<open>strrpos\<close> does not find it at 0.\<close>

theorem string_search_correct_witness:
  "jx9Builtin_strpos demo_reals empty_store [VStr (bytes_of ''abAb''), VStr (bytes_of ''ab'')] = Inr (VInt 0) \<and>
   jx9Builtin_strrpos demo_reals empty_store [VStr (bytes_of ''abAb''), VStr (bytes_of ''ab'')] = Inr (VBool False) \<and>
   jx9Builtin_stripos demo_reals empty_store [VStr (bytes_of ''abAb''), VStr (bytes_of ''ab''), VInt 1] = Inr (VInt 2)"
proof -
  let ?s = "bytes_of ''abAb''" and ?p = "bytes_of ''ab''"
  have b: "?s = [97, 98, 65, 98]" "?p = [97, 98]" by code_simp+
  have first: "place (=) ?p (drop 0 ?s) = Some 0" by (simp add: b place_Some stands_def)
  have "\<not> stands (=) ?p ?s i" if "0 < i" for i
  proof
    assume "stands (=) ?p ?s i"
    then have i: "i \<le> 2" "take 2 (drop i [97, 98, 65, 98]) = ([97, 98] :: byte list)"
      by (simp_all add: b stands_def list_all2_same numeral_2_eq_2)
    then have "i = 1 \<or> i = 2" using that by auto
    then show False using i(2) by auto
  qed
  then have none: "\<not> (\<exists>i>0. stands (=) ?p ?s i)" by blast
  have letter: "place same_letter ?p (drop 1 ?s) = Some 1"
    by (simp add: b place_Cons stands_def same_letter_def SyCharToLower_def SyisUpper_def)
  have h: "?s \<noteq> []" "?p \<noteq> []" "length ?s < 2 ^ 31" by (simp_all add: b)
  have "0 < length ?s" "[] = [VInt (word_of_nat 0)] \<or> [] = ([] :: jval list) \<and> (0::nat) = 0" by (simp_all add: b)
  note from_start = string_search_correct [OF h this, of demo_reals empty_store]
  have "1 < length ?s" "[VInt 1] = [VInt (word_of_nat 1)] \<or> [VInt 1] = [] \<and> (1::nat) = 0" by (simp_all add: b)
  note from_next = string_search_correct [OF h this, of demo_reals empty_store]
  show ?thesis
  proof (intro conjI)
    show "jx9Builtin_strpos demo_reals empty_store [VStr ?s, VStr ?p] = Inr (VInt 0)"
      using from_start [THEN conjunct2, THEN conjunct1] first by simp
    show "jx9Builtin_strrpos demo_reals empty_store [VStr ?s, VStr ?p] = Inr (VBool False)"
      using from_start none by (simp only: if_False)
    show "jx9Builtin_stripos demo_reals empty_store [VStr ?s, VStr ?p, VInt 1] = Inr (VInt 2)"
      using from_next [THEN conjunct2, THEN conjunct2, THEN conjunct2, THEN conjunct2, THEN conjunct2, THEN conjunct1] letter
      by simp
  qed
qed

text \<open>What the source says otherwise of: a length that overflows, lists that trim too much, spaces.\<close>

lemma substr_overflow: "jx9Builtin_substr R h [VStr [97, 98], VInt 1, VInt (2 ^ 31 - 1)] = Inl UB"
proof -
  have "int_arg h (VInt 1) = Inr 1" "int_arg h (VInt (2 ^ 31 - 1)) = Inr (2 ^ 31 - 1)"
    using int_arg_int [of 1 h] int_arg_int [of "2 ^ 31 - 1" h] by simp_all
  then show ?thesis by (simp add: jx9Builtin_substr_def offset_of_def Let_def)
qed

lemma trim_loses_last: "jx9Builtin_trim R h [VStr [c], VStr [d]] = Inr (VStr [])" "jx9Builtin_rtrim R h [VStr [c], VStr [d]] = Inr (VStr [])"
  by (simp_all add: jx9Builtin_trim_def jx9Builtin_rtrim_def trim_function_def right_trim_def trim_front.simps Let_def)

lemma strspn_skips_spaces: "jx9Builtin_strspn R h [VStr [32, 97], VStr [97]] = Inr (VInt 1)"
  by (simp add: jx9Builtin_strspn_def mask_function_def mask_part_def ExtractNonSpaceToken_def plain_space_def SyisSpace_def
      LongestStringMask_def)

lemma ord_negative: "jx9Builtin_ord R h [VStr [0x80]] = Inr (VInt (- 128))"
  by (simp add: jx9Builtin_ord_def int_result_def)

end
