(* ===== verification/PyVm.thy ===== *)
theory PyVm
  imports Store Demo
begin

text \<open>
  The Python backend (\<open>src/python/PythonBackend.cpp\<close>). Its mutex is locked and unlocked by
  hand, so that an exception that is not a Python one leaves it locked. Running code, calling
  an object, looking up an attribute and the text of an object are the parameter
  \<open>py_engine\<close>: a run goes from the state of the interpreter and the memory of the live
  views to a value or the text of a Python exception. Lists and dictionaries are cells of the
  interpreter's heap; a string is its UTF-8 encoding, and each has one. The mutex of the code is
  shared by all Python machines of the process; \<open>locked\<close> is that mutex as one of them sees it.
\<close>

section \<open>The interpreter\<close>

datatype 'bk pyval =
    PyNone
  | PyBool bool
  | PyInt int
  | PyFloat dbl
  | PyStr string
  | PyBytes "byte list"
  | PyTuple "'bk pyval list"
  | PyList nat
  | PyDict nat
  | PyMemory "'bk mem_ptr" u64
  | PyMain
  | PyFunction nat
  | PyObject nat

datatype 'bk pycell = ListCell "'bk pyval list" | DictCell "('bk pyval \<times> 'bk pyval) list"

record 'bk py_core =
  objects :: "'bk pycell store"
  namespace :: "string \<rightharpoonup> 'bk pyval"
  sys_argv :: "'bk pyval"

type_synonym 'bk py_run = "'bk py_core \<Rightarrow> memory \<Rightarrow> (string + 'bk pyval) \<times> 'bk py_core \<times> memory"

record 'bk py_engine =
  py_exec :: "string \<Rightarrow> 'bk py_run"
  py_call :: "'bk pyval \<Rightarrow> 'bk pyval list \<Rightarrow> 'bk py_run"
  py_attr :: "'bk pyval \<Rightarrow> string \<Rightarrow> 'bk py_core \<Rightarrow> 'bk pyval option"
  py_str :: "'bk py_core \<Rightarrow> 'bk pyval \<Rightarrow> exn + string"
  py_repr :: "'bk py_core \<Rightarrow> 'bk pyval \<Rightarrow> exn + string"
  b64encode :: "byte list \<Rightarrow> string"
  utf8_error :: "string \<Rightarrow> string option"
  initial_py :: "'bk py_core"
  py_depth :: nat

record ('bk, 'ep) py_vm = "('bk, 'ep) vm_world" +
  py :: "'bk py_core"
  callables :: "nat \<rightharpoonup> (json list \<Rightarrow> exn + json) \<times> nat"
  next_function :: nat

text \<open>Catching a Python exception; the mutex.\<close>

definition catchS :: "('a, 's) act \<Rightarrow> (string \<Rightarrow> ('a, 's) act) \<Rightarrow> ('a, 's) act" where
  "catchS m h s =
     (case m s of
        (Inl (Raised what), s') \<Rightarrow> h what s'
      | (Inl e, s') \<Rightarrow> (Inl e, s')
      | (Inr x, s') \<Rightarrow> (Inr x, s'))"

definition with_mutex ::
  "('a, ('bk, 'ep, 'z) vm_world_scheme) act \<Rightarrow> ('a, ('bk, 'ep, 'z) vm_world_scheme) act"
where
  "with_mutex m s =
     (if locked s then (Inl Deadlock, s)
      else
        (case m (s\<lparr>locked := True\<rparr>) of
           (Inl e, s') \<Rightarrow> (Inl e, s')
         | (Inr x, s') \<Rightarrow> (Inr x, s'\<lparr>locked := False\<rparr>)))"

section \<open>From JSON to Python\<close>

definition py_text :: "'bk py_engine \<Rightarrow> string \<Rightarrow> ('bk pyval, 's) act" where
  "py_text api s = (case utf8_error api s of None \<Rightarrow> ret (PyStr s) | Some what \<Rightarrow> raise (Raised what))"

definition py_new :: "(nat, ('bk, 'ep) py_vm) act" where
  "py_new s =
     (Inr (next_cell (objects (py s))), s\<lparr>py := (py s)\<lparr>objects := reserve_cell (objects (py s))\<rparr>\<rparr>)"

definition py_fill :: "nat \<Rightarrow> 'bk pycell \<Rightarrow> (unit, ('bk, 'ep) py_vm) act" where
  "py_fill a c s = (Inr (), s\<lparr>py := (py s)\<lparr>objects := fill_cell a c (objects (py s))\<rparr>\<rparr>)"

function (sequential) from_json ::
  "'bk py_engine \<Rightarrow> ('bk, 'ep) net \<Rightarrow> json \<Rightarrow> ('bk pyval, ('bk, 'ep) py_vm) act"
where
  "from_json api net JNull = ret PyNone"
| "from_json api net (JBool b) = ret (PyBool b)"
| "from_json api net (JUInt u) = ret (PyInt (uint u))"
| "from_json api net (JInt i) = ret (PyInt (sint i))"
| "from_json api net (JFloat d) = ret (PyFloat d)"
| "from_json api net (JString s) = py_text api s"
| "from_json api net (JArray vs) =
     bindS py_new (\<lambda>a.
     bindS (mapS (from_json api net) vs) (\<lambda>xs.
     bindS (py_fill a (ListCell xs)) (\<lambda>_.
     ret (PyList a))))"
| "from_json api net (JObject ms) =
     bindS py_new (\<lambda>a.
     bindS (mapS (\<lambda>m. bindS (from_json api net (snd m)) (\<lambda>v. bindS (py_text api (fst m)) (\<lambda>k. ret (k, v)))) ms) (\<lambda>kvs.
     bindS (py_fill a (DictCell (dict_of kvs))) (\<lambda>_.
     ret (PyDict a))))"
| "from_json api net (JBinary bs st) =
     (if \<not> IsMemoryView (JBinary bs st) then ret (PyBytes bs)
      else
        bindS (view_open net (JBinary bs st)) (\<lambda>n.
        bindS (modify (view_keep n)) (\<lambda>_.
        bindS (view_pointer net n) (\<lambda>(p, sz).
        ret (PyMemory p sz)))))"
| "from_json api net JDiscarded = ret PyNone"
  by pat_completeness auto
termination
  by (relation "measure (\<lambda>(api, net, j). depth j)")
    (auto intro: depth_array_elem depth_object_member simp del: depth.simps)

section \<open>From Python to JSON\<close>

definition unknown_type :: "'bk py_engine \<Rightarrow> 'bk py_core \<Rightarrow> 'bk pyval \<Rightarrow> exn + json" where
  "unknown_type api c v =
     bindE (py_repr api c v) (\<lambda>r. Inl (Exn (''to_json not implemented for this type of object: '' @ r)))"

definition int_to_json :: "'bk py_engine \<Rightarrow> 'bk py_core \<Rightarrow> int \<Rightarrow> exn + json" where
  "int_to_json api c i =
     (if - (2 ^ 63) \<le> i \<and> i < 2 ^ 63 then Inr (JInt (word_of_int i))
      else if 0 \<le> i \<and> i < 2 ^ 64 then Inr (JUInt (word_of_int i))
      else bindE (py_repr api c (PyInt i)) (\<lambda>r.
        Inl (Exn (''to_json received an integer out of range for both json::number_integer_t and json::number_unsigned_t type: '' @ r))))"

fun to_json :: "'bk py_engine \<Rightarrow> 'bk py_core \<Rightarrow> nat \<Rightarrow> 'bk pyval \<Rightarrow> exn + json" where
  "to_json api c n PyNone = Inr JNull"
| "to_json api c n (PyBool b) = Inr (JBool b)"
| "to_json api c n (PyInt i) = int_to_json api c i"
| "to_json api c n (PyFloat d) = Inr (JFloat d)"
| "to_json api c n (PyBytes bs) = Inr (JString (b64encode api bs))"
| "to_json api c n (PyStr s) = Inr (JString s)"
| "to_json api c 0 (PyTuple vs) = Inl Abort"
| "to_json api c (Suc n) (PyTuple vs) = bindE (mapE (to_json api c n) vs) (\<lambda>js. Inr (JArray js))"
| "to_json api c 0 (PyList a) = Inl Abort"
| "to_json api c (Suc n) (PyList a) =
     (case cells (objects c) a of
        Some (ListCell vs) \<Rightarrow> bindE (mapE (to_json api c n) vs) (\<lambda>js. Inr (JArray js))
      | _ \<Rightarrow> Inl UB)"
| "to_json api c 0 (PyDict a) = Inl Abort"
| "to_json api c (Suc n) (PyDict a) =
     (case cells (objects c) a of
        Some (DictCell kvs) \<Rightarrow>
          bindE (mapE (\<lambda>kv. bindE (to_json api c n (snd kv)) (\<lambda>j. bindE (py_str api c (fst kv)) (\<lambda>k. Inr (k, j)))) kvs)
            (\<lambda>ms. Inr (obj_of ms))
      | _ \<Rightarrow> Inl UB)"
| "to_json api c n v = unknown_type api c v"

section \<open>The virtual machine\<close>

definition py_do :: "'bk py_run \<Rightarrow> ('bk pyval, ('bk, 'ep) py_vm) act" where
  "py_do run s =
     (case run (py s) (view_memory s) of (r, c, m) \<Rightarrow>
        (case r of Inl what \<Rightarrow> Inl (Raised what) | Inr v \<Rightarrow> Inr v, put_memory m (s\<lparr>py := c\<rparr>)))"

definition py_failed :: "string \<Rightarrow> (json result, 's) act" where
  "py_failed what = ret (failed (''Error running Python code: '' @ what))"

definition set_argv :: "'bk pyval \<Rightarrow> (unit, ('bk, 'ep) py_vm) act" where
  "set_argv v = modify (\<lambda>s. s\<lparr>py := (py s)\<lparr>sys_argv := v\<rparr>\<rparr>)"

definition PythonVm_execute ::
  "'bk py_engine \<Rightarrow> ('bk, 'ep) net \<Rightarrow> string \<Rightarrow> json list \<Rightarrow> (json result, ('bk, 'ep) py_vm) act"
where
  "PythonVm_execute api net code args =
     with_mutex (catchS (with_views (
       bindS py_new (\<lambda>a.
       bindS (mapS (from_json api net) args) (\<lambda>xs.
       bindS (py_fill a (ListCell (PyStr ''poesie'' # xs))) (\<lambda>_.
       bindS (set_argv (PyList a)) (\<lambda>_.
       bindS (py_do (py_exec api (cstr code))) (\<lambda>_.
       ret (Result_default JNull)))))))) py_failed)"

definition PythonVm_load ::
  "'bk py_engine \<Rightarrow> ('bk, 'ep) net \<Rightarrow> (string \<rightharpoonup> string) \<Rightarrow> string \<Rightarrow> json list \<Rightarrow> (json result, ('bk, 'ep) py_vm) act"
where
  "PythonVm_load api net files filename args =
     load_file files filename (\<lambda>code. PythonVm_execute api net code args)"

text \<open>
  The arguments are converted before the \<open>try\<close>: no exception of theirs is caught. (The views
  are destroyed after the mutex is unlocked, which makes no difference here.)
\<close>

definition py_invoke ::
  "'bk py_engine \<Rightarrow> 'bk pyval \<Rightarrow> 'bk pyval list \<Rightarrow> (json result, ('bk, 'ep) py_vm) act"
where
  "py_invoke api f xs =
     catchS
       (bindS (py_do (py_call api f xs)) (\<lambda>v s.
         (bindE (to_json api (py s) (py_depth api) v) (\<lambda>j. Inr (succeeded j)), s)))
       py_failed"

definition py_find :: "'bk py_engine \<Rightarrow> string \<Rightarrow> string \<Rightarrow> 'bk py_core \<Rightarrow> string + 'bk pyval" where
  "py_find api target fname c =
     (case (if target = [] then Some PyMain else namespace c (cstr target)) of
        None \<Rightarrow> Inl (''Could not find target '' @ target)
      | Some t \<Rightarrow>
          (case py_attr api t (cstr fname) c of
             None \<Rightarrow> Inl (''Could not find function or method '' @ fname)
           | Some f \<Rightarrow> Inr f))"

definition PythonVm_call ::
  "'bk py_engine \<Rightarrow> ('bk, 'ep) net \<Rightarrow> string \<Rightarrow> string \<Rightarrow> json list \<Rightarrow> (json result, ('bk, 'ep) py_vm) act"
where
  "PythonVm_call api net fname target args =
     with_mutex (
       bindS (if target = [] then ret PyMain else py_text api (cstr target)) (\<lambda>_ s.
       case py_find api target fname (py s) of
         Inl what \<Rightarrow> (Inr (failed what), s)
       | Inr f \<Rightarrow> with_views (bindS (mapS (from_json api net) args) (py_invoke api f)) s))"

text \<open>
  A target that is not UTF-8 raises an exception that nothing catches. A foreign function is a
  Python function; \<open>PythonVm_foreign\<close> is what happens when a script
  calls it, every exception being one for the script.
\<close>

definition cpp_function :: "(json list \<Rightarrow> exn + json) \<Rightarrow> nat \<Rightarrow> ('bk pyval, ('bk, 'ep) py_vm) act" where
  "cpp_function func nargs s =
     (Inr (PyFunction (next_function s)),
      s\<lparr>callables := (callables s)(next_function s \<mapsto> (func, nargs)), next_function := Suc (next_function s)\<rparr>)"

definition PythonVm_install ::
  "'bk py_engine \<Rightarrow> string \<Rightarrow> (json list \<Rightarrow> exn + json) \<Rightarrow> nat \<Rightarrow> (bresult, ('bk, 'ep) py_vm) act"
where
  "PythonVm_install api name func nargs =
     with_mutex (catchS (
       bindS (cpp_function func nargs) (\<lambda>f.
       bindS (py_text api (cstr name)) (\<lambda>_.
       bindS (modify (\<lambda>s. s\<lparr>py := (py s)\<lparr>namespace := (namespace (py s))(cstr name \<mapsto> f)\<rparr>\<rparr>)) (\<lambda>_.
       ret BResult_default))))
       (\<lambda>what. ret (BResult_default\<lparr>b_success := False,
          b_error := ''Could not install foreign function '' @ name @ '': '' @ what\<rparr>)))"

definition PythonVm_foreign ::
  "'bk py_engine \<Rightarrow> ('bk, 'ep) net \<Rightarrow> nat \<Rightarrow> 'bk pyval list \<Rightarrow> ('bk pyval, ('bk, 'ep) py_vm) act"
where
  "PythonVm_foreign api net f args s =
     (case callables s f of
        None \<Rightarrow> (Inl UB, s)
      | Some (func, nargs) \<Rightarrow>
          if nargs \<noteq> length args then (Inl (Exn ''Invalid number of arguments''), s)
          else
            bindS (liftE (bindE (mapE (to_json api (py s) (py_depth api)) args) func)) (\<lambda>result.
            with_views (from_json api net result)) s)"

definition PythonVm_destroy :: "(bresult, ('bk, 'ep) py_vm) act" where
  "PythonVm_destroy = ret (BResult_set_value True BResult_default)"

definition PythonVm_new ::
  "'bk py_engine \<Rightarrow> ('bk, 'ep) net \<Rightarrow> (string \<rightharpoonup> string) \<Rightarrow> json \<Rightarrow> exn + ('bk, 'ep) py_vm"
where
  "PythonVm_new api net files config =
     (case run_preamble (PythonVm_load api net files) (PythonVm_execute api net) config
             (vm_world.extend (new_world config)
               \<lparr>py = initial_py api, callables = Map.empty, next_function = 0\<rparr>) of
        (Inl e, s) \<Rightarrow> Inl e
      | (Inr _, s) \<Rightarrow> Inr s)"

definition PythonVm_ops ::
  "'bk py_engine \<Rightarrow> ('bk, 'ep) net \<Rightarrow> (string \<rightharpoonup> string) \<Rightarrow> (json \<Rightarrow> string) \<Rightarrow> ('bk, 'ep) py_vm backend_ops"
where
  "PythonVm_ops api net files dump =
     \<lparr>op_getConfig = \<lambda>s. dump (m_config s),
      op_execute = PythonVm_execute api net,
      op_load = PythonVm_load api net files,
      op_call = PythonVm_call api net,
      op_destroy = \<lambda>s. snd (PythonVm_destroy s)\<rparr>"


section \<open>Calls leave nothing behind, the mutex apart\<close>

text \<open>What a part of a call does that brings its own views along.\<close>

definition settles :: "('a, ('bk, 'ep, 'z) vm_world_scheme) act \<Rightarrow> bool" where
  "settles m \<longleftrightarrow> (\<forall>s r s'. alive s = Map.empty \<longrightarrow> created s = [] \<longrightarrow> m s = (r, s') \<longrightarrow>
     alive s' = Map.empty \<and> created s' = [] \<and> m_config s' = m_config s \<and> locked s' = locked s)"

lemma settles_with_views: "keeps inside m \<Longrightarrow> settles (with_views m)"
  unfolding settles_def
proof (intro allI impI)
  fix s r s'
  assume k: "keeps inside m" and a: "alive s = Map.empty" "created s = []" and run: "with_views m s = (r, s')"
  obtain s1 where m: "m (s\<lparr>created := []\<rparr>) = (r, s1)" and s': "s' = (close_created s1)\<lparr>created := created s\<rparr>"
    using run by (auto simp: with_views_def finallyS_def split: prod.splits)
  have "tracked (s\<lparr>created := []\<rparr>)" using a by (simp add: tracked_def)
  then have "tracked s1" "m_config s1 = m_config s" "locked s1 = locked s"
    using keepsD [OF k m] by (simp_all add: inside_def)
  then show "alive s' = Map.empty \<and> created s' = [] \<and> m_config s' = m_config s \<and> locked s' = locked s"
    using a close_created_tracked [of s1] by (simp add: s')
qed

lemma settles_catchS:
  assumes "settles m" and "\<And>what. settles (h what)"
  shows "settles (catchS m h)"
  unfolding settles_def
proof (intro allI impI)
  fix s r s'
  assume a: "alive s = Map.empty" "created s = []" and run: "catchS m h s = (r, s')"
  obtain q s1 where q: "m s = (q, s1)" by fastforce
  then have s1: "alive s1 = Map.empty" "created s1 = []" "m_config s1 = m_config s" "locked s1 = locked s"
    using assms(1) a unfolding settles_def by blast+
  consider "s' = s1" | what where "h what s1 = (r, s')"
    using run q by (cases q) (auto simp: catchS_def split: exn.splits)
  then show "alive s' = Map.empty \<and> created s' = [] \<and> m_config s' = m_config s \<and> locked s' = locked s"
  proof cases
    case 1
    then show ?thesis using s1 by simp
  next
    case 2
    then show ?thesis using assms(2) s1 unfolding settles_def by metis
  qed
qed

lemma settles_by: "(\<And>s. \<exists>m. settles m \<and> f s = m s) \<Longrightarrow> settles f"
proof -
  assume f: "\<And>s. \<exists>m. settles m \<and> f s = m s"
  show "settles f"
    unfolding settles_def
  proof (intro allI impI)
    fix s r s' assume a: "alive s = Map.empty" "created s = []" "f s = (r, s')"
    obtain m where "settles m" "m s = (r, s')" using f [of s] a(3) by metis
    then show "alive s' = Map.empty \<and> created s' = [] \<and> m_config s' = m_config s \<and> locked s' = locked s"
      using a unfolding settles_def by blast
  qed
qed

lemma settles_ret: "settles (ret x)"
  by (simp add: settles_def)

lemma with_mutex_settles:
  assumes "settles m" and "idle s" and "with_mutex m s = (r, s')"
  shows "m_config s' = m_config s \<and> alive s' = Map.empty \<and> created s' = [] \<and> (locked s' \<longleftrightarrow> (\<exists>e. r = Inl e))"
proof -
  let ?s = "s\<lparr>locked := True\<rparr>"
  obtain q s1 where q: "m ?s = (q, s1)" by fastforce
  have "alive ?s = Map.empty" "created ?s = []" "\<not> locked s" using assms(2) by (simp_all add: idle_def)
  then have "alive s1 = Map.empty" "created s1 = []" "m_config s1 = m_config ?s" "locked s1 = locked ?s"
    using assms(1) q unfolding settles_def by blast+
  then show ?thesis using assms(3) q \<open>\<not> locked s\<close> by (cases q) (auto simp: with_mutex_def)
qed

lemma keeps_py: "keeps inside py_new" "keeps inside (py_fill a c)" "keeps inside (py_text api t)" "keeps inside (set_argv v)"
  "keeps inside (py_do run)" "keeps inside (modify (\<lambda>s. s\<lparr>py := f s\<rparr>))"
  by (auto simp: keeps_def inside_def tracked_def py_new_def py_fill_def py_text_def set_argv_def py_do_def put_memory_def
      split: prod.split sum.split option.split)

lemma keeps_from_json: "keeps inside (from_json api net j)"
proof (induction api net j rule: from_json.induct)
  case (9 api net bs st)
  then show ?case
    by (auto intro!: keeps_open_keep keeps_bindS keeps_basic keeps_view_pointer split: prod.split)
next
  case (8 api net ms)
  show ?case
    unfolding from_json.simps by (intro keeps_bindS keeps_mapS keeps_py keeps_basic inside_preorder 8)
qed (auto intro!: keeps_bindS keeps_mapS keeps_basic keeps_py)

lemma keeps_catchS: "reflp R \<Longrightarrow> transp R \<Longrightarrow> keeps R m \<Longrightarrow> (\<And>what. keeps R (h what)) \<Longrightarrow> keeps R (catchS m h)"
  by (rule keepsI)
    (auto simp: catchS_def split: prod.splits sum.splits exn.splits dest!: keepsD dest: transpD)

lemma keeps_invoke: "keeps inside (py_invoke api f xs)"
  unfolding py_invoke_def
proof (rule keeps_catchS)
  have "keeps inside (\<lambda>s. (bindE (to_json api (py s) (py_depth api) v) (\<lambda>j. Inr (succeeded j)), s))" for v :: "'a pyval"
    by (simp add: keeps_def inside_def)
  then show "keeps inside (bindS (py_do (py_call api f xs)) (\<lambda>v s.
      (bindE (to_json api (py s) (py_depth api) v) (\<lambda>j. Inr (succeeded j)), s)))"
    by (intro keeps_bindS keeps_py inside_preorder)
qed (simp_all add: py_failed_def keeps_basic)

lemmas py_keeps = keeps_bindS keeps_mapS keeps_basic keeps_py keeps_from_json keeps_invoke inside_preorder

lemma settles_execute: "settles (catchS (with_views (
       bindS py_new (\<lambda>a.
       bindS (mapS (from_json api net) args) (\<lambda>xs.
       bindS (py_fill a (ListCell (PyStr ''poesie'' # xs))) (\<lambda>_.
       bindS (set_argv (PyList a)) (\<lambda>_.
       bindS (py_do (py_exec api (cstr code))) (\<lambda>_.
       ret (Result_default JNull)))))))) py_failed)"
  by (intro settles_catchS settles_with_views py_keeps) (simp add: py_failed_def settles_ret)

lemma PythonVm_execute_settles:
  "idle s \<Longrightarrow> PythonVm_execute api net code args s = (r, s') \<Longrightarrow>
     m_config s' = m_config s \<and> alive s' = Map.empty \<and> created s' = [] \<and> (locked s' \<longleftrightarrow> (\<exists>e. r = Inl e))"
  unfolding PythonVm_execute_def by (rule with_mutex_settles [OF settles_execute])

lemma PythonVm_execute_idle:
  "idle s \<Longrightarrow> PythonVm_execute api net code args s = (Inr r, s') \<Longrightarrow> idle s' \<and> m_config s' = m_config s"
  by (drule (1) PythonVm_execute_settles) (simp add: idle_def)

lemma PythonVm_load_idle:
  "idle s \<Longrightarrow> PythonVm_load api net files f args s = (Inr r, s') \<Longrightarrow> idle s' \<and> m_config s' = m_config s"
  unfolding PythonVm_load_def by (auto dest!: load_file_cases dest: PythonVm_execute_idle)

lemma settles_bindS: "settles m \<Longrightarrow> (\<And>x. settles (f x)) \<Longrightarrow> settles (bindS m f)"
  unfolding settles_def
proof (intro allI impI)
  fix s r s'
  assume m: "\<forall>s r s'. alive s = Map.empty \<longrightarrow> created s = [] \<longrightarrow> m s = (r, s') \<longrightarrow>
      alive s' = Map.empty \<and> created s' = [] \<and> m_config s' = m_config s \<and> locked s' = locked s"
    and f: "\<And>x. \<forall>s r s'. alive s = Map.empty \<longrightarrow> created s = [] \<longrightarrow> f x s = (r, s') \<longrightarrow>
      alive s' = Map.empty \<and> created s' = [] \<and> m_config s' = m_config s \<and> locked s' = locked s"
    and s: "alive s = Map.empty" "created s = []" and run: "bindS m f s = (r, s')"
  obtain q s1 where q: "m s = (q, s1)" by fastforce
  then have s1: "alive s1 = Map.empty" "created s1 = []" "m_config s1 = m_config s" "locked s1 = locked s"
    using m s by blast+
  show "alive s' = Map.empty \<and> created s' = [] \<and> m_config s' = m_config s \<and> locked s' = locked s"
  proof (cases q)
    case (Inl e)
    then show ?thesis using run q s1 by (simp add: bindS_def)
  next
    case (Inr x)
    then have "f x s1 = (r, s')" using run q by (simp add: bindS_def)
    then show ?thesis using f [of x] s1 by metis
  qed
qed

lemma settles_call: "settles (bindS (if target = [] then ret PyMain else py_text api (cstr target)) (\<lambda>_ s.
       case py_find api target fname (py s) of
         Inl what \<Rightarrow> (Inr (failed what), s)
       | Inr f \<Rightarrow> with_views (bindS (mapS (from_json api net) args) (py_invoke api f)) s))"
proof (rule settles_bindS)
  show "settles (if target = [] then ret PyMain else py_text api (cstr target))"
    by (simp add: settles_ret) (simp add: settles_def py_text_def split: option.split)
next
  fix x :: "'a pyval"
  have v: "settles (with_views (bindS (mapS (from_json api net) args) (py_invoke api f)))" for f
    by (intro settles_with_views py_keeps)
  have "\<exists>m. settles m \<and> (case py_find api target fname (py s) of
         Inl what \<Rightarrow> (Inr (failed what), s)
       | Inr f \<Rightarrow> with_views (bindS (mapS (from_json api net) args) (py_invoke api f)) s) = m s" for s :: "('a, 'b) py_vm"
    using v settles_ret [of "failed what" for what]
    by (cases "py_find api target fname (py s)") (force intro: exI [of _ "ret (failed what)" for what])+
  then show "settles (\<lambda>s. case py_find api target fname (py s) of
         Inl what \<Rightarrow> (Inr (failed what), s)
       | Inr f \<Rightarrow> with_views (bindS (mapS (from_json api net) args) (py_invoke api f)) s)"
    by (rule settles_by)
qed

lemma PythonVm_call_settles:
  "idle s \<Longrightarrow> PythonVm_call api net f t args s = (r, s') \<Longrightarrow>
     m_config s' = m_config s \<and> alive s' = Map.empty \<and> created s' = [] \<and> (locked s' \<longleftrightarrow> (\<exists>e. r = Inl e))"
  unfolding PythonVm_call_def by (rule with_mutex_settles [OF settles_call])

lemma PythonVm_call_idle:
  "idle s \<Longrightarrow> PythonVm_call api net f t args s = (Inr r, s') \<Longrightarrow> idle s' \<and> m_config s' = m_config s"
  by (drule (1) PythonVm_call_settles) (simp add: idle_def)

interpretation py: backend "PythonVm_ops api net files dump" idle m_config dump for api net files dump
proof unfold_locales
  fix b
  show "op_getConfig (PythonVm_ops api net files dump) b = dump (m_config b)" by (simp add: PythonVm_ops_def)
qed (auto simp: PythonVm_ops_def dest: PythonVm_execute_idle PythonVm_load_idle PythonVm_call_idle)

text \<open>A constructor that succeeds ran its preambles without an exception.\<close>

definition calm_reply :: "('a, ('bk, 'ep, 'z) vm_world_scheme) act \<Rightarrow> bool" where
  "calm_reply m \<longleftrightarrow> (\<forall>s r s'. idle s \<longrightarrow> m s = (Inr r, s') \<longrightarrow> idle s' \<and> m_config s' = m_config s)"

lemma calm_reply_bindS: "calm_reply m \<Longrightarrow> (\<And>x. calm_reply (f x)) \<Longrightarrow> calm_reply (bindS m f)"
proof -
  assume m: "calm_reply m" and f: "\<And>x. calm_reply (f x)"
  show ?thesis
    unfolding calm_reply_def
  proof (intro allI impI)
    fix s r s' assume s: "idle s" and "bindS m f s = (Inr r, s')"
    then obtain x s1 where x: "m s = (Inr x, s1)" and "f x s1 = (Inr r, s')" by (auto simp: bindS_Inr)
    moreover have "idle s1" "m_config s1 = m_config s" using m s x unfolding calm_reply_def by blast+
    ultimately show "idle s' \<and> m_config s' = m_config s" using f [of x] unfolding calm_reply_def by metis
  qed
qed

lemma calm_reply_basic: "calm_reply (ret x)" "calm_reply (raise e)"
  by (simp_all add: calm_reply_def)

lemma PythonVm_new_idle:
  assumes "PythonVm_new api net files config = Inr s"
  shows "idle s \<and> m_config s = config"
proof -
  let ?s0 = "vm_world.extend (new_world config) (py_vm.fields (initial_py api) Map.empty 0)"
  have i: "idle ?s0" "m_config ?s0 = config"
    by (simp_all add: idle_def new_world_def vm_world.defs py_vm.defs)
  have "calm_reply (PythonVm_execute api net c args)" for c args
    using PythonVm_execute_idle unfolding calm_reply_def by blast
  moreover have "calm_reply (PythonVm_load api net files f args)" for f args
    using PythonVm_load_idle unfolding calm_reply_def by blast
  moreover have "calm_reply (check_preamble msg r)" for msg r
    by (simp add: check_preamble_def calm_reply_basic)
  ultimately have "calm_reply (run_preamble (PythonVm_load api net files) (PythonVm_execute api net) config)"
    unfolding run_preamble_def by (auto split: option.split json.split intro!: calm_reply_bindS calm_reply_basic)
  moreover obtain r where "run_preamble (PythonVm_load api net files) (PythonVm_execute api net) config ?s0 = (Inr r, s)"
    using assms by (auto simp: PythonVm_new_def py_vm.defs split: sum.splits prod.splits)
  ultimately show ?thesis using i unfolding calm_reply_def by metis
qed


section \<open>Values that survive the trip\<close>

text \<open>
  Strings that are UTF-8, and no views. A binary comes back as its base64 text, an unsigned
  integer that fits a signed one as a signed one.
\<close>

function (sequential) py_plain :: "'bk py_engine \<Rightarrow> json \<Rightarrow> bool" where
  "py_plain api JDiscarded = False"
| "py_plain api (JString s) = (utf8_error api s = None)"
| "py_plain api (JBinary bs st) = (\<not> IsMemoryView (JBinary bs st))"
| "py_plain api (JArray vs) = list_all (py_plain api) vs"
| "py_plain api (JObject ms) = (obj_ok ms \<and> list_all (\<lambda>m. utf8_error api (fst m) = None \<and> py_plain api (snd m)) ms)"
| "py_plain api j = True"
  by pat_completeness auto
termination
  by (relation "measure (\<lambda>(api, j). depth j)") (auto intro: depth_array_elem depth_object_member simp del: depth.simps)

function (sequential) py_norm :: "'bk py_engine \<Rightarrow> json \<Rightarrow> json" where
  "py_norm api (JUInt u) = (if uint u < 2 ^ 63 then JInt u else JUInt u)"
| "py_norm api (JBinary bs st) = JString (b64encode api bs)"
| "py_norm api (JArray vs) = JArray (map (py_norm api) vs)"
| "py_norm api (JObject ms) = JObject (map (\<lambda>m. (fst m, py_norm api (snd m))) ms)"
| "py_norm api j = j"
  by pat_completeness auto
termination
  by (relation "measure (\<lambda>(api, j). depth j)") (auto intro: depth_array_elem depth_object_member simp del: depth.simps)

definition py_api_ok :: "'bk py_engine \<Rightarrow> bool" where
  "py_api_ok api \<longleftrightarrow> (\<forall>c s. py_str api c (PyStr s) = Inr s)"

text \<open>What the conversion back yields in every state of the interpreter that still has the cells.\<close>

definition py_reads :: "'bk py_engine \<Rightarrow> nat \<Rightarrow> json \<Rightarrow> 'bk pyval \<Rightarrow> 'bk pycell store \<Rightarrow> bool" where
  "py_reads api n j v h \<longleftrightarrow> (\<forall>c. cells h \<subseteq>\<^sub>m cells (objects c) \<longrightarrow> to_json api c n v = Inr (py_norm api j))"

lemma py_reads_grows: "py_reads api n j v h \<Longrightarrow> cells h \<subseteq>\<^sub>m cells h' \<Longrightarrow> py_reads api n j v h'"
  by (auto simp: py_reads_def intro: map_le_trans)

interpretation ph: heap_of "\<lambda>s. objects (py s)" "\<lambda>h s. s\<lparr>py := (py s)\<lparr>objects := h\<rparr>\<rparr>"
  by unfold_locales simp_all

lemma py_steps [simp]:
  "py_new s = (Inr (next_cell (objects (py s))), s\<lparr>py := (py s)\<lparr>objects := reserve_cell (objects (py s))\<rparr>\<rparr>)"
  "py_fill a c s = (Inr (), s\<lparr>py := (py s)\<lparr>objects := fill_cell a c (objects (py s))\<rparr>\<rparr>)"
  by (rule py_new_def py_fill_def)+

lemma cell_later: "cells h a = Some m \<Longrightarrow> cells h \<subseteq>\<^sub>m cells h' \<Longrightarrow> cells h' a = Some m"
  by (metis domI map_le_def)

lemma py_reads_list:
  assumes "list_all2 (\<lambda>v x. py_reads api n v x h) vs xs" and "cells h a = Some (ListCell xs)"
  shows "py_reads api (Suc n) (JArray vs) (PyList a) h"
  unfolding py_reads_def
proof (intro allI impI)
  fix c :: "'a py_core" assume c: "cells h \<subseteq>\<^sub>m cells (objects c)"
  have "list_all2 (\<lambda>x v. to_json api c n x = Inr (py_norm api v)) xs vs"
    using assms(1) c by (auto simp: list_all2_conv_all_nth py_reads_def)
  then have "mapE (to_json api c n) xs = Inr (map (py_norm api) vs)"
    by (intro mapE_all2) (simp add: list_all2_map2 list_all2_conv_all_nth)
  then show "to_json api c (Suc n) (PyList a) = Inr (py_norm api (JArray vs))"
    using cell_later [OF assms(2) c] by simp
qed

lemma py_reads_dict:
  assumes api: "py_api_ok api" and ok: "obj_ok ms"
    and kvs: "list_all2 (\<lambda>m kv. fst kv = PyStr (fst m) \<and> py_reads api n (snd m) (snd kv) h) ms kvs"
    and a: "cells h a = Some (DictCell (dict_of kvs))"
  shows "py_reads api (Suc n) (JObject ms) (PyDict a) h"
  unfolding py_reads_def
proof (intro allI impI)
  fix c :: "'a py_core" assume c: "cells h \<subseteq>\<^sub>m cells (objects c)"
  have len: "length kvs = length ms" using kvs by (simp add: list_all2_lengthD)
  have keys: "map fst kvs = map (\<lambda>m. PyStr (fst m)) ms"
    using kvs len by (intro nth_equalityI) (simp_all add: list_all2_conv_all_nth)
  have "distinct (map fst ms)" using ok by (rule obj_ok_distinct)
  then have "distinct (map PyStr (map fst ms))" by (subst distinct_map) (simp add: inj_on_def)
  then have "distinct (map fst kvs)" unfolding keys by (simp add: o_def)
  then have cell: "cells (objects c) a = Some (DictCell kvs)" using cell_later [OF a c] dict_of_distinct by metis
  define f where "f = (\<lambda>kv. bindE (to_json api c n (snd kv)) (\<lambda>j. bindE (py_str api c (fst kv)) (\<lambda>k. Inr (k, j))))"
  have f: "f (kvs ! i) = Inr (fst (ms ! i), py_norm api (snd (ms ! i)))" if "i < length ms" for i
  proof -
    have "fst (kvs ! i) = PyStr (fst (ms ! i))" "to_json api c n (snd (kvs ! i)) = Inr (py_norm api (snd (ms ! i)))"
      using that kvs c by (simp_all add: list_all2_conv_all_nth py_reads_def)
    then show ?thesis using api by (simp add: f_def py_api_ok_def)
  qed
  have "bindE (mapE f kvs) (\<lambda>ms. Inr (obj_of ms)) = Inr (JObject (map (\<lambda>m. (fst m, py_norm api (snd m))) ms))"
    by (rule obj_of_traversal [OF ok refl len f])
  then show "to_json api c (Suc n) (PyDict a) = Inr (py_norm api (JObject ms))"
    using cell by (simp add: f_def)
qed

lemma int_back: "int_to_json api c (sint (i :: u64)) = Inr (JInt i)"
  using sint_lt [of i] sint_ge [of i] by (simp add: int_to_json_def)

lemma uint_back: "int_to_json api c (uint (u :: u64)) = Inr (if uint u < 2 ^ 63 then JInt u else JUInt u)"
proof -
  have "0 \<le> uint u" by simp
  then have "- (2 ^ 63) \<le> uint u" by (rule order_trans [rotated]) simp
  then show ?thesis using uint_bounded [of u] by (auto simp: int_to_json_def)
qed

lemma from_json_reads:
  assumes "py_api_ok api"
  shows "py_plain api j \<Longrightarrow> depth j \<le> n \<Longrightarrow> store_ok (objects (py s)) \<Longrightarrow>
    \<exists>v s'. from_json api net j s = (Inr v, s') \<and> ph.steps s s' \<and> py_reads api n j v (objects (py s'))"
  using assms
proof (induction api net j arbitrary: n s rule: from_json.induct)
  case (7 api net vs)
  obtain n' where n: "n = Suc n'" using "7.prems"(2) by (cases n) auto
  have elem: "\<exists>y s'. from_json api net x s = (Inr y, s') \<and> ph.steps s s' \<and> py_reads api n' x y (objects (py s'))"
    if "x \<in> set vs" "store_ok (objects (py s))" for x s
    using "7.IH" [of x n' s] that "7.prems"(1,2,4) depth_array_elem [of x vs] n
    by (auto simp: list_all_iff simp del: depth.simps)
  have build: "\<exists>xs m s'. from_json api net (JArray vs) s = (Inr (PyList (next_cell (objects (py s)))), s') \<and> ph.steps s s' \<and>
      list_all2 (\<lambda>x y. py_reads api n' x y (objects (py s'))) vs xs \<and>
      (Inr (ListCell xs) :: exn + 'a pycell) = Inr m \<and> cells (objects (py s')) (next_cell (objects (py s))) = Some m"
    unfolding from_json.simps
    by (rule ph.build_cell [where mk = "\<lambda>ys. Inr (ListCell ys) :: exn + 'a pycell" and P = "py_reads api n'"])
      (simp | erule (1) elem | erule (1) py_reads_grows | rule "7.prems"(3))+
  then obtain xs s' where run: "from_json api net (JArray vs) s = (Inr (PyList (next_cell (objects (py s)))), s')"
    and s': "ph.steps s s'" "list_all2 (\<lambda>x y. py_reads api n' x y (objects (py s'))) vs xs"
    and m: "cells (objects (py s')) (next_cell (objects (py s))) = Some (ListCell xs)"
    by auto
  have "py_reads api n (JArray vs) (PyList (next_cell (objects (py s)))) (objects (py s'))"
    unfolding n by (rule py_reads_list [OF s'(2) m])
  then show ?case using run s'(1) by blast
next
  case (8 api net ms)
  obtain n' where n: "n = Suc n'" using "8.prems"(2) by (cases n) auto
  let ?f = "\<lambda>m. bindS (from_json api net (snd m)) (\<lambda>v. bindS (py_text api (fst m)) (\<lambda>k. ret (k, v)))"
  let ?P = "\<lambda>m kv h. fst kv = PyStr (fst m) \<and> py_reads api n' (snd m) (snd kv) h"
  have elem: "\<exists>y s'. ?f x s = (Inr y, s') \<and> ph.steps s s' \<and> ?P x y (objects (py s'))"
    if "x \<in> set ms" "store_ok (objects (py s))" for x s
  proof -
    note x = that
    have "depth (snd x) \<le> n'"
      using depth_object_member [of "fst x" "snd x" ms] that(1) "8.prems"(2) n by (simp del: depth.simps)
    moreover have "py_plain api (snd x)" using that(1) "8.prems"(1) by (auto simp: list_all_iff)
    ultimately obtain v s' where "from_json api net (snd x) s = (Inr v, s')" "ph.steps s s'" "py_reads api n' (snd x) v (objects (py s'))"
      using "8.IH" [of x n' s] x "8.prems"(4) by blast
    moreover have "utf8_error api (fst x) = None" using that(1) "8.prems"(1) by (auto simp: list_all_iff)
    ultimately show ?thesis by (simp add: py_text_def)
  qed
  have mono: "?P x y h \<Longrightarrow> cells h \<subseteq>\<^sub>m cells h' \<Longrightarrow> ?P x y h'" for x y h h'
    by (auto intro: py_reads_grows)
  have build: "\<exists>kvs m s'. from_json api net (JObject ms) s = (Inr (PyDict (next_cell (objects (py s)))), s') \<and> ph.steps s s' \<and>
      list_all2 (\<lambda>x y. ?P x y (objects (py s'))) ms kvs \<and>
      (Inr (DictCell (dict_of kvs)) :: exn + 'a pycell) = Inr m \<and> cells (objects (py s')) (next_cell (objects (py s))) = Some m"
    unfolding from_json.simps
    by (rule ph.build_cell [where mk = "\<lambda>ys. Inr (DictCell (dict_of ys)) :: exn + 'a pycell" and P = ?P])
      (erule (1) elem | erule (1) mono | rule "8.prems"(3) | simp)+
  then obtain kvs s' where run: "from_json api net (JObject ms) s = (Inr (PyDict (next_cell (objects (py s)))), s')"
    and s': "ph.steps s s'" "list_all2 (\<lambda>x y. ?P x y (objects (py s'))) ms kvs"
    and m: "cells (objects (py s')) (next_cell (objects (py s))) = Some (DictCell (dict_of kvs))"
    by auto
  have ok: "obj_ok ms" using "8.prems"(1) by simp
  have "py_reads api n (JObject ms) (PyDict (next_cell (objects (py s)))) (objects (py s'))"
    unfolding n by (rule py_reads_dict [OF "8.prems"(4) ok s'(2) m])
  then show ?case using run s'(1) by blast
qed (auto simp: py_reads_def py_text_def int_back uint_back)

text \<open>A function that returns its argument shows what the two conversions make of it.\<close>

lemma PythonVm_call_echo:
  assumes "py_api_ok api" and "idle s" and "store_ok (objects (py s))" and "py_plain api j" and "depth j \<le> py_depth api"
    and "py_attr api PyMain (cstr fname) (py s) = Some f"
    and "\<And>x c m. py_call api f [x] c m = (Inr x, c, m)"
  shows "fst (PythonVm_call api net fname [] [j] s) = Inr (succeeded (py_norm api j))"
proof -
  let ?s = "s\<lparr>locked := True, created := []\<rparr>"
  have "store_ok (objects (py ?s))" using assms(3) by simp
  then obtain v s1 where v: "from_json api net j ?s = (Inr v, s1)" "py_reads api (py_depth api) j v (objects (py s1))"
    using from_json_reads [OF assms(1,4,5), of ?s net] by blast
  have "to_json api (py s1) (py_depth api) v = Inr (py_norm api j)" using v(2) by (simp add: py_reads_def)
  moreover have "\<not> locked s" using assms(2) by (simp add: idle_def)
  ultimately show ?thesis
    using v(1) assms(6,7)
    by (simp add: PythonVm_call_def with_mutex_def py_find_def with_views_def finallyS_def py_invoke_def catchS_def
        py_do_def put_memory_def del: from_json.simps py_norm.simps)
qed

text \<open>Once an exception got away the mutex is taken for good.\<close>

lemma PythonVm_locked:
  assumes "locked s"
  shows "PythonVm_execute api net code args s = (Inl Deadlock, s)" "PythonVm_call api net f t args s = (Inl Deadlock, s)"
    "files g = Some code \<Longrightarrow> PythonVm_load api net files g args s = (Inl Deadlock, s)"
    "files g = None \<Longrightarrow> PythonVm_load api net files g args s = (Inr (failed (''Error opening file: '' @ g)), s)"
  using assms by (simp_all add: PythonVm_execute_def PythonVm_call_def PythonVm_load_def load_file_def with_mutex_def)

definition stuck :: "('bk, 'ep) py_vm provider \<Rightarrow> bool" where
  "stuck p \<longleftrightarrow> (\<exists>vm. m_backend p = Some vm \<and> locked (vm_impl vm))"

fun needs_mutex :: "(string \<rightharpoonup> string) \<Rightarrow> request \<Rightarrow> bool" where
  "needs_mutex files (Load f args) = (files f \<noteq> None)"
| "needs_mutex files _ = True"

lemma stuck_serve:
  assumes "stuck p" and "serve (PythonVm_ops api net files dump) req p = (out, p')"
  shows "p' = p \<and> (needs_mutex files req \<longrightarrow> (\<exists>r. out = Escapes Deadlock r))"
proof -
  obtain vm where vm: "m_backend p = Some vm" "locked (vm_impl vm)" using assms(1) by (auto simp: stuck_def)
  have same: "p\<lparr>m_backend := Some (vm\<lparr>vm_impl := vm_impl vm\<rparr>)\<rparr> = p" using vm(1) by (cases p) simp
  show ?thesis
  proof (cases req)
    case (Load fname args)
    then show ?thesis
      using assms(2) vm same PythonVm_locked(3,4) [OF vm(2)]
      by (cases "files fname") (auto simp: loadRPC_def run_backend_def PythonVm_ops_def)
  qed (use assms(2) vm same PythonVm_locked(1,2) [OF vm(2)] in
      \<open>auto simp: executeRPC_def callRPC_def run_backend_def PythonVm_ops_def\<close>)
qed

lemma stuck_serves:
  "serves (PythonVm_ops api net files dump) p outs p' \<Longrightarrow> stuck p \<Longrightarrow>
     p' = p \<and> (\<forall>(req, out) \<in> set outs. needs_mutex files req \<longrightarrow> (\<exists>r. out = Escapes Deadlock r))"
proof (induction rule: serves.induct)
  case (one req p out p' outs p'')
  have "p' = p" "needs_mutex files req \<longrightarrow> (\<exists>r. out = Escapes Deadlock r)"
    using stuck_serve [OF one.prems one.hyps(1)] by auto
  then show ?case using one.IH one.prems by auto
qed simp

lemma escapes_stuck:
  assumes "provider_ready idle m_config name config p" and "serve (PythonVm_ops api net files dump) req p = (Escapes e r, p')"
  shows "stuck p'"
proof (cases "m_backend p")
  case None
  then show ?thesis using assms(2) by (cases req) (auto simp: executeRPC_def loadRPC_def callRPC_def run_backend_def)
next
  case (Some vm)
  have i: "idle (vm_impl vm)" using assms(1) Some by (simp add: provider_ready_def)
  have "\<exists>s'. (case req of Execute c a \<Rightarrow> PythonVm_execute api net c a | Load f a \<Rightarrow> PythonVm_load api net files f a
      | Call f t a \<Rightarrow> PythonVm_call api net f t a) (vm_impl vm) = (Inl e, s') \<and> p' = p\<lparr>m_backend := Some (vm\<lparr>vm_impl := s'\<rparr>)\<rparr>"
    using assms(2) Some
    by (cases req) (auto simp: executeRPC_def loadRPC_def callRPC_def run_backend_def PythonVm_ops_def split: prod.splits sum.splits)
  then obtain s' where s': "p' = p\<lparr>m_backend := Some (vm\<lparr>vm_impl := s'\<rparr>)\<rparr>" "(case req of Execute c a \<Rightarrow> PythonVm_execute api net c a
      | Load f a \<Rightarrow> PythonVm_load api net files f a | Call f t a \<Rightarrow> PythonVm_call api net f t a) (vm_impl vm) = (Inl e, s')" by blast
  have "locked s'"
  proof (cases req)
    case (Load f a)
    then show ?thesis
      using s'(2) load_file_cases [of files f _ "vm_impl vm"] PythonVm_execute_settles [OF i] unfolding PythonVm_load_def by fastforce
  qed (use s'(2) PythonVm_execute_settles [OF i] PythonVm_call_settles [OF i] in auto)
  then show ?thesis using s'(1) by (simp add: stuck_def)
qed


section \<open>What the Python backend promises\<close>

definition demo_py :: "u64 py_engine" where
  "demo_py = \<lparr>py_exec = (\<lambda>code c m. (if code = ''bad'' then Inl ''SyntaxError'' else Inr PyNone, c, m)),
     py_call = (\<lambda>f xs c m. (Inr (case xs of [x] \<Rightarrow> x | _ \<Rightarrow> PyObject 7), c, m)),
     py_attr = (\<lambda>t n c. if n = ''f'' then Some (PyFunction 0) else None),
     py_str = (\<lambda>c v. case v of PyStr s \<Rightarrow> Inr s | _ \<Rightarrow> Inr ''?''), py_repr = (\<lambda>c v. Inr ''<object>''),
     b64encode = (\<lambda>bs. ''AAEC''), utf8_error = (\<lambda>s. None),
     initial_py = \<lparr>objects = empty_store, namespace = Map.empty, sys_argv = PyNone\<rparr>, py_depth = 200\<rparr>"

lemma demo_py_ok: "py_api_ok demo_py"
  by (simp add: py_api_ok_def demo_py_def)

definition demo_py_vm :: "(u64, nat) py_vm" where
  "demo_py_vm = vm_world.extend (new_world JNull) (py_vm.fields (initial_py demo_py) Map.empty 0)"

lemma demo_py_vm_fields [simp]:
  "py demo_py_vm = initial_py demo_py" "idle demo_py_vm" "\<not> locked demo_py_vm" "m_config demo_py_vm = JNull"
  "alive demo_py_vm = Map.empty" "created demo_py_vm = []"
  by (simp_all add: demo_py_vm_def new_world_def vm_world.defs py_vm.defs idle_def)

definition demo_py_provider :: "(u64, nat) py_vm provider" where
  "demo_py_provider = \<lparr>m_backend = Some \<lparr>vm_name = ''python'', vm_impl = demo_py_vm\<rparr>\<rparr>"

text \<open>
  C35. As long as its requests are answered, a provider with a Python VM keeps that VM, with
  the mutex free, no view left alive, and the configuration it was created from.
\<close>

theorem python_provider_invariant:
  assumes "PythonVm_new api net files config = Inr s"
    and "serves (PythonVm_ops api net files dump) \<lparr>m_backend = Some \<lparr>vm_name = name, vm_impl = s\<rparr>\<rparr> outs p"
    and "\<forall>(req, out) \<in> set outs. \<exists>r. out = Replies r"
  shows "\<exists>vm. m_backend p = Some vm \<and> vm_name vm = name \<and> \<not> locked (vm_impl vm) \<and>
    alive (vm_impl vm) = Map.empty \<and> m_config (vm_impl vm) = config"
proof -
  have "provider_ready idle m_config (Some name) config \<lparr>m_backend = Some \<lparr>vm_name = name, vm_impl = s\<rparr>\<rparr>"
    using PythonVm_new_idle [OF assms(1)] by (simp add: provider_ready_def)
  from py.serves_replies [OF assms(2) this assms(3)] show ?thesis
    by (cases "m_backend p") (auto simp: provider_ready_def idle_def)
qed

lemma demo_py_new: "\<exists>s :: (u64, nat) py_vm. PythonVm_new demo_py demo_net Map.empty (JObject []) = Inr s"
  by (simp add: PythonVm_new_def run_preamble_def member_def)

theorem python_provider_invariant_witness:
  "\<exists>(s :: (u64, nat) py_vm) vm r. PythonVm_new demo_py demo_net Map.empty (JObject []) = Inr s \<and>
     loadRPC (PythonVm_ops demo_py demo_net Map.empty (\<lambda>_. ''{}'')) ''missing.py'' []
       \<lparr>m_backend = Some \<lparr>vm_name = ''python'', vm_impl = s\<rparr>\<rparr> = (Replies r, \<lparr>m_backend = Some vm\<rparr>) \<and> \<not> locked (vm_impl vm)"
proof -
  obtain s :: "(u64, nat) py_vm" where s: "PythonVm_new demo_py demo_net Map.empty (JObject []) = Inr s"
    using demo_py_new by blast
  let ?ops = "PythonVm_ops demo_py demo_net Map.empty (\<lambda>_. ''{}'')" and ?p = "\<lparr>m_backend = Some \<lparr>vm_name = ''python'', vm_impl = s\<rparr>\<rparr>"
  obtain r p where p: "loadRPC ?ops ''missing.py'' [] ?p = (Replies r, p)"
    by (simp add: loadRPC_def run_backend_def PythonVm_ops_def PythonVm_load_def load_file_def)
  have run: "serves ?ops ?p [(Load ''missing.py'' [], Replies r)] p"
    using p by (intro serves.one [OF _ serves.rest]) simp
  have "\<forall>(req, out) \<in> set [(Load ''missing.py'' [], Replies r)]. \<exists>r. out = Replies r" by simp
  from python_provider_invariant [OF s run this] obtain vm where "m_backend p = Some vm" "\<not> locked (vm_impl vm)" by blast
  then have "p = \<lparr>m_backend = Some vm\<rparr> \<and> \<not> locked (vm_impl vm)" by (cases p) simp
  then show ?thesis using s p by blast
qed

text \<open>
  C36. A request that ends with an exception, as a call of a function whose result has no JSON
  form does, leaves the mutex locked: from then on the provider's VM answers no request that
  needs it, whatever the requests are, for each waits for ever.
\<close>

theorem python_exception_deadlocks:
  assumes "provider_ready idle m_config name config p"
    and "serve (PythonVm_ops api net files dump) req p = (Escapes e r, p')"
    and "serves (PythonVm_ops api net files dump) p' outs p''"
  shows "p'' = p' \<and> (\<forall>(req, out) \<in> set outs. needs_mutex files req \<longrightarrow> (\<exists>r. out = Escapes Deadlock r))"
  by (rule stuck_serves [OF assms(3) escapes_stuck [OF assms(1,2)]])

theorem python_exception_deadlocks_witness:
  "\<exists>e r p' out p''. callRPC (PythonVm_ops demo_py demo_net Map.empty (\<lambda>_. ''{}'')) ''f'' '''' [] demo_py_provider = (Escapes e r, p') \<and>
     executeRPC (PythonVm_ops demo_py demo_net Map.empty (\<lambda>_. ''{}'')) ''pass'' [] p' = (out, p'') \<and> (\<exists>r. out = Escapes Deadlock r)"
proof -
  let ?ops = "PythonVm_ops demo_py demo_net Map.empty (\<lambda>_. ''{}'')"
  have "\<exists>s'. PythonVm_call demo_py demo_net ''f'' '''' [] demo_py_vm =
      (Inl (Exn (''to_json not implemented for this type of object: <object>'')), s')"
    by (simp add: PythonVm_call_def with_mutex_def py_find_def demo_py_def cstr_def with_views_def finallyS_def
        py_invoke_def catchS_def py_do_def unknown_type_def)
  then obtain e r p' where c: "serve ?ops (Call ''f'' '''' []) demo_py_provider = (Escapes e r, p')"
    by (auto simp: callRPC_def run_backend_def PythonVm_ops_def demo_py_provider_def)
  obtain out p'' where x: "executeRPC ?ops ''pass'' [] p' = (out, p'')" by fastforce
  have ready: "provider_ready idle m_config (Some ''python'') JNull demo_py_provider"
    by (simp add: provider_ready_def demo_py_provider_def)
  have "serves ?ops p' [(Execute ''pass'' [], out)] p''" using x by (intro serves.one [OF _ serves.rest]) simp
  from python_exception_deadlocks [OF ready c this] have "\<exists>r. out = Escapes Deadlock r" by simp
  then show ?thesis using c x by auto
qed

text \<open>
  A Python function that returns its argument shows what the trip into Python and back makes
  of it: nested arrays and objects, through the lists and dictionaries of the interpreter, come
  back as they were sent, and so do numbers and strings; a binary becomes its base64 text and a
  small unsigned integer a signed one.
\<close>

theorem python_call_roundtrip:
  assumes "py_api_ok api" and "idle s" and "store_ok (objects (py s))" and "py_plain api j" and "depth j \<le> py_depth api"
    and "py_attr api PyMain (cstr fname) (py s) = Some f"
    and "\<And>x c m. py_call api f [x] c m = (Inr x, c, m)"
  shows "fst (PythonVm_call api net fname [] [j] s) = Inr (succeeded (py_norm api j))"
  by (rule PythonVm_call_echo [OF assms])

theorem python_call_roundtrip_witness:
  "fst (PythonVm_call demo_py demo_net ''f'' [] [JArray [JUInt 5, JObject [(''a'', JBinary [0, 1, 2] None)]]] demo_py_vm) =
     Inr (succeeded (JArray [JInt 5, JObject [(''a'', JString ''AAEC'')]]))"
proof -
  let ?j = "JArray [JUInt 5, JObject [(''a'', JBinary [0, 1, 2] None)]]"
  have s: "store_ok (objects (py demo_py_vm))" by (simp add: demo_py_def)
  have p: "py_plain demo_py ?j" by (simp add: demo_py_def IsMemoryView_def)
  have d: "depth ?j \<le> py_depth demo_py" by (simp add: demo_py_def)
  have a: "py_attr demo_py PyMain (cstr ''f'') (py demo_py_vm) = Some (PyFunction 0)" by (simp add: demo_py_def cstr_def)
  have c: "py_call demo_py (PyFunction 0) [x] c m = (Inr x, c, m)" for x c m by (simp add: demo_py_def)
  have n: "py_norm demo_py ?j = JArray [JInt 5, JObject [(''a'', JString ''AAEC'')]]" by (simp add: demo_py_def)
  from python_call_roundtrip [OF demo_py_ok demo_py_vm_fields(2) s p d a c, of demo_net] show ?thesis unfolding n .
qed

end

