(* ===== verification/RubyVm.thy ===== *)
theory RubyVm
  imports Store Demo
begin

text \<open>
  The Ruby backend (\<open>src/ruby/RubyBackend.cpp\<close>) and the class its scripts see memory views
  through (\<open>src/ruby/RubyMemoryView.hpp\<close>). The interpreter is the parameter \<open>rb_engine\<close>: a run
  of a script is a tree of the native methods it invokes, ending in a value or an exception.
  Arrays and hashes are cells of the interpreter's heap. A view is the address and the size it
  had when it was made.
\<close>

section \<open>The interpreter\<close>

datatype 'bk rval =
    RNil
  | RBool bool
  | RInt u64
  | RFloat dbl
  | RStr string
  | RArray nat
  | RHash nat
  | RView "('bk mem_ptr \<times> u64) option"
  | ROther nat

datatype 'bk rcell = ArrayCell "'bk rval list" | HashCell "('bk rval \<times> 'bk rval) list"

record 'bk rb_core =
  rb_objects :: "'bk rcell store"
  rb_globals :: "string \<rightharpoonup> 'bk rval"
  rb_ARGV :: "'bk rval"
  rb_kernel :: "string set"

datatype rb_method = MvToS | MvSize | MvGetByte | MvSetByte | KernelFn string

datatype 'bk rb_run =
    Returns "'bk rb_core" "'bk rval + 'bk rval"
  | Invokes rb_method "'bk rval" "'bk rval list" "'bk rb_core" "('bk rval + 'bk rval) \<times> 'bk rb_core \<Rightarrow> 'bk rb_run"

record 'bk rb_engine =
  rb_opens :: bool
  rb_load :: "string \<Rightarrow> 'bk rb_core \<Rightarrow> 'bk rb_run"
  rb_funcall :: "'bk rval \<Rightarrow> string \<Rightarrow> 'bk rval list \<Rightarrow> 'bk rb_core \<Rightarrow> 'bk rb_run"
  rb_top_self :: "'bk rval"
  rb_inspect :: "'bk rb_core \<Rightarrow> 'bk rval \<Rightarrow> 'bk rval"
  rb_other_cstr :: "'bk rval \<Rightarrow> string option"
  rb_to_int :: "'bk rval \<Rightarrow> 'bk rval + u64"
  rb_error :: "string \<Rightarrow> string \<Rightarrow> 'bk rval"
  initial_rb :: "'bk rb_core"
  rb_depth :: nat

record ('bk, 'ep) rb_vm = "('bk, 'ep) vm_world" +
  rb :: "'bk rb_core"
  memoryview_class :: bool
  cpp_functions :: "string \<rightharpoonup> (json list \<Rightarrow> exn + json) \<times> bool"
  rb_local_mem :: "'bk \<Rightarrow> nat \<Rightarrow> byte"

section \<open>From Ruby to JSON\<close>

text \<open>
  A string with a zero byte makes \<open>mrb_str_to_cstr\<close> raise. \<open>raised\<close> is what that means: the end
  of the process where no script is running, undefined behaviour where the jump would pass over
  C++ objects.
\<close>

definition mrb_str_to_cstr :: "'bk rb_engine \<Rightarrow> exn \<Rightarrow> 'bk rval \<Rightarrow> exn + string" where
  "mrb_str_to_cstr api raised v =
     (case v of
        RStr s \<Rightarrow> if CHR 0x00 \<in> set s then Inl raised else Inr s
      | _ \<Rightarrow> optE raised (rb_other_cstr api v))"

fun mrb_value_to_json :: "'bk rb_engine \<Rightarrow> exn \<Rightarrow> 'bk rb_core \<Rightarrow> nat \<Rightarrow> 'bk rval \<Rightarrow> exn + json" where
  "mrb_value_to_json api raised c n RNil = Inr JNull"
| "mrb_value_to_json api raised c n (RInt i) = Inr (JInt i)"
| "mrb_value_to_json api raised c n (RFloat d) = Inr (JFloat d)"
| "mrb_value_to_json api raised c n (RBool b) = Inr (JBool b)"
| "mrb_value_to_json api raised c n (RStr s) = bindE (mrb_str_to_cstr api raised (RStr s)) (\<lambda>t. Inr (JString t))"
| "mrb_value_to_json api raised c 0 (RArray a) = Inl Abort"
| "mrb_value_to_json api raised c (Suc n) (RArray a) =
     (case cells (rb_objects c) a of
        Some (ArrayCell vs) \<Rightarrow> bindE (mapE (mrb_value_to_json api raised c n) vs) (\<lambda>js. Inr (JArray js))
      | _ \<Rightarrow> Inl UB)"
| "mrb_value_to_json api raised c 0 (RHash a) = Inl Abort"
| "mrb_value_to_json api raised c (Suc n) (RHash a) =
     (case cells (rb_objects c) a of
        Some (HashCell kvs) \<Rightarrow>
          bindE (mapE (\<lambda>kv. bindE (mrb_value_to_json api raised c n (snd kv)) (\<lambda>j.
            bindE (mrb_str_to_cstr api raised (fst kv)) (\<lambda>k. Inr (k, j)))) kvs)
            (\<lambda>ms. Inr (obj_of ms))
      | _ \<Rightarrow> Inl UB)"
| "mrb_value_to_json api raised c n v = Inr JNull"

section \<open>From JSON to Ruby\<close>

definition rb_new :: "(nat, ('bk, 'ep) rb_vm) act" where
  "rb_new s =
     (Inr (next_cell (rb_objects (rb s))), s\<lparr>rb := (rb s)\<lparr>rb_objects := reserve_cell (rb_objects (rb s))\<rparr>\<rparr>)"

definition rb_fill :: "nat \<Rightarrow> 'bk rcell \<Rightarrow> (unit, ('bk, 'ep) rb_vm) act" where
  "rb_fill a c s = (Inr (), s\<lparr>rb := (rb s)\<lparr>rb_objects := fill_cell a c (rb_objects (rb s))\<rparr>\<rparr>)"

text \<open>The class is set only when the constructor ends: \<open>known\<close> says whether it is set.\<close>

definition memory_view_new ::
  "('bk, 'ep) net \<Rightarrow> bool \<Rightarrow> nat \<Rightarrow> ('bk rval, ('bk, 'ep) rb_vm) act"
where
  "memory_view_new net known n =
     bindS (view_pointer net n) (\<lambda>(p, sz).
     if known then ret (RView (Some (p, sz))) else raise UB)"

function (sequential) json_to_mrb_value ::
  "('bk, 'ep) net \<Rightarrow> bool \<Rightarrow> json \<Rightarrow> ('bk rval, ('bk, 'ep) rb_vm) act"
where
  "json_to_mrb_value net known JNull = ret RNil"
| "json_to_mrb_value net known (JInt i) = ret (RInt (scast (ucast i :: 32 word)))"
| "json_to_mrb_value net known (JUInt u) = ret (RInt (scast (ucast u :: 32 word)))"
| "json_to_mrb_value net known (JFloat d) = ret (RFloat d)"
| "json_to_mrb_value net known (JBool b) = ret (RBool b)"
| "json_to_mrb_value net known (JString s) = ret (RStr (cstr s))"
| "json_to_mrb_value net known (JArray vs) =
     bindS rb_new (\<lambda>a.
     bindS (mapS (json_to_mrb_value net known) vs) (\<lambda>xs.
     bindS (rb_fill a (ArrayCell xs)) (\<lambda>_.
     ret (RArray a))))"
| "json_to_mrb_value net known (JObject ms) =
     bindS rb_new (\<lambda>a.
     bindS (mapS (\<lambda>m. bindS (json_to_mrb_value net known (snd m)) (\<lambda>v. ret (RStr (cstr (fst m)), v))) ms) (\<lambda>kvs.
     bindS (rb_fill a (HashCell (dict_of kvs))) (\<lambda>_.
     ret (RHash a))))"
| "json_to_mrb_value net known (JBinary bs st) =
     (if \<not> IsMemoryView (JBinary bs st) then ret (RStr (string_of bs))
      else
        bindS (view_open net (JBinary bs st)) (\<lambda>n.
        bindS (modify (view_keep n)) (\<lambda>_.
        memory_view_new net known n)))"
| "json_to_mrb_value net known JDiscarded = ret RNil"
  by pat_completeness auto
termination
  by (relation "measure (\<lambda>(net, known, j). depth j)")
    (auto intro: depth_array_elem depth_object_member simp del: depth.simps)

section \<open>What scripts do with a memory view\<close>

definition read_byte :: "'bk mem_ptr \<Rightarrow> nat \<Rightarrow> (byte, ('bk, 'ep) rb_vm) act" where
  "read_byte p i s =
     (case p of
        NullPtr \<Rightarrow> (Inl UB, s)
      | BulkPtr bk off \<Rightarrow> (Inr (rb_local_mem s bk (unat off + i)), s)
      | BufPtr n \<Rightarrow>
          (case view_memory s n of
             None \<Rightarrow> (Inl UB, s)
           | Some bs \<Rightarrow> (if i < length bs then Inr (bs ! i) else Inl UB, s)))"

definition write_byte :: "'bk mem_ptr \<Rightarrow> nat \<Rightarrow> byte \<Rightarrow> (unit, ('bk, 'ep) rb_vm) act" where
  "write_byte p i b s =
     (case p of
        NullPtr \<Rightarrow> (Inl UB, s)
      | BulkPtr bk off \<Rightarrow>
          (Inr (), s\<lparr>rb_local_mem := (rb_local_mem s)(bk := (rb_local_mem s bk)(unat off + i := b))\<rparr>)
      | BufPtr n \<Rightarrow>
          (case view_memory s n of
             None \<Rightarrow> (Inl UB, s)
           | Some bs \<Rightarrow>
               if i < length bs then (Inr (), put_memory ((view_memory s)(n \<mapsto> bs[i := b])) s) else (Inl UB, s)))"

text \<open>\<open>mrb_get_args\<close> of integers: the number of arguments, then the conversions.\<close>

definition get_ints :: "'bk rb_engine \<Rightarrow> nat \<Rightarrow> 'bk rval list \<Rightarrow> 'bk rval + u64 list" where
  "get_ints api n args =
     (if length args \<noteq> n then Inl (rb_error api ''ArgumentError'' ''wrong number of arguments'')
      else mapE (\<lambda>v. case v of RInt i \<Rightarrow> Inr i | _ \<Rightarrow> rb_to_int api v) args)"

definition index_out_of_bounds :: "'bk rb_engine \<Rightarrow> 'bk rval" where
  "index_out_of_bounds api = rb_error api ''IndexError'' ''index out of bounds''"

definition value_out_of_range :: "'bk rb_engine \<Rightarrow> 'bk rval" where
  "value_out_of_range api = rb_error api ''ArgumentError'' ''value out of byte range (0-255)''"

definition data_ptr :: "'bk rval \<Rightarrow> exn + 'bk mem_ptr \<times> u64" where
  "data_ptr self = (case self of RView (Some v) \<Rightarrow> Inr v | _ \<Rightarrow> Inl UB)"

definition memory_view_to_s :: "'bk rval \<Rightarrow> ('bk rval + 'bk rval, ('bk, 'ep) rb_vm) act" where
  "memory_view_to_s self =
     bindS (liftE (data_ptr self)) (\<lambda>(p, sz).
     bindS (mapS (read_byte p) [0..<unat sz]) (\<lambda>bs.
     ret (Inr (RStr (string_of bs)))))"

definition memory_view_size :: "'bk rval \<Rightarrow> ('bk rval + 'bk rval, ('bk, 'ep) rb_vm) act" where
  "memory_view_size self = bindS (liftE (data_ptr self)) (\<lambda>(p, sz). ret (Inr (RInt sz)))"

definition memory_view_get_byte ::
  "'bk rb_engine \<Rightarrow> 'bk rval \<Rightarrow> 'bk rval list \<Rightarrow> ('bk rval + 'bk rval, ('bk, 'ep) rb_vm) act"
where
  "memory_view_get_byte api self args =
     (case get_ints api 1 args of
        Inl exc \<Rightarrow> ret (Inl exc)
      | Inr is \<Rightarrow>
          bindS (liftE (data_ptr self)) (\<lambda>(p, sz).
          let i = is ! 0 in
          if sint i < 0 \<or> i \<ge> sz then ret (Inl (index_out_of_bounds api))
          else bindS (read_byte p (unat i)) (\<lambda>b. ret (Inr (RInt (ucast b))))))"

definition memory_view_set_byte ::
  "'bk rb_engine \<Rightarrow> 'bk rval \<Rightarrow> 'bk rval list \<Rightarrow> ('bk rval + 'bk rval, ('bk, 'ep) rb_vm) act"
where
  "memory_view_set_byte api self args =
     (case get_ints api 2 args of
        Inl exc \<Rightarrow> ret (Inl exc)
      | Inr is \<Rightarrow>
          bindS (liftE (data_ptr self)) (\<lambda>(p, sz).
          let i = is ! 0; v = is ! 1 in
          if sint i < 0 \<or> i \<ge> sz then ret (Inl (index_out_of_bounds api))
          else if sint v < 0 \<or> sint v > 255 then ret (Inl (value_out_of_range api))
          else bindS (write_byte p (unat i) (ucast v)) (\<lambda>_. ret (Inr (RInt v)))))"

section \<open>Foreign functions\<close>

text \<open>
  An exception of C++ that leaves the resolver crosses the C frames of the interpreter. The
  views it makes are destroyed before the script gets their objects.
\<close>

definition through_c :: "('a, 's) act \<Rightarrow> ('a, 's) act" where
  "through_c m s = (case m s of (Inl e, s') \<Rightarrow> (Inl UB, s') | (Inr x, s') \<Rightarrow> (Inr x, s'))"

definition make_iv_name :: "string \<Rightarrow> string" where
  "make_iv_name name = ''__'' @ name @ ''__''"

definition resolver ::
  "'bk rb_engine \<Rightarrow> ('bk, 'ep) net \<Rightarrow> string \<Rightarrow> 'bk rval list \<Rightarrow> ('bk rval + 'bk rval, ('bk, 'ep) rb_vm) act"
where
  "resolver api net name argv s =
     through_c
       (bindS (liftE (mapE (mrb_value_to_json api UB (rb s) (rb_depth api)) argv)) (\<lambda>jargs.
        case cpp_functions s (make_iv_name name) of
          None \<Rightarrow> ret (Inl (rb_error api ''NameError'' name))
        | Some (func, known) \<Rightarrow>
            bindS (liftE (func jargs)) (\<lambda>result.
            bindS (with_views (json_to_mrb_value net known result)) (\<lambda>v.
            ret (Inr v))))) s"

primrec rb_invoke ::
  "'bk rb_engine \<Rightarrow> ('bk, 'ep) net \<Rightarrow> rb_method \<Rightarrow> 'bk rval \<Rightarrow> 'bk rval list \<Rightarrow>
     ('bk rval + 'bk rval, ('bk, 'ep) rb_vm) act"
where
  "rb_invoke api net MvToS self args = memory_view_to_s self"
| "rb_invoke api net MvSize self args = memory_view_size self"
| "rb_invoke api net MvGetByte self args = memory_view_get_byte api self args"
| "rb_invoke api net MvSetByte self args = memory_view_set_byte api self args"
| "rb_invoke api net (KernelFn name) self args = resolver api net name args"

primrec run_ruby ::
  "'bk rb_engine \<Rightarrow> ('bk, 'ep) net \<Rightarrow> 'bk rb_run \<Rightarrow> ('bk rval + 'bk rval, ('bk, 'ep) rb_vm) act"
where
  "run_ruby api net (Returns c r) = (\<lambda>s. (Inr r, s\<lparr>rb := c\<rparr>))"
| "run_ruby api net (Invokes m self args c k) =
     (\<lambda>s. case rb_invoke api net m self args (s\<lparr>rb := c\<rparr>) of
            (Inl e, s') \<Rightarrow> (Inl e, s')
          | (Inr r, s') \<Rightarrow> run_ruby api net (k (r, rb s')) s')"

section \<open>The virtual machine\<close>

definition rb_result :: "'bk rb_engine \<Rightarrow> 'bk rval + 'bk rval \<Rightarrow> (json result, ('bk, 'ep) rb_vm) act" where
  "rb_result api r s =
     (case r of
        Inl exc \<Rightarrow>
          bindE (mrb_str_to_cstr api Abort (rb_inspect api (rb s) exc)) (\<lambda>error_message.
          Inr (failed (''Error executing Ruby code: '' @ error_message)))
      | Inr v \<Rightarrow> bindE (mrb_value_to_json api Abort (rb s) (rb_depth api) v) (\<lambda>j. Inr (succeeded j)), s)"

definition convert_args ::
  "('bk, 'ep) net \<Rightarrow> json list \<Rightarrow> ('bk rval list, ('bk, 'ep) rb_vm) act"
where
  "convert_args net args s = mapS (json_to_mrb_value net (memoryview_class s)) args s"

definition RubyVm_execute ::
  "'bk rb_engine \<Rightarrow> ('bk, 'ep) net \<Rightarrow> string \<Rightarrow> json list \<Rightarrow> (json result, ('bk, 'ep) rb_vm) act"
where
  "RubyVm_execute api net code args =
     with_lock (with_views (
       bindS rb_new (\<lambda>a.
       bindS (convert_args net args) (\<lambda>xs.
       bindS (rb_fill a (ArrayCell (RStr ''poesie'' # xs))) (\<lambda>_.
       bindS (modify (\<lambda>s. s\<lparr>rb := (rb s)\<lparr>rb_ARGV := RArray a\<rparr>\<rparr>)) (\<lambda>_.
       bindS (\<lambda>s. run_ruby api net (rb_load api (cstr code) (rb s)) s) (rb_result api)))))))"

definition RubyVm_load ::
  "'bk rb_engine \<Rightarrow> ('bk, 'ep) net \<Rightarrow> (string \<rightharpoonup> string) \<Rightarrow> string \<Rightarrow> json list \<Rightarrow> (json result, ('bk, 'ep) rb_vm) act"
where
  "RubyVm_load api net files filename args =
     load_file files filename (\<lambda>code. RubyVm_execute api net code args)"

definition gv_get :: "string \<Rightarrow> 'bk rb_core \<Rightarrow> 'bk rval" where
  "gv_get name c = (case rb_globals c name of None \<Rightarrow> RNil | Some v \<Rightarrow> v)"

definition RubyVm_call ::
  "'bk rb_engine \<Rightarrow> ('bk, 'ep) net \<Rightarrow> string \<Rightarrow> string \<Rightarrow> json list \<Rightarrow> (json result, ('bk, 'ep) rb_vm) act"
where
  "RubyVm_call api net fname target args =
     with_lock (with_views (
       bindS (convert_args net args) (\<lambda>xs.
       bindS (\<lambda>s.
         let self = (if target = [] then rb_top_self api else gv_get (cstr target) (rb s))
         in run_ruby api net (rb_funcall api self (cstr fname) xs (rb s)) s) (rb_result api))))"

definition RubyVm_install :: "string \<Rightarrow> (json list \<Rightarrow> exn + json) \<Rightarrow> nat \<Rightarrow> (bresult, ('bk, 'ep) rb_vm) act" where
  "RubyVm_install name func nargs =
     with_lock (
       bindS (modify (\<lambda>s. s\<lparr>cpp_functions := (cpp_functions s)(make_iv_name (cstr name) \<mapsto> (func, memoryview_class s))\<rparr>)) (\<lambda>_.
       bindS (modify (\<lambda>s. s\<lparr>rb := (rb s)\<lparr>rb_kernel := insert (cstr name) (rb_kernel (rb s))\<rparr>\<rparr>)) (\<lambda>_.
       ret BResult_default)))"

definition RubyVm_destroy :: "(bresult, ('bk, 'ep) rb_vm) act" where
  "RubyVm_destroy = ret (BResult_set_value True BResult_default)"

definition RubyVm_new ::
  "'bk rb_engine \<Rightarrow> ('bk, 'ep) net \<Rightarrow> (string \<rightharpoonup> string) \<Rightarrow> ('bk \<Rightarrow> nat \<Rightarrow> byte) \<Rightarrow> json \<Rightarrow> exn + ('bk, 'ep) rb_vm"
where
  "RubyVm_new api net files mem config =
     (if \<not> rb_opens api then Inl (Exn ''Failed to initialize mruby'')
      else
        (case run_preamble (RubyVm_load api net files) (RubyVm_execute api net) config
                (vm_world.extend (new_world config)
                  \<lparr>rb = initial_rb api, memoryview_class = False, cpp_functions = Map.empty, rb_local_mem = mem\<rparr>) of
           (Inl e, s) \<Rightarrow> Inl e
         | (Inr _, s) \<Rightarrow> Inr (s\<lparr>memoryview_class := True\<rparr>)))"

definition RubyVm_ops ::
  "'bk rb_engine \<Rightarrow> ('bk, 'ep) net \<Rightarrow> (string \<rightharpoonup> string) \<Rightarrow> (json \<Rightarrow> string) \<Rightarrow> ('bk, 'ep) rb_vm backend_ops"
where
  "RubyVm_ops api net files dump =
     \<lparr>op_getConfig = \<lambda>s. dump (m_config s),
      op_execute = RubyVm_execute api net,
      op_load = RubyVm_load api net files,
      op_call = RubyVm_call api net,
      op_destroy = \<lambda>s. snd (RubyVm_destroy s)\<rparr>"


section \<open>Calls leave nothing behind\<close>

text \<open>
  Inside a call views are opened and listed; a foreign function has a list of its own, which
  this relation, unlike \<open>inside\<close>, survives.
\<close>

definition opens :: "('bk, 'ep, 'z) vm_world_scheme \<Rightarrow> ('bk, 'ep, 'z) vm_world_scheme \<Rightarrow> bool" where
  "opens s s' \<longleftrightarrow> m_config s' = m_config s \<and> locked s' = locked s \<and> set (created s) \<subseteq> set (created s') \<and>
     dom (alive s') \<subseteq> dom (alive s) \<union> set (created s')"

lemma opens_preorder [simp]: "reflp opens" "transp opens"
proof -
  show "reflp opens" by (rule reflpI) (auto simp: opens_def)
  show "transp opens"
  proof (rule transpI)
    fix s1 s2 s3 assume a: "opens s1 s2" "opens s2 s3"
    have "dom (alive s3) \<subseteq> dom (alive s2) \<union> set (created s3)" "dom (alive s2) \<subseteq> dom (alive s1) \<union> set (created s2)"
      "set (created s2) \<subseteq> set (created s3)" using a by (simp_all add: opens_def)
    then have "dom (alive s3) \<subseteq> dom (alive s1) \<union> set (created s3)" by blast
    then show "opens s1 s3" using a by (auto simp: opens_def)
  qed
qed

lemma opens_inside: "keeps opens m \<Longrightarrow> keeps inside m"
  unfolding keeps_def opens_def inside_def tracked_def by blast

lemma opens_view_pointer: "keeps opens (view_pointer net n)"
  by (rule keepsI)
    (auto simp: opens_def view_pointer_def split: option.splits prod.splits)

lemma opens_open_keep:
  assumes "\<And>n. keeps opens (g n)"
  shows "keeps opens (bindS (view_open net j) (\<lambda>n. bindS (modify (view_keep n)) (\<lambda>_. g n)))"
proof (rule keepsI)
  fix s r s'
  assume run: "bindS (view_open net j) (\<lambda>n. bindS (modify (view_keep n)) (\<lambda>_. g n)) s = (r, s')"
  show "opens s s'"
  proof (cases "MemoryView_json net j")
    case (Inl e)
    then show ?thesis using run by (auto simp: view_open_def bindS_def opens_def)
  next
    case (Inr v)
    let ?s1 = "view_keep (next_view s) (s\<lparr>next_view := Suc (next_view s), alive := (alive s)(next_view s \<mapsto> v)\<rparr>)"
    have "g (next_view s) ?s1 = (r, s')" using run Inr by (simp add: view_open_def bindS_def)
    then have "opens ?s1 s'" by (rule keepsD [OF assms])
    moreover have "opens s ?s1" by (auto simp: opens_def view_keep_def)
    ultimately show ?thesis using transpD [OF opens_preorder(2)] by blast
  qed
qed

lemma opens_put_memory: "opens s (put_memory m s)"
  by (auto simp: opens_def put_memory_def)

lemma opens_with_views:
  assumes "keeps opens m"
  shows "keeps opens (with_views m)"
proof (rule keepsI)
  fix s r s' assume run: "with_views m s = (r, s')"
  obtain s1 where m: "m (s\<lparr>created := []\<rparr>) = (r, s1)" and s': "s' = (close_created s1)\<lparr>created := created s\<rparr>"
    using run by (auto simp: with_views_def finallyS_def split: prod.splits)
  have "opens (s\<lparr>created := []\<rparr>) s1" by (rule keepsD [OF assms m])
  then have "m_config s1 = m_config s" "locked s1 = locked s" "dom (alive s1) \<subseteq> dom (alive s) \<union> set (created s1)"
    by (simp_all add: opens_def)
  moreover from this(3) have "dom (alive s1) \<inter> - set (created s1) \<subseteq> dom (alive s)" by blast
  ultimately show "opens s s'" by (auto simp: s' opens_def dom_restrict)
qed

lemma opens_through_c: "keeps opens m \<Longrightarrow> keeps opens (through_c m)"
  by (rule keepsI) (auto simp: through_c_def split: prod.splits sum.splits dest: keepsD)

lemma keeps_state: "(\<And>s. opens s (f s)) \<Longrightarrow> keeps opens (\<lambda>s. (r s, f s))"
  by (simp add: keeps_def)

lemma opens_rb: "opens s (s\<lparr>rb := c\<rparr>)" "opens s (s\<lparr>rb_local_mem := m\<rparr>)"
  "opens s (s\<lparr>cpp_functions := fs\<rparr>)" "opens s s"
  by (auto simp: opens_def)

lemma keeps_rb: "keeps opens rb_new" "keeps opens (rb_fill a c)" "keeps opens (modify (\<lambda>s. s\<lparr>rb := f s\<rparr>))"
  "keeps opens (read_byte p i)" "keeps opens (write_byte p i b)" "keeps opens (rb_result api r)"
  by (auto simp: keeps_def rb_new_def rb_fill_def read_byte_def write_byte_def rb_result_def opens_rb opens_put_memory
      split: mem_ptr.split option.split)

lemmas opens_intros = keeps_bindS keeps_mapS keeps_basic keeps_rb opens_preorder

lemma keeps_memory_view_new: "keeps opens (memory_view_new net known n)"
  unfolding memory_view_new_def by (intro keeps_bindS opens_view_pointer opens_preorder) (auto simp: keeps_basic)

lemma keeps_json_to_mrb_value: "keeps opens (json_to_mrb_value net known j)"
proof (induction net known j rule: json_to_mrb_value.induct)
  case (8 net known ms)
  show ?case unfolding json_to_mrb_value.simps by (intro opens_intros 8)
next
  case (9 net known bs st)
  then show ?case by (auto intro!: opens_open_keep keeps_memory_view_new keeps_basic)
qed (auto intro!: opens_intros)

lemma keeps_views_methods:
  "keeps opens (memory_view_to_s self)" "keeps opens (memory_view_size self)"
  "keeps opens (memory_view_get_byte api self args)" "keeps opens (memory_view_set_byte api self args)"
  unfolding memory_view_to_s_def memory_view_size_def memory_view_get_byte_def memory_view_set_byte_def Let_def
  by (auto intro!: opens_intros split: sum.split)

lemma keeps_local: "(\<And>s0. keeps R (m s0)) \<Longrightarrow> keeps R (\<lambda>s. m s s)"
  by (simp add: keeps_def)

lemma keeps_resolver: "keeps opens (resolver api net name argv)"
  unfolding resolver_def
  by (rule keeps_local, rule opens_through_c)
    (auto intro!: opens_intros opens_with_views keeps_json_to_mrb_value split: option.split)

lemma keeps_rb_invoke: "keeps opens (rb_invoke api net m self args)"
  by (cases m) (simp_all add: keeps_views_methods keeps_resolver)

lemma keeps_run_ruby: "keeps opens (run_ruby api net t)"
proof (induction t)
  case (Returns c r)
  then show ?case by (simp add: keeps_def opens_rb)
next
  case (Invokes m self args c k)
  show ?case
  proof (rule keepsI)
    fix s r s'
    assume run: "run_ruby api net (Invokes m self args c k) s = (r, s')"
    obtain q s1 where q: "rb_invoke api net m self args (s\<lparr>rb := c\<rparr>) = (q, s1)" by fastforce
    have "opens (s\<lparr>rb := c\<rparr>) s1" by (rule keepsD [OF keeps_rb_invoke q])
    then have 1: "opens s s1" using transpD [OF opens_preorder(2) opens_rb(1)] by blast
    show "opens s s'"
    proof (cases q)
      case (Inl e)
      then show ?thesis using run q 1 by simp
    next
      case (Inr x)
      then have "run_ruby api net (k (x, rb s1)) s1 = (r, s')" using run q by simp
      then have "opens s1 s'" using keepsD [OF Invokes] by blast
      then show ?thesis using 1 transpD [OF opens_preorder(2)] by blast
    qed
  qed
qed

lemma keeps_convert_args: "keeps opens (convert_args net args)"
  unfolding convert_args_def by (rule keeps_local) (intro keeps_mapS keeps_json_to_mrb_value opens_preorder)

lemma keeps_run: "keeps opens (\<lambda>s. run_ruby api net (f s) s)"
  by (rule keeps_local) (rule keeps_run_ruby)

lemma RubyVm_execute_idle:
  "idle s \<Longrightarrow> RubyVm_execute api net code args s = (r, s') \<Longrightarrow> idle s' \<and> m_config s' = m_config s"
  unfolding RubyVm_execute_def
  by (rule call_idle [rotated], assumption+, rule opens_inside)
    (intro opens_intros keeps_convert_args keeps_run)

lemma RubyVm_load_idle:
  "idle s \<Longrightarrow> RubyVm_load api net files f args s = (r, s') \<Longrightarrow> idle s' \<and> m_config s' = m_config s"
  unfolding RubyVm_load_def by (auto dest!: load_file_cases dest: RubyVm_execute_idle)

lemma RubyVm_call_idle:
  "idle s \<Longrightarrow> RubyVm_call api net f t args s = (r, s') \<Longrightarrow> idle s' \<and> m_config s' = m_config s"
  unfolding RubyVm_call_def Let_def
  by (rule call_idle [rotated], assumption+, rule opens_inside)
    (intro opens_intros keeps_convert_args keeps_run)

interpretation ruby: robust_backend "RubyVm_ops api net files dump" idle m_config dump for api net files dump
proof unfold_locales
  fix b
  show "op_getConfig (RubyVm_ops api net files dump) b = dump (m_config b)" by (simp add: RubyVm_ops_def)
qed (auto simp: RubyVm_ops_def dest: RubyVm_execute_idle RubyVm_load_idle RubyVm_call_idle)

lemma RubyVm_new_idle:
  assumes "RubyVm_new api net files mem config = Inr s"
  shows "idle s \<and> m_config s = config"
proof -
  let ?s0 = "vm_world.extend (new_world config) (rb_vm.fields (initial_rb api) False Map.empty mem)"
  have i: "idle ?s0" "m_config ?s0 = config"
    by (simp_all add: idle_def new_world_def vm_world.defs rb_vm.defs)
  obtain r s1 where "run_preamble (RubyVm_load api net files) (RubyVm_execute api net) config ?s0 = (r, s1)"
    and s: "s = s1\<lparr>memoryview_class := True\<rparr>"
    using assms by (auto simp: RubyVm_new_def rb_vm.defs split: sum.splits prod.splits if_splits)
  from run_preamble_idle [OF RubyVm_load_idle RubyVm_execute_idle this(1) i(1)] i(2)
  show ?thesis by (simp add: s idle_def)
qed


section \<open>Values that survive the trip\<close>

lemma mapE_cong2: "list_all2 (\<lambda>x y. f x = g y) xs ys \<Longrightarrow> mapE f xs = mapE g ys"
  by (induction xs ys rule: list_all2_induct) auto

text \<open>
  What a value becomes on its way into Ruby and back: integers are cut to 32 bits, strings at
  their first zero byte; a binary becomes a string, and one with a zero byte ends the process.
\<close>

function (sequential) rb_norm :: "json \<Rightarrow> exn + json" where
  "rb_norm (JInt i) = Inr (JInt (scast (ucast i :: 32 word)))"
| "rb_norm (JUInt u) = Inr (JInt (scast (ucast u :: 32 word)))"
| "rb_norm (JString s) = Inr (JString (cstr s))"
| "rb_norm (JBinary bs st) = (if 0 \<in> set bs then Inl Abort else Inr (JString (string_of bs)))"
| "rb_norm (JArray vs) = bindE (mapE rb_norm vs) (\<lambda>js. Inr (JArray js))"
| "rb_norm (JObject ms) = bindE (mapE (\<lambda>m. bindE (rb_norm (snd m)) (\<lambda>j. Inr (fst m, j))) ms) (\<lambda>ms. Inr (JObject ms))"
| "rb_norm j = Inr j"
  by pat_completeness auto
termination
  by (relation "measure depth") (auto intro: depth_array_elem depth_object_member simp del: depth.simps)

function (sequential) rb_plain :: "json \<Rightarrow> bool" where
  "rb_plain JDiscarded = False"
| "rb_plain (JBinary bs st) = (\<not> IsMemoryView (JBinary bs st))"
| "rb_plain (JArray vs) = list_all rb_plain vs"
| "rb_plain (JObject ms) = (obj_ok ms \<and> list_all (\<lambda>m. CHR 0x00 \<notin> set (fst m) \<and> rb_plain (snd m)) ms)"
| "rb_plain j = True"
  by pat_completeness auto
termination
  by (relation "measure depth") (auto intro: depth_array_elem depth_object_member simp del: depth.simps)

definition rb_reads :: "'bk rb_engine \<Rightarrow> nat \<Rightarrow> json \<Rightarrow> 'bk rval \<Rightarrow> 'bk rcell store \<Rightarrow> bool" where
  "rb_reads api n j v h \<longleftrightarrow>
     (\<forall>c. cells h \<subseteq>\<^sub>m cells (rb_objects c) \<longrightarrow> mrb_value_to_json api Abort c n v = rb_norm j)"

lemma rb_reads_grows: "rb_reads api n j v h \<Longrightarrow> cells h \<subseteq>\<^sub>m cells h' \<Longrightarrow> rb_reads api n j v h'"
  by (auto simp: rb_reads_def intro: map_le_trans)

interpretation rh: heap_of "\<lambda>s. rb_objects (rb s)" "\<lambda>h s. s\<lparr>rb := (rb s)\<lparr>rb_objects := h\<rparr>\<rparr>"
  by unfold_locales simp_all

lemma rb_steps [simp]:
  "rb_new s = (Inr (next_cell (rb_objects (rb s))), s\<lparr>rb := (rb s)\<lparr>rb_objects := reserve_cell (rb_objects (rb s))\<rparr>\<rparr>)"
  "rb_fill a c s = (Inr (), s\<lparr>rb := (rb s)\<lparr>rb_objects := fill_cell a c (rb_objects (rb s))\<rparr>\<rparr>)"
  by (rule rb_new_def rb_fill_def)+

lemma rb_reads_array:
  assumes "list_all2 (\<lambda>v x. rb_reads api n v x h) vs xs" and "cells h a = Some (ArrayCell xs)"
  shows "rb_reads api (Suc n) (JArray vs) (RArray a) h"
  unfolding rb_reads_def
proof (intro allI impI)
  fix c :: "'a rb_core" assume c: "cells h \<subseteq>\<^sub>m cells (rb_objects c)"
  have "list_all2 (\<lambda>x v. mrb_value_to_json api Abort c n x = rb_norm v) xs vs"
    using assms(1) c by (auto simp: list_all2_conv_all_nth rb_reads_def)
  then have "mapE (mrb_value_to_json api Abort c n) xs = mapE rb_norm vs" by (rule mapE_cong2)
  moreover have "cells (rb_objects c) a = Some (ArrayCell xs)" using assms(2) c by (metis domI map_le_def)
  ultimately show "mrb_value_to_json api Abort c (Suc n) (RArray a) = rb_norm (JArray vs)" by simp
qed

lemma mapE_members:
  assumes "mapE (\<lambda>m. bindE (g (snd m)) (\<lambda>j. Inr (fst m, j))) ms = Inr ns"
  shows "map fst ns = map fst ms"
  using assms by (induction ms arbitrary: ns) (auto simp: bindE_eq_Inr)

lemma rb_reads_hash:
  assumes ok: "obj_ok ms"
    and kvs: "list_all2 (\<lambda>m kv. fst kv = RStr (fst m) \<and> CHR 0x00 \<notin> set (fst m) \<and> rb_reads api n (snd m) (snd kv) h) ms kvs"
    and a: "cells h a = Some (HashCell (dict_of kvs))"
  shows "rb_reads api (Suc n) (JObject ms) (RHash a) h"
  unfolding rb_reads_def
proof (intro allI impI)
  fix c :: "'a rb_core" assume c: "cells h \<subseteq>\<^sub>m cells (rb_objects c)"
  let ?conv = "\<lambda>kv. bindE (mrb_value_to_json api Abort c n (snd kv)) (\<lambda>j. bindE (mrb_str_to_cstr api Abort (fst kv)) (\<lambda>k. Inr (k, j)))"
  let ?norm = "\<lambda>m. bindE (rb_norm (snd m)) (\<lambda>j. Inr (fst m, j))"
  have len: "length kvs = length ms" using kvs by (simp add: list_all2_lengthD)
  have keys: "map fst kvs = map (\<lambda>m. RStr (fst m)) ms"
    using kvs len by (intro nth_equalityI) (simp_all add: list_all2_conv_all_nth)
  have "distinct (map fst ms)" using ok by (rule obj_ok_distinct)
  then have "distinct (map RStr (map fst ms))" by (subst distinct_map) (simp add: inj_on_def)
  then have "distinct (map fst kvs)" unfolding keys by (simp add: o_def)
  then have cell: "cells (rb_objects c) a = Some (HashCell kvs)"
    using a c by (metis dict_of_distinct domI map_le_def)
  have "list_all2 (\<lambda>kv m. ?conv kv = ?norm m) kvs ms"
    using kvs c by (auto simp: list_all2_conv_all_nth rb_reads_def mrb_str_to_cstr_def)
  then have conv: "mapE ?conv kvs = mapE ?norm ms" by (rule mapE_cong2)
  have "bindE (mapE ?norm ms) (\<lambda>ms. Inr (obj_of ms)) = bindE (mapE ?norm ms) (\<lambda>ms. Inr (JObject ms))"
  proof (cases "mapE ?norm ms")
    case (Inr ns)
    then have "map fst ns = map fst ms" by (rule mapE_members)
    then have "obj_ok ns" using ok by simp
    then have "obj_of ns = JObject ns" by (rule obj_of_perm) simp
    then show ?thesis using Inr by simp
  qed simp
  then show "mrb_value_to_json api Abort c (Suc n) (RHash a) = rb_norm (JObject ms)"
    using cell conv by simp
qed

lemma nul_string_of: "CHR 0x00 \<in> set (string_of bs) \<longleftrightarrow> 0 \<in> set bs"
proof -
  have "CHR 0x00 = char_of_byte 0" by (simp add: char_of_byte_def char_of_def)
  moreover have "char_of_byte b = char_of_byte c \<Longrightarrow> b = c" for b c by (metis byte_char_inverse)
  ultimately show ?thesis by (auto simp: string_of_def)
qed

lemma nul_cstr: "CHR 0x00 \<notin> set (cstr s)"
  by (auto simp: cstr_def dest: set_takeWhileD)

lemma json_to_mrb_value_reads:
  "rb_plain j \<Longrightarrow> depth j \<le> n \<Longrightarrow> store_ok (rb_objects (rb s)) \<Longrightarrow>
    \<exists>v s'. json_to_mrb_value net known j s = (Inr v, s') \<and> rh.steps s s' \<and> rb_reads api n j v (rb_objects (rb s'))"
proof (induction net known j arbitrary: n s rule: json_to_mrb_value.induct)
  case (7 net known vs)
  obtain n' where n: "n = Suc n'" using "7.prems"(2) by (cases n) auto
  let ?a = "next_cell (rb_objects (rb s))"
  have elem: "\<exists>y s'. json_to_mrb_value net known x s = (Inr y, s') \<and> rh.steps s s' \<and> rb_reads api n' x y (rb_objects (rb s'))"
    if "x \<in> set vs" "store_ok (rb_objects (rb s))" for x s
    using "7.IH" [of x n' s] that "7.prems"(1,2) depth_array_elem [of x vs] n
    by (auto simp: list_all_iff simp del: depth.simps)
  have "\<exists>xs m s'. json_to_mrb_value net known (JArray vs) s = (Inr (RArray ?a), s') \<and> rh.steps s s' \<and>
      list_all2 (\<lambda>x y. rb_reads api n' x y (rb_objects (rb s'))) vs xs \<and>
      (Inr (ArrayCell xs) :: exn + 'a rcell) = Inr m \<and> cells (rb_objects (rb s')) ?a = Some m"
    unfolding json_to_mrb_value.simps
    by (rule rh.build_cell [where mk = "\<lambda>ys. Inr (ArrayCell ys) :: exn + 'a rcell" and P = "rb_reads api n'"])
      (simp | erule (1) elem | erule (1) rb_reads_grows | rule "7.prems"(3))+
  then obtain xs s' where run: "json_to_mrb_value net known (JArray vs) s = (Inr (RArray ?a), s')"
    and s': "rh.steps s s'" "list_all2 (\<lambda>x y. rb_reads api n' x y (rb_objects (rb s'))) vs xs"
    and m: "cells (rb_objects (rb s')) ?a = Some (ArrayCell xs)"
    by auto
  have "rb_reads api n (JArray vs) (RArray ?a) (rb_objects (rb s'))"
    unfolding n by (rule rb_reads_array [OF s'(2) m])
  then show ?case using run s'(1) by blast
next
  case (8 net known ms)
  obtain n' where n: "n = Suc n'" using "8.prems"(2) by (cases n) auto
  let ?a = "next_cell (rb_objects (rb s))"
  let ?f = "\<lambda>m. bindS (json_to_mrb_value net known (snd m)) (\<lambda>v. ret (RStr (cstr (fst m)), v))"
  let ?P = "\<lambda>m kv h. fst kv = RStr (fst m) \<and> CHR 0x00 \<notin> set (fst m) \<and> rb_reads api n' (snd m) (snd kv) h"
  have elem: "\<exists>y s'. ?f x s = (Inr y, s') \<and> rh.steps s s' \<and> ?P x y (rb_objects (rb s'))"
    if "x \<in> set ms" "store_ok (rb_objects (rb s))" for x s
  proof -
    note x = that
    have "depth (snd x) \<le> n'"
      using depth_object_member [of "fst x" "snd x" ms] that(1) "8.prems"(2) n by (simp del: depth.simps)
    moreover have p: "rb_plain (snd x)" "CHR 0x00 \<notin> set (fst x)" using that(1) "8.prems"(1) by (auto simp: list_all_iff)
    ultimately obtain v s' where "json_to_mrb_value net known (snd x) s = (Inr v, s')" "rh.steps s s'"
        "rb_reads api n' (snd x) v (rb_objects (rb s'))"
      using "8.IH" [of x n' s] x by blast
    then show ?thesis using p(2) by (simp add: cstr_id)
  qed
  have mono: "?P x y h \<Longrightarrow> cells h \<subseteq>\<^sub>m cells h' \<Longrightarrow> ?P x y h'" for x y h h'
    by (auto intro: rb_reads_grows)
  have "\<exists>kvs m s'. json_to_mrb_value net known (JObject ms) s = (Inr (RHash ?a), s') \<and> rh.steps s s' \<and>
      list_all2 (\<lambda>x y. ?P x y (rb_objects (rb s'))) ms kvs \<and>
      (Inr (HashCell (dict_of kvs)) :: exn + 'a rcell) = Inr m \<and> cells (rb_objects (rb s')) ?a = Some m"
    unfolding json_to_mrb_value.simps
    by (rule rh.build_cell [where mk = "\<lambda>ys. Inr (HashCell (dict_of ys)) :: exn + 'a rcell" and P = ?P])
      (erule (1) elem | erule (1) mono | rule "8.prems"(3) | simp)+
  then obtain kvs s' where run: "json_to_mrb_value net known (JObject ms) s = (Inr (RHash ?a), s')"
    and s': "rh.steps s s'" "list_all2 (\<lambda>x y. ?P x y (rb_objects (rb s'))) ms kvs"
    and m: "cells (rb_objects (rb s')) ?a = Some (HashCell (dict_of kvs))"
    by auto
  have ok: "obj_ok ms" using "8.prems"(1) by simp
  have "rb_reads api n (JObject ms) (RHash ?a) (rb_objects (rb s'))"
    unfolding n by (rule rb_reads_hash [OF ok s'(2) m])
  then show ?case using run s'(1) by blast
qed (auto simp: rb_reads_def mrb_str_to_cstr_def nul_string_of nul_cstr)

lemma RubyVm_call_echo:
  assumes "idle s" and "store_ok (rb_objects (rb s))" and "rb_plain j" and "depth j \<le> rb_depth api"
    and "\<And>x c. rb_funcall api (rb_top_self api) (cstr fname) [x] c = Returns c (Inr x)"
  shows "fst (RubyVm_call api net fname [] [j] s) = bindE (rb_norm j) (\<lambda>j. Inr (succeeded j))"
proof -
  let ?s = "s\<lparr>locked := True, created := []\<rparr>"
  have "store_ok (rb_objects (rb ?s))" using assms(2) by simp
  then obtain v s1 where v: "json_to_mrb_value net (memoryview_class s) j ?s = (Inr v, s1)"
      "rb_reads api (rb_depth api) j v (rb_objects (rb s1))"
    using json_to_mrb_value_reads [OF assms(3,4), of ?s net "memoryview_class s" api] by blast
  have "mrb_value_to_json api Abort (rb s1) (rb_depth api) v = rb_norm j" using v(2) by (simp add: rb_reads_def)
  moreover have "\<not> locked s" using assms(1) by (simp add: idle_def)
  ultimately show ?thesis
    using v(1) assms(5)
    by (simp add: RubyVm_call_def with_lock_def with_views_def finallyS_def convert_args_def rb_result_def
        del: json_to_mrb_value.simps rb_norm.simps)
qed

section \<open>Bytes of a view\<close>

text \<open>The bytes a view's address and size name, where they all exist.\<close>

definition view_bytes :: "'bk mem_ptr \<Rightarrow> u64 \<Rightarrow> ('bk, 'ep) rb_vm \<Rightarrow> byte list option" where
  "view_bytes p sz s =
     (case p of
        NullPtr \<Rightarrow> (if sz = 0 then Some [] else None)
      | BulkPtr bk off \<Rightarrow> Some (map (\<lambda>i. rb_local_mem s bk (unat off + i)) [0..<unat sz])
      | BufPtr n \<Rightarrow> (case view_memory s n of Some bs \<Rightarrow> if length bs = unat sz then Some bs else None | None \<Rightarrow> None))"

lemma view_memory_put:
  "view_memory s n = Some bs \<Longrightarrow> view_memory (put_memory ((view_memory s)(n \<mapsto> bs')) s) n = Some bs'"
  by (auto simp: view_memory_def put_memory_def write_buffer_def view_buffer_def split: local_data.splits option.splits
      elim!: bind_eq_Some_conv [THEN iffD1, elim_format])

lemma view_bytes_length: "view_bytes p sz s = Some bs \<Longrightarrow> length bs = unat sz"
  by (auto simp: view_bytes_def split: mem_ptr.splits option.splits if_splits)

lemma read_byte_bytes: "view_bytes p sz s = Some bs \<Longrightarrow> i < unat sz \<Longrightarrow> read_byte p i s = (Inr (bs ! i), s)"
  by (auto simp: view_bytes_def read_byte_def split: mem_ptr.splits option.splits if_splits)

lemma write_byte_bytes:
  assumes "view_bytes p sz s = Some bs" and "i < unat sz"
  shows "\<exists>s'. write_byte p i b s = (Inr (), s') \<and> view_bytes p sz s' = Some (bs[i := b])"
proof (cases p)
  case NullPtr
  then show ?thesis using assms by (simp add: view_bytes_def split: if_splits)
next
  case (BulkPtr bk off)
  then show ?thesis using assms by (auto simp: view_bytes_def write_byte_def intro!: nth_equalityI simp: nth_list_update)
next
  case (BufPtr n)
  then show ?thesis using assms
    by (auto simp: view_bytes_def write_byte_def view_memory_put split: option.splits if_splits)
qed


text \<open>One access to a view, whatever the numbers.\<close>

lemma get_byte_view:
  assumes "view_bytes p sz s = Some bs"
  shows "memory_view_get_byte api (RView (Some (p, sz))) [RInt i] s =
     (Inr (if 0 \<le> sint i \<and> i < sz then Inr (RInt (ucast (bs ! unat i))) else Inl (index_out_of_bounds api)), s)"
  using read_byte_bytes [OF assms, of "unat i"]
  by (auto simp: memory_view_get_byte_def get_ints_def data_ptr_def Let_def not_le not_less word_less_nat_alt)

lemma set_byte_view:
  assumes "view_bytes p sz s = Some bs"
  shows "\<exists>s'. memory_view_set_byte api (RView (Some (p, sz))) [RInt i, RInt v] s =
       (Inr (if \<not> (0 \<le> sint i \<and> i < sz) then Inl (index_out_of_bounds api)
             else if \<not> (0 \<le> sint v \<and> sint v \<le> 255) then Inl (value_out_of_range api)
             else Inr (RInt v)), s') \<and>
     view_bytes p sz s' =
       Some (if 0 \<le> sint i \<and> i < sz \<and> 0 \<le> sint v \<and> sint v \<le> 255 then bs[unat i := ucast v] else bs)"
proof (cases "0 \<le> sint i \<and> i < sz \<and> 0 \<le> sint v \<and> sint v \<le> 255")
  case True
  then have "unat i < unat sz" by (simp add: word_less_nat_alt)
  then obtain s' where "write_byte p (unat i) (ucast v) s = (Inr (), s')" "view_bytes p sz s' = Some (bs[unat i := ucast v])"
    using write_byte_bytes [OF assms] by blast
  then show ?thesis using True
    by (intro exI [of _ s']) (auto simp: memory_view_set_byte_def get_ints_def data_ptr_def Let_def)
next
  case False
  then show ?thesis using assms
    by (intro exI [of _ s]) (auto simp: memory_view_set_byte_def get_ints_def data_ptr_def Let_def not_le not_less)
qed

lemma byte_back:
  assumes "0 \<le> sint (v :: u64)" and "sint v \<le> 255"
  shows "ucast (ucast v :: byte) = v"
proof -
  have "sint v = uint v" using assms(1) by (rule sint_uint_pos)
  then have "uint v < 256" using assms by simp
  then have "uint (ucast v :: byte) = uint v" by (simp add: unsigned_ucast_eq take_bit_eq_mod)
  then have "uint (ucast (ucast v :: byte) :: u64) = uint v" by (simp add: uint_up_ucast is_up)
  then show ?thesis by (simp only: uint_word_ariths word_uint_eq_iff)
qed


section \<open>What the Ruby backend promises\<close>

definition demo_rb :: "u64 rb_engine" where
  "demo_rb = \<lparr>rb_opens = True, rb_load = (\<lambda>code c. Returns c (Inr (rb_ARGV c))),
     rb_funcall = (\<lambda>self f xs c. Returns c (Inr (case xs of [x] \<Rightarrow> x | _ \<Rightarrow> RNil))), rb_top_self = ROther 0,
     rb_inspect = (\<lambda>c v. RStr ''#<StandardError>''), rb_other_cstr = (\<lambda>v. None), rb_to_int = (\<lambda>v. Inl v),
     rb_error = (\<lambda>k m. ROther 1), initial_rb = \<lparr>rb_objects = empty_store, rb_globals = Map.empty, rb_ARGV = RNil, rb_kernel = {}\<rparr>,
     rb_depth = 200\<rparr>"

definition demo_rb_vm :: "(u64, nat) rb_vm" where
  "demo_rb_vm = vm_world.extend (new_world (JObject [])) (rb_vm.fields (initial_rb demo_rb) True Map.empty (\<lambda>_ _. 0))"

lemma demo_rb_vm_fields [simp]:
  "rb demo_rb_vm = initial_rb demo_rb" "idle demo_rb_vm" "\<not> locked demo_rb_vm" "m_config demo_rb_vm = JObject []"
  "alive demo_rb_vm = Map.empty" "created demo_rb_vm = []" "memoryview_class demo_rb_vm"
  by (simp_all add: demo_rb_vm_def new_world_def vm_world.defs rb_vm.defs idle_def)

lemma demo_rb_new: "RubyVm_new demo_rb demo_net Map.empty (\<lambda>_ _. 0) (JObject []) = Inr demo_rb_vm"
  by (simp add: RubyVm_new_def run_preamble_def member_def demo_rb_vm_def rb_vm.defs new_world_def vm_world.defs)
    (simp add: demo_rb_def)

text \<open>
  C37. Whatever requests a provider with a Ruby VM serves, and whether it answers them or they
  end with an exception, it keeps that VM, with the mutex free, no view left alive, and the
  configuration it was created from.
\<close>

theorem ruby_provider_invariant:
  assumes "RubyVm_new api net files mem config = Inr s"
    and "serves (RubyVm_ops api net files dump) \<lparr>m_backend = Some \<lparr>vm_name = name, vm_impl = s\<rparr>\<rparr> outs p"
  shows "\<exists>vm. m_backend p = Some vm \<and> vm_name vm = name \<and> \<not> locked (vm_impl vm) \<and>
    alive (vm_impl vm) = Map.empty \<and> m_config (vm_impl vm) = config"
proof -
  have "provider_ready idle m_config (Some name) config \<lparr>m_backend = Some \<lparr>vm_name = name, vm_impl = s\<rparr>\<rparr>"
    using RubyVm_new_idle [OF assms(1)] by (simp add: provider_ready_def)
  from ruby.serves_robust [OF assms(2) this] show ?thesis
    by (cases "m_backend p") (auto simp: provider_ready_def idle_def)
qed

theorem ruby_provider_invariant_witness:
  "\<exists>out vm. executeRPC (RubyVm_ops demo_rb demo_net Map.empty (\<lambda>_. ''{}'')) ''ARGV'' [JInt 1]
       \<lparr>m_backend = Some \<lparr>vm_name = ''ruby'', vm_impl = demo_rb_vm\<rparr>\<rparr> = (out, \<lparr>m_backend = Some vm\<rparr>) \<and> \<not> locked (vm_impl vm)"
proof -
  let ?ops = "RubyVm_ops demo_rb demo_net Map.empty (\<lambda>_. ''{}'')" and ?p = "\<lparr>m_backend = Some \<lparr>vm_name = ''ruby'', vm_impl = demo_rb_vm\<rparr>\<rparr>"
  obtain out p where p: "executeRPC ?ops ''ARGV'' [JInt 1] ?p = (out, p)" by fastforce
  then have "serves ?ops ?p [(Execute ''ARGV'' [JInt 1], out)] p" by (intro serves.one [OF _ serves.rest]) simp
  from ruby_provider_invariant [OF demo_rb_new this] obtain vm where "m_backend p = Some vm" "\<not> locked (vm_impl vm)" by blast
  then have "p = \<lparr>m_backend = Some vm\<rparr> \<and> \<not> locked (vm_impl vm)" by (cases p) simp
  then show ?thesis using p by blast
qed

text \<open>
  C38. A Ruby method that returns its argument shows what the trip into Ruby and back makes of
  it, through the arrays and hashes of the interpreter: integers are cut to 32 bits, strings
  at their first zero byte, binaries become strings, the rest comes back as it was; and a
  binary with a zero byte ends the process, from anywhere inside the value.
\<close>

theorem ruby_call_roundtrip:
  assumes "idle s" and "store_ok (rb_objects (rb s))" and "rb_plain j" and "depth j \<le> rb_depth api"
    and "\<And>x c. rb_funcall api (rb_top_self api) (cstr fname) [x] c = Returns c (Inr x)"
  shows "fst (RubyVm_call api net fname [] [j] s) = bindE (rb_norm j) (\<lambda>j. Inr (succeeded j))"
  by (rule RubyVm_call_echo [OF assms])

theorem ruby_call_roundtrip_witness:
  "fst (RubyVm_call demo_rb demo_net ''f'' [] [JArray [JObject [(''a'', JBinary [104, 105] None)], JNull]] demo_rb_vm) =
     Inr (succeeded (JArray [JObject [(''a'', JString ''hi'')], JNull])) \<and>
   fst (RubyVm_call demo_rb demo_net ''f'' [] [JArray [JBinary [104, 0] None]] demo_rb_vm) = Inl Abort"
proof -
  let ?j = "JArray [JObject [(''a'', JBinary [104, 105] None)], JNull]" and ?k = "JArray [JBinary [104, 0] None]"
  have s: "store_ok (rb_objects (rb demo_rb_vm))" by (simp add: demo_rb_def)
  have p: "rb_plain ?j" "rb_plain ?k" by (simp_all add: IsMemoryView_def)
  have d: "depth ?j \<le> rb_depth demo_rb" "depth ?k \<le> rb_depth demo_rb" by (simp_all add: demo_rb_def)
  have c: "rb_funcall demo_rb (rb_top_self demo_rb) (cstr ''f'') [x] c = Returns c (Inr x)" for x c by (simp add: demo_rb_def)
  have "bytes_of ''hi'' = [104, 105]" by (simp add: bytes_of_def byte_of_char_def)
  then have hi: "string_of [104, 105] = ''hi''" by (metis string_bytes_inverse)
  have n: "rb_norm ?j = Inr (JArray [JObject [(''a'', JString ''hi'')], JNull])" "rb_norm ?k = Inl Abort"
    by (simp_all add: hi)
  from ruby_call_roundtrip [OF demo_rb_vm_fields(2) s p(1) d(1) c, of demo_net]
    ruby_call_roundtrip [OF demo_rb_vm_fields(2) s p(2) d(2) c, of demo_net]
  show ?thesis unfolding n by simp
qed

text \<open>
  C39. On a view whose bytes exist, \<open>[]=\<close> and \<open>[]\<close> stay inside them for every pair of integers:
  an index outside the view is an \<open>IndexError\<close>, a value that is no byte an \<open>ArgumentError\<close>, both
  without effect; otherwise the byte is set, no other one changes, and \<open>[]\<close> reads it back as the
  number it was set to.
\<close>

theorem ruby_view_bounds:
  assumes "view_bytes p sz s = Some bs"
  shows "\<exists>s'. memory_view_set_byte api (RView (Some (p, sz))) [RInt i, RInt v] s =
       (Inr (if \<not> (0 \<le> sint i \<and> i < sz) then Inl (index_out_of_bounds api)
             else if \<not> (0 \<le> sint v \<and> sint v \<le> 255) then Inl (value_out_of_range api)
             else Inr (RInt v)), s') \<and>
     (\<forall>k. memory_view_get_byte api (RView (Some (p, sz))) [RInt k] s' =
       (Inr (if \<not> (0 \<le> sint k \<and> k < sz) then Inl (index_out_of_bounds api)
             else if k = i \<and> 0 \<le> sint v \<and> sint v \<le> 255 then Inr (RInt v)
             else Inr (RInt (ucast (bs ! unat k)))), s'))"
proof -
  let ?ok = "0 \<le> sint i \<and> i < sz \<and> 0 \<le> sint v \<and> sint v \<le> 255"
  let ?bs = "if ?ok then bs[unat i := ucast v] else bs"
  obtain s' where set: "memory_view_set_byte api (RView (Some (p, sz))) [RInt i, RInt v] s =
       (Inr (if \<not> (0 \<le> sint i \<and> i < sz) then Inl (index_out_of_bounds api)
             else if \<not> (0 \<le> sint v \<and> sint v \<le> 255) then Inl (value_out_of_range api)
             else Inr (RInt v)), s')" and bytes: "view_bytes p sz s' = Some ?bs"
    using set_byte_view [OF assms, of api i v] by blast
  have "ucast (?bs ! unat k) = (if k = i \<and> 0 \<le> sint v \<and> sint v \<le> 255 then v else ucast (bs ! unat k))"
    if "0 \<le> sint k" "k < sz" for k
  proof (cases "k = i")
    case True
    then have "unat i < length bs" using that view_bytes_length [OF assms] by (simp add: word_less_nat_alt)
    then show ?thesis using True that by (simp add: byte_back)
  next
    case False
    then have "unat i \<noteq> unat k" by (metis word_unat_eq_iff)
    then show ?thesis using False by (simp add: nth_list_update)
  qed
  then show ?thesis using set get_byte_view [OF bytes] by (intro exI [of _ s']) auto
qed

theorem ruby_view_bounds_witness:
  "\<exists>s'. memory_view_set_byte demo_rb (RView (Some (BufPtr 0, 20))) [RInt 3, RInt 200] (demo_rb_vm\<lparr>alive := [0 \<mapsto> demo_ready]\<rparr>) =
       (Inr (Inr (RInt 200)), s') \<and>
     memory_view_get_byte demo_rb (RView (Some (BufPtr 0, 20))) [RInt 3] s' = (Inr (Inr (RInt 200)), s') \<and>
     memory_view_get_byte demo_rb (RView (Some (BufPtr 0, 20))) [RInt 4] s' = (Inr (Inr (RInt 5)), s') \<and>
     memory_view_get_byte demo_rb (RView (Some (BufPtr 0, 20))) [RInt 20] s' = (Inr (Inl (index_out_of_bounds demo_rb)), s')"
proof -
  let ?s = "demo_rb_vm\<lparr>alive := [0 \<mapsto> demo_ready]\<rparr>"
  have b: "view_bytes (BufPtr 0) 20 ?s = Some (replicate 20 5)"
    by (simp add: view_bytes_def view_memory_def view_buffer_def demo_ready_def demo_view_def)
  have e: "(replicate 20 (5 :: byte)) ! unat (4 :: u64) = 5" by simp
  show ?thesis using ruby_view_bounds [OF b, of demo_rb 3 200] e by (elim ex_forward) simp
qed

end

