(* ===== verification/LuaVm.thy ===== *)
theory LuaVm
  imports Vm Doubles Demo
begin

text \<open>
  \<open>src/lua/LuaBackend.cpp\<close>: conversions between JSON and Lua values, the constructor, and
  \<open>execute\<close>, \<open>load\<close>, \<open>call\<close>, \<open>install\<close> and \<open>destroy\<close> of \<open>LuaVm\<close>.

  The Lua state and sol2 are not under \<open>src/\<close>. A table is its address; \<open>tables\<close> holds its
  entries, and \<open>lua_engine\<close> what the code asks of the interpreter: the order in which a table
  is traversed, the conversions of keys, running code. Running code sees the buffers of the
  views that exist and returns an error message or the first result. The walk over a value
  is as deep as the C++ stack allows; a deeper one, or one over a cyclic table, ends the
  process. The Lua stack is given no bound: what is left on it is only counted.
\<close>

datatype 'bk lua_value =
    LuaNil
  | LuaBool bool
  | LuaInt u64
  | LuaNum dbl
  | LuaStr string
  | LuaTable nat
  | LuaFunction nat
  | LuaMemory "'bk mem_ptr" u64
  | LuaUserdata nat
  | LuaThread nat
  | LuaLightUserdata u64
  | LuaNone

type_synonym 'bk lua_entries = "('bk lua_value \<times> 'bk lua_value) list"

record 'bk lua_core =
  tables :: "nat \<rightharpoonup> 'bk lua_entries"
  next_table :: nat
  globals :: "string \<Rightarrow> 'bk lua_value"

type_synonym 'bk lua_run = "'bk lua_core \<Rightarrow> memory \<Rightarrow> (string + 'bk lua_value) \<times> 'bk lua_core \<times> memory"

record 'bk lua_engine =
  traverse :: "'bk lua_entries \<Rightarrow> 'bk lua_entries"
  as_size_t :: "'bk lua_value \<Rightarrow> u64"
  as_string :: "'bk lua_value \<Rightarrow> exn + string"
  valid_table :: "'bk lua_value \<Rightarrow> string + bool"
  get_field :: "'bk lua_value \<Rightarrow> string \<Rightarrow> 'bk lua_run"
  script :: "string \<Rightarrow> 'bk lua_run"
  script_file :: "string \<Rightarrow> 'bk lua_run"
  call_function :: "'bk lua_value \<Rightarrow> 'bk lua_value list \<Rightarrow> 'bk lua_run"
  initial_core :: "'bk lua_core"
  luaopen_memory :: "'bk lua_core \<Rightarrow> 'bk lua_value \<times> 'bk lua_core"
  max_depth :: nat

record ('bk, 'ep) lua_vm = "('bk, 'ep) vm_world" +
  core :: "'bk lua_core"
  stack_top :: nat
  foreign :: "nat \<rightharpoonup> (json list \<Rightarrow> exn + json) \<times> nat"
  next_foreign :: nat

section \<open>From Lua to JSON\<close>

fun lua_is_number :: "'bk lua_value \<Rightarrow> bool" where
  "lua_is_number (LuaInt _) = True"
| "lua_is_number (LuaNum _) = True"
| "lua_is_number _ = False"

text \<open>Whether the traversal meets the keys \<open>i\<close>, \<open>i + 1\<close>, ... (an empty table does).\<close>

fun is_array_from :: "'bk lua_engine \<Rightarrow> u64 \<Rightarrow> 'bk lua_entries \<Rightarrow> bool" where
  "is_array_from api i [] = True"
| "is_array_from api i (kv # kvs) =
     (if \<not> lua_is_number (fst kv) \<or> as_size_t api (fst kv) \<noteq> i then False
      else is_array_from api (i + 1) kvs)"

fun LuaObjectToJSON :: "'bk lua_engine \<Rightarrow> 'bk lua_core \<Rightarrow> nat \<Rightarrow> 'bk lua_value \<Rightarrow> exn + json" where
  "LuaObjectToJSON api c n LuaNil = Inr JNull"
| "LuaObjectToJSON api c n (LuaBool b) = Inr (JBool b)"
| "LuaObjectToJSON api c n (LuaInt i) = Inr (JFloat (double_of_int (sint i)))"
| "LuaObjectToJSON api c n (LuaNum d) = Inr (JFloat d)"
| "LuaObjectToJSON api c n (LuaStr s) = Inr (JString s)"
| "LuaObjectToJSON api c 0 (LuaTable a) = Inl Abort"
| "LuaObjectToJSON api c (Suc n) (LuaTable a) =
     (case tables c a of
        None \<Rightarrow> Inl UB
      | Some es \<Rightarrow>
          (let lua_table = traverse api es
           in if is_array_from api 1 lua_table
              then bindE (mapE (\<lambda>kv. LuaObjectToJSON api c n (snd kv)) lua_table) (\<lambda>vs. Inr (JArray vs))
              else bindE (mapE (\<lambda>kv. bindE (as_string api (fst kv)) (\<lambda>key.
                     bindE (LuaObjectToJSON api c n (snd kv)) (\<lambda>v. Inr (key, v)))) lua_table)
                     (\<lambda>ms. Inr (obj_of ms))))"
| "LuaObjectToJSON api c n (LuaFunction f) = Inr (JString ''<function>'')"
| "LuaObjectToJSON api c n (LuaMemory p sz) = Inr (JString ''<userdata>'')"
| "LuaObjectToJSON api c n (LuaUserdata u) = Inr (JString ''<userdata>'')"
| "LuaObjectToJSON api c n (LuaThread t) = Inr (JString ''<thread>'')"
| "LuaObjectToJSON api c n (LuaLightUserdata p) = Inr (JString ''<lightuserdata>'')"
| "LuaObjectToJSON api c n LuaNone = Inr (JString ''<unknown>'')"

section \<open>From JSON to Lua\<close>

text \<open>Assigning \<open>nil\<close> removes an entry, or does not add one.\<close>

fun table_set :: "'bk lua_value \<Rightarrow> 'bk lua_value \<Rightarrow> 'bk lua_entries \<Rightarrow> 'bk lua_entries" where
  "table_set k v [] = (if v = LuaNil then [] else [(k, v)])"
| "table_set k v ((k', v') # es) =
     (if k = k' then (if v = LuaNil then es else (k, v) # es) else (k', v') # table_set k v es)"

text \<open>
  A new table gets its address when it is created and its entries once all of its elements
  have been converted; in between nothing can reach it. \<open>luamem_newref\<close> pushes the memory
  object, and nothing pops it: \<open>stack_top\<close> counts what is left on the stack.
\<close>

definition create_table :: "(nat, ('bk, 'ep) lua_vm) act" where
  "create_table s =
     (Inr (next_table (core s)), s\<lparr>core := (core s)\<lparr>next_table := Suc (next_table (core s))\<rparr>\<rparr>)"

definition fill_table :: "nat \<Rightarrow> 'bk lua_entries \<Rightarrow> (unit, ('bk, 'ep) lua_vm) act" where
  "fill_table a kvs = modify (\<lambda>s.
     s\<lparr>core := (core s)\<lparr>tables := (tables (core s))(a \<mapsto> foldl (\<lambda>es (k, v). table_set k v es) [] kvs)\<rparr>\<rparr>)"

function (sequential) JSONToLuaObject ::
  "('bk, 'ep) net \<Rightarrow> json \<Rightarrow> ('bk lua_value, ('bk, 'ep) lua_vm) act"
where
  "JSONToLuaObject net JNull = ret LuaNil"
| "JSONToLuaObject net (JBool b) = ret (LuaBool b)"
| "JSONToLuaObject net (JInt i) = ret (LuaInt (scast (get_int (JInt i))))"
| "JSONToLuaObject net (JUInt u) = ret (LuaInt (scast (get_int (JUInt u))))"
| "JSONToLuaObject net (JFloat d) = ret (LuaNum d)"
| "JSONToLuaObject net (JString s) = ret (LuaStr s)"
| "JSONToLuaObject net (JArray vs) =
     bindS create_table (\<lambda>a.
     bindS (mapS (JSONToLuaObject net) vs) (\<lambda>xs.
     bindS (fill_table a (zip (map (\<lambda>i. LuaInt (word_of_nat (i + 1))) [0..<length vs]) xs)) (\<lambda>_.
     ret (LuaTable a))))"
| "JSONToLuaObject net (JObject ms) =
     bindS create_table (\<lambda>a.
     bindS (mapS (\<lambda>m. JSONToLuaObject net (snd m)) ms) (\<lambda>xs.
     bindS (fill_table a (zip (map (\<lambda>m. LuaStr (fst m)) ms) xs)) (\<lambda>_.
     ret (LuaTable a))))"
| "JSONToLuaObject net (JBinary bs st) =
     (if \<not> IsMemoryView (JBinary bs st) then ret (LuaStr (string_of bs))
      else
        bindS (view_open net (JBinary bs st)) (\<lambda>n.
        bindS (modify (view_keep n)) (\<lambda>_.
        bindS (modify (\<lambda>s. s\<lparr>stack_top := Suc (stack_top s)\<rparr>)) (\<lambda>_.
        bindS (view_pointer net n) (\<lambda>(p, sz).
        ret (LuaMemory p sz))))))"
| "JSONToLuaObject net JDiscarded = ret LuaNil"
  by pat_completeness auto
termination
  by (relation "measure (\<lambda>(net, j). depth j)")
    (auto intro: depth_array_elem depth_object_member simp del: depth.simps)

section \<open>The virtual machine\<close>

definition set_global :: "string \<Rightarrow> 'bk lua_value \<Rightarrow> (unit, ('bk, 'ep) lua_vm) act" where
  "set_global name v = modify (\<lambda>s. s\<lparr>core := (core s)\<lparr>globals := (globals (core s))(name := v)\<rparr>\<rparr>)"

definition get_global :: "string \<Rightarrow> ('bk lua_value, ('bk, 'ep) lua_vm) act" where
  "get_global name s = (Inr (globals (core s) name), s)"

definition lua_exec :: "'bk lua_run \<Rightarrow> (string + 'bk lua_value, ('bk, 'ep) lua_vm) act" where
  "lua_exec run s =
     (case run (core s) (view_memory s) of (r, c, m) \<Rightarrow> (Inr r, put_memory m (s\<lparr>core := c\<rparr>)))"

definition lua_error :: "string \<Rightarrow> json result" where
  "lua_error what = failed (''Error executing Lua code: '' @ what)"

definition lua_result :: "'bk lua_engine \<Rightarrow> string + 'bk lua_value \<Rightarrow> (json result, ('bk, 'ep) lua_vm) act" where
  "lua_result api r s =
     (case r of
        Inl what \<Rightarrow> (Inr (lua_error what), s)
      | Inr v \<Rightarrow> (bindE (LuaObjectToJSON api (core s) (max_depth api) v) (\<lambda>j. Inr (succeeded j)), s))"

definition LuaVm_execute ::
  "'bk lua_engine \<Rightarrow> ('bk, 'ep) net \<Rightarrow> string \<Rightarrow> json list \<Rightarrow> (json result, ('bk, 'ep) lua_vm) act"
where
  "LuaVm_execute api net code args =
     with_lock (with_views (
       bindS (JSONToLuaObject net (JArray args)) (\<lambda>arg.
       bindS (set_global ''arg'' arg) (\<lambda>_.
       bindS (lua_exec (script api code)) (lua_result api)))))"

definition LuaVm_load ::
  "'bk lua_engine \<Rightarrow> ('bk, 'ep) net \<Rightarrow> string \<Rightarrow> json list \<Rightarrow> (json result, ('bk, 'ep) lua_vm) act"
where
  "LuaVm_load api net filename args =
     with_lock (with_views (
       bindS (JSONToLuaObject net (JArray args)) (\<lambda>arg.
       bindS (set_global ''arg'' arg) (\<lambda>_.
       bindS (lua_exec (script_file api filename)) (lua_result api)))))"

definition LuaVm_call ::
  "'bk lua_engine \<Rightarrow> ('bk, 'ep) net \<Rightarrow> string \<Rightarrow> string \<Rightarrow> json list \<Rightarrow> (json result, ('bk, 'ep) lua_vm) act"
where
  "LuaVm_call api net fname target args =
     with_lock (with_views (
       bindS (mapS (JSONToLuaObject net) args) (\<lambda>lua_args.
       if target = [] then
         bindS (get_global fname) (\<lambda>f.
         bindS (lua_exec (call_function api f lua_args)) (lua_result api))
       else
         bindS (get_global target) (\<lambda>t.
         case valid_table api t of
           Inl what \<Rightarrow> ret (lua_error what)
         | Inr valid \<Rightarrow>
             if \<not> valid then ret (failed (''Could not find target '' @ target))
             else
               bindS (lua_exec (get_field api t fname)) (\<lambda>m.
               case m of
                 Inl what \<Rightarrow> ret (lua_error what)
               | Inr f \<Rightarrow>
                   if f = LuaNil \<or> f = LuaNone then ret (failed (''Could not find method '' @ fname))
                   else
                     bindS (lua_exec (get_field api t fname)) (\<lambda>m.
                     case m of
                       Inl what \<Rightarrow> ret (lua_error what)
                     | Inr f \<Rightarrow>
                         bindS (lua_exec (call_function api f (t # lua_args))) (lua_result api)))))))"

text \<open>
  A foreign function is a Lua function; \<open>LuaVm_foreign\<close> is what happens when a script calls
  it, the exception being an error for the script.
\<close>

definition LuaVm_install :: "string \<Rightarrow> (json list \<Rightarrow> exn + json) \<Rightarrow> nat \<Rightarrow> (bresult, ('bk, 'ep) lua_vm) act" where
  "LuaVm_install name func nargs =
     with_lock (
       bindS (\<lambda>s. (Inr (next_foreign s),
                   s\<lparr>foreign := (foreign s)(next_foreign s \<mapsto> (func, nargs)), next_foreign := Suc (next_foreign s)\<rparr>)) (\<lambda>f.
       bindS (set_global name (LuaFunction f)) (\<lambda>_.
       ret BResult_default)))"

definition LuaVm_foreign ::
  "'bk lua_engine \<Rightarrow> ('bk, 'ep) net \<Rightarrow> nat \<Rightarrow> 'bk lua_value list \<Rightarrow> ('bk lua_value, ('bk, 'ep) lua_vm) act"
where
  "LuaVm_foreign api net f args s =
     (case foreign s f of
        None \<Rightarrow> (Inl UB, s)
      | Some (func, nargs) \<Rightarrow>
          if length args \<noteq> nargs
          then (Inl (Exn ''Invalid number of arguments passed to function.''), s)
          else
            bindS (liftE (bindE (mapE (LuaObjectToJSON api (core s) (max_depth api)) args) func)) (\<lambda>result.
            with_views (JSONToLuaObject net result)) s)"

definition LuaVm_destroy :: "(bresult, ('bk, 'ep) lua_vm) act" where
  "LuaVm_destroy = ret (BResult_set_value True BResult_default)"

definition LuaVm_new :: "'bk lua_engine \<Rightarrow> ('bk, 'ep) net \<Rightarrow> json \<Rightarrow> exn + ('bk, 'ep) lua_vm" where
  "LuaVm_new api net config =
     (case run_preamble (LuaVm_load api net) (LuaVm_execute api net) config
             (vm_world.extend (new_world config)
               \<lparr>core = initial_core api, stack_top = 0, foreign = Map.empty, next_foreign = 0\<rparr>) of
        (Inl e, s) \<Rightarrow> Inl e
      | (Inr _, s) \<Rightarrow>
          (case luaopen_memory api (core s) of (lib, c) \<Rightarrow>
             Inr (s\<lparr>core := c\<lparr>globals := (globals c)(''memory'' := lib)\<rparr>\<rparr>)))"

definition LuaVm_ops :: "'bk lua_engine \<Rightarrow> ('bk, 'ep) net \<Rightarrow> (json \<Rightarrow> string) \<Rightarrow> ('bk, 'ep) lua_vm backend_ops" where
  "LuaVm_ops api net dump =
     \<lparr>op_getConfig = \<lambda>s. dump (m_config s),
      op_execute = LuaVm_execute api net,
      op_load = LuaVm_load api net,
      op_call = LuaVm_call api net,
      op_destroy = \<lambda>s. snd (LuaVm_destroy s)\<rparr>"

section \<open>Values that survive the trip through Lua\<close>

text \<open>
  What the code relies on in the interpreter: a traversal meets every entry once, in an order
  that the manual leaves open, and integer and string keys convert, the former to some text.
  \<open>index_order\<close> says of an interpreter that it traverses a table filled with the keys 1 to
  \<open>n\<close> in that order.
\<close>

definition lua_api_ok :: "'bk lua_engine \<Rightarrow> bool" where
  "lua_api_ok api \<longleftrightarrow>
     (\<forall>es. mset (traverse api es) = mset es) \<and>
     (\<forall>i. as_size_t api (LuaInt i) = i) \<and> (\<forall>s. as_string api (LuaStr s) = Inr s) \<and>
     (\<forall>i. \<exists>k. as_string api (LuaInt i) = Inr k)"

definition index_order :: "'bk lua_engine \<Rightarrow> bool" where
  "index_order api \<longleftrightarrow>
     (\<forall>es n. map fst es = map (\<lambda>i. LuaInt (word_of_nat (i + 1))) [0..<n] \<longrightarrow> traverse api es = es)"

text \<open>
  Values without \<open>null\<close> inside arrays and objects, and without views. Integers are cut to 32
  bits and come back as doubles, binaries come back as strings, and an empty object comes
  back as an empty array.
\<close>

function (sequential) lua_plain :: "json \<Rightarrow> bool" where
  "lua_plain JNull = False"
| "lua_plain JDiscarded = False"
| "lua_plain (JBinary bs st) = (\<not> IsMemoryView (JBinary bs st))"
| "lua_plain (JArray vs) = (length vs < 2 ^ 64 - 1 \<and> list_all lua_plain vs)"
| "lua_plain (JObject ms) = (obj_ok ms \<and> list_all (\<lambda>m. lua_plain (snd m)) ms)"
| "lua_plain j = True"
  by pat_completeness auto
termination
  by (relation "measure depth") (auto intro: depth_array_elem depth_object_member simp del: depth.simps)

function (sequential) lua_norm :: "json \<Rightarrow> json" where
  "lua_norm (JInt i) = JFloat (double_of_int (sint (ucast i :: u32)))"
| "lua_norm (JUInt u) = JFloat (double_of_int (sint (ucast u :: u32)))"
| "lua_norm (JBinary bs st) = JString (string_of bs)"
| "lua_norm (JArray vs) = JArray (map lua_norm vs)"
| "lua_norm (JObject ms) =
     (if ms = [] then JArray [] else JObject (map (\<lambda>m. (fst m, lua_norm (snd m))) ms))"
| "lua_norm j = j"
  by pat_completeness auto
termination
  by (relation "measure depth") (auto intro: depth_array_elem depth_object_member simp del: depth.simps)

text \<open>
  What may come back for a value: an array does as the array it was, or, where the interpreter
  meets its indices in another order, as an object with the texts of the indices for keys.
\<close>

inductive lua_image :: "'bk lua_engine \<Rightarrow> json \<Rightarrow> json \<Rightarrow> bool" for api where
  leaf: "\<nexists>vs. j = JArray vs \<Longrightarrow> \<nexists>ms. j = JObject ms \<Longrightarrow> lua_image api j (lua_norm j)"
| in_order: "list_all2 (lua_image api) vs js \<Longrightarrow> lua_image api (JArray vs) (JArray js)"
| scattered: "\<not> index_order api \<Longrightarrow> list_all2 (lua_image api) vs js \<Longrightarrow>
    list_all2 (\<lambda>i k. as_string api (LuaInt (word_of_nat (i + 1))) = Inr k) [0..<length vs] ks \<Longrightarrow>
    mset kvs = mset (zip ks js) \<Longrightarrow> lua_image api (JArray vs) (obj_of kvs)"
| members: "ms \<noteq> [] \<Longrightarrow> list_all2 (\<lambda>m m'. fst m' = fst m \<and> lua_image api (snd m) (snd m')) ms ms' \<Longrightarrow>
    lua_image api (JObject ms) (JObject ms')"
| no_members: "lua_image api (JObject []) (JArray [])"

lemma lua_image_in_order: "lua_image api j j' \<Longrightarrow> index_order api \<Longrightarrow> j' = lua_norm j"
proof (induction rule: lua_image.induct)
  case (in_order vs js)
  then show ?case by (auto simp: list_all2_conv_all_nth intro: nth_equalityI)
next
  case (members ms ms')
  then have "ms' = map (\<lambda>m. (fst m, lua_norm (snd m))) ms"
    by (auto simp: list_all2_conv_all_nth prod_eq_iff intro: nth_equalityI)
  then show ?case using members by simp
qed simp_all

lemma lua_image_leaf:
  "lua_image api (JBool b) (JBool b)"
  "lua_image api (JInt i) (JFloat (double_of_int (sint (ucast i :: u32))))"
  "lua_image api (JUInt u) (JFloat (double_of_int (sint (ucast u :: u32))))"
  "lua_image api (JFloat d) (JFloat d)"
  "lua_image api (JString s) (JString s)"
  "lua_image api (JBinary bs st) (JString (string_of bs))"
  using lua_image.leaf [of "JBool b"] lua_image.leaf [of "JInt i"] lua_image.leaf [of "JUInt u"]
    lua_image.leaf [of "JFloat d"] lua_image.leaf [of "JString s"] lua_image.leaf [of "JBinary bs st"] by simp_all

definition core_ok :: "'bk lua_core \<Rightarrow> bool" where
  "core_ok c \<longleftrightarrow> (\<forall>a \<in> dom (tables c). a < next_table c)"

definition core_grows :: "'bk lua_core \<Rightarrow> 'bk lua_core \<Rightarrow> bool" where
  "core_grows c c' \<longleftrightarrow> next_table c \<le> next_table c' \<and> (\<forall>a < next_table c. tables c' a = tables c a) \<and>
     (core_ok c \<longrightarrow> core_ok c') \<and> tables c \<subseteq>\<^sub>m tables c'"

lemma core_grows_refl: "core_grows c c"
  by (simp add: core_grows_def)

lemma core_grows_trans: "core_grows c1 c2 \<Longrightarrow> core_grows c2 c3 \<Longrightarrow> core_grows c1 c3"
  by (auto simp: core_grows_def intro: map_le_trans)

text \<open>What has been read from a table is read from it for good.\<close>

lemma LuaObjectToJSON_grows:
  "LuaObjectToJSON api c n v = Inr j \<Longrightarrow> tables c \<subseteq>\<^sub>m tables c' \<Longrightarrow> LuaObjectToJSON api c' n v = Inr j"
proof (induction api c n v arbitrary: j rule: LuaObjectToJSON.induct)
  case (7 api c n a)
  obtain es where es: "tables c a = Some es" using "7.prems"(1) by (auto split: option.splits)
  then have es': "tables c' a = Some es" using "7.prems"(2) by (metis domI map_le_def)
  let ?t = "traverse api es"
  show ?case
  proof (cases "is_array_from api 1 ?t")
    case True
    then obtain vs where "mapE (\<lambda>kv. LuaObjectToJSON api c n (snd kv)) ?t = Inr vs" "j = JArray vs"
      using "7.prems"(1) es by (auto simp: bindE_eq_Inr Let_def)
    moreover then have "mapE (\<lambda>kv. LuaObjectToJSON api c' n (snd kv)) ?t = Inr vs"
      using "7.IH"(1) [OF es refl True] "7.prems"(2) by (auto elim!: mapE_mono)
    ultimately show ?thesis using es' True by (simp add: Let_def)
  next
    case False
    let ?f = "\<lambda>c kv. bindE (as_string api (fst kv)) (\<lambda>key. bindE (LuaObjectToJSON api c n (snd kv)) (\<lambda>v. Inr (key, v)))"
    obtain ms where "mapE (?f c) ?t = Inr ms" "j = obj_of ms"
      using "7.prems"(1) es False by (auto simp: bindE_eq_Inr Let_def)
    moreover then have "mapE (?f c') ?t = Inr ms"
      using "7.IH"(2) [OF es refl False] "7.prems"(2) by (auto elim!: mapE_mono simp: bindE_eq_Inr)
    ultimately show ?thesis using es' False by (simp add: Let_def)
  qed
qed auto


text \<open>Filling a table with distinct keys and no \<open>nil\<close> stores exactly those entries.\<close>

lemma table_set_new: "k \<notin> fst ` set es \<Longrightarrow> v \<noteq> LuaNil \<Longrightarrow> table_set k v es = es @ [(k, v)]"
  by (induction k v es rule: table_set.induct) auto

lemma fill_distinct:
  "distinct (map fst (es @ kvs)) \<Longrightarrow> LuaNil \<notin> snd ` set kvs \<Longrightarrow>
     foldl (\<lambda>es (k, v). table_set k v es) es kvs = es @ kvs"
proof (induction kvs arbitrary: es)
  case (Cons kv kvs)
  obtain k v where kv: "kv = (k, v)" by (cases kv)
  have "table_set k v es = es @ [(k, v)]" using Cons.prems kv by (intro table_set_new) auto
  then show ?case using Cons.IH [of "es @ [(k, v)]"] Cons.prems kv by simp
qed simp

lemma array_keys_distinct: "n < 2 ^ 64 - 1 \<Longrightarrow> distinct (map (\<lambda>i. LuaInt (word_of_nat (i + 1))) [0..<n])"
proof -
  assume n: "n < 2 ^ 64 - 1"
  have "inj_on (\<lambda>i. LuaInt (word_of_nat (i + 1)) :: 'a lua_value) {0..<n}"
  proof (rule inj_onI)
    fix i k assume "i \<in> {0..<n}" "k \<in> {0..<n}" "LuaInt (word_of_nat (i + 1)) = (LuaInt (word_of_nat (k + 1)) :: 'a lua_value)"
    then have "unat (word_of_nat (i + 1) :: u64) = unat (word_of_nat (k + 1) :: u64)" "i < n" "k < n" by auto
    then show "i = k" using n unat_word_of_nat [of "i + 1"] unat_word_of_nat [of "k + 1"] by simp
  qed
  then show ?thesis by (simp add: distinct_map)
qed

lemma array_is_array:
  assumes "lua_api_ok api" and "map fst es = map (\<lambda>i. LuaInt (word_of_nat (i + 1))) [k..<k + length es]"
  shows "is_array_from api (word_of_nat (k + 1)) es"
  using assms(2)
proof (induction es arbitrary: k)
  case (Cons e es)
  have "[k..<k + length (e # es)] = k # [Suc k..<Suc k + length es]"
    by (subst upt_conv_Cons) simp_all
  then have e: "fst e = LuaInt (word_of_nat (k + 1))"
    and es: "map fst es = map (\<lambda>i. LuaInt (word_of_nat (i + 1))) [Suc k..<Suc k + length es]"
    using Cons.prems by simp_all
  show ?case using Cons.IH [OF es] e assms(1) by (simp add: lua_api_ok_def add.commute)
qed simp

lemma string_keys_no_array:
  assumes "lua_api_ok api" and "es \<noteq> []" and "\<forall>e \<in> set es. \<exists>s. fst e = LuaStr s"
  shows "\<not> is_array_from api 1 (traverse api es)"
proof -
  have m: "mset (traverse api es) = mset es" using assms(1) by (simp add: lua_api_ok_def)
  then obtain e es' where t: "traverse api es = e # es'" using assms(2) by (cases "traverse api es") auto
  then have "e \<in> set es" using m by (metis list.set_intros(1) mset_eq_setD)
  then obtain s where "fst e = LuaStr s" using assms(3) by blast
  then show ?thesis by (simp add: t)
qed

lemma scast_scast: "sint (scast (w :: u32) :: u64) = sint w"
  by (simp add: sint_up_scast is_up)

text \<open>Reading back what the conversion has built, in any later state.\<close>

definition reads_back :: "'bk lua_engine \<Rightarrow> nat \<Rightarrow> json \<Rightarrow> 'bk lua_value \<Rightarrow> 'bk lua_core \<Rightarrow> bool" where
  "reads_back api n j v c \<longleftrightarrow> v \<noteq> LuaNil \<and> (\<exists>j'. LuaObjectToJSON api c n v = Inr j' \<and> lua_image api j j')"

lemma reads_back_grows: "reads_back api n j v c \<Longrightarrow> tables c \<subseteq>\<^sub>m tables c' \<Longrightarrow> reads_back api n j v c'"
  by (auto simp: reads_back_def intro: LuaObjectToJSON_grows)

lemma create_fill_grows:
  assumes "core_ok c" and "core_grows (c\<lparr>next_table := Suc (next_table c)\<rparr>) c'"
  shows "core_grows c (c'\<lparr>tables := (tables c')(next_table c \<mapsto> es)\<rparr>) \<and>
    tables c' \<subseteq>\<^sub>m (tables c')(next_table c \<mapsto> es)"
proof -
  let ?a = "next_table c"
  have lt: "?a < next_table c'" using assms(2) by (simp add: core_grows_def)
  have "tables c' ?a = tables c ?a" using assms(2) by (simp add: core_grows_def)
  then have none: "tables c' ?a = None" using assms(1) by (auto simp: core_ok_def)
  then have le: "tables c' \<subseteq>\<^sub>m (tables c')(?a \<mapsto> es)" by (simp add: map_le_def dom_def)
  moreover have "tables c \<subseteq>\<^sub>m tables c'" using assms(2) by (simp add: core_grows_def)
  moreover have "core_ok (c\<lparr>next_table := Suc ?a\<rparr>)" using assms(1) by (auto simp: core_ok_def less_SucI)
  then have "core_ok c'" using assms(2) by (simp add: core_grows_def)
  ultimately show ?thesis
    using assms lt by (auto simp: core_grows_def core_ok_def intro: map_le_trans)
qed

text \<open>A traversal that meets the indices in order is the table as it was filled.\<close>

lemma array_keys:
  assumes "lua_api_ok api" and "is_array_from api (word_of_nat (k + 1)) es" and "\<forall>e \<in> set es. \<exists>i. fst e = LuaInt i"
  shows "map fst es = map (\<lambda>i. LuaInt (word_of_nat (i + 1))) [k..<k + length es]"
  using assms(2,3)
proof (induction es arbitrary: k)
  case (Cons e es)
  obtain i where i: "fst e = LuaInt i" using Cons.prems(2) by auto
  have e: "fst e = LuaInt (word_of_nat (k + 1))" and a: "is_array_from api (word_of_nat (Suc k + 1)) es"
    using Cons.prems(1) i assms(1) by (simp_all add: lua_api_ok_def add.commute add.assoc split: if_splits)
  have "[k..<k + length (e # es)] = k # [Suc k..<Suc k + length es]" by (subst upt_conv_Cons) simp_all
  then show ?case using Cons.IH [OF a] Cons.prems(2) e by simp
qed simp

lemma same_keys:
  assumes "map fst t = map fst es" and "mset t = mset es" and "distinct (map fst es)"
  shows "t = es"
proof (rule nth_equalityI)
  show "length t = length es" using assms(1) map_eq_imp_length_eq by blast
  fix i assume i: "i < length t"
  have "set t = set es" using assms(2) by (rule mset_eq_setD)
  then have "t ! i \<in> set es" "es ! i \<in> set es" using i \<open>length t = length es\<close> by (metis nth_mem)+
  moreover have "fst (t ! i) = fst (es ! i)" using assms(1) i \<open>length t = length es\<close> by (metis nth_map)
  ultimately show "t ! i = es ! i" using assms(3) by (metis eq_key_imp_eq_value prod.collapse)
qed

lemma traversed_array:
  assumes "lua_api_ok api" and "map fst es = map (\<lambda>i. LuaInt (word_of_nat (i + 1))) [0..<n]" and "n < 2 ^ 64 - 1"
    and "is_array_from api 1 (traverse api es)"
  shows "traverse api es = es"
proof -
  have m: "mset (traverse api es) = mset es" using assms(1) by (simp add: lua_api_ok_def)
  have len: "length es = n" using arg_cong [OF assms(2), of length] by simp
  have "fst ` set es \<subseteq> range LuaInt" using arg_cong [OF assms(2), of set] by auto
  then have "\<forall>e \<in> set (traverse api es). \<exists>i. fst e = LuaInt i" using mset_eq_setD [OF m] by auto
  moreover have "is_array_from api (word_of_nat (0 + 1)) (traverse api es)" using assms(4) by simp
  ultimately have "map fst (traverse api es) = map (\<lambda>i. LuaInt (word_of_nat (i + 1))) [0..<0 + length (traverse api es)]"
    using array_keys [OF assms(1)] by blast
  then have "map fst (traverse api es) = map fst es" using assms(2) mset_eq_length [OF m] len by simp
  moreover have "distinct (map fst es)" unfolding assms(2) by (rule array_keys_distinct [OF assms(3)])
  ultimately show ?thesis using same_keys m by blast
qed

text \<open>The images of the elements of a table.\<close>

lemma reads_all_images:
  assumes "list_all2 (\<lambda>x v. reads_back api n (g x) v c) xs vs"
  obtains js where "list_all2 (\<lambda>x j. lua_image api (g x) j) xs js"
    and "list_all2 (\<lambda>v j. LuaObjectToJSON api c n v = Inr j) vs js"
proof -
  let ?js = "map (\<lambda>v. projr (LuaObjectToJSON api c n v)) vs"
  have "list_all2 (\<lambda>x j. lua_image api (g x) j) xs ?js" "list_all2 (\<lambda>v j. LuaObjectToJSON api c n v = Inr j) vs ?js"
    using assms by (auto simp: list_all2_conv_all_nth reads_back_def)
  then show ?thesis by (rule that)
qed

lemma reads_back_array:
  assumes "lua_api_ok api" and "length vs < 2 ^ 64 - 1" and "list_all2 (\<lambda>v x. reads_back api n v x c) vs xs"
    and "tables c a = Some (zip (map (\<lambda>i. LuaInt (word_of_nat (i + 1))) [0..<length vs]) xs)" (is "_ = Some ?es")
  shows "reads_back api (Suc n) (JArray vs) (LuaTable a) c"
proof -
  define es where "es = ?es"
  obtain js where img: "list_all2 (lua_image api) vs js"
    and js: "list_all2 (\<lambda>v j. LuaObjectToJSON api c n v = Inr j) xs js"
    using reads_all_images [where g = "\<lambda>v. v", OF assms(3)] by auto
  have len: "length xs = length vs" "length js = length vs"
    using list_all2_lengthD [OF assms(3)] list_all2_lengthD [OF img] by simp_all
  have keys: "map fst es = map (\<lambda>i. LuaInt (word_of_nat (i + 1))) [0..<length vs]" using len by (simp add: es_def)
  have m: "mset (traverse api es) = mset es" using assms(1) by (simp add: lua_api_ok_def)
  have tab: "tables c a = Some es" using assms(4) by (simp add: es_def)
  show ?thesis
  proof (cases "is_array_from api 1 (traverse api es)")
    case True
    then have t: "traverse api es = es" by (rule traversed_array [OF assms(1) keys assms(2)])
    have "mapE (LuaObjectToJSON api c n) xs = Inr js" using js by (intro mapE_all2)
    moreover have "map snd es = xs" using len by (simp add: es_def)
    ultimately have "mapE (\<lambda>kv. LuaObjectToJSON api c n (snd kv)) es = Inr js" by (metis mapE_map)
    then have "LuaObjectToJSON api c (Suc n) (LuaTable a) = Inr (JArray js)" using tab True t by simp
    then show ?thesis using lua_image.in_order [OF img] by (auto simp: reads_back_def)
  next
    case False
    define f where "f = (\<lambda>kv. bindE (as_string api (fst kv)) (\<lambda>key.
      bindE (LuaObjectToJSON api c n (snd kv)) (\<lambda>v. Inr (key, v))))"
    define ks where "ks = map (\<lambda>i. projr (as_string api (LuaInt (word_of_nat (i + 1))))) [0..<length vs]"
    have s: "as_string api (LuaInt i) = Inr (projr (as_string api (LuaInt i)))" for i
      using assms(1) unfolding lua_api_ok_def by (metis sum.sel(2))
    then have k: "list_all2 (\<lambda>i k. as_string api (LuaInt (word_of_nat (i + 1))) = Inr k) [0..<length vs] ks"
      unfolding ks_def list_all2_map2 by (intro list_all2_refl)
    have "f (es ! i) = Inr (zip ks js ! i)" if "i < length vs" for i
    proof -
      have "LuaObjectToJSON api c n (xs ! i) = Inr (js ! i)" using js that len by (simp add: list_all2_conv_all_nth)
      moreover have "as_string api (LuaInt (word_of_nat (i + 1))) = Inr (ks ! i)"
        using list_all2_nthD [OF k, of i] that by (simp del: of_nat_add)
      moreover have "es ! i = (LuaInt (word_of_nat (i + 1)), xs ! i)" using that len by (simp add: es_def del: of_nat_add)
      moreover have "zip ks js ! i = (ks ! i, js ! i)" using that len by (simp add: ks_def)
      ultimately show ?thesis by (simp add: f_def del: of_nat_add)
    qed
    then have f: "f e = Inr (projr (f e))" if "e \<in> set es" for e
      using that len by (auto simp: in_set_conv_nth es_def)
    have "map (\<lambda>e. projr (f e)) es = zip ks js"
    proof (rule nth_equalityI)
      show "length (map (\<lambda>e. projr (f e)) es) = length (zip ks js)" using len by (simp add: es_def ks_def)
      fix i assume "i < length (map (\<lambda>e. projr (f e)) es)"
      then have "i < length vs" "i < length es" using len by (simp_all add: es_def)
      then show "map (\<lambda>e. projr (f e)) es ! i = zip ks js ! i"
        using \<open>\<And>i. i < length vs \<Longrightarrow> f (es ! i) = Inr (zip ks js ! i)\<close> by simp
    qed
    then have kvs: "mset (map (\<lambda>e. projr (f e)) (traverse api es)) = mset (zip ks js)" using m by (metis mset_map)
    have "mapE f (traverse api es) = Inr (map (\<lambda>e. projr (f e)) (traverse api es))"
      using f mset_eq_setD [OF m] by (intro mapE_Inr_map) simp
    then have "LuaObjectToJSON api c (Suc n) (LuaTable a) = Inr (obj_of (map (\<lambda>e. projr (f e)) (traverse api es)))"
      using tab False by (simp add: f_def)
    moreover have "\<not> index_order api"
    proof
      assume "index_order api"
      then have "traverse api es = es" using keys unfolding index_order_def by blast
      then show False using False array_is_array [OF assms(1), of es 0] keys len by (simp add: es_def del: of_nat_add)
    qed
    ultimately show ?thesis
      using lua_image.scattered [OF _ img k kvs] by (auto simp: reads_back_def)
  qed
qed

lemma reads_back_object:
  assumes "lua_api_ok api" and "obj_ok ms" and "list_all2 (\<lambda>m x. reads_back api n (snd m) x c) ms xs"
    and "tables c a = Some (zip (map (\<lambda>m. LuaStr (fst m)) ms) xs)" (is "_ = Some ?es")
  shows "reads_back api (Suc n) (JObject ms) (LuaTable a) c"
proof (cases "ms = []")
  case True
  then have "tables c a = Some []" using assms(4) by simp
  moreover have "traverse api [] = []"
    using assms(1) unfolding lua_api_ok_def by (metis mset_zero_iff)
  ultimately have "LuaObjectToJSON api c (Suc n) (LuaTable a) = Inr (JArray [])" by simp
  then show ?thesis using lua_image.no_members True by (auto simp: reads_back_def)
next
  case False
  define f where "f = (\<lambda>kv. bindE (as_string api (fst kv)) (\<lambda>key.
    bindE (LuaObjectToJSON api c n (snd kv)) (\<lambda>v. Inr (key, v))))"
  define es where "es = ?es"
  obtain js where img: "list_all2 (\<lambda>m j. lua_image api (snd m) j) ms js"
    and js: "list_all2 (\<lambda>v j. LuaObjectToJSON api c n v = Inr j) xs js"
    using reads_all_images [where g = snd, OF assms(3)] by auto
  have len: "length xs = length ms" "length js = length ms"
    using list_all2_lengthD [OF assms(3)] list_all2_lengthD [OF img] by simp_all
  let ?ms = "zip (map fst ms) js"
  have el: "length es = length ?ms" using len by (simp add: es_def)
  have nth: "es ! i = (LuaStr (fst (ms ! i)), xs ! i)" if "i < length ms" for i
    using that len by (simp add: es_def)
  have str: "\<forall>e \<in> set es. \<exists>s. fst e = LuaStr s" using nth el len by (auto simp: in_set_conv_nth)
  have m: "mset (traverse api es) = mset es" using assms(1) by (simp add: lua_api_ok_def)
  have f: "f (es ! i) = Inr (fst (?ms ! i), id (snd (?ms ! i)))" if "i < length ?ms" for i
  proof -
    have i: "i < length ms" using that len by simp
    have "LuaObjectToJSON api c n (xs ! i) = Inr (js ! i)" using js i len by (simp add: list_all2_conv_all_nth)
    moreover have "as_string api (LuaStr (fst (ms ! i))) = Inr (fst (ms ! i))"
      using assms(1) unfolding lua_api_ok_def by blast
    ultimately show ?thesis using i len by (simp add: nth f_def)
  qed
  have "map fst ?ms = map fst ms" using len by simp
  then have ok: "obj_ok ?ms" using assms(2) by (simp only:)
  have "bindE (mapE f (traverse api es)) (\<lambda>ms. Inr (obj_of ms)) = Inr (JObject (map (\<lambda>m. (fst m, id (snd m))) ?ms))"
    by (rule obj_of_traversal [OF ok m el f])
  moreover have "map (\<lambda>m. (fst m, id (snd m))) ?ms = ?ms" by simp
  moreover have "length es = length ms" using el len by simp
  then have "es \<noteq> []" using False by auto
  then have "\<not> is_array_from api 1 (traverse api es)"
    by (rule string_keys_no_array [OF assms(1) _ str])
  ultimately have "LuaObjectToJSON api c (Suc n) (LuaTable a) = Inr (JObject ?ms)"
    using assms(4) by (simp add: Let_def f_def flip: es_def)
  moreover have "list_all2 (\<lambda>m m'. fst m' = fst m \<and> lua_image api (snd m) (snd m')) ms ?ms"
    using img len by (auto simp: list_all2_conv_all_nth)
  ultimately show ?thesis using lua_image.members [OF False] by (auto simp: reads_back_def)
qed

definition lua_steps :: "('bk, 'ep) lua_vm \<Rightarrow> ('bk, 'ep) lua_vm \<Rightarrow> bool" where
  "lua_steps s s' \<longleftrightarrow> core_grows (core s) (core s') \<and> s' = s\<lparr>core := core s'\<rparr>"

lemma lua_steps_preorder: "reflp lua_steps" "transp lua_steps"
proof -
  show "reflp lua_steps" by (rule reflpI) (simp add: lua_steps_def core_grows_refl)
  show "transp lua_steps"
  proof (rule transpI)
    fix s1 s2 s3 assume a: "lua_steps s1 s2" "lua_steps s2 s3"
    then have "s3 = s1\<lparr>core := core s2\<rparr>\<lparr>core := core s3\<rparr>" unfolding lua_steps_def by metis
    then show "lua_steps s1 s3" using a by (auto simp: lua_steps_def intro: core_grows_trans)
  qed
qed

lemma create_map_fill:
  fixes f :: "'x \<Rightarrow> ('bk lua_value, ('bk, 'ep) lua_vm) act"
  assumes "core_ok (core s)"
    and "\<And>x s. x \<in> set xs \<Longrightarrow> core_ok (core s) \<Longrightarrow>
      \<exists>y s'. f x s = (Inr y, s') \<and> lua_steps s s' \<and> reads_back api n (g x) y (core s')"
  shows "\<exists>ys s'. bindS create_table (\<lambda>a. bindS (mapS f xs) (\<lambda>ys. bindS (fill_table a (zip ks ys)) (\<lambda>_. ret (LuaTable a)))) s
      = (Inr (LuaTable (next_table (core s))), s') \<and> lua_steps s s' \<and>
      list_all2 (\<lambda>x y. reads_back api n (g x) y (core s')) xs ys \<and>
      tables (core s') (next_table (core s)) = Some (foldl (\<lambda>es (k, v). table_set k v es) [] (zip ks ys))"
proof -
  let ?a = "next_table (core s)"
  let ?s1 = "s\<lparr>core := (core s)\<lparr>next_table := Suc ?a\<rparr>\<rparr>"
  have ok1: "core_ok (core ?s1)" using assms(1) by (auto simp: core_ok_def less_SucI)
  have "\<exists>ys s2. mapS f xs ?s1 = (Inr ys, s2) \<and> core_ok (core s2) \<and> lua_steps ?s1 s2 \<and>
      list_all2 (\<lambda>x y. reads_back api n (g x) y (core s2)) xs ys"
  proof (rule mapS_grows)
    fix x and s :: "('bk, 'ep) lua_vm" assume "x \<in> set xs" "core_ok (core s)"
    then show "\<exists>y s'. f x s = (Inr y, s') \<and> core_ok (core s') \<and> lua_steps s s' \<and> reads_back api n (g x) y (core s')"
      using assms(2) by (fastforce simp: lua_steps_def core_grows_def)
  next
    fix x y and s s' :: "('bk, 'ep) lua_vm" assume "reads_back api n (g x) y (core s)" "lua_steps s s'"
    then show "reads_back api n (g x) y (core s')"
      by (auto simp: lua_steps_def core_grows_def intro: reads_back_grows)
  qed (use ok1 lua_steps_preorder in auto)
  then obtain ys s2 where ys: "mapS f xs ?s1 = (Inr ys, s2)" "lua_steps ?s1 s2"
    "list_all2 (\<lambda>x y. reads_back api n (g x) y (core s2)) xs ys" by blast
  let ?es = "foldl (\<lambda>es (k, v). table_set k v es) [] (zip ks ys)"
  let ?s3 = "s2\<lparr>core := (core s2)\<lparr>tables := (tables (core s2))(?a \<mapsto> ?es)\<rparr>\<rparr>"
  have g: "core_grows (core s) (core ?s3)" "tables (core s2) \<subseteq>\<^sub>m tables (core ?s3)"
    using create_fill_grows [OF assms(1), of "core s2" ?es] ys(2) by (auto simp: lua_steps_def)
  have s2: "s2 = s\<lparr>core := core s2\<rparr>" using ys(2) by (simp add: lua_steps_def)
  have "s2\<lparr>core := c\<rparr> = s\<lparr>core := c\<rparr>" for c by (subst s2) simp
  then have "?s3 = s\<lparr>core := core ?s3\<rparr>" by simp
  then have "lua_steps s ?s3" using g(1) by (simp add: lua_steps_def)
  moreover have "list_all2 (\<lambda>x y. reads_back api n (g x) y (core ?s3)) xs ys"
    using ys(3) reads_back_grows [OF _ g(2)] by (auto elim!: list_all2_mono)
  moreover have "create_table s = (Inr ?a, ?s1)" by (simp add: create_table_def)
  ultimately show ?thesis
    using ys(1) by (intro exI [of _ ys] exI [of _ ?s3]) (simp add: fill_table_def)
qed


lemma fill_zip:
  assumes "length ks = length ys" and "distinct ks" and "LuaNil \<notin> set ys"
  shows "foldl (\<lambda>es (k, v). table_set k v es) [] (zip ks ys) = zip ks ys"
proof -
  have "snd ` set (zip ks ys) = set ys" using assms(1) by (metis list.set_map map_snd_zip)
  then show ?thesis using fill_distinct [of "[]" "zip ks ys"] assms by simp
qed

lemma JSONToLua_reads:
  assumes "lua_api_ok api"
  shows "lua_plain j \<Longrightarrow> depth j \<le> n \<Longrightarrow> core_ok (core s) \<Longrightarrow>
    \<exists>v s'. JSONToLuaObject net j s = (Inr v, s') \<and> lua_steps s s' \<and> reads_back api n j v (core s')"
proof (induction net j arbitrary: n s rule: JSONToLuaObject.induct)
  case (7 net vs)
  obtain n' where n: "n = Suc n'" using "7.prems"(2) by (cases n) auto
  have elem: "\<exists>y s'. JSONToLuaObject net x s = (Inr y, s') \<and> lua_steps s s' \<and> reads_back api n' x y (core s')"
    if "x \<in> set vs" "core_ok (core s)" for x s
    using "7.IH" [of x n' s] that "7.prems"(1,2) depth_array_elem [of x vs] n
    by (auto simp: list_all_iff simp del: depth.simps)
  let ?ks = "map (\<lambda>i. LuaInt (word_of_nat (i + 1))) [0..<length vs] :: 'a lua_value list"
  obtain xs s' where run: "JSONToLuaObject net (JArray vs) s = (Inr (LuaTable (next_table (core s))), s')"
    and s': "lua_steps s s'" "list_all2 (\<lambda>x y. reads_back api n' x y (core s')) vs xs"
    and t: "tables (core s') (next_table (core s)) = Some (foldl (\<lambda>es (k, v). table_set k v es) [] (zip ?ks xs))"
    using create_map_fill [where f = "JSONToLuaObject net" and g = "\<lambda>x. x" and ks = ?ks and xs = vs, OF "7.prems"(3) elem]
    by auto
  have "LuaNil \<notin> set xs" using s'(2) by (auto simp: list_all2_conv_all_nth in_set_conv_nth reads_back_def)
  then have "tables (core s') (next_table (core s)) = Some (zip ?ks xs)"
    using t fill_zip [of ?ks xs] array_keys_distinct [of "length vs"] s'(2) "7.prems"(1)
    by (simp add: list_all2_lengthD del: of_nat_add)
  then have "reads_back api n (JArray vs) (LuaTable (next_table (core s))) (core s')"
    unfolding n using reads_back_array [OF assms _ s'(2)] "7.prems"(1) by simp
  then show ?case using run s'(1) by blast
next
  case (8 net ms)
  obtain n' where n: "n = Suc n'" using "8.prems"(2) by (cases n) auto
  have elem: "\<exists>y s'. JSONToLuaObject net (snd x) s = (Inr y, s') \<and> lua_steps s s' \<and> reads_back api n' (snd x) y (core s')"
    if "x \<in> set ms" "core_ok (core s)" for x s
    using "8.IH" [of x n' s] that "8.prems"(1,2) depth_object_member [of "fst x" "snd x" ms] n
    by (auto simp: list_all_iff simp del: depth.simps)
  let ?ks = "map (\<lambda>m. LuaStr (fst m)) ms :: 'a lua_value list"
  obtain xs s' where run: "JSONToLuaObject net (JObject ms) s = (Inr (LuaTable (next_table (core s))), s')"
    and s': "lua_steps s s'" "list_all2 (\<lambda>x y. reads_back api n' (snd x) y (core s')) ms xs"
    and t: "tables (core s') (next_table (core s)) = Some (foldl (\<lambda>es (k, v). table_set k v es) [] (zip ?ks xs))"
    using create_map_fill [where f = "\<lambda>m. JSONToLuaObject net (snd m)" and g = snd and ks = ?ks and xs = ms, OF "8.prems"(3) elem]
    by auto
  have ok: "obj_ok ms" using "8.prems"(1) by simp
  have "LuaNil \<notin> set xs" using s'(2) by (auto simp: list_all2_conv_all_nth in_set_conv_nth reads_back_def)
  moreover have "distinct ?ks" using obj_ok_distinct [OF ok] by (auto simp: distinct_map inj_on_def)
  ultimately have "tables (core s') (next_table (core s)) = Some (zip ?ks xs)"
    using t fill_zip [of ?ks xs] s'(2) by (simp add: list_all2_lengthD)
  then have "reads_back api n (JObject ms) (LuaTable (next_table (core s))) (core s')"
    unfolding n using reads_back_object [OF assms ok s'(2)] by simp
  then show ?case using run s'(1) by blast
qed (auto simp: reads_back_def lua_steps_def core_grows_refl scast_scast lua_image_leaf)

section \<open>Calls leave nothing behind\<close>

lemma keeps_create_fill: "keeps inside create_table" "keeps inside (fill_table a kvs)" "keeps inside (set_global name v)"
  "keeps inside (get_global name)" "keeps inside (lua_exec run)" "keeps inside (lua_result api r)"
  by (auto simp: keeps_def inside_def tracked_def create_table_def fill_table_def set_global_def get_global_def
      lua_exec_def lua_result_def put_memory_def split: prod.split sum.split)

lemma keeps_JSONToLuaObject: "keeps inside (JSONToLuaObject net j)"
proof (induction net j rule: JSONToLuaObject.induct)
  case (9 net bs st)
  have "keeps inside (modify (\<lambda>s :: ('a, 'b) lua_vm. s\<lparr>stack_top := Suc (stack_top s)\<rparr>))"
    by (simp add: keeps_def inside_def tracked_def)
  then have "keeps inside (bindS (modify (\<lambda>s. s\<lparr>stack_top := Suc (stack_top s)\<rparr>)) (\<lambda>_.
        bindS (view_pointer net n) (\<lambda>(p, sz). ret (LuaMemory p sz :: 'a lua_value)) :: (_, ('a, 'b) lua_vm) act))" for n
    by (auto intro!: keeps_bindS keeps_basic keeps_view_pointer split: prod.split)
  then show ?case by (auto intro!: keeps_open_keep keeps_basic)
qed (auto intro!: keeps_bindS keeps_mapS keeps_basic keeps_create_fill)

lemmas lua_keeps = keeps_bindS keeps_mapS keeps_basic keeps_create_fill keeps_JSONToLuaObject

lemma LuaVm_execute_idle: "idle s \<Longrightarrow> LuaVm_execute api net code args s = (r, s') \<Longrightarrow> idle s' \<and> m_config s' = m_config s"
  unfolding LuaVm_execute_def by (erule (1) call_idle [rotated]) (intro lua_keeps inside_preorder)

lemma LuaVm_load_idle: "idle s \<Longrightarrow> LuaVm_load api net file args s = (r, s') \<Longrightarrow> idle s' \<and> m_config s' = m_config s"
  unfolding LuaVm_load_def by (erule (1) call_idle [rotated]) (intro lua_keeps inside_preorder)

lemma LuaVm_call_idle: "idle s \<Longrightarrow> LuaVm_call api net f t args s = (r, s') \<Longrightarrow> idle s' \<and> m_config s' = m_config s"
  unfolding LuaVm_call_def
  by (erule (1) call_idle [rotated]) (auto split: sum.split intro!: lua_keeps)

lemma LuaVm_new_idle:
  assumes "LuaVm_new api net config = Inr s"
  shows "idle s \<and> m_config s = config"
proof -
  let ?s0 = "vm_world.extend (new_world config)
    (lua_vm.fields (initial_core api) 0 Map.empty 0)"
  have i: "idle ?s0" "m_config ?s0 = config"
    by (simp_all add: idle_def new_world_def vm_world.defs lua_vm.defs)
  obtain r s1 where p: "run_preamble (LuaVm_load api net) (LuaVm_execute api net) config ?s0 = (r, s1)"
    by fastforce
  then have "idle s1" "m_config s1 = config"
    using run_preamble_idle [OF LuaVm_load_idle LuaVm_execute_idle p i(1)] i(2) by auto
  moreover obtain c where "s = s1\<lparr>core := c\<rparr>"
    using assms p by (auto simp: LuaVm_new_def lua_vm.defs split: sum.splits prod.splits)
  ultimately show ?thesis by (simp add: idle_def)
qed

interpretation lua: robust_backend "LuaVm_ops api net dump" idle m_config dump for api net dump
proof unfold_locales
  fix b
  show "op_getConfig (LuaVm_ops api net dump) b = dump (m_config b)" by (simp add: LuaVm_ops_def)
qed (auto simp: LuaVm_ops_def dest: LuaVm_execute_idle LuaVm_load_idle LuaVm_call_idle)


section \<open>What calls do\<close>

text \<open>A script that returns its arguments shows what the two conversions make of them.\<close>

lemma LuaVm_execute_echo:
  assumes "lua_api_ok api" and "idle s" and "core_ok (core s)" and "lua_plain (JArray args)"
    and "depth (JArray args) \<le> max_depth api"
    and "\<And>c m. script api code c m = (Inr (globals c ''arg''), c, m)"
  shows "\<exists>j. fst (LuaVm_execute api net code args s) = Inr (succeeded j) \<and> lua_image api (JArray args) j"
proof -
  let ?s = "s\<lparr>locked := True, created := []\<rparr>"
  have "core_ok (core ?s)" using assms(3) by simp
  then obtain v s1 where v: "JSONToLuaObject net (JArray args) ?s = (Inr v, s1)"
    and r: "reads_back api (max_depth api) (JArray args) v (core s1)"
    using JSONToLua_reads [OF assms(1,4,5)] by blast
  let ?c = "(core s1)\<lparr>globals := (globals (core s1))(''arg'' := v)\<rparr>"
  have "tables (core s1) \<subseteq>\<^sub>m tables ?c" by simp
  then have "reads_back api (max_depth api) (JArray args) v ?c" using r by (rule reads_back_grows [rotated])
  then obtain j where j: "lua_image api (JArray args) j" and "LuaObjectToJSON api ?c (max_depth api) v = Inr j"
    unfolding reads_back_def by blast
  moreover have "\<not> locked s" using assms(2) by (simp add: idle_def)
  ultimately have "fst (LuaVm_execute api net code args s) = Inr (succeeded j)"
    using v assms(6)
    by (simp add: LuaVm_execute_def with_lock_def with_views_def finallyS_def set_global_def lua_exec_def
        lua_result_def put_memory_def del: JSONToLuaObject.simps)
  then show ?thesis using j by blast
qed

text \<open>A view among the arguments: the memory object the script gets.\<close>

lemma JSONToLua_view:
  assumes "IsMemoryView (JBinary bs st)" and "MemoryView_json net (JBinary bs st) = Inr v"
    and "prepareLocalData net v = (None, v')" and "m_local_data v' = Owned b"
  shows "JSONToLuaObject net (JBinary bs st) s =
    (Inr (LuaMemory (BufPtr (next_view s)) (m_remote_size v')),
     s\<lparr>next_view := Suc (next_view s), alive := (alive s)(next_view s \<mapsto> v'),
       created := created s @ [next_view s], stack_top := Suc (stack_top s)\<rparr>)"
  using assms by (simp add: view_open_def view_keep_def view_pointer_def)

lemma LuaVm_execute_view:
  assumes "idle s" and "IsMemoryView (JBinary bs st)" and "MemoryView_json net (JBinary bs st) = Inr v"
    and "prepareLocalData net v = (None, v')" and "m_local_data v' = Owned b"
    and "\<And>c m. snd (snd (script api code c m)) (next_view s) = Some b'"
  shows "pushed (snd (LuaVm_execute api net code [JBinary bs st] s)) =
      pushed s @ pushes_of (v'\<lparr>m_local_data := Owned b'\<rparr>)"
    "stack_top (snd (LuaVm_execute api net code [JBinary bs st] s)) = Suc (stack_top s)"
proof -
  let ?s = "s\<lparr>locked := True, created := []\<rparr>"
  have s: "alive s = Map.empty" "created s = []" "\<not> locked s" using assms(1) by (simp_all add: idle_def)
  define c2 where "c2 = (core s)\<lparr>next_table := Suc (next_table (core s)),
    tables := (tables (core s))(next_table (core s) \<mapsto>
      [(LuaInt 1, LuaMemory (BufPtr (next_view s)) (m_remote_size v'))]),
    globals := (globals (core s))(''arg'' := LuaTable (next_table (core s)))\<rparr>"
  define s2 where "s2 = ?s\<lparr>next_view := Suc (next_view s), alive := [next_view s \<mapsto> v'],
    created := [next_view s], stack_top := Suc (stack_top s), core := c2\<rparr>"
  have conv: "bindS (JSONToLuaObject net (JArray [JBinary bs st])) (\<lambda>arg. bindS (set_global ''arg'' arg) f) ?s = f () s2" for f
    using JSONToLua_view [OF assms(2-5)] s
    by (simp add: create_table_def fill_table_def set_global_def s2_def c2_def del: JSONToLuaObject.simps(9))
  obtain r c3 m where run: "script api code c2 (view_memory s2) = (r, c3, m)"
    by (cases "script api code c2 (view_memory s2)")
  have m: "m (next_view s) = Some b'" using assms(6) [of c2 "view_memory s2"] run by simp
  define s3 where "s3 = put_memory m (s2\<lparr>core := c3\<rparr>)"
  obtain res where "lua_result api r s3 = (res, s3)" by (cases r) (simp_all add: lua_result_def)
  moreover have "core s2 = c2" by (simp add: s2_def)
  ultimately have "snd (LuaVm_execute api net code [JBinary bs st] s) = (close_created s3)\<lparr>created := created ?s, locked := False\<rparr>"
    using s run
    by (simp add: LuaVm_execute_def with_lock_def with_views_def finallyS_def conv lua_exec_def s3_def
      del: JSONToLuaObject.simps split: prod.split)
  moreover have "created s3 = [next_view s]" "alive s3 = [next_view s \<mapsto> v'\<lparr>m_local_data := Owned b'\<rparr>]"
    "pushed s3 = pushed s" "stack_top s3 = Suc (stack_top s)"
    using m assms(5) by (auto simp: s3_def s2_def put_memory_def write_buffer_def)
  ultimately show "pushed (snd (LuaVm_execute api net code [JBinary bs st] s)) =
      pushed s @ pushes_of (v'\<lparr>m_local_data := Owned b'\<rparr>)"
    "stack_top (snd (LuaVm_execute api net code [JBinary bs st] s)) = Suc (stack_top s)"
    by (simp_all add: close_created_def view_close_def)
qed

text \<open>
  A view that a foreign function returns is destroyed before the script sees the memory
  object made from it.
\<close>

lemma LuaVm_foreign_view:
  assumes "foreign s f = Some (func, length args)" and "created s = []" and "alive s = Map.empty"
    and "bindE (mapE (LuaObjectToJSON api (core s) (max_depth api)) args) func = Inr (JBinary bs st)"
    and "IsMemoryView (JBinary bs st)" and "MemoryView_json net (JBinary bs st) = Inr v"
    and "prepareLocalData net v = (None, v')" and "m_local_data v' = Owned b"
  shows "\<exists>s'. LuaVm_foreign api net f args s = (Inr (LuaMemory (BufPtr (next_view s)) (m_remote_size v')), s') \<and>
    alive s' = Map.empty \<and> pushed s' = pushed s @ pushes_of v'"
  using assms(1-4) JSONToLua_view [OF assms(5-8)]
  by (simp add: LuaVm_foreign_def with_views_def finallyS_def close_created_def view_close_def
      del: JSONToLuaObject.simps)

lemma LuaVm_foreign_arity:
  "foreign s f = Some (func, nargs) \<Longrightarrow> length args \<noteq> nargs \<Longrightarrow>
    LuaVm_foreign api net f args s = (Inl (Exn ''Invalid number of arguments passed to function.''), s)"
  by (simp add: LuaVm_foreign_def)

text \<open>Only the last function installed under a name can be reached by it.\<close>

lemma LuaVm_install_global:
  assumes "\<not> locked s" and "LuaVm_install name func nargs s = (r, s')"
  shows "r = Inr BResult_default \<and> globals (core s') name = LuaFunction (next_foreign s) \<and>
    foreign s' (next_foreign s) = Some (func, nargs) \<and> \<not> locked s'"
  using assms by (auto simp: LuaVm_install_def with_lock_def finallyS_def set_global_def bindS_def)

text \<open>The errors of \<open>call\<close>: a missing target, a missing method.\<close>

lemma LuaVm_call_no_target:
  assumes "idle s" and "mapS (JSONToLuaObject net) args (s\<lparr>locked := True, created := []\<rparr>) = (Inr xs, s1)"
    and "target \<noteq> []" and "valid_table api (globals (core s1) target) = Inr False"
  shows "fst (LuaVm_call api net fname target args s) = Inr (failed (''Could not find target '' @ target))"
  using assms by (simp add: LuaVm_call_def with_lock_def with_views_def finallyS_def idle_def get_global_def
      split: prod.split)


section \<open>What the Lua backend promises\<close>

definition demo_lua :: "u64 lua_engine" where
  "demo_lua = \<lparr>traverse = (\<lambda>es. es), as_size_t = (\<lambda>v. case v of LuaInt i \<Rightarrow> i | _ \<Rightarrow> 0),
     as_string = (\<lambda>v. case v of LuaStr s \<Rightarrow> Inr s | LuaInt i \<Rightarrow> Inr (show_int (sint i)) | _ \<Rightarrow> Inl (Exn ''not a string'')),
     valid_table = (\<lambda>v. Inr False), get_field = (\<lambda>t f c m. (Inr LuaNil, c, m)),
     script = (\<lambda>code c m. (Inr (globals c ''arg''), c, if code = ''fill'' then m(0 \<mapsto> replicate 20 9) else m)),
     script_file = (\<lambda>file c m. (Inl ''cannot open'', c, m)), call_function = (\<lambda>f xs c m. (Inl ''no function'', c, m)),
     initial_core = \<lparr>tables = Map.empty, next_table = 0, globals = (\<lambda>_. LuaNil)\<rparr>,
     luaopen_memory = (\<lambda>c. (LuaTable 0, c)), max_depth = 200\<rparr>"

lemma demo_lua_ok: "lua_api_ok demo_lua"
  by (simp add: lua_api_ok_def demo_lua_def)

definition demo_lua_vm :: "json \<Rightarrow> (u64, nat) lua_vm" where
  "demo_lua_vm config = vm_world.extend (new_world config)
     (lua_vm.fields (initial_core demo_lua) 0 Map.empty 0)"

lemma demo_lua_vm_fields [simp]:
  "core (demo_lua_vm config) = initial_core demo_lua" "pushed (demo_lua_vm config) = []"
  "next_view (demo_lua_vm config) = 0" "stack_top (demo_lua_vm config) = 0" "idle (demo_lua_vm config)"
  "created (demo_lua_vm config) = []" "alive (demo_lua_vm config) = Map.empty"
  by (simp_all add: demo_lua_vm_def new_world_def vm_world.defs lua_vm.defs idle_def)

text \<open>
  C15. A provider with a Lua VM serves any sequence of requests, answered or ended by an
  exception, and still holds that VM: unlocked, without a view left alive, and with the
  configuration it was created from.
\<close>

theorem lua_provider_invariant:
  assumes "LuaVm_new api net config = Inr s"
    and "serves (LuaVm_ops api net dump) \<lparr>m_backend = Some \<lparr>vm_name = name, vm_impl = s\<rparr>\<rparr> outs p"
  shows "\<exists>vm. m_backend p = Some vm \<and> vm_name vm = name \<and> \<not> locked (vm_impl vm) \<and>
    alive (vm_impl vm) = Map.empty \<and> m_config (vm_impl vm) = config"
proof -
  have "provider_ready idle m_config (Some name) config \<lparr>m_backend = Some \<lparr>vm_name = name, vm_impl = s\<rparr>\<rparr>"
    using LuaVm_new_idle [OF assms(1)] by (simp add: provider_ready_def)
  from lua.serves_robust [OF assms(2) this] show ?thesis
    by (cases "m_backend p") (auto simp: provider_ready_def idle_def)
qed

theorem lua_provider_invariant_witness:
  "\<exists>s vm out. LuaVm_new demo_lua demo_net (JObject []) = Inr s \<and>
     executeRPC (LuaVm_ops demo_lua demo_net (\<lambda>_. ''{}'')) ''return arg'' [JBool True] \<lparr>m_backend = Some \<lparr>vm_name = ''lua'', vm_impl = s\<rparr>\<rparr>
       = (out, \<lparr>m_backend = Some vm\<rparr>) \<and> alive (vm_impl vm) = Map.empty"
proof -
  obtain s where s: "LuaVm_new demo_lua demo_net (JObject []) = Inr s"
    by (simp add: LuaVm_new_def run_preamble_def member_def demo_lua_def)
  let ?ops = "LuaVm_ops demo_lua demo_net (\<lambda>_. ''{}'')" and ?p = "\<lparr>m_backend = Some \<lparr>vm_name = ''lua'', vm_impl = s\<rparr>\<rparr>"
  obtain out p where p: "executeRPC ?ops ''return arg'' [JBool True] ?p = (out, p)" by fastforce
  have "serves ?ops ?p [(Execute ''return arg'' [JBool True], out)] p"
    using p by (intro serves.one [OF _ serves.rest]) simp
  from lua_provider_invariant [OF s this] obtain vm where "m_backend p = Some vm" "alive (vm_impl vm) = Map.empty" by blast
  then have "p = \<lparr>m_backend = Some vm\<rparr> \<and> alive (vm_impl vm) = Map.empty" by (cases p) simp
  then show ?thesis using s p by blast
qed

text \<open>
  C16. A script that returns its arguments shows what the trip into Lua and back makes of values
  without nulls inside and without memory views: numbers become doubles, integers after a cut to
  32 bits, binaries strings, empty objects empty arrays; booleans, strings and the members of
  objects come back as they were sent. The elements of an array do too, as an array if the
  interpreter traverses tables in the order of their indices, and otherwise, which its manual
  permits, possibly as an object with the indices for keys.
\<close>

theorem lua_arguments_roundtrip:
  assumes "lua_api_ok api" and "idle s" and "core_ok (core s)" and "lua_plain (JArray args)"
    and "depth (JArray args) \<le> max_depth api"
    and "\<And>c m. script api code c m = (Inr (globals c ''arg''), c, m)"
  shows "\<exists>j. fst (LuaVm_execute api net code args s) = Inr (succeeded j) \<and> lua_image api (JArray args) j \<and>
    (index_order api \<longrightarrow> j = lua_norm (JArray args))"
  using LuaVm_execute_echo [OF assms, of net] lua_image_in_order by blast

theorem lua_arguments_roundtrip_witness:
  "fst (LuaVm_execute demo_lua demo_net ''return arg'' [JBool True, JObject [], JInt (2 ^ 32 + 5)] (demo_lua_vm JNull))
     = Inr (succeeded (JArray [JBool True, JArray [], JFloat (double_of_int 5)]))"
proof -
  have "lua_norm (JArray [JBool True, JObject [], JInt (2 ^ 32 + 5)]) = JArray [JBool True, JArray [], JFloat (double_of_int 5)]"
    by simp
  moreover have "index_order demo_lua" by (simp add: index_order_def demo_lua_def)
  ultimately show ?thesis
    using lua_arguments_roundtrip [of demo_lua "demo_lua_vm JNull" "[JBool True, JObject [], JInt (2 ^ 32 + 5)]" "''return arg''" demo_net]
      demo_lua_ok by (auto simp: demo_lua_def core_ok_def)
qed

text \<open>
  C17. A memory view among the arguments: when the call returns, the data the script left in
  it has been written back, once; the memory object it was made from stays on the stack.
\<close>

theorem lua_view_written_back:
  assumes "idle s" and "IsMemoryView (JBinary bs st)" and "MemoryView_json net (JBinary bs st) = Inr v"
    and "prepareLocalData net v = (None, v')" and "m_local_data v' = Owned b"
    and "\<And>c m. snd (snd (script api code c m)) (next_view s) = Some b'"
  shows "pushed (snd (LuaVm_execute api net code [JBinary bs st] s)) =
      pushed s @ pushes_of (v'\<lparr>m_local_data := Owned b'\<rparr>) \<and>
    stack_top (snd (LuaVm_execute api net code [JBinary bs st] s)) = Suc (stack_top s)"
  using LuaVm_execute_view [OF assms] by blast

theorem lua_view_written_back_witness:
  "map (\<lambda>(req, d). (push_target req, push_offset req, push_size req, d))
     (pushed (snd (LuaVm_execute demo_lua demo_net ''fill'' [view_toJson demo_net (Some demo_view)] (demo_lua_vm JNull))))
     = [(100, 10, 20, Owned (replicate 20 9))]"
proof -
  have "pushed (snd (LuaVm_execute demo_lua demo_net ''fill'' [view_toJson demo_net (Some demo_view)] (demo_lua_vm JNull)))
      = pushes_of (demo_ready\<lparr>m_local_data := Owned (replicate 20 9)\<rparr>)"
    using lua_view_written_back [OF _ demo_view_facts, of "demo_lua_vm JNull" "replicate 20 5" demo_lua "''fill''" "replicate 20 9"]
    by (simp add: demo_view_binary demo_lua_def demo_ready_def)
  then show ?thesis by (simp add: pushes_of_def view_destroy_def demo_ready_def demo_view_def)
qed

text \<open>
  A view that a foreign function returns is destroyed before the script gets the memory
  object made from it: the object points into a view that is gone.
\<close>

theorem lua_foreign_view_dangles:
  assumes "foreign s f = Some (func, length args)" and "created s = []" and "alive s = Map.empty"
    and "bindE (mapE (LuaObjectToJSON api (core s) (max_depth api)) args) func = Inr (JBinary bs st)"
    and "IsMemoryView (JBinary bs st)" and "MemoryView_json net (JBinary bs st) = Inr v"
    and "prepareLocalData net v = (None, v')" and "m_local_data v' = Owned b"
  shows "\<exists>n s'. LuaVm_foreign api net f args s = (Inr (LuaMemory (BufPtr n) (m_remote_size v')), s') \<and>
    alive s' n = None \<and> pushed s' = pushed s @ pushes_of v'"
  using LuaVm_foreign_view [OF assms] by auto

theorem lua_foreign_view_dangles_witness:
  "\<exists>n s'. LuaVm_foreign demo_lua demo_net 0 [LuaNil]
      (demo_lua_vm JNull\<lparr>foreign := [0 \<mapsto> (\<lambda>_. Inr (view_toJson demo_net (Some demo_view)), 1)]\<rparr>)
     = (Inr (LuaMemory (BufPtr n) 20), s') \<and> alive s' n = None"
proof -
  let ?s = "demo_lua_vm JNull\<lparr>foreign := [0 \<mapsto> (\<lambda>_. Inr (view_toJson demo_net (Some demo_view)), 1)]\<rparr>"
  have h: "foreign ?s 0 = Some (\<lambda>_. Inr (view_toJson demo_net (Some demo_view)), length [LuaNil :: u64 lua_value])"
    "created ?s = []" "alive ?s = Map.empty" by simp_all
  have b: "bindE (mapE (LuaObjectToJSON demo_lua (core ?s) (max_depth demo_lua)) [LuaNil])
      (\<lambda>_. Inr (view_toJson demo_net (Some demo_view))) = Inr (JBinary demo_bytes (Some MEMORY_VIEW_SUBTYPE_CODE))"
    by (simp add: demo_view_binary)
  have r: "m_local_data demo_ready = Owned (replicate 20 5)" "m_remote_size demo_ready = 20"
    by (simp_all add: demo_ready_def demo_view_def)
  from lua_foreign_view_dangles [OF h b demo_view_facts r(1)] show ?thesis unfolding r(2) by blast
qed

end
