(* ===== verification/JsVm.thy ===== *)
theory JsVm
  imports Vm Doubles Demo
begin

text \<open>
  \<open>src/javascript/JavascriptBackend.cpp\<close> and \<open>.hpp\<close>: conversions between JSON and Duktape
  values, the constructor, \<open>execute\<close>, \<open>load\<close>, \<open>call\<close>, \<open>install\<close>, \<open>destroy\<close> and the binding
  of foreign functions of \<open>JavascriptVm\<close>.

  The code drives Duktape through its value stack, which the model keeps: \<open>dstack\<close>, top
  first. An object is an address in \<open>jobjs\<close>, with its properties in the order they were
  made. \<open>js_api\<close> is what the code asks of the engine: the order of enumeration, property
  lookup, running code. Outside protected calls an error, or a push beyond the room the
  stack has, is fatal to the process. Reading a value pushes an enumerator, a key and a value for
  every level of nesting and pops them again; the model keeps no room for them and bounds the
  depth instead.
\<close>

datatype 'bk dval =
    DUndefined
  | DNull
  | DBool bool
  | DNum dbl
  | DStr string
  | DObj nat
  | DBuffer "byte list"
  | DExternal "'bk mem_ptr" u64
  | DPointer nat

type_synonym 'bk js_props = "(string \<times> 'bk dval) list"

record 'bk js_heap =
  jobjs :: "nat \<rightharpoonup> bool \<times> 'bk js_props"
  next_obj :: nat
  global_obj :: nat

type_synonym 'bk js_run = "'bk js_heap \<Rightarrow> memory \<Rightarrow> (string + 'bk dval) \<times> 'bk js_heap \<times> memory"

record 'bk js_api =
  enum_indices :: "'bk js_props \<Rightarrow> 'bk js_props"
  enum_own :: "'bk js_props \<Rightarrow> 'bk js_props"
  find_prop :: "'bk dval \<Rightarrow> string \<Rightarrow> 'bk js_heap \<Rightarrow> string + 'bk dval option"
  put_throws :: "'bk dval \<Rightarrow> bool"
  peval :: "string \<Rightarrow> 'bk js_run"
  pcall :: "'bk dval \<Rightarrow> 'bk dval list \<Rightarrow> 'bk js_run"
  pcall_method :: "'bk dval \<Rightarrow> 'bk dval \<Rightarrow> 'bk dval list \<Rightarrow> 'bk js_run"
  stack_room :: nat
  js_depth :: nat
  create_heap :: "'bk js_heap option"

record ('bk, 'ep) js_vm = "('bk, 'ep) vm_world" +
  heap :: "'bk js_heap"
  dstack :: "'bk dval list"
  holders :: "nat \<rightharpoonup> (json list \<Rightarrow> exn + json) \<times> nat"
  next_holder :: nat
  m_ffuncs :: "string \<rightharpoonup> nat"

section \<open>Stack operations\<close>

definition duk_push :: "'bk js_api \<Rightarrow> 'bk dval \<Rightarrow> (unit, ('bk, 'ep) js_vm) act" where
  "duk_push api v s =
     (if length (dstack s) < stack_room api then (Inr (), s\<lparr>dstack := v # dstack s\<rparr>) else (Inl Abort, s))"

definition duk_pop :: "('bk dval, ('bk, 'ep) js_vm) act" where
  "duk_pop s = (case dstack s of [] \<Rightarrow> (Inl Abort, s) | v # vs \<Rightarrow> (Inr v, s\<lparr>dstack := vs\<rparr>))"

definition duk_push_object :: "'bk js_api \<Rightarrow> bool \<Rightarrow> (nat, ('bk, 'ep) js_vm) act" where
  "duk_push_object api arr s =
     (let a = next_obj (heap s)
      in bindS (duk_push api (DObj a)) (\<lambda>_. ret a)
           (s\<lparr>heap := (heap s)\<lparr>jobjs := (jobjs (heap s))(a \<mapsto> (arr, [])), next_obj := Suc a\<rparr>\<rparr>))"

fun prop_set :: "string \<Rightarrow> 'bk dval \<Rightarrow> 'bk js_props \<Rightarrow> 'bk js_props" where
  "prop_set k v [] = [(k, v)]"
| "prop_set k v ((k', v') # ps) = (if k = k' then (k, v) # ps else (k', v') # prop_set k v ps)"

text \<open>
  Popping the top value into a property of a value: a property of the object's own, as for every
  key but one that the prototype has a setter for (\<open>__proto__\<close>).
\<close>

definition duk_put_prop :: "'bk js_api \<Rightarrow> 'bk dval \<Rightarrow> string \<Rightarrow> (unit, ('bk, 'ep) js_vm) act" where
  "duk_put_prop api target k =
     bindS duk_pop (\<lambda>v s.
       case target of
         DObj a \<Rightarrow>
           (Inr (), s\<lparr>heap := (heap s)\<lparr>jobjs := (jobjs (heap s))(a :=
              map_option (\<lambda>(arr, ps). (arr, prop_set k v ps)) (jobjs (heap s) a))\<rparr>\<rparr>)
       | _ \<Rightarrow> (if put_throws api target then (Inl Abort, s) else (Inr (), s)))"

text \<open>Pushing a property of a value, or \<open>undefined\<close>; the answer is whether it exists.\<close>

definition duk_get_prop :: "'bk js_api \<Rightarrow> 'bk dval \<Rightarrow> string \<Rightarrow> (bool, ('bk, 'ep) js_vm) act" where
  "duk_get_prop api target k s =
     (case find_prop api target k (heap s) of
        Inl e \<Rightarrow> (Inl Abort, s)
      | Inr None \<Rightarrow> bindS (duk_push api DUndefined) (\<lambda>_. ret False) s
      | Inr (Some v) \<Rightarrow> bindS (duk_push api v) (\<lambda>_. ret True) s)"

definition duk_get_global :: "'bk js_api \<Rightarrow> string \<Rightarrow> (bool, ('bk, 'ep) js_vm) act" where
  "duk_get_global api name s = duk_get_prop api (DObj (global_obj (heap s))) (cstr name) s"

definition duk_put_global :: "'bk js_api \<Rightarrow> string \<Rightarrow> (unit, ('bk, 'ep) js_vm) act" where
  "duk_put_global api name s = duk_put_prop api (DObj (global_obj (heap s))) (cstr name) s"

definition duk_top :: "('bk dval, ('bk, 'ep) js_vm) act" where
  "duk_top s = (case dstack s of [] \<Rightarrow> (Inl Abort, s) | v # _ \<Rightarrow> (Inr v, s))"

text \<open>Positions count from the top: 0 here is -1 in the code.\<close>

definition duk_dup :: "'bk js_api \<Rightarrow> nat \<Rightarrow> (unit, ('bk, 'ep) js_vm) act" where
  "duk_dup api n s = (if n < length (dstack s) then duk_push api (dstack s ! n) s else (Inl Abort, s))"

definition duk_remove :: "nat \<Rightarrow> (unit, ('bk, 'ep) js_vm) act" where
  "duk_remove n s =
     (if n < length (dstack s) then (Inr (), s\<lparr>dstack := take n (dstack s) @ drop (Suc n) (dstack s)\<rparr>)
      else (Inl Abort, s))"

section \<open>Conversions\<close>

fun dukValueToJSON :: "'bk js_api \<Rightarrow> (nat \<rightharpoonup> bool \<times> 'bk js_props) \<Rightarrow> nat \<Rightarrow> 'bk dval \<Rightarrow> exn + json" where
  "dukValueToJSON api h n DUndefined = Inr JNull"
| "dukValueToJSON api h n DNull = Inr JNull"
| "dukValueToJSON api h n (DBool b) = Inr (JBool b)"
| "dukValueToJSON api h n (DNum d) = Inr (JFloat d)"
| "dukValueToJSON api h n (DStr s) = Inr (JString (cstr s))"
| "dukValueToJSON api h 0 (DObj a) = Inl Abort"
| "dukValueToJSON api h (Suc n) (DObj a) =
     (case h a of
        None \<Rightarrow> Inl UB
      | Some (arr, ps) \<Rightarrow>
          if arr
          then bindE (mapE (\<lambda>p. dukValueToJSON api h n (snd p)) (enum_indices api ps)) (\<lambda>vs. Inr (JArray vs))
          else bindE (mapE (\<lambda>p. bindE (dukValueToJSON api h n (snd p)) (\<lambda>v. Inr (cstr (fst p), v))) (enum_own api ps))
                 (\<lambda>ms. Inr (obj_of ms)))"
| "dukValueToJSON api h n (DBuffer bs) = Inr JNull"
| "dukValueToJSON api h n (DExternal p sz) = Inr JNull"
| "dukValueToJSON api h n (DPointer p) = Inr JNull"

text \<open>
  The list \<open>createdViews\<close> is passed by value: a view made here is destroyed when the call
  that made it returns, right after its memory was handed to the external buffer.
\<close>

function (sequential) JSONtoDukValue ::
  "'bk js_api \<Rightarrow> ('bk, 'ep) net \<Rightarrow> json \<Rightarrow> (unit, ('bk, 'ep) js_vm) act"
where
  "JSONtoDukValue api net JNull = duk_push api DNull"
| "JSONtoDukValue api net (JBool b) = duk_push api (DBool b)"
| "JSONtoDukValue api net (JInt i) = duk_push api (DNum (double_of_int (sint i)))"
| "JSONtoDukValue api net (JUInt u) = duk_push api (DNum (double_of_int (uint u)))"
| "JSONtoDukValue api net (JFloat d) = duk_push api (DNum d)"
| "JSONtoDukValue api net (JString s) = duk_push api (DStr (cstr s))"
| "JSONtoDukValue api net (JArray vs) =
     bindS (duk_push_object api True) (\<lambda>a.
     bindS (mapS (\<lambda>p. bindS (JSONtoDukValue api net (snd p)) (\<lambda>_. duk_put_prop api (DObj a) (fst p)))
              (zip (map show_nat [0..<length vs]) vs)) (\<lambda>_. ret ()))"
| "JSONtoDukValue api net (JObject ms) =
     bindS (duk_push_object api False) (\<lambda>a.
     bindS (mapS (\<lambda>p. bindS (JSONtoDukValue api net (snd p)) (\<lambda>_. duk_put_prop api (DObj a) (cstr (fst p))))
              ms) (\<lambda>_. ret ()))"
| "JSONtoDukValue api net (JBinary bs st) =
     (if \<not> IsMemoryView (JBinary bs st) then duk_push api (DBuffer bs)
      else
        bindS (view_open net (JBinary bs st)) (\<lambda>n.
        finallyS (bindS (view_pointer net n) (\<lambda>(p, sz). duk_push api (DExternal p sz))) (view_close n)))"
| "JSONtoDukValue api net JDiscarded = duk_push api DNull"
  by pat_completeness auto
termination
  by (relation "measure (\<lambda>(api, net, j). depth j)")
    (auto intro: depth_array_elem depth_object_member elim!: in_set_zipE simp del: depth.simps)

section \<open>The virtual machine\<close>

definition js_exec :: "'bk js_api \<Rightarrow> 'bk js_run \<Rightarrow> (bool, ('bk, 'ep) js_vm) act" where
  "js_exec api run s =
     (case run (heap s) (view_memory s) of
        (r, h, m) \<Rightarrow>
          (let s = put_memory m (s\<lparr>heap := h\<rparr>)
           in case r of
                Inl what \<Rightarrow> bindS (duk_push api (DStr what)) (\<lambda>_. ret False) s
              | Inr v \<Rightarrow> bindS (duk_push api v) (\<lambda>_. ret True) s))"

text \<open>\<open>duk_safe_to_string\<close> of the error on top; here errors are strings already.\<close>

definition top_text :: "(string, ('bk, 'ep) js_vm) act" where
  "top_text = bindS duk_top (\<lambda>v. ret (case v of DStr what \<Rightarrow> cstr what | _ \<Rightarrow> []))"

definition top_json :: "'bk js_api \<Rightarrow> (json, ('bk, 'ep) js_vm) act" where
  "top_json api = bindS duk_top (\<lambda>v s. (dukValueToJSON api (jobjs (heap s)) (js_depth api) v, s))"

definition JavascriptVm_execute ::
  "'bk js_api \<Rightarrow> ('bk, 'ep) net \<Rightarrow> string \<Rightarrow> json list \<Rightarrow> (json result, ('bk, 'ep) js_vm) act"
where
  "JavascriptVm_execute api net code args =
     with_lock (
       bindS (\<lambda>s. duk_push api (DObj (global_obj (heap s))) s) (\<lambda>_.
       bindS duk_top (\<lambda>global.
       bindS (duk_get_prop api global ''process'') (\<lambda>found.
       bindS (if \<not> found then
                bindS duk_pop (\<lambda>_.
                bindS (duk_push_object api False) (\<lambda>_.
                bindS (duk_put_prop api global ''process'') (\<lambda>_.
                bindS (duk_get_prop api global ''process'') (\<lambda>_. ret ()))))
              else ret ()) (\<lambda>_.
       bindS duk_top (\<lambda>process.
       bindS (duk_push_object api True) (\<lambda>argv.
       bindS (JSONtoDukValue api net (JString ''poesie'')) (\<lambda>_.
       bindS (duk_put_prop api (DObj argv) (show_nat 0)) (\<lambda>_.
       bindS (mapS (\<lambda>p. bindS (JSONtoDukValue api net (snd p)) (\<lambda>_. duk_put_prop api (DObj argv) (fst p)))
                (zip (map (\<lambda>i. show_nat (i + 1)) [0..<length args]) args)) (\<lambda>_.
       bindS (duk_put_prop api process ''argv'') (\<lambda>_.
       bindS duk_pop (\<lambda>_.
       bindS duk_pop (\<lambda>_.
       bindS (js_exec api (peval api code)) (\<lambda>ok.
       bindS (if \<not> ok then bindS top_text (\<lambda>what. ret (failed (''Error executing JavaScript code: '' @ what)))
              else bindS (top_json api) (\<lambda>j. ret (succeeded j))) (\<lambda>result.
       bindS duk_pop (\<lambda>_. ret result))))))))))))))))"

definition JavascriptVm_load ::
  "'bk js_api \<Rightarrow> ('bk, 'ep) net \<Rightarrow> (string \<rightharpoonup> string) \<Rightarrow> string \<Rightarrow> json list \<Rightarrow> (json result, ('bk, 'ep) js_vm) act"
where
  "JavascriptVm_load api net files filename args =
     load_file files filename (\<lambda>code. JavascriptVm_execute api net code args)"

text \<open>The top \<open>n\<close> values, the one pushed first in front.\<close>

definition duk_pop_args :: "nat \<Rightarrow> ('bk dval list, ('bk, 'ep) js_vm) act" where
  "duk_pop_args n s =
     (if length (dstack s) < n then (Inl Abort, s)
      else (Inr (rev (take n (dstack s))), s\<lparr>dstack := drop n (dstack s)\<rparr>))"

definition call_failed :: "string \<Rightarrow> (json result, ('bk, 'ep) js_vm) act" where
  "call_failed msg =
     bindS top_text (\<lambda>what. bindS duk_pop (\<lambda>_. ret (failed (msg @ what))))"

definition call_returned :: "'bk js_api \<Rightarrow> (json result, ('bk, 'ep) js_vm) act" where
  "call_returned api = bindS (top_json api) (\<lambda>j. bindS duk_pop (\<lambda>_. ret (succeeded j)))"

definition JavascriptVm_call ::
  "'bk js_api \<Rightarrow> ('bk, 'ep) net \<Rightarrow> string \<Rightarrow> string \<Rightarrow> json list \<Rightarrow> (json result, ('bk, 'ep) js_vm) act"
where
  "JavascriptVm_call api net fname target args =
     with_lock (
       if target = [] then
         bindS (duk_get_global api fname) (\<lambda>found.
         if \<not> found then ret (failed (''Function not found: '' @ fname))
         else
           bindS (mapS (JSONtoDukValue api net) args) (\<lambda>_.
           bindS (duk_pop_args (length args)) (\<lambda>xs.
           bindS duk_pop (\<lambda>f.
           bindS (js_exec api (pcall api f xs)) (\<lambda>ok.
           if \<not> ok then call_failed ''Error calling function: '' else call_returned api)))))
       else
         bindS (duk_get_global api target) (\<lambda>found.
         if \<not> found then ret (failed (''Target not found: '' @ target))
         else
           bindS duk_top (\<lambda>this.
           bindS (duk_get_prop api this (cstr fname)) (\<lambda>found.
           if \<not> found then bindS duk_pop (\<lambda>_. ret (failed (''Method not found: '' @ fname)))
           else
             bindS (duk_dup api 1) (\<lambda>_.
             bindS (duk_remove 2) (\<lambda>_.
             bindS (mapS (JSONtoDukValue api net) args) (\<lambda>_.
             bindS (duk_pop_args (length args)) (\<lambda>xs.
             bindS duk_pop (\<lambda>this.
             bindS duk_pop (\<lambda>f.
             bindS (js_exec api (pcall_method api f this xs)) (\<lambda>ok.
             if \<not> ok then call_failed ''Error calling function: '' else call_returned api)))))))))))"

text \<open>
  The map keeps the holder it already has for a name; a new one for it is destroyed with
  the pair that was not inserted.
\<close>

definition new_holder :: "(json list \<Rightarrow> exn + json) \<Rightarrow> nat \<Rightarrow> (nat, ('bk, 'ep) js_vm) act" where
  "new_holder func nargs s =
     (Inr (next_holder s),
      s\<lparr>holders := (holders s)(next_holder s \<mapsto> (func, nargs)), next_holder := Suc (next_holder s)\<rparr>)"

definition keep_holder :: "string \<Rightarrow> nat \<Rightarrow> ('bk, 'ep) js_vm \<Rightarrow> ('bk, 'ep) js_vm" where
  "keep_holder name h s =
     (if m_ffuncs s name = None then s\<lparr>m_ffuncs := (m_ffuncs s)(name \<mapsto> h)\<rparr>
      else s\<lparr>holders := (holders s)(h := None)\<rparr>)"

definition holder_key :: string where
  "holder_key = CHR 0xFF # ''holder''"

definition JavascriptVm_install ::
  "'bk js_api \<Rightarrow> string \<Rightarrow> (json list \<Rightarrow> exn + json) \<Rightarrow> nat \<Rightarrow> (bresult, ('bk, 'ep) js_vm) act"
where
  "JavascriptVm_install api name func nargs =
     with_lock (
       bindS (new_holder func nargs) (\<lambda>h.
       bindS (duk_push_object api False) (\<lambda>f.
       bindS (duk_push api (DPointer h)) (\<lambda>_.
       bindS (duk_put_prop api (DObj f) holder_key) (\<lambda>_.
       bindS (duk_put_global api name) (\<lambda>_.
       bindS (modify (keep_holder name h)) (\<lambda>_.
       ret BResult_default)))))))"

text \<open>
  \<open>FunctionHolder::binding\<close>, called with the function object \<open>f\<close>: \<open>None\<close> is the error
  raised in the script. The stack of the call holds the arguments.
\<close>

definition FunctionHolder_binding ::
  "'bk js_api \<Rightarrow> ('bk, 'ep) net \<Rightarrow> nat \<Rightarrow> 'bk dval list \<Rightarrow> ('bk dval option, ('bk, 'ep) js_vm) act"
where
  "FunctionHolder_binding api net f args =
     bindS (duk_push api (DObj f)) (\<lambda>_.
     bindS (duk_get_prop api (DObj f) holder_key) (\<lambda>_.
     bindS duk_pop (\<lambda>p.
     bindS duk_pop (\<lambda>_ s.
       case p of
         DPointer h \<Rightarrow>
           (case holders s h of
              None \<Rightarrow> (Inl UB, s)
            | Some (func, nargs) \<Rightarrow>
                if length args \<noteq> nargs then (Inr None, s)
                else
                  bindS (liftE (bindE (mapE (dukValueToJSON api (jobjs (heap s)) (js_depth api)) args) func)) (\<lambda>result.
                  bindS (JSONtoDukValue api net result) (\<lambda>_.
                  bindS duk_pop (\<lambda>v. ret (Some v)))) s)
       | _ \<Rightarrow> (Inl UB, s)))))"

definition JavascriptVm_destroy :: "(bresult, ('bk, 'ep) js_vm) act" where
  "JavascriptVm_destroy = ret (BResult_set_value True BResult_default)"

definition JavascriptVm_new ::
  "'bk js_api \<Rightarrow> ('bk, 'ep) net \<Rightarrow> (string \<rightharpoonup> string) \<Rightarrow> json \<Rightarrow> exn + ('bk, 'ep) js_vm"
where
  "JavascriptVm_new api net files config =
     (case create_heap api of
        None \<Rightarrow> Inl (Exn ''Duktape initialization failed'')
      | Some h \<Rightarrow>
          (case run_preamble (JavascriptVm_load api net files) (JavascriptVm_execute api net) config
                  (vm_world.extend (new_world config) (js_vm.fields h [] Map.empty 0 Map.empty)) of
             (Inl e, s) \<Rightarrow> Inl e
           | (Inr _, s) \<Rightarrow> Inr s))"

definition JavascriptVm_ops ::
  "'bk js_api \<Rightarrow> ('bk, 'ep) net \<Rightarrow> (string \<rightharpoonup> string) \<Rightarrow> (json \<Rightarrow> string) \<Rightarrow> ('bk, 'ep) js_vm backend_ops"
where
  "JavascriptVm_ops api net files dump =
     \<lparr>op_getConfig = \<lambda>s. dump (m_config s),
      op_execute = JavascriptVm_execute api net,
      op_load = JavascriptVm_load api net files,
      op_call = JavascriptVm_call api net,
      op_destroy = \<lambda>s. snd (JavascriptVm_destroy s)\<rparr>"

section \<open>Calls leave nothing behind but stack entries\<close>

text \<open>No view outlives the conversion that made it.\<close>

definition untouched :: "('bk, 'ep) js_vm \<Rightarrow> ('bk, 'ep) js_vm \<Rightarrow> bool" where
  "untouched s s' \<longleftrightarrow> m_config s' = m_config s \<and> locked s' = locked s \<and> created s' = created s \<and>
     (alive s = Map.empty \<longrightarrow> alive s' = Map.empty)"

lemma untouched_preorder [simp]: "reflp untouched" "transp untouched"
proof -
  show "reflp untouched" by (rule reflpI) (simp add: untouched_def)
  show "transp untouched" by (rule transpI) (simp add: untouched_def)
qed

lemma keeps_duk:
  "keeps untouched (duk_push api v)" "keeps untouched duk_pop" "keeps untouched (duk_push_object api arr)"
  "keeps untouched duk_top" "keeps untouched (duk_pop_args n)" "keeps untouched (new_holder func nargs)"
  "keeps untouched (modify (keep_holder name h))" "keeps untouched (duk_dup api i)" "keeps untouched (duk_remove i)"
  by (auto simp: duk_dup_def duk_remove_def keeps_def untouched_def duk_push_def duk_pop_def duk_push_object_def duk_top_def duk_pop_args_def
      new_holder_def keep_holder_def bindS_def Let_def split: list.split prod.splits)

lemma keeps_put: "keeps untouched (duk_put_prop api target k)"
  unfolding duk_put_prop_def
  by (rule keeps_bindS [OF untouched_preorder(2) keeps_duk(2)])
    (auto simp: keeps_def untouched_def split: dval.split)

lemma keeps_get: "keeps untouched (duk_get_prop api target k)"
proof (rule keepsI)
  fix s r s' assume run: "duk_get_prop api target k s = (r, s')"
  have "keeps untouched (bindS (duk_push api v) (\<lambda>_. ret b))" for v b
    by (intro keeps_bindS keeps_duk keeps_basic untouched_preorder)
  note k = keepsD [OF this]
  show "untouched s s'"
  proof (cases "find_prop api target k (heap s)")
    case Inl
    then show ?thesis using run by (simp add: duk_get_prop_def untouched_def)
  next
    case (Inr found)
    then show ?thesis using run k by (cases found) (auto simp: duk_get_prop_def)
  qed
qed

lemma keeps_globals: "keeps untouched (duk_get_global api name)" "keeps untouched (duk_put_global api name)"
  using keepsD [OF keeps_get] keepsD [OF keeps_put]
  by (auto intro!: keepsI simp: duk_get_global_def duk_put_global_def)

lemma keeps_js_exec: "keeps untouched (js_exec api run)"
proof (rule keepsI)
  fix s r s' assume run': "js_exec api run s = (r, s')"
  obtain res h m where run: "run (heap s) (view_memory s) = (res, h, m)" by (cases "run (heap s) (view_memory s)")
  have k: "keeps untouched (bindS (duk_push api v) (\<lambda>_. ret b))" for v b
    by (intro keeps_bindS keeps_duk keeps_basic untouched_preorder)
  have "untouched s (put_memory m (s\<lparr>heap := h\<rparr>))" by (auto simp: untouched_def put_memory_def)
  moreover have "untouched (put_memory m (s\<lparr>heap := h\<rparr>)) s'"
    using run' run keepsD [OF k] by (cases res) (auto simp: js_exec_def Let_def)
  ultimately show "untouched s s'" by (rule transpD [OF untouched_preorder(2)])
qed

lemma keeps_top: "keeps untouched top_text" "keeps untouched (top_json api)"
proof -
  have read: "keeps untouched (\<lambda>s. (f s, s))" for f by (simp add: keeps_def untouched_def)
  show "keeps untouched top_text" "keeps untouched (top_json api)"
    unfolding top_text_def top_json_def by (intro keeps_bindS keeps_duk keeps_basic untouched_preorder read)+
qed

lemma keeps_JSONtoDukValue: "keeps untouched (JSONtoDukValue api net j)"
proof (induction api net j rule: JSONtoDukValue.induct)
  case (9 api net bs st)
  have "keeps untouched (bindS (view_open net (JBinary bs st)) (\<lambda>n.
      finallyS (bindS (view_pointer net n) (\<lambda>(p, sz). duk_push api (DExternal p sz))) (view_close n)))"
  proof (rule keepsI)
    fix s :: "('a, 'b) js_vm" and r s'
    assume run: "bindS (view_open net (JBinary bs st)) (\<lambda>n.
      finallyS (bindS (view_pointer net n) (\<lambda>(p, sz). duk_push api (DExternal p sz))) (view_close n)) s = (r, s')"
    then show "untouched s s'"
      by (auto simp: bindS_def view_open_def view_pointer_def finallyS_def duk_push_def untouched_def
          split: sum.splits prod.splits option.splits if_splits)
  qed
  then show ?case by (auto intro: keeps_duk)
qed (auto intro!: keeps_bindS keeps_mapS keeps_basic keeps_duk keeps_put)

lemmas js_keeps = keeps_bindS keeps_mapS keeps_basic keeps_duk keeps_put keeps_get keeps_globals keeps_js_exec
  keeps_top keeps_JSONtoDukValue untouched_preorder

lemma js_call_idle:
  assumes "keeps untouched m" and "idle s" and "with_lock m s = (r, s')"
  shows "idle s' \<and> m_config s' = m_config s"
proof (rule with_lock_idle [OF _ assms(2,3)])
  fix s r s' assume "alive s = Map.empty" "created s = []" "m s = (r, s')"
  then show "alive s' = Map.empty \<and> created s' = [] \<and> m_config s' = m_config s"
    using keepsD [OF assms(1)] by (auto simp: untouched_def)
qed

lemma keeps_process: "keeps untouched (\<lambda>s. duk_push api (DObj (global_obj (heap s))) s)"
  using keepsD [OF keeps_duk(1)] by (auto intro!: keepsI)

lemma JavascriptVm_execute_idle:
  "idle s \<Longrightarrow> JavascriptVm_execute api net code args s = (r, s') \<Longrightarrow> idle s' \<and> m_config s' = m_config s"
  unfolding JavascriptVm_execute_def
  by (erule (1) js_call_idle [rotated]) (auto intro!: js_keeps keeps_process)

lemma JavascriptVm_load_idle:
  "idle s \<Longrightarrow> JavascriptVm_load api net files file args s = (r, s') \<Longrightarrow> idle s' \<and> m_config s' = m_config s"
  unfolding JavascriptVm_load_def by (auto dest!: load_file_cases dest: JavascriptVm_execute_idle)

lemma JavascriptVm_call_idle:
  "idle s \<Longrightarrow> JavascriptVm_call api net f t args s = (r, s') \<Longrightarrow> idle s' \<and> m_config s' = m_config s"
  unfolding JavascriptVm_call_def call_failed_def call_returned_def
  by (erule (1) js_call_idle [rotated]) (auto intro!: js_keeps)

interpretation js: robust_backend "JavascriptVm_ops api net files dump" idle m_config dump for api net files dump
proof unfold_locales
  fix b
  show "op_getConfig (JavascriptVm_ops api net files dump) b = dump (m_config b)" by (simp add: JavascriptVm_ops_def)
qed (auto simp: JavascriptVm_ops_def dest: JavascriptVm_execute_idle JavascriptVm_load_idle JavascriptVm_call_idle)


section \<open>The value stack\<close>

text \<open>An action that succeeds has pushed the values \<open>vs\<close>, for some list of length \<open>n\<close>.\<close>

definition pushes :: "nat \<Rightarrow> ('a, ('bk, 'ep) js_vm) act \<Rightarrow> bool" where
  "pushes n m \<longleftrightarrow> (\<forall>s x s'. m s = (Inr x, s') \<longrightarrow> (\<exists>vs. length vs = n \<and> dstack s' = vs @ dstack s))"

lemma pushesD: "pushes n m \<Longrightarrow> m s = (Inr x, s') \<Longrightarrow> \<exists>vs. length vs = n \<and> dstack s' = vs @ dstack s"
  by (auto simp: pushes_def)

lemma pushes_bind: "pushes n m \<Longrightarrow> (\<And>x. pushes k (f x)) \<Longrightarrow> pushes (n + k) (bindS m f)"
  unfolding pushes_def
proof (intro allI impI)
  fix s y s'
  assume a: "\<forall>s x s'. m s = (Inr x, s') \<longrightarrow> (\<exists>vs. length vs = n \<and> dstack s' = vs @ dstack s)"
    and b: "\<And>x. \<forall>s y s'. f x s = (Inr y, s') \<longrightarrow> (\<exists>vs. length vs = k \<and> dstack s' = vs @ dstack s)"
    and run: "bindS m f s = (Inr y, s')"
  then obtain x s1 where m: "m s = (Inr x, s1)" and f: "f x s1 = (Inr y, s')" by (auto simp: bindS_Inr)
  obtain vs where vs: "length vs = n" "dstack s1 = vs @ dstack s" using a m by blast
  obtain ws where "length ws = k" "dstack s' = ws @ dstack s1" using b f by blast
  then show "\<exists>us. length us = n + k \<and> dstack s' = us @ dstack s"
    using vs by (intro exI [of _ "ws @ vs"]) simp
qed

lemma pushes_ret: "pushes 0 (ret x)" and pushes_raise: "pushes n (raise e)"
  by (simp_all add: pushes_def)

lemma pushes_duk: "pushes 1 (duk_push api v)" "pushes 1 (duk_push_object api arr)"
  by (auto simp: pushes_def duk_push_def duk_push_object_def Let_def bindS_def intro: exI [of _ "[_]"]
      split: if_splits)

text \<open>Pushing one value and popping it into a property.\<close>

lemma pushes_put:
  assumes "pushes 1 m"
  shows "pushes 0 (bindS m (\<lambda>_. duk_put_prop api t k))"
proof -
  have "dstack s' = dstack s" if m: "m s = (Inr x, s1)" and put: "duk_put_prop api t k s1 = (Inr y, s')" for s x s1 y s'
  proof -
    obtain vs where "length vs = 1" "dstack s1 = vs @ dstack s" using pushesD [OF assms m] by blast
    then obtain v where "dstack s1 = v # dstack s" by (cases vs) auto
    then show ?thesis using put
      by (auto simp: duk_put_prop_def duk_pop_def bindS_def split: dval.splits if_splits)
  qed
  then show ?thesis by (auto simp: pushes_def bindS_Inr)
qed

lemma pushes_mapS: "(\<And>x. x \<in> set xs \<Longrightarrow> pushes n (f x)) \<Longrightarrow> pushes (n * length xs) (mapS f xs)"
proof (induction xs)
  case (Cons x xs)
  have "pushes (n + (n * length xs + 0)) (mapS f (x # xs))"
    using Cons by (simp only: mapS.simps) (intro pushes_bind pushes_ret; simp)
  then show ?case by simp
qed (simp add: pushes_def)

lemma pushes_items:
  assumes "\<And>p. p \<in> set ps \<Longrightarrow> pushes 1 (g p)"
  shows "pushes 0 (bindS (mapS (\<lambda>p. bindS (g p) (\<lambda>_. duk_put_prop api t (key p))) ps) (\<lambda>_. ret ()))"
proof -
  have "pushes (0 * length ps + 0)
      (bindS (mapS (\<lambda>p. bindS (g p) (\<lambda>_. duk_put_prop api t (key p))) ps) (\<lambda>_. ret ()))"
    by (intro pushes_bind pushes_mapS pushes_put pushes_ret assms)
  then show ?thesis by simp
qed

lemma JSONtoDukValue_pushes: "pushes 1 (JSONtoDukValue api net j)"
proof (induction api net j rule: JSONtoDukValue.induct)
  case (7 api net vs)
  have "pushes (1 + 0) (JSONtoDukValue api net (JArray vs))"
    unfolding JSONtoDukValue.simps using 7
    by (intro pushes_bind pushes_duk pushes_items) (auto elim: in_set_zipE)
  then show ?case by simp
next
  case (8 api net ms)
  have "pushes (1 + 0) (JSONtoDukValue api net (JObject ms))"
    unfolding JSONtoDukValue.simps using 8
    by (intro pushes_bind pushes_duk pushes_items) auto
  then show ?case by simp
next
  case (9 api net bs st)
  have "pushes 1 (bindS (view_open net (JBinary bs st)) (\<lambda>n.
      finallyS (bindS (view_pointer net n) (\<lambda>(p, sz). duk_push api (DExternal p sz))) (view_close n)))"
    by (auto simp: pushes_def bindS_def view_open_def view_pointer_def finallyS_def duk_push_def view_close_def
        split: sum.splits prod.splits option.splits if_splits)
  then show ?case by (auto intro: pushes_duk simp del: One_nat_def)
qed (auto intro: pushes_duk simp del: One_nat_def)

text \<open>
  Stack discipline as a triple: started with \<open>n\<close> values above \<open>st\<close>, an action that
  succeeds ends with \<open>k\<close> values above it.
\<close>

definition above :: "nat \<Rightarrow> 'bk dval list \<Rightarrow> ('bk, 'ep) js_vm \<Rightarrow> bool" where
  "above n st s \<longleftrightarrow> (\<exists>vs. length vs = n \<and> dstack s = vs @ st)"

definition shifts :: "nat \<Rightarrow> ('a, ('bk, 'ep) js_vm) act \<Rightarrow> nat \<Rightarrow> bool" where
  "shifts n m k \<longleftrightarrow> (\<forall>st s x s'. above n st s \<longrightarrow> m s = (Inr x, s') \<longrightarrow> above k st s')"

lemma shifts_bind: "shifts n m k \<Longrightarrow> (\<And>x. shifts k (f x) l) \<Longrightarrow> shifts n (bindS m f) l"
  by (fastforce simp: shifts_def bindS_Inr)

lemma shifts_if: "shifts n a k \<Longrightarrow> shifts n b k \<Longrightarrow> shifts n (if c then a else b) k"
  by simp

lemma shifts_pushes: "pushes 1 m \<Longrightarrow> shifts n m (Suc n)"
proof -
  assume m: "pushes 1 m"
  have "above (Suc n) st s'" if a: "above n st s" and run: "m s = (Inr x, s')" for st s x s'
  proof -
    obtain us where "length us = n" "dstack s = us @ st" using a by (auto simp: above_def)
    moreover obtain vs where "length vs = 1" "dstack s' = vs @ dstack s" using pushesD [OF m run] by blast
    ultimately show ?thesis unfolding above_def by (intro exI [of _ "vs @ us"]) simp
  qed
  then show ?thesis by (auto simp: shifts_def)
qed

lemma shifts_still: "pushes 0 m \<Longrightarrow> shifts n m n"
  by (auto simp: shifts_def pushes_def above_def)

lemma shifts_pop: "shifts (Suc n) duk_pop n"
  by (auto simp: shifts_def above_def duk_pop_def length_Suc_conv split: list.splits)

lemma shifts_put: "shifts (Suc n) (duk_put_prop api t k) n"
  unfolding duk_put_prop_def
proof (rule shifts_bind [OF shifts_pop])
  show "shifts n (\<lambda>s. case t of
      DObj a \<Rightarrow> (Inr (), s\<lparr>heap := (heap s)\<lparr>jobjs := (jobjs (heap s))(a :=
              map_option (\<lambda>(arr, ps). (arr, prop_set k x ps)) (jobjs (heap s) a))\<rparr>\<rparr>)
      | _ \<Rightarrow> if put_throws api t then (Inl Abort, s) else (Inr (), s)) n" for x
    by (auto simp: shifts_def above_def split: dval.splits if_splits)
qed

lemma still_top: "pushes 0 duk_top"
  by (auto simp: pushes_def duk_top_def split: list.splits)

lemma still_read: "pushes 0 (\<lambda>s. (f s, s))"
  by (simp add: pushes_def)

lemma still_text: "pushes 0 top_text"
  unfolding top_text_def using pushes_bind [OF still_top pushes_ret] by simp

lemma still_json: "pushes 0 (top_json api)"
proof -
  have "pushes (0 + 0) (top_json api)" unfolding top_json_def by (rule pushes_bind [OF still_top still_read])
  then show ?thesis by simp
qed

lemma pushes_exec: "pushes 1 (js_exec api run)"
  unfolding pushes_def
proof (intro allI impI)
  fix s x s' assume run: "js_exec api run s = (Inr x, s')"
  obtain r h m where "run (heap s) (view_memory s) = (r, h, m)" by (cases "run (heap s) (view_memory s)")
  with run show "\<exists>vs. length vs = 1 \<and> dstack s' = vs @ dstack s"
    by (cases r) (auto simp: js_exec_def Let_def bindS_def duk_push_def put_memory_def split: if_splits)
qed

lemma pushes_get: "pushes 1 (duk_get_prop api t k)"
  by (auto simp: pushes_def duk_get_prop_def bindS_def duk_push_def split: sum.splits option.splits if_splits)

lemma pushes_global: "pushes 1 (duk_get_global api name)" "pushes 1 (\<lambda>s. duk_push api (DObj (global_obj (heap s))) s)"
  using pushes_get pushes_duk(1) by (fastforce simp: pushes_def duk_get_global_def)+

lemma pushes_args:
  assumes "\<And>p. p \<in> set ps \<Longrightarrow> pushes 1 (g p)"
  shows "pushes 0 (mapS (\<lambda>p. bindS (g p) (\<lambda>_. duk_put_prop api t (key p))) ps)"
  using pushes_mapS [of ps 0 "\<lambda>p. bindS (g p) (\<lambda>_. duk_put_prop api t (key p))"] pushes_put [OF assms] by simp

lemmas shifts_rules = shifts_bind shifts_if shifts_pop shifts_put
  shifts_still [OF pushes_ret] shifts_still [OF still_top] shifts_still [OF still_text] shifts_still [OF still_json]
  shifts_still [OF pushes_args [OF JSONtoDukValue_pushes]]
  shifts_pushes [OF pushes_duk(1)] shifts_pushes [OF pushes_duk(2)] shifts_pushes [OF JSONtoDukValue_pushes]
  shifts_pushes [OF pushes_exec] shifts_pushes [OF pushes_get] shifts_pushes [OF pushes_global(2)]

lemma shifts_locked:
  assumes "shifts 0 m 0" and "with_lock m s = (Inr r, s')"
  shows "dstack s' = dstack s"
proof -
  obtain s1 where m: "m (s\<lparr>locked := True\<rparr>) = (Inr r, s1)" and s': "s' = s1\<lparr>locked := False\<rparr>"
    using assms(2) by (auto simp: with_lock_def finallyS_def split: if_splits prod.splits)
  have "above 0 (dstack s) (s\<lparr>locked := True\<rparr>)" by (simp add: above_def)
  then have "above 0 (dstack s) s1" using assms(1) m unfolding shifts_def by blast
  then show ?thesis by (simp add: above_def s')
qed

text \<open>\<open>execute\<close> leaves the stack as it found it, whatever the script does.\<close>

lemma JavascriptVm_execute_stack:
  assumes "JavascriptVm_execute api net code args s = (Inr r, s')"
  shows "dstack s' = dstack s"
  by (rule shifts_locked [OF _ assms [unfolded JavascriptVm_execute_def]]) (rule shifts_rules)+

text \<open>
  A call to a name that does not exist leaves an \<open>undefined\<close> behind; once the stack is full
  the next such call ends the process.
\<close>

lemma JavascriptVm_call_missing:
  assumes "\<not> locked s" and "find_prop api (DObj (global_obj (heap s))) (cstr fname) (heap s) = Inr None"
  shows "JavascriptVm_call api net fname [] args s =
    (if length (dstack s) < stack_room api
     then (Inr (failed (''Function not found: '' @ fname)), s\<lparr>dstack := DUndefined # dstack s\<rparr>)
     else (Inl Abort, s))"
  using assms
  by (simp add: JavascriptVm_call_def with_lock_def finallyS_def duk_get_global_def duk_get_prop_def duk_push_def
      bindS_def)

lemma JavascriptVm_call_missing_repeated:
  assumes "\<not> locked s" and "find_prop api (DObj (global_obj (heap s))) (cstr fname) (heap s) = Inr None"
    and "length (dstack s) + n \<le> stack_room api"
  shows "((\<lambda>s. snd (JavascriptVm_call api net fname [] args s)) ^^ n) s =
    s\<lparr>dstack := replicate n DUndefined @ dstack s\<rparr>"
  using assms(3)
proof (induction n)
  case (Suc n)
  let ?s = "s\<lparr>dstack := replicate n DUndefined @ dstack s\<rparr>"
  have "JavascriptVm_call api net fname [] args ?s =
      (Inr (failed (''Function not found: '' @ fname)), ?s\<lparr>dstack := DUndefined # dstack ?s\<rparr>)"
    using assms(1,2) Suc.prems by (subst JavascriptVm_call_missing) simp_all
  then show ?case using Suc by simp
qed simp

lemma JavascriptVm_call_no_method:
  assumes "\<not> locked s" and "target \<noteq> []"
    and "find_prop api (DObj (global_obj (heap s))) (cstr target) (heap s) = Inr (Some this)"
    and "find_prop api this (cstr fname) (heap s) = Inr None" and "length (dstack s) + 1 < stack_room api"
  shows "JavascriptVm_call api net fname target args s =
    (Inr (failed (''Method not found: '' @ fname)), s\<lparr>dstack := this # dstack s\<rparr>)"
  using assms
  by (simp add: JavascriptVm_call_def with_lock_def finallyS_def duk_get_global_def duk_get_prop_def duk_push_def
      duk_top_def duk_pop_def bindS_def)

section \<open>Memory views and foreign functions\<close>

text \<open>
  By the time the external buffer is on the stack, the view it points into is gone and has
  been written back: what a script does to it reaches nobody.
\<close>

lemma JSONtoDuk_view:
  assumes "IsMemoryView (JBinary bs st)" and "MemoryView_json net (JBinary bs st) = Inr v"
    and "prepareLocalData net v = (None, v')" and "m_local_data v' = Owned b"
    and "length (dstack s) < stack_room api" and "alive s (next_view s) = None"
  shows "JSONtoDukValue api net (JBinary bs st) s =
    (Inr (), s\<lparr>next_view := Suc (next_view s), alive := alive s, pushed := pushed s @ pushes_of v',
       dstack := DExternal (BufPtr (next_view s)) (m_remote_size v') # dstack s\<rparr>)"
proof -
  have "(alive s)(next_view s := None) = alive s" using assms(6) by (rule fun_upd_idem)
  then show ?thesis
    using assms(1-5)
    by (simp add: view_open_def view_pointer_def finallyS_def duk_push_def view_close_def bindS_def)
qed

text \<open>
  Installing a second function under a name: the script calls the new function object,
  whose holder has been destroyed.
\<close>

lemma prop_set_lookup: "map_of (prop_set k v ps) = (map_of ps)(k \<mapsto> v)"
  by (induction k v ps rule: prop_set.induct) auto

lemma JavascriptVm_install_run:
  assumes "\<not> locked s" and "length (dstack s) + 1 < stack_room api" and "next_obj (heap s) \<noteq> global_obj (heap s)"
    and "jobjs (heap s) (global_obj (heap s)) = Some (arr, ps)"
  shows "\<exists>s'. JavascriptVm_install api name func nargs s = (Inr BResult_default, s') \<and>
    \<not> locked s' \<and> dstack s' = dstack s \<and> global_obj (heap s') = global_obj (heap s) \<and>
    next_obj (heap s') = Suc (next_obj (heap s)) \<and> next_holder s' = Suc (next_holder s) \<and>
    jobjs (heap s') (global_obj (heap s)) = Some (arr, prop_set (cstr name) (DObj (next_obj (heap s))) ps) \<and>
    jobjs (heap s') (next_obj (heap s)) = Some (False, [(holder_key, DPointer (next_holder s))]) \<and>
    holders s' = (if m_ffuncs s name = None then (holders s)(next_holder s \<mapsto> (func, nargs))
                  else (holders s)(next_holder s := None)) \<and>
    m_ffuncs s' name \<noteq> None"
  using assms
  by (simp add: JavascriptVm_install_def with_lock_def finallyS_def new_holder_def duk_push_object_def duk_push_def
      duk_put_prop_def duk_pop_def duk_put_global_def keep_holder_def bindS_def Let_def)

lemma FunctionHolder_binding_dangling:
  assumes "find_prop api (DObj f) holder_key (heap s) = Inr (Some (DPointer h))" and "holders s h = None"
    and "length (dstack s) + 1 < stack_room api"
  shows "fst (FunctionHolder_binding api net f args s) = Inl UB"
  using assms by (simp add: FunctionHolder_binding_def duk_push_def duk_get_prop_def duk_pop_def bindS_def)

lemma FunctionHolder_binding_arity:
  assumes "find_prop api (DObj f) holder_key (heap s) = Inr (Some (DPointer h))" and "holders s h = Some (func, nargs)"
    and "length (dstack s) + 1 < stack_room api" and "length args \<noteq> nargs"
  shows "FunctionHolder_binding api net f args s = (Inr None, s)"
  using assms by (simp add: FunctionHolder_binding_def duk_push_def duk_get_prop_def duk_pop_def bindS_def)

lemma JavascriptVm_new_idle:
  assumes "JavascriptVm_new api net files config = Inr s"
  shows "idle s \<and> m_config s = config"
proof -
  obtain h where h: "create_heap api = Some h" using assms by (auto simp: JavascriptVm_new_def split: option.splits)
  let ?s0 = "vm_world.extend (new_world config) (js_vm.fields h [] Map.empty 0 Map.empty)"
  have i: "idle ?s0" "m_config ?s0 = config"
    by (simp_all add: idle_def new_world_def vm_world.defs js_vm.defs)
  obtain r s1 where p: "run_preamble (JavascriptVm_load api net files) (JavascriptVm_execute api net) config ?s0 = (r, s1)"
    by fastforce
  then have "idle s1" "m_config s1 = config"
    using run_preamble_idle [OF JavascriptVm_load_idle JavascriptVm_execute_idle p i(1)] i(2) by auto
  then show ?thesis using assms p h by (auto simp: JavascriptVm_new_def split: sum.splits)
qed

section \<open>Values that survive the trip through JavaScript\<close>

text \<open>
  A key with such a first byte is a symbol to the engine, and \<open>duk_enum\<close> leaves symbols out.
  A key \<open>__proto__\<close> names the prototype of an object, not a property of its own.
\<close>

definition js_symbol :: "string \<Rightarrow> bool" where
  "js_symbol k = (case k of [] \<Rightarrow> False | c # _ \<Rightarrow> let b = (of_char c :: nat) in 128 \<le> b \<and> b < 192 \<or> b = 255)"

definition js_key :: "string \<Rightarrow> bool" where
  "js_key k \<longleftrightarrow> CHR 0x00 \<notin> set k \<and> \<not> js_symbol k \<and> k \<noteq> ''__proto__''"

text \<open>
  What the code relies on in the engine: enumerating the indices of an array that was
  filled from 0 on meets them in order, and enumerating an object whose keys are no symbols
  meets each of its properties once.
\<close>

definition js_api_ok :: "'bk js_api \<Rightarrow> bool" where
  "js_api_ok api \<longleftrightarrow>
     (\<forall>ps n. map fst ps = map show_nat [0..<n] \<longrightarrow> enum_indices api ps = ps) \<and>
     (\<forall>ps. list_all (\<lambda>p. js_key (fst p)) ps \<longrightarrow> mset (enum_own api ps) = mset ps)"

text \<open>
  Values without views, whose strings have no zero bytes and whose keys are plain ones.
  Integers come back as doubles; binaries are lost.
\<close>

function (sequential) js_plain :: "json \<Rightarrow> bool" where
  "js_plain (JString s) = (CHR 0x00 \<notin> set s)"
| "js_plain (JBinary bs st) = (\<not> IsMemoryView (JBinary bs st))"
| "js_plain (JArray vs) = list_all js_plain vs"
| "js_plain (JObject ms) = (obj_ok ms \<and> list_all (\<lambda>m. js_key (fst m) \<and> js_plain (snd m)) ms)"
| "js_plain j = True"
  by pat_completeness auto
termination
  by (relation "measure depth") (auto intro: depth_array_elem depth_object_member simp del: depth.simps)

function (sequential) js_norm :: "json \<Rightarrow> json" where
  "js_norm (JInt i) = JFloat (double_of_int (sint i))"
| "js_norm (JUInt u) = JFloat (double_of_int (uint u))"
| "js_norm (JBinary bs st) = JNull"
| "js_norm JDiscarded = JNull"
| "js_norm (JArray vs) = JArray (map js_norm vs)"
| "js_norm (JObject ms) = JObject (map (\<lambda>m. (fst m, js_norm (snd m))) ms)"
| "js_norm j = j"
  by pat_completeness auto
termination
  by (relation "measure depth") (auto intro: depth_array_elem depth_object_member simp del: depth.simps)

lemma dukValueToJSON_mono:
  "dukValueToJSON api h n v = Inr j \<Longrightarrow> h \<subseteq>\<^sub>m h' \<Longrightarrow> dukValueToJSON api h' n v = Inr j"
proof (induction api h n v arbitrary: j rule: dukValueToJSON.induct)
  case (7 api h n a)
  obtain arr ps where ps: "h a = Some (arr, ps)" using "7.prems"(1) by (auto split: option.splits)
  then have ps': "h' a = Some (arr, ps)" using "7.prems"(2) by (metis domI map_le_def)
  show ?case
  proof (cases arr)
    case True
    then obtain vs where "mapE (\<lambda>p. dukValueToJSON api h n (snd p)) (enum_indices api ps) = Inr vs" "j = JArray vs"
      using "7.prems"(1) ps by (auto simp: bindE_eq_Inr)
    moreover then have "mapE (\<lambda>p. dukValueToJSON api h' n (snd p)) (enum_indices api ps) = Inr vs"
      using "7.IH"(1) [OF ps refl True] "7.prems"(2) by (auto elim!: mapE_mono)
    ultimately show ?thesis using ps' True by simp
  next
    case False
    let ?f = "\<lambda>h p. bindE (dukValueToJSON api h n (snd p)) (\<lambda>v. Inr (cstr (fst p), v))"
    obtain ms where "mapE (?f h) (enum_own api ps) = Inr ms" "j = obj_of ms"
      using "7.prems"(1) ps False by (auto simp: bindE_eq_Inr)
    moreover then have "mapE (?f h') (enum_own api ps) = Inr ms"
      using "7.IH"(2) [OF ps refl False] "7.prems"(2) by (auto elim!: mapE_mono simp: bindE_eq_Inr)
    ultimately show ?thesis using ps' False by simp
  qed
qed auto

text \<open>Decimal names are different for different indices.\<close>

definition decimal_value :: "string \<Rightarrow> nat" where
  "decimal_value s = foldl (\<lambda>a c. 10 * a + (of_char c - 48)) 0 s"

lemma decimal_value_show: "decimal_value (show_nat n) = n"
proof (induction n rule: show_nat.induct)
  case (1 n)
  show ?case
  proof (cases "n < 10")
    case True
    then show ?thesis by (simp add: show_nat.simps [of n] decimal_value_def)
  next
    case False
    then show ?thesis using 1 by (simp add: show_nat.simps [of n] decimal_value_def)
  qed
qed

lemma show_nat_inj: "show_nat i = show_nat k \<longleftrightarrow> i = k"
  by (metis decimal_value_show)

lemma show_nat_no_zero: "CHR 0x00 \<notin> set (show_nat n)"
proof (induction n rule: show_nat.induct)
  case (1 n)
  have "CHR 0x00 \<noteq> char_of (48 + k)" if "k < 10" for k :: nat
  proof -
    have "of_char (char_of (48 + k) :: char) \<noteq> (of_char CHR 0x00 :: nat)" using that by simp
    then show ?thesis by metis
  qed
  with 1 show ?case by (cases "n < 10") (simp_all add: show_nat.simps [of n])
qed

lemma prop_set_new: "k \<notin> fst ` set ps \<Longrightarrow> prop_set k v ps = ps @ [(k, v)]"
  by (induction k v ps rule: prop_set.induct) auto

text \<open>
  What the conversion of a value has done: one value pushed, new objects made, and nothing
  but the new objects needed to read the value back.
\<close>

definition pushes_readable :: "'bk js_api \<Rightarrow> nat \<Rightarrow> json \<Rightarrow> ('bk, 'ep) js_vm \<Rightarrow> 'bk js_heap \<Rightarrow> 'bk dval \<Rightarrow> bool" where
  "pushes_readable api n j s h v \<longleftrightarrow>
     next_obj (heap s) \<le> next_obj h \<and> global_obj h = global_obj (heap s) \<and>
     (\<forall>a < next_obj (heap s). jobjs h a = jobjs (heap s) a) \<and>
     dukValueToJSON api (jobjs h |` {next_obj (heap s)..<next_obj h}) n v = Inr (js_norm j)"

lemma put_items:
  assumes conv: "\<And>p s. p \<in> set ps \<Longrightarrow> dstack s = DObj a # st \<Longrightarrow>
      \<exists>h v. f (snd p) s = (Inr (), s\<lparr>heap := h, dstack := v # dstack s\<rparr>) \<and> pushes_readable api n (snd p) s h v"
    and "a < next_obj (heap s)" and "jobjs (heap s) a = Some (arr, es)" and "dstack s = DObj a # st"
    and "distinct (map fst es @ map key ps)"
  shows "\<exists>us h xs. mapS (\<lambda>p. bindS (f (snd p)) (\<lambda>_. duk_put_prop api (DObj a) (key p))) ps s = (Inr us, s\<lparr>heap := h\<rparr>) \<and>
    next_obj (heap s) \<le> next_obj h \<and> global_obj h = global_obj (heap s) \<and> length xs = length ps \<and>
    jobjs h a = Some (arr, es @ zip (map key ps) xs) \<and>
    (\<forall>b < next_obj (heap s). b \<noteq> a \<longrightarrow> jobjs h b = jobjs (heap s) b) \<and>
    list_all2 (\<lambda>p v. dukValueToJSON api (jobjs h |` {next_obj (heap s)..<next_obj h}) n v = Inr (js_norm (snd p))) ps xs"
  using assms
proof (induction ps arbitrary: s es)
  case Nil
  then show ?case by (intro exI [of _ "[]"] exI [of _ "heap s"]) auto
next
  case (Cons p ps)
  let ?m = "mapS (\<lambda>p. bindS (f (snd p)) (\<lambda>_. duk_put_prop api (DObj a) (key p)))"
  obtain h v where f: "f (snd p) s = (Inr (), s\<lparr>heap := h, dstack := v # dstack s\<rparr>)"
    and r: "pushes_readable api n (snd p) s h v"
    using Cons.prems(1) [of p s] Cons.prems(4) by auto
  let ?h2 = "h\<lparr>jobjs := (jobjs h)(a \<mapsto> (arr, es @ [(key p, v)]))\<rparr>"
  have ha: "jobjs h a = Some (arr, es)" using r Cons.prems(2,3) by (simp add: pushes_readable_def)
  have "prop_set (key p) v es = es @ [(key p, v)]" using Cons.prems(5) by (intro prop_set_new) auto
  then have step: "bindS (f (snd p)) (\<lambda>_. duk_put_prop api (DObj a) (key p)) s = (Inr (), s\<lparr>heap := ?h2\<rparr>)"
    using f ha by (simp add: duk_put_prop_def duk_pop_def bindS_def)
  have le: "next_obj (heap s) \<le> next_obj ?h2" using r by (simp add: pushes_readable_def)
  have "\<exists>us h' xs. ?m ps (s\<lparr>heap := ?h2\<rparr>) = (Inr us, s\<lparr>heap := ?h2\<rparr>\<lparr>heap := h'\<rparr>) \<and>
    next_obj ?h2 \<le> next_obj h' \<and> global_obj h' = global_obj ?h2 \<and> length xs = length ps \<and>
    jobjs h' a = Some (arr, (es @ [(key p, v)]) @ zip (map key ps) xs) \<and>
    (\<forall>b < next_obj ?h2. b \<noteq> a \<longrightarrow> jobjs h' b = jobjs ?h2 b) \<and>
    list_all2 (\<lambda>p v. dukValueToJSON api (jobjs h' |` {next_obj ?h2..<next_obj h'}) n v = Inr (js_norm (snd p))) ps xs"
    using Cons.IH [of "s\<lparr>heap := ?h2\<rparr>" "es @ [(key p, v)]"] Cons.prems le by (auto simp: distinct_append)
  then obtain us h' xs where m: "?m ps (s\<lparr>heap := ?h2\<rparr>) = (Inr us, s\<lparr>heap := h'\<rparr>)"
    and h': "next_obj ?h2 \<le> next_obj h'" "global_obj h' = global_obj ?h2" "length xs = length ps"
      "jobjs h' a = Some (arr, es @ (key p, v) # zip (map key ps) xs)"
      "\<forall>b < next_obj ?h2. b \<noteq> a \<longrightarrow> jobjs h' b = jobjs ?h2 b"
    and all: "list_all2 (\<lambda>p v. dukValueToJSON api (jobjs h' |` {next_obj ?h2..<next_obj h'}) n v = Inr (js_norm (snd p))) ps xs"
    by auto
  have new: "jobjs h |` {next_obj (heap s)..<next_obj h} \<subseteq>\<^sub>m jobjs h' |` {next_obj (heap s)..<next_obj h'}"
    using h'(1,5) Cons.prems(2) by (auto simp: map_le_def restrict_map_def)
  have old: "jobjs h' |` {next_obj ?h2..<next_obj h'} \<subseteq>\<^sub>m jobjs h' |` {next_obj (heap s)..<next_obj h'}"
    using le by (auto simp: map_le_def restrict_map_def)
  have "list_all2 (\<lambda>p v. dukValueToJSON api (jobjs h' |` {next_obj (heap s)..<next_obj h'}) n v = Inr (js_norm (snd p)))
      (p # ps) (v # xs)"
    using all r dukValueToJSON_mono [OF _ new] dukValueToJSON_mono [OF _ old]
    by (auto simp: pushes_readable_def elim!: list_all2_mono)
  moreover have "\<forall>b < next_obj (heap s). b \<noteq> a \<longrightarrow> jobjs h' b = jobjs (heap s) b"
    using r h'(5) le by (auto simp: pushes_readable_def)
  moreover have "?m (p # ps) s = (Inr (() # us), s\<lparr>heap := h'\<rparr>)" using step m by simp
  ultimately show ?case
    using h' r le
    by (intro exI [of _ "() # us"] exI [of _ h'] exI [of _ "v # xs"]) (auto simp: pushes_readable_def)
qed

lemma duk_push_readable:
  assumes "length (dstack s) < stack_room api" and "\<And>h. dukValueToJSON api h n v = Inr (js_norm j)"
  shows "\<exists>h v'. duk_push api v s = (Inr (), s\<lparr>heap := h, dstack := v' # dstack s\<rparr>) \<and>
    pushes_readable api n j s h v'"
  using assms by (intro exI [of _ "heap s"] exI [of _ v]) (simp add: duk_push_def pushes_readable_def)

lemma JSONtoDuk_reads:
  "js_api_ok api \<Longrightarrow> js_plain j \<Longrightarrow> depth j \<le> n \<Longrightarrow>
    length (dstack s) + depth j \<le> stack_room api \<Longrightarrow>
    \<exists>h v. JSONtoDukValue api net j s = (Inr (), s\<lparr>heap := h, dstack := v # dstack s\<rparr>) \<and>
      pushes_readable api n j s h v"
proof (induction api net j arbitrary: n s rule: JSONtoDukValue.induct)
  case (7 api net vs)
  let ?a = "next_obj (heap s)"
  let ?ps = "zip (map show_nat [0..<length vs]) vs"
  let ?s1 = "s\<lparr>heap := (heap s)\<lparr>jobjs := (jobjs (heap s))(?a \<mapsto> (True, [])), next_obj := Suc ?a\<rparr>,
    dstack := DObj ?a # dstack s\<rparr>"
  obtain n' where n: "n = Suc n'" using "7.prems"(3) by (cases n) auto
  have d: "depth v < depth (JArray vs)" if "v \<in> set vs" for v using that by (rule depth_array_elem)
  have push: "duk_push_object api True s = (Inr ?a, ?s1)"
    using "7.prems"(4) by (simp add: duk_push_object_def duk_push_def bindS_def Let_def)
  have conv: "\<exists>h v. JSONtoDukValue api net (snd p) t = (Inr (), t\<lparr>heap := h, dstack := v # dstack t\<rparr>) \<and>
      pushes_readable api n' (snd p) t h v" if "p \<in> set ?ps" "dstack t = DObj ?a # dstack s" for p t
  proof -
    have p: "snd p \<in> set vs" using set_zip_rightD [of "fst p" "snd p"] that(1) by simp
    then show ?thesis
      using "7.IH" [of p n' t] that d [OF p] "7.prems" n by (simp add: list_all_iff del: depth.simps)
  qed
  have "distinct (map fst [] @ map fst ?ps)" by (simp add: distinct_map inj_on_def show_nat_inj)
  then obtain us h xs where m: "mapS (\<lambda>p. bindS (JSONtoDukValue api net (snd p)) (\<lambda>_. duk_put_prop api (DObj ?a) (fst p))) ?ps ?s1
      = (Inr us, ?s1\<lparr>heap := h\<rparr>)"
    and h: "Suc ?a \<le> next_obj h" "global_obj h = global_obj (heap s)" "length xs = length ?ps"
      "jobjs h ?a = Some (True, zip (map fst ?ps) xs)" "\<forall>b < Suc ?a. b \<noteq> ?a \<longrightarrow> jobjs h b = jobjs (heap s) b"
    and all: "list_all2 (\<lambda>p v. dukValueToJSON api (jobjs h |` {Suc ?a..<next_obj h}) n' v = Inr (js_norm (snd p))) ?ps xs"
    using put_items [where ps = ?ps and f = "JSONtoDukValue api net" and a = ?a and st = "dstack s" and s = ?s1
        and es = "[]" and key = fst and arr = True and n = n' and api = api, OF conv] by auto
  let ?H = "jobjs h |` {?a..<next_obj h}"
  have es: "enum_indices api (zip (map fst ?ps) xs) = zip (map fst ?ps) xs"
  proof -
    have "map fst (zip (map fst ?ps) xs) = map show_nat [0..<length vs]" using h(3) by simp
    moreover have "\<And>ps n. map fst ps = map show_nat [0..<n] \<Longrightarrow> enum_indices api ps = ps"
      using "7.prems"(1) unfolding js_api_ok_def by blast
    ultimately show ?thesis by blast
  qed
  have sub: "jobjs h |` {Suc ?a..<next_obj h} \<subseteq>\<^sub>m ?H" by (auto simp: map_le_def restrict_map_def)
  have "list_all2 (\<lambda>v j. dukValueToJSON api ?H n' v = Inr j) xs (map js_norm vs)"
    using all dukValueToJSON_mono [OF _ sub] h(3) by (auto simp: list_all2_conv_all_nth)
  then have "mapE (dukValueToJSON api ?H n') xs = Inr (map js_norm vs)" by (rule mapE_all2)
  moreover have "map snd (zip (map fst ?ps) xs) = xs" using h(3) by simp
  ultimately have "mapE (\<lambda>p. dukValueToJSON api ?H n' (snd p)) (zip (map fst ?ps) xs) = Inr (map js_norm vs)"
    by (metis mapE_map)
  moreover have "?H ?a = Some (True, zip (map fst ?ps) xs)" using h(1,4) by (simp add: restrict_map_def)
  ultimately have "dukValueToJSON api ?H n (DObj ?a) = Inr (js_norm (JArray vs))"
    by (simp add: n es del: map_fst_zip)
  moreover have "JSONtoDukValue api net (JArray vs) s = (Inr (), s\<lparr>heap := h, dstack := DObj ?a # dstack s\<rparr>)"
    using push m by simp
  ultimately show ?case using h by (intro exI [of _ h] exI [of _ "DObj ?a"]) (simp add: pushes_readable_def)
next
  case (8 api net ms)
  let ?a = "next_obj (heap s)"
  let ?s1 = "s\<lparr>heap := (heap s)\<lparr>jobjs := (jobjs (heap s))(?a \<mapsto> (False, [])), next_obj := Suc ?a\<rparr>,
    dstack := DObj ?a # dstack s\<rparr>"
  obtain n' where n: "n = Suc n'" using "8.prems"(3) by (cases n) auto
  have d: "depth (snd m) < depth (JObject ms)" if "m \<in> set ms" for m
    by (rule depth_object_member [of "fst m"]) (simp add: that)
  have ok: "obj_ok ms" using "8.prems"(2) by simp
  have key: "cstr (fst m) = fst m" if "m \<in> set ms" for m
    using that "8.prems"(2) by (auto simp: list_all_iff js_key_def intro: cstr_id)
  have keys: "map (\<lambda>m. cstr (fst m)) ms = map fst ms" using key by simp
  have push: "duk_push_object api False s = (Inr ?a, ?s1)"
    using "8.prems"(4) by (simp add: duk_push_object_def duk_push_def bindS_def Let_def)
  have conv: "\<exists>h v. JSONtoDukValue api net (snd p) t = (Inr (), t\<lparr>heap := h, dstack := v # dstack t\<rparr>) \<and>
      pushes_readable api n' (snd p) t h v" if "p \<in> set ms" "dstack t = DObj ?a # dstack s" for p t
    using "8.IH" [of p n' t] that d [OF that(1)] "8.prems" n by (simp add: list_all_iff del: depth.simps)
  have "distinct (map fst [] @ map (\<lambda>m. cstr (fst m)) ms)" unfolding keys using obj_ok_distinct [OF ok] by simp
  then obtain us h xs where m: "mapS (\<lambda>p. bindS (JSONtoDukValue api net (snd p)) (\<lambda>_. duk_put_prop api (DObj ?a) (cstr (fst p)))) ms ?s1
      = (Inr us, ?s1\<lparr>heap := h\<rparr>)"
    and h: "Suc ?a \<le> next_obj h" "global_obj h = global_obj (heap s)" "length xs = length ms"
      "jobjs h ?a = Some (False, zip (map (\<lambda>m. cstr (fst m)) ms) xs)" "\<forall>b < Suc ?a. b \<noteq> ?a \<longrightarrow> jobjs h b = jobjs (heap s) b"
    and all: "list_all2 (\<lambda>p v. dukValueToJSON api (jobjs h |` {Suc ?a..<next_obj h}) n' v = Inr (js_norm (snd p))) ms xs"
    using put_items [where ps = ms and f = "JSONtoDukValue api net" and a = ?a and st = "dstack s" and s = ?s1
        and es = "[]" and key = "\<lambda>m. cstr (fst m)" and arr = False and n = n' and api = api, OF conv] by auto
  let ?H = "jobjs h |` {?a..<next_obj h}"
  let ?es = "zip (map fst ms) xs"
  let ?f = "\<lambda>p. bindE (dukValueToJSON api ?H n' (snd p)) (\<lambda>v. Inr (cstr (fst p), v))"
  have sub: "jobjs h |` {Suc ?a..<next_obj h} \<subseteq>\<^sub>m ?H" by (auto simp: map_le_def restrict_map_def)
  have "?f (?es ! i) = Inr (fst (ms ! i), js_norm (snd (ms ! i)))" if "i < length ms" for i
    using list_all2_nthD [OF all that] dukValueToJSON_mono [OF _ sub] key that h(3) by simp
  moreover have "list_all (\<lambda>p. js_key (fst p)) ?es"
    using "8.prems"(2) by (auto simp: list_all_iff in_set_zip)
  then have "mset (enum_own api ?es) = mset ?es" using "8.prems"(1) by (simp add: js_api_ok_def)
  moreover have "length ?es = length ms" using h(3) by simp
  ultimately have "bindE (mapE ?f (enum_own api ?es)) (\<lambda>ms. Inr (obj_of ms)) = Inr (JObject (map (\<lambda>m. (fst m, js_norm (snd m))) ms))"
    using ok by (intro obj_of_traversal) auto
  moreover have "?H ?a = Some (False, ?es)" using h(1,4) keys by (simp add: restrict_map_def)
  ultimately have "dukValueToJSON api ?H n (DObj ?a) = Inr (js_norm (JObject ms))" by (simp add: n)
  moreover have "JSONtoDukValue api net (JObject ms) s = (Inr (), s\<lparr>heap := h, dstack := DObj ?a # dstack s\<rparr>)"
    using push m by simp
  ultimately show ?case using h by (intro exI [of _ h] exI [of _ "DObj ?a"]) (simp add: pushes_readable_def)
next
  case (9 api net bs st)
  then show ?case by (simp add: duk_push_readable)
qed (simp_all add: duk_push_readable cstr_id)

section \<open>What the JavaScript backend promises\<close>

definition demo_js :: "u64 js_api" where
  "demo_js = \<lparr>enum_indices = (\<lambda>ps. ps), enum_own = (\<lambda>ps. ps),
     find_prop = (\<lambda>v k h. case v of
         DObj a \<Rightarrow> (case jobjs h a of None \<Rightarrow> Inr None | Some (arr, ps) \<Rightarrow> Inr (map_of ps k))
       | _ \<Rightarrow> Inl ''not an object''),
     put_throws = (\<lambda>v. True), peval = (\<lambda>code h m. (Inl ''SyntaxError'', h, m)),
     pcall = (\<lambda>f xs h m. (Inr DNull, h, m)), pcall_method = (\<lambda>f this xs h m. (Inr DNull, h, m)),
     stack_room = 100, js_depth = 50,
     create_heap = Some \<lparr>jobjs = [0 \<mapsto> (False, [])], next_obj = 1, global_obj = 0\<rparr>\<rparr>"

lemma demo_js_find: "jobjs h a = Some (arr, ps) \<Longrightarrow> find_prop demo_js (DObj a) k h = Inr (map_of ps k)"
  by (simp add: demo_js_def)

definition demo_js_vm :: "(u64, nat) js_vm" where
  "demo_js_vm = vm_world.extend (new_world JNull)
     (js_vm.fields \<lparr>jobjs = [0 \<mapsto> (False, [])], next_obj = 1, global_obj = 0\<rparr> [] Map.empty 0 Map.empty)"

lemma demo_js_vm_fields [simp]:
  "\<not> locked demo_js_vm" "dstack demo_js_vm = []" "pushed demo_js_vm = []" "alive demo_js_vm = Map.empty"
  "next_view demo_js_vm = 0" "m_ffuncs demo_js_vm = Map.empty" "idle demo_js_vm"
  "heap demo_js_vm = \<lparr>jobjs = [0 \<mapsto> (False, [])], next_obj = 1, global_obj = 0\<rparr>"
  by (simp_all add: demo_js_vm_def new_world_def vm_world.defs js_vm.defs idle_def)

text \<open>
  C18. A provider with a JavaScript VM serves any sequence of requests, answered or ended by
  an exception, and still holds that VM: unlocked, without a view left alive, and with the
  configuration it was created from.
\<close>

theorem js_provider_invariant:
  assumes "JavascriptVm_new api net files config = Inr s"
    and "serves (JavascriptVm_ops api net files dump) \<lparr>m_backend = Some \<lparr>vm_name = name, vm_impl = s\<rparr>\<rparr> outs p"
  shows "\<exists>vm. m_backend p = Some vm \<and> vm_name vm = name \<and> \<not> locked (vm_impl vm) \<and>
    alive (vm_impl vm) = Map.empty \<and> m_config (vm_impl vm) = config"
proof -
  have "provider_ready idle m_config (Some name) config \<lparr>m_backend = Some \<lparr>vm_name = name, vm_impl = s\<rparr>\<rparr>"
    using JavascriptVm_new_idle [OF assms(1)] by (simp add: provider_ready_def)
  from js.serves_robust [OF assms(2) this] show ?thesis
    by (cases "m_backend p") (auto simp: provider_ready_def idle_def)
qed

theorem js_provider_invariant_witness:
  "\<exists>s vm out. JavascriptVm_new demo_js demo_net Map.empty JNull = Inr s \<and>
     loadRPC (JavascriptVm_ops demo_js demo_net Map.empty (\<lambda>_. ''null'')) ''a.js'' [] \<lparr>m_backend = Some \<lparr>vm_name = ''js'', vm_impl = s\<rparr>\<rparr>
       = (out, \<lparr>m_backend = Some vm\<rparr>) \<and> alive (vm_impl vm) = Map.empty"
proof -
  obtain s where s: "JavascriptVm_new demo_js demo_net Map.empty JNull = Inr s"
    by (simp add: JavascriptVm_new_def run_preamble_def demo_js_def)
  let ?ops = "JavascriptVm_ops demo_js demo_net Map.empty (\<lambda>_. ''null'')" and ?p = "\<lparr>m_backend = Some \<lparr>vm_name = ''js'', vm_impl = s\<rparr>\<rparr>"
  obtain out p where p: "loadRPC ?ops ''a.js'' [] ?p = (out, p)" by fastforce
  have "serves ?ops ?p [(Load ''a.js'' [], out)] p" using p by (intro serves.one [OF _ serves.rest]) simp
  from js_provider_invariant [OF s this] obtain vm where "m_backend p = Some vm" "alive (vm_impl vm) = Map.empty" by blast
  then have "p = \<lparr>m_backend = Some vm\<rparr> \<and> alive (vm_impl vm) = Map.empty" by (cases p) simp
  then show ?thesis using s p by blast
qed

text \<open>
  \<open>execute\<close> leaves the value stack as it found it whenever it answers, whatever the
  script does and whether or not it fails.
\<close>

theorem js_execute_balanced:
  assumes "JavascriptVm_execute api net code args s = (Inr r, s')"
  shows "dstack s' = dstack s"
  by (rule JavascriptVm_execute_stack [OF assms])

lemma demo_js_execute:
  "JavascriptVm_execute demo_js demo_net ''x'' [JNull] demo_js_vm = (Inr (failed ''Error executing JavaScript code: SyntaxError''),
     snd (JavascriptVm_execute demo_js demo_net ''x'' [JNull] demo_js_vm))"
  by (simp add: JavascriptVm_execute_def with_lock_def finallyS_def duk_push_def duk_top_def duk_pop_def duk_get_prop_def
      duk_push_object_def duk_put_prop_def bindS_def demo_js_def js_exec_def top_text_def put_memory_def cstr_def Let_def)

theorem js_execute_balanced_witness:
  "dstack (snd (JavascriptVm_execute demo_js demo_net ''x'' [JNull] demo_js_vm)) = []"
  using js_execute_balanced [OF demo_js_execute] by simp

text \<open>
  C20. \<open>call\<close>, unlike \<open>execute\<close>, is not balanced: each call to a function that does not exist leaves an entry on the
  stack, and after as many of them as the stack has room for, the next one ends the process.
\<close>

theorem js_missing_function_aborts:
  assumes "\<not> locked s" and "find_prop api (DObj (global_obj (heap s))) (cstr fname) (heap s) = Inr None"
    and "length (dstack s) \<le> stack_room api"
  shows "fst (JavascriptVm_call api net fname [] args
      (((\<lambda>s. snd (JavascriptVm_call api net fname [] args s)) ^^ (stack_room api - length (dstack s))) s)) = Inl Abort"
  using JavascriptVm_call_missing_repeated [OF assms(1,2), of "stack_room api - length (dstack s)" net args] assms
  by (subst JavascriptVm_call_missing) simp_all

theorem js_missing_function_aborts_witness:
  "fst (JavascriptVm_call demo_js demo_net ''f'' [] []
      (((\<lambda>s. snd (JavascriptVm_call demo_js demo_net ''f'' [] [] s)) ^^ 100) demo_js_vm)) = Inl Abort"
  using js_missing_function_aborts [of demo_js_vm demo_js "''f''" demo_net "[]"]
  by (simp add: demo_js_def)

text \<open>
  A memory view given to a script: when the conversion returns, the view is destroyed
  and has been written back, and the external buffer on the stack points into it.
\<close>

theorem js_view_dangles:
  assumes "IsMemoryView (JBinary bs st)" and "MemoryView_json net (JBinary bs st) = Inr v"
    and "prepareLocalData net v = (None, v')" and "m_local_data v' = Owned b"
    and "length (dstack s) < stack_room api" and "alive s (next_view s) = None"
  shows "\<exists>s'. JSONtoDukValue api net (JBinary bs st) s = (Inr (), s') \<and> pushed s' = pushed s @ pushes_of v' \<and>
    dstack s' = DExternal (BufPtr (next_view s)) (m_remote_size v') # dstack s \<and> alive s' (next_view s) = None"
  using JSONtoDuk_view [OF assms] assms(6) by simp

theorem js_view_dangles_witness:
  "\<exists>s'. JSONtoDukValue demo_js demo_net (view_toJson demo_net (Some demo_view)) demo_js_vm = (Inr (), s') \<and>
     dstack s' = [DExternal (BufPtr 0) 20] \<and> alive s' 0 = None"
proof -
  have r: "m_local_data demo_ready = Owned (replicate 20 5)" "m_remote_size demo_ready = 20"
    by (simp_all add: demo_ready_def demo_view_def)
  have room: "length (dstack demo_js_vm) < stack_room demo_js" "alive demo_js_vm (next_view demo_js_vm) = None"
    by (simp_all add: demo_js_def)
  from js_view_dangles [OF demo_view_facts r(1) room] show ?thesis
    unfolding r(2) demo_view_binary by (auto simp del: JSONtoDukValue.simps)
qed

text \<open>
  A second function installed under a name: scripts reach the new function object,
  whose holder has been destroyed, and calling it reads freed memory.
\<close>

theorem js_install_again_dangles:
  assumes "\<And>h a arr ps k. jobjs h a = Some (arr, ps) \<Longrightarrow> find_prop api (DObj a) k h = Inr (map_of ps k)"
    and "\<not> locked s" and "length (dstack s) + 1 < stack_room api" and "next_obj (heap s) \<noteq> global_obj (heap s)"
    and "jobjs (heap s) (global_obj (heap s)) = Some (arr, ps)" and "m_ffuncs s name \<noteq> None"
  shows "\<exists>s' f. JavascriptVm_install api name func nargs s = (Inr BResult_default, s') \<and>
    find_prop api (DObj (global_obj (heap s'))) (cstr name) (heap s') = Inr (Some (DObj f)) \<and>
    fst (FunctionHolder_binding api net f args s') = Inl UB"
proof -
  obtain s' where s': "JavascriptVm_install api name func nargs s = (Inr BResult_default, s')"
      "dstack s' = dstack s" "global_obj (heap s') = global_obj (heap s)"
      "jobjs (heap s') (global_obj (heap s)) = Some (arr, prop_set (cstr name) (DObj (next_obj (heap s))) ps)"
      "jobjs (heap s') (next_obj (heap s)) = Some (False, [(holder_key, DPointer (next_holder s))])"
      "holders s' (next_holder s) = None"
    using JavascriptVm_install_run [OF assms(2-5), of name func nargs] assms(6) by auto
  have "find_prop api (DObj (next_obj (heap s))) holder_key (heap s') = Inr (Some (DPointer (next_holder s)))"
    using assms(1) [OF s'(5)] by simp
  from FunctionHolder_binding_dangling [OF this s'(6)] show ?thesis
    using s'(1,2,3) assms(1) [OF s'(4)] assms(3) by (auto simp: prop_set_lookup)
qed

theorem js_install_again_dangles_witness:
  "\<exists>s' f. JavascriptVm_install demo_js ''f'' (\<lambda>_. Inr JNull) 0 (demo_js_vm\<lparr>m_ffuncs := [''f'' \<mapsto> 7]\<rparr>) = (Inr BResult_default, s') \<and>
    find_prop demo_js (DObj (global_obj (heap s'))) ''f'' (heap s') = Inr (Some (DObj f)) \<and>
    fst (FunctionHolder_binding demo_js demo_net f [] s') = Inl UB"
proof -
  let ?s = "demo_js_vm\<lparr>m_ffuncs := [''f'' \<mapsto> 7]\<rparr>"
  have h: "\<not> locked ?s" "length (dstack ?s) + 1 < stack_room demo_js" "next_obj (heap ?s) \<noteq> global_obj (heap ?s)"
    "jobjs (heap ?s) (global_obj (heap ?s)) = Some (False, [])" "m_ffuncs ?s ''f'' \<noteq> None"
    by (simp_all add: demo_js_def)
  have c: "cstr ''f'' = ''f''" by (simp add: cstr_def)
  from js_install_again_dangles [where api = demo_js and func = "\<lambda>_. Inr JNull" and nargs = 0 and net = demo_net and args = "[]",
    OF demo_js_find h]
  show ?thesis unfolding c .
qed

text \<open>
  C19. Pushing a JSON value and reading the value on top back gives it again, except that
  integers come back as doubles and binaries as null: one value is pushed, and no object there
  was is changed. It holds for values without memory views, whose strings have no zero byte and
  whose keys are neither symbols of the engine nor \<open>__proto__\<close>.
\<close>

theorem js_arguments_roundtrip:
  assumes "js_api_ok api" and "js_plain j" and "depth j \<le> n" and "length (dstack s) + depth j \<le> stack_room api"
  shows "\<exists>h v. JSONtoDukValue api net j s = (Inr (), s\<lparr>heap := h, dstack := v # dstack s\<rparr>) \<and>
    (\<forall>a < next_obj (heap s). jobjs h a = jobjs (heap s) a) \<and>
    dukValueToJSON api (jobjs h) n v = Inr (js_norm j)"
proof -
  obtain h v where hv: "JSONtoDukValue api net j s = (Inr (), s\<lparr>heap := h, dstack := v # dstack s\<rparr>)"
    and r: "pushes_readable api n j s h v" using JSONtoDuk_reads [OF assms] by blast
  have "jobjs h |` {next_obj (heap s)..<next_obj h} \<subseteq>\<^sub>m jobjs h" by (auto simp: map_le_def)
  moreover have "dukValueToJSON api (jobjs h |` {next_obj (heap s)..<next_obj h}) n v = Inr (js_norm j)"
    using r unfolding pushes_readable_def by blast
  ultimately have "dukValueToJSON api (jobjs h) n v = Inr (js_norm j)" by (metis dukValueToJSON_mono)
  moreover have "\<forall>a < next_obj (heap s). jobjs h a = jobjs (heap s) a" using r unfolding pushes_readable_def by blast
  ultimately show ?thesis using hv by blast
qed

theorem js_arguments_roundtrip_witness:
  "\<exists>h v. JSONtoDukValue demo_js demo_net (JArray [JInt 5, JObject [(''a'', JString ''b'')]]) demo_js_vm
       = (Inr (), demo_js_vm\<lparr>heap := h, dstack := [v]\<rparr>) \<and>
     dukValueToJSON demo_js (jobjs h) 5 v = Inr (JArray [JFloat (double_of_int 5), JObject [(''a'', JString ''b'')]])"
proof -
  let ?j = "JArray [JInt 5, JObject [(''a'', JString ''b'')]]"
  have h: "js_api_ok demo_js" "js_plain ?j" "depth ?j \<le> 5" "length (dstack demo_js_vm) + depth ?j \<le> stack_room demo_js"
    by (simp_all add: js_api_ok_def demo_js_def js_key_def js_symbol_def)
  have n: "js_norm ?j = JArray [JFloat (double_of_int 5), JObject [(''a'', JString ''b'')]]" by simp
  from js_arguments_roundtrip [OF h, of demo_net] show ?thesis unfolding n demo_js_vm_fields(2) by blast
qed

end
