(* ===== verification/LuaMem.thy ===== *)
theory LuaMem
  imports Prelude
begin

text \<open>
  \<open>src/lua/memory/luamem.c\<close>: the memory objects of the Lua module \<open>memory\<close>. A memory object
  is a userdatum that either owns a fixed block (\<open>char[]\<close>) or refers to a block through
  a \<open>luamem_Ref\<close>. The heap is explicit: blocks of bytes by number, pointers into them, and
  the userdata by number; an access outside a live block is the error \<open>UBerr\<close>.

  The Lua virtual machine is a parameter: a record of the coercions the C API documents
  (\<open>lua_tointegerx\<close>, \<open>lua_tolstring\<close>, \<open>lua_tonumberx\<close>, \<open>luaL_tolstring\<close>) and the
  allocator's answers. The arguments of a C function are the values on its stack, indexed
  from 1; an index above the top is the absent value. \<open>Diverges\<close> marks a loop that
  never ends. Block lengths stay below
  \<open>2\<^sup>6\<^sup>3\<close>, as Lua guarantees of every string and userdatum.
\<close>

section \<open>Values, heap and errors\<close>

type_synonym ptr = "nat \<times> nat"

datatype lval =
    LNil
  | LBool bool
  | LInt u64
  | LFlt dbl
  | LStr "byte list"
  | LUser nat
  | LOther nat

datatype unref = luamem_free | OtherUnref nat

text \<open>\<open>luamem_Ref\<close>; \<open>None\<close> is the null pointer.\<close>

record luamem_Ref =
  mem :: "ptr option"
  len :: nat
  unref :: "unref option"

datatype userdata = UAlloc ptr nat | URef luamem_Ref

record heap =
  blocks :: "nat \<rightharpoonup> byte list"
  users :: "nat \<rightharpoonup> userdata"
  next_block :: nat
  next_user :: nat
  unref_log :: "(nat \<times> ptr option \<times> nat) list"

datatype lerr =
    TypeError nat string
  | ArgError nat string
  | LuaError string
  | UBerr
  | Diverges

record lua_api =
  tointeger :: "lval \<Rightarrow> u64 option"
  tolstring :: "lval \<Rightarrow> byte list option"
  tonumber :: "lval \<Rightarrow> dbl option"
  asstring :: "lval \<Rightarrow> byte list"
  alloc_fails :: "nat \<Rightarrow> bool"
  typename :: "lval option \<Rightarrow> string"
  concat_meta :: "lval option \<Rightarrow> (lval option \<Rightarrow> lval option \<Rightarrow> lval) option"
  to_float :: "dbl \<Rightarrow> u32"
  of_float :: "u32 \<Rightarrow> dbl"

text \<open>Memory accesses. Zero bytes may be read through any pointer, null included.\<close>

definition read_mem :: "heap \<Rightarrow> ptr option \<Rightarrow> nat \<Rightarrow> byte list option" where
  "read_mem h p n =
     (if n = 0 then Some []
      else case p of
        None \<Rightarrow> None
      | Some (b, off) \<Rightarrow>
          (case blocks h b of
             None \<Rightarrow> None
           | Some m \<Rightarrow> if off + n \<le> length m then Some (take n (drop off m)) else None))"

definition write_mem :: "heap \<Rightarrow> ptr option \<Rightarrow> byte list \<Rightarrow> heap option" where
  "write_mem h p bs =
     (if bs = [] then Some h
      else case p of
        None \<Rightarrow> None
      | Some (b, off) \<Rightarrow>
          (case blocks h b of
             None \<Rightarrow> None
           | Some m \<Rightarrow>
               if off + length bs \<le> length m
               then Some (h\<lparr>blocks := (blocks h)(b \<mapsto> blit m off bs)\<rparr>) else None))"

definition ptr_add :: "ptr option \<Rightarrow> nat \<Rightarrow> ptr option" where
  "ptr_add p n = map_option (\<lambda>(b, off). (b, off + n)) p"

lemma ptr_add_0 [simp]: "ptr_add p 0 = p"
  and ptr_add_add [simp]: "ptr_add (ptr_add p m) n = ptr_add p (m + n)"
  by (cases p; auto simp: ptr_add_def)+

definition alloc_block :: "byte list \<Rightarrow> heap \<Rightarrow> ptr \<times> heap" where
  "alloc_block bs h =
     ((next_block h, 0), h\<lparr>blocks := (blocks h)(next_block h \<mapsto> bs), next_block := Suc (next_block h)\<rparr>)"

definition free_block :: "ptr option \<Rightarrow> heap \<Rightarrow> heap" where
  "free_block p h = (case p of None \<Rightarrow> h | Some (b, _) \<Rightarrow> h\<lparr>blocks := (blocks h)(b := None)\<rparr>)"

section \<open>Arguments\<close>

definition arg :: "lval list \<Rightarrow> nat \<Rightarrow> lval option" where
  "arg L i = (if 1 \<le> i \<and> i \<le> length L then Some (L ! (i - 1)) else None)"

definition checkinteger :: "lua_api \<Rightarrow> lval list \<Rightarrow> nat \<Rightarrow> lerr + u64" where
  "checkinteger api L i =
     (case arg L i of None \<Rightarrow> Inl (TypeError i ''number'')
      | Some v \<Rightarrow> optE (TypeError i ''number'') (tointeger api v))"

definition isnoneornil :: "lval list \<Rightarrow> nat \<Rightarrow> bool" where
  "isnoneornil L i = (arg L i = None \<or> arg L i = Some LNil)"

definition optinteger :: "lua_api \<Rightarrow> lval list \<Rightarrow> nat \<Rightarrow> u64 \<Rightarrow> lerr + u64" where
  "optinteger api L i d = (if isnoneornil L i then Inr d else checkinteger api L i)"

definition checknumber :: "lua_api \<Rightarrow> lval list \<Rightarrow> nat \<Rightarrow> lerr + dbl" where
  "checknumber api L i =
     (case arg L i of None \<Rightarrow> Inl (TypeError i ''number'')
      | Some v \<Rightarrow> optE (TypeError i ''number'') (tonumber api v))"

definition argcheck :: "bool \<Rightarrow> nat \<Rightarrow> string \<Rightarrow> lerr + unit" where
  "argcheck c i msg = (if c then Inr () else Inl (ArgError i msg))"

section \<open>Creating and releasing memory\<close>

text \<open>\<open>lua_newuserdatauv\<close> leaves the new bytes unspecified; the callers overwrite them.\<close>

definition luamem_newalloc :: "nat \<Rightarrow> byte list \<Rightarrow> heap \<Rightarrow> lval \<times> ptr \<times> heap" where
  "luamem_newalloc l uninit h =
     (let (p, h) = alloc_block (take l (uninit @ replicate l 0)) h
      in (LUser (next_user h), p,
          h\<lparr>users := (users h)(next_user h \<mapsto> UAlloc p l), next_user := Suc (next_user h)\<rparr>))"

definition luamem_newref :: "heap \<Rightarrow> lval \<times> heap" where
  "luamem_newref h =
     (LUser (next_user h),
      h\<lparr>users := (users h)(next_user h \<mapsto> URef \<lparr>mem = None, len = 0, unref = None\<rparr>),
        next_user := Suc (next_user h)\<rparr>)"

text \<open>
  \<open>luamem_realloc\<close> hands the request to Lua's allocator: size zero frees, growing and
  shrinking return a block with the common prefix of the old contents, and the old block
  is gone whenever the call succeeds. New bytes are unspecified (\<open>uninit\<close>).
\<close>

definition luamem_realloc ::
  "lua_api \<Rightarrow> byte list \<Rightarrow> ptr option \<Rightarrow> nat \<Rightarrow> nat \<Rightarrow> heap \<Rightarrow> ptr option \<times> heap"
where
  "luamem_realloc api uninit p osize nsize h =
     (if nsize = 0 then (None, free_block p h)
      else if alloc_fails api nsize then (None, h)
      else
        let old = (case read_mem h p osize of Some bs \<Rightarrow> bs | None \<Rightarrow> []);
            (q, h') = alloc_block (take nsize (old @ uninit @ replicate nsize 0)) (free_block p h)
        in (Some q, h'))"

text \<open>\<open>unrefmem\<close>: \<open>luamem_free\<close> releases the block, another function is an external call.\<close>

definition unrefmem :: "luamem_Ref \<Rightarrow> heap \<Rightarrow> heap" where
  "unrefmem r h =
     (case unref r of
        None \<Rightarrow> h
      | Some luamem_free \<Rightarrow> free_block (mem r) h
      | Some (OtherUnref f) \<Rightarrow> h\<lparr>unref_log := (f, mem r, len r) # unref_log h\<rparr>)"

definition refgc :: "nat \<Rightarrow> heap \<Rightarrow> heap" where
  "refgc u h =
     (case users h u of
        Some (URef ref) \<Rightarrow>
          if len ref \<noteq> 0
          then (let h = unrefmem ref h
                in h\<lparr>users := (users h)(u \<mapsto> URef \<lparr>mem = None, len = 0, unref = None\<rparr>)\<rparr>)
          else h
      | _ \<Rightarrow> h)"

definition luamem_resetref ::
  "lval option \<Rightarrow> ptr option \<Rightarrow> nat \<Rightarrow> unref option \<Rightarrow> bool \<Rightarrow> heap \<Rightarrow> bool \<times> heap"
where
  "luamem_resetref v p l f cleanup h =
     (case v of
        Some (LUser u) \<Rightarrow>
          (case users h u of
             Some (URef ref) \<Rightarrow>
               (let h = (if p \<noteq> mem ref \<and> cleanup then unrefmem ref h else h)
                in (True, h\<lparr>users := (users h)(u \<mapsto> URef \<lparr>mem = p, len = l, unref = f\<rparr>)\<rparr>))
           | _ \<Rightarrow> (False, h))
      | _ \<Rightarrow> (False, h))"

section \<open>Classifying and reading\<close>

datatype memtype = TNONE | TALLOC | TREF

definition luamem_type :: "heap \<Rightarrow> lval option \<Rightarrow> memtype" where
  "luamem_type h v =
     (case v of
        Some (LUser u) \<Rightarrow>
          (case users h u of
             Some (UAlloc _ _) \<Rightarrow> TALLOC
           | Some (URef _) \<Rightarrow> TREF
           | None \<Rightarrow> TNONE)
      | _ \<Rightarrow> TNONE)"

definition ismemory :: "heap \<Rightarrow> lval option \<Rightarrow> bool" where
  "ismemory h v = (luamem_type h v \<noteq> TNONE)"

text \<open>The result of \<open>luamem_tomemoryx\<close>: type, pointer, length and unref function.\<close>

definition luamem_tomemoryx :: "heap \<Rightarrow> lval option \<Rightarrow> memtype \<times> ptr option \<times> nat \<times> unref option" where
  "luamem_tomemoryx h v =
     (case v of
        Some (LUser u) \<Rightarrow>
          (case users h u of
             Some (UAlloc p l) \<Rightarrow> (TALLOC, Some p, l, None)
           | Some (URef ref) \<Rightarrow> (TREF, mem ref, len ref, unref ref)
           | None \<Rightarrow> (TNONE, None, 0, None))
      | _ \<Rightarrow> (TNONE, None, 0, None))"

definition luamem_checkmemory :: "heap \<Rightarrow> lval list \<Rightarrow> nat \<Rightarrow> lerr + (ptr option \<times> nat)" where
  "luamem_checkmemory h L i =
     (case luamem_tomemoryx h (arg L i) of (t, p, l, _) \<Rightarrow>
        if t = TNONE then Inl (TypeError i ''memory'') else Inr (p, l))"

text \<open>
  An array is the contents of a memory object or of a string; the string is immutable and
  keeps its own copy.
\<close>

datatype arr = AMem "ptr option" nat | AStr "byte list"

fun arr_len :: "arr \<Rightarrow> nat" where
  "arr_len (AMem _ l) = l"
| "arr_len (AStr bs) = length bs"

fun arr_null :: "arr \<Rightarrow> bool" where
  "arr_null (AMem p _) = (p = None)"
| "arr_null (AStr _) = False"

text \<open>Reading \<open>n\<close> bytes from position \<open>off\<close> of an array.\<close>

definition arr_read :: "heap \<Rightarrow> arr \<Rightarrow> nat \<Rightarrow> nat \<Rightarrow> byte list option" where
  "arr_read h a off n =
     (case a of
        AMem p _ \<Rightarrow> read_mem h (ptr_add p off) n
      | AStr bs \<Rightarrow> if off + n \<le> length bs then Some (take n (drop off bs)) else None)"

definition luamem_isarray :: "heap \<Rightarrow> lval option \<Rightarrow> bool" where
  "luamem_isarray h v =
     ((case v of Some (LStr _) \<Rightarrow> True | Some (LInt _) \<Rightarrow> True | Some (LFlt _) \<Rightarrow> True | _ \<Rightarrow> False)
      \<or> ismemory h v)"

definition luamem_toarray :: "lua_api \<Rightarrow> heap \<Rightarrow> lval option \<Rightarrow> arr option" where
  "luamem_toarray api h v =
     (case luamem_tomemoryx h v of (t, p, l, _) \<Rightarrow>
        if t = TNONE
        then (case v of None \<Rightarrow> None | Some w \<Rightarrow> map_option AStr (tolstring api w))
        else Some (AMem p l))"

definition luamem_asarray :: "lua_api \<Rightarrow> heap \<Rightarrow> lval \<Rightarrow> arr" where
  "luamem_asarray api h v =
     (case luamem_tomemoryx h (Some v) of (t, p, l, _) \<Rightarrow>
        if t = TNONE then AStr (asstring api v) else AMem p l)"

definition luamem_checkarray :: "lua_api \<Rightarrow> heap \<Rightarrow> lval list \<Rightarrow> nat \<Rightarrow> lerr + arr" where
  "luamem_checkarray api h L i =
     (case luamem_tomemoryx h (arg L i) of (t, p, l, _) \<Rightarrow>
        if t = TNONE
        then (case arg L i of
                None \<Rightarrow> Inl (TypeError i ''string or memory'')
              | Some w \<Rightarrow> (case tolstring api w of
                            None \<Rightarrow> Inl (TypeError i ''string or memory'')
                          | Some bs \<Rightarrow> Inr (AStr bs)))
        else Inr (AMem p l))"

definition luamem_optarray :: "lua_api \<Rightarrow> heap \<Rightarrow> lval list \<Rightarrow> nat \<Rightarrow> byte list option \<Rightarrow> lerr + arr" where
  "luamem_optarray api h L i d =
     (if isnoneornil L i
      then Inr (case d of None \<Rightarrow> AMem None 0 | Some s \<Rightarrow> AStr s)
      else luamem_checkarray api h L i)"

text \<open>\<open>LUAMEM_MAXSIZE\<close> is \<open>INT_MAX\<close> on the platform.\<close>

definition LUAMEM_MAXSIZE :: int where
  "LUAMEM_MAXSIZE = 2147483647"

definition luamem_checklenarg :: "lua_api \<Rightarrow> lval list \<Rightarrow> nat \<Rightarrow> lerr + nat" where
  "luamem_checklenarg api L i =
     bindE (checkinteger api L i) (\<lambda>sz.
     bindE (argcheck (0 \<le> sint sz \<and> sint sz < LUAMEM_MAXSIZE) i ''invalid size'') (\<lambda>_.
     Inr (nat (sint sz))))"

section \<open>Growing buffers\<close>

text \<open>
  The capacity, the number of bytes in use and the contents of a \<open>luaL_Buffer\<close>; sizes
  wrap as \<open>size_t\<close> values do.
\<close>

record luaL_Buffer =
  b_size :: u64
  b_n :: u64
  b_bytes :: "byte list"

definition newbuffsize :: "luaL_Buffer \<Rightarrow> u64 \<Rightarrow> lerr + u64" where
  "newbuffsize B sz =
     (let newsize = b_size B * 2 in
      if (-1) - sz < b_n B then Inl (LuaError ''buffer too large'')
      else Inr (if newsize < b_n B + sz then b_n B + sz else newsize))"

definition prepbuffsize :: "lua_api \<Rightarrow> luaL_Buffer \<Rightarrow> u64 \<Rightarrow> lerr + luaL_Buffer" where
  "prepbuffsize api B sz =
     (if b_size B - b_n B \<ge> sz then Inr B
      else bindE (newbuffsize B sz) (\<lambda>newsize.
           if alloc_fails api (unat newsize) \<and> newsize > 0 then Inl (LuaError ''not enough memory'')
           else Inr (B\<lparr>b_size := newsize\<rparr>)))"

definition luamem_addvalue :: "lua_api \<Rightarrow> heap \<Rightarrow> lval option \<Rightarrow> luaL_Buffer \<Rightarrow> lerr + luaL_Buffer" where
  "luamem_addvalue api h v B =
     (case luamem_toarray api h v of
        None \<Rightarrow> Inl UBerr
      | Some a \<Rightarrow>
          bindE (prepbuffsize api B (word_of_nat (arr_len a))) (\<lambda>B.
          bindE (optE UBerr (arr_read h a 0 (arr_len a))) (\<lambda>bs.
          Inr (B\<lparr>b_bytes := b_bytes B @ bs, b_n := b_n B + word_of_nat (arr_len a)\<rparr>))))"

section \<open>Heap facts\<close>

lemma read_mem_length: "read_mem h p n = Some bs \<Longrightarrow> length bs = n"
  by (auto simp: read_mem_def split: if_splits option.splits)

lemma write_mem_users: "write_mem h p bs = Some h' \<Longrightarrow> users h' = users h"
  by (auto simp: write_mem_def split: if_splits option.splits)

lemma write_read_same:
  assumes "write_mem h p bs = Some h'"
  shows "read_mem h' p (length bs) = Some bs"
  using assms by (auto simp: write_mem_def read_mem_def blit_def split: if_splits option.splits)

text \<open>Every memory object denotes bytes that lie in a live block.\<close>

definition ref_ok :: "heap \<Rightarrow> userdata \<Rightarrow> bool" where
  "ref_ok h u =
     (case u of
        UAlloc p l \<Rightarrow> (\<exists>m. blocks h (fst p) = Some m \<and> snd p + l \<le> length m)
      | URef r \<Rightarrow> (len r = 0 \<or>
          (\<exists>b off m. mem r = Some (b, off) \<and> blocks h b = Some m \<and> off + len r \<le> length m)))"

definition heap_ok :: "heap \<Rightarrow> bool" where
  "heap_ok h \<longleftrightarrow>
     (\<forall>u d. users h u = Some d \<longrightarrow> ref_ok h d) \<and>
     (\<forall>b. next_block h \<le> b \<longrightarrow> blocks h b = None) \<and>
     (\<forall>u. next_user h \<le> u \<longrightarrow> users h u = None)"

text \<open>A pointer and a length that a checked argument yields can be read and written.\<close>

definition valid_range :: "heap \<Rightarrow> ptr option \<Rightarrow> nat \<Rightarrow> bool" where
  "valid_range h p n \<longleftrightarrow>
     n = 0 \<or> (\<exists>b off m. p = Some (b, off) \<and> blocks h b = Some m \<and> off + n \<le> length m)"

lemma checkmemory_valid:
  assumes "heap_ok h" and "luamem_checkmemory h L i = Inr (p, l)"
  shows "valid_range h p l"
  using assms
  by (auto simp: luamem_checkmemory_def luamem_tomemoryx_def heap_ok_def valid_range_def ref_ok_def
      split: if_splits option.splits lval.splits userdata.splits)

lemma checkarray_valid:
  assumes "heap_ok h" and "luamem_checkarray api h L i = Inr (AMem p l)"
  shows "valid_range h p l"
  using assms
  by (auto simp: luamem_checkarray_def luamem_tomemoryx_def heap_ok_def valid_range_def ref_ok_def
      split: if_splits option.splits lval.splits userdata.splits)

lemma valid_range_read:
  "valid_range h p l \<Longrightarrow> off + n \<le> l \<Longrightarrow> \<exists>bs. read_mem h (ptr_add p off) n = Some bs \<and> length bs = n"
  by (auto simp: valid_range_def read_mem_def ptr_add_def)

lemma valid_range_write:
  "valid_range h p l \<Longrightarrow> off + length bs \<le> l \<Longrightarrow> \<exists>h'. write_mem h (ptr_add p off) bs = Some h'"
  by (auto simp: valid_range_def write_mem_def ptr_add_def)

lemma write_mem_block_length:
  assumes "write_mem h p bs = Some h'" and "blocks h b = Some m"
  shows "\<exists>m'. blocks h' b = Some m' \<and> length m' = length m"
  using assms by (auto simp: write_mem_def split: if_splits option.splits)

lemma write_mem_heap_ok:
  assumes "write_mem h p bs = Some h'" and "heap_ok h"
  shows "heap_ok h'"
proof -
  have u: "users h' = users h" "next_block h' = next_block h" "next_user h' = next_user h"
    using assms(1) by (auto simp: write_mem_def split: if_splits option.splits)
  have "blocks h b = None \<Longrightarrow> blocks h' b = None" for b
    using assms(1) by (auto simp: write_mem_def split: if_splits option.splits)
  moreover have "ref_ok h' d" if "ref_ok h d" for d
    using that write_mem_block_length [OF assms(1)]
    by (fastforce simp: ref_ok_def split: userdata.splits)
  ultimately show ?thesis using assms(2) u by (auto simp: heap_ok_def)
qed

lemma write_mem_valid_range:
  "write_mem h p bs = Some h' \<Longrightarrow> valid_range h q n \<Longrightarrow> valid_range h' q n"
  using write_mem_block_length by (fastforce simp: valid_range_def)

text \<open>The new capacity holds what is in use and what was asked for.\<close>

lemma newbuffsize_enough:
  assumes "newbuffsize B sz = Inr n"
  shows "unat (b_n B) + unat sz \<le> unat n"
proof -
  have "\<not> (-1) - sz < b_n B" using assms by (auto simp: newbuffsize_def Let_def split: if_splits)
  then have "unat (b_n B) \<le> unat ((-1) - sz)" by (simp add: not_less word_le_nat_alt)
  also have "\<dots> = unat (-1 :: u64) - unat sz" by (rule unat_sub) simp
  finally have "unat (b_n B) \<le> 2 ^ 64 - 1 - unat sz"
    by (simp add: unsigned_minus_1_eq_mask mask_eq_exp_minus_1)
  moreover have "unat sz < 2 ^ 64" using unat_u64 [of sz] by simp
  ultimately have "unat (b_n B) + unat sz < 2 ^ 64" by simp
  then have "unat (b_n B + sz) = unat (b_n B) + unat sz" by (simp add: unat_word_ariths)
  moreover have "b_n B + sz \<le> n" using assms by (auto simp: newbuffsize_def Let_def split: if_splits)
  ultimately show ?thesis by (simp add: word_le_nat_alt)
qed

end
