(* ===== verification/LuaMemLib.thy ===== *)
theory LuaMemLib
  imports LuaMem
begin

text \<open>
  \<open>src/lua/memory/lmemlib.c\<close>, the functions of the module \<open>memory\<close> except packing
  (\<open>LuaPack\<close>): creation, resizing, reading, writing, comparing, searching and filling.
  Each function takes the values on its stack and the heap, and returns the values it
  pushes or the error it raises, with the heap it leaves behind: an error raised after some
  bytes were written leaves them written.
\<close>

type_synonym lres = "(lerr + lval list) \<times> heap"

text \<open>Raising with the heap as it is.\<close>

definition onE :: "heap \<Rightarrow> lerr + 'a \<Rightarrow> ('a \<Rightarrow> lres) \<Rightarrow> lres" where
  "onE h m f = (case m of Inl e \<Rightarrow> (Inl e, h) | Inr x \<Rightarrow> f x)"

lemma onE_simps [simp]: "onE h (Inl e) f = (Inl e, h)" "onE h (Inr x) f = f x"
  by (simp_all add: onE_def)

section \<open>Positions\<close>

definition posrelatI :: "u64 \<Rightarrow> u64 \<Rightarrow> u64" where
  "posrelatI pos l =
     (if sint pos > 0 then pos
      else if pos = 0 then 1
      else if sint pos < - sint l then 1
      else l + pos + 1)"

definition getendpos :: "lua_api \<Rightarrow> lval list \<Rightarrow> nat \<Rightarrow> u64 \<Rightarrow> u64 \<Rightarrow> lerr + u64" where
  "getendpos api L i d l =
     bindE (optinteger api L i d) (\<lambda>pos.
     Inr (if sint pos > sint l then l
          else if sint pos \<ge> 0 then pos
          else if sint pos < - sint l then 0
          else l + pos + 1))"

text \<open>The positions as natural numbers, over lengths a Lua value can have.\<close>

definition start_pos :: "int \<Rightarrow> nat \<Rightarrow> nat" where
  "start_pos p n = (if p > 0 then nat p else if p = 0 \<or> p < - int n then 1 else nat (int n + p + 1))"

definition end_pos :: "int \<Rightarrow> nat \<Rightarrow> nat" where
  "end_pos p n = (if p > int n then n else if p \<ge> 0 then nat p
     else if p < - int n then 0 else nat (int n + p + 1))"

abbreviation lua_len :: "nat \<Rightarrow> bool" where
  "lua_len n \<equiv> n < 2 ^ 63"

lemma unat_rel:
  assumes "lua_len n" and "sint pos < 0" and "- int n \<le> sint pos"
  shows "unat (word_of_nat n + pos + 1 :: u64) = nat (int n + sint pos + 1)"
proof -
  have "word_of_nat n + pos + 1 = (word_of_int (int n + sint pos + 1) :: u64)" by simp
  moreover have "0 \<le> int n + sint pos + 1" "int n + sint pos + 1 < 2 ^ 64"
    using assms by simp_all
  ultimately show ?thesis by (simp only: unat_word_of_int)
qed

lemma posrelatI_nat:
  assumes n: "lua_len n"
  shows "unat (posrelatI pos (word_of_nat n)) = start_pos (sint pos) n"
proof (rule linorder_cases [of "sint pos" 0])
  assume "sint pos < 0"
  then show ?thesis using n unat_rel [OF n, of pos]
    by (auto simp: posrelatI_def start_pos_def sint_word_of_nat)
next
  assume "sint pos = 0"
  then show ?thesis by (simp add: posrelatI_def start_pos_def sint_eq_0_iff)
next
  assume "0 < sint pos"
  then show ?thesis by (simp add: posrelatI_def start_pos_def unat_sint)
qed

lemma getendpos_nat:
  assumes "lua_len n" and "getendpos api L i d (word_of_nat n) = Inr e"
  shows "\<exists>pos. optinteger api L i d = Inr pos \<and> unat e = end_pos (sint pos) n"
  using assms by (auto simp: getendpos_def end_pos_def bindE_eq_Inr sint_word_of_nat unat_sint unat_rel)

lemma start_pos_ge1 [simp]: "Suc 0 \<le> start_pos p n"
  by (auto simp: start_pos_def)

lemma end_pos_le: "end_pos p n \<le> n"
  by (auto simp: end_pos_def)

text \<open>\<open>getendpos\<close> never leaves the array, \<open>posrelatI\<close> never starts before it.\<close>

lemma posrelatI_ge1: "lua_len n \<Longrightarrow> 1 \<le> unat (posrelatI pos (word_of_nat n))"
  by (simp add: posrelatI_nat)

lemma getendpos_le: "lua_len n \<Longrightarrow> getendpos api L i d (word_of_nat n) = Inr e \<Longrightarrow> unat e \<le> n"
  using getendpos_nat end_pos_le by metis

section \<open>Searching and comparing bytes\<close>

text \<open>C's \<open>memchr\<close>: the first position below \<open>n\<close> that holds \<open>c\<close>.\<close>

fun memchr :: "byte list \<Rightarrow> byte \<Rightarrow> nat \<Rightarrow> nat option" where
  "memchr s c 0 = None"
| "memchr [] c (Suc n) = None"
| "memchr (b # s) c (Suc n) = (if b = c then Some 0 else map_option Suc (memchr s c n))"

lemma memchr_Some: "memchr s c n = Some i \<Longrightarrow>
    i < n \<and> i < length s \<and> s ! i = c \<and> (\<forall>j < i. s ! j \<noteq> c)"
proof (induction s c n arbitrary: i rule: memchr.induct)
  case (3 b s c n)
  then show ?case by (cases i) (auto split: if_splits simp: less_Suc_eq_0_disj)
qed simp_all

lemma memchr_None: "memchr s c n = None \<Longrightarrow> j < n \<Longrightarrow> j < length s \<Longrightarrow> s ! j \<noteq> c"
proof (induction s c n arbitrary: j rule: memchr.induct)
  case (3 b s c n)
  then show ?case by (cases j) (auto split: if_splits)
qed simp_all

text \<open>
  The search loop of \<open>lmemfind\<close>: \<open>s1\<close> is the rest of the text, \<open>base\<close> its distance
  from the start, \<open>l1\<close> the number of candidate positions left; \<open>c # tl2\<close> is the pattern.
\<close>

function lmemfind_loop :: "byte list \<Rightarrow> nat \<Rightarrow> nat \<Rightarrow> byte \<Rightarrow> byte list \<Rightarrow> nat option" where
  "lmemfind_loop s1 base l1 c tl2 =
     (if l1 = 0 then None
      else case memchr s1 c l1 of
        None \<Rightarrow> None
      | Some k \<Rightarrow>
          if take (length tl2) (drop (Suc k) s1) = tl2 then Some (base + k)
          else lmemfind_loop (drop (Suc k) s1) (base + Suc k) (l1 - Suc k) c tl2)"
  by pat_completeness auto
termination
  by (relation "measure (\<lambda>(s1, base, l1, c, tl2). l1)") (auto dest: memchr_Some)

declare lmemfind_loop.simps [simp del]

definition lmemfind :: "byte list \<Rightarrow> byte list \<Rightarrow> nat option" where
  "lmemfind s1 s2 =
     (case s2 of
        [] \<Rightarrow> Some 0
      | c # tl2 \<Rightarrow>
          if length s2 > length s1 then None
          else lmemfind_loop s1 0 (length s1 - length tl2) c tl2)"

text \<open>The specification: the least offset at which the pattern occurs.\<close>

definition occurs_at :: "byte list \<Rightarrow> byte list \<Rightarrow> nat \<Rightarrow> bool" where
  "occurs_at s1 s2 k \<longleftrightarrow> k + length s2 \<le> length s1 \<and> take (length s2) (drop k s1) = s2"

lemma occurs_at_Cons:
  "occurs_at s1 (c # tl2) k \<longleftrightarrow>
     k + length tl2 < length s1 \<and> s1 ! k = c \<and> take (length tl2) (drop (Suc k) s1) = tl2"
  by (auto simp: occurs_at_def take_Suc_conv_app_nth Cons_nth_drop_Suc [symmetric])

lemma occurs_at_drop: "occurs_at (drop m s1) s2 k \<longleftrightarrow> (m + k) + length s2 \<le> length s1 \<and>
    take (length s2) (drop (m + k) s1) = s2" if "m \<le> length s1"
  using that by (auto simp: occurs_at_def add.commute)

lemma lmemfind_loop_spec:
  assumes "l1 + length tl2 = length s1"
  shows "case lmemfind_loop s1 base l1 c tl2 of
      None \<Rightarrow> \<forall>k. \<not> occurs_at s1 (c # tl2) k
    | Some r \<Rightarrow> base \<le> r \<and> occurs_at s1 (c # tl2) (r - base)
               \<and> (\<forall>j < r - base. \<not> occurs_at s1 (c # tl2) j)"
  using assms
proof (induction s1 base l1 c tl2 rule: lmemfind_loop.induct)
  case (1 s1 base l1 c tl2)
  note unfold = lmemfind_loop.simps [of s1 base l1 c tl2]
  show ?case
  proof (cases "l1 = 0 \<or> memchr s1 c l1 = None")
    case True
    then have "\<not> occurs_at s1 (c # tl2) k" for k
      using 1(2) memchr_None [of s1 c l1 k] by (auto simp: occurs_at_Cons)
    with True show ?thesis by (auto simp: unfold)
  next
    case False
    then obtain k where l1: "l1 \<noteq> 0" and k: "memchr s1 c l1 = Some k" by auto
    note mk = memchr_Some [OF k]
    have before: "\<not> occurs_at s1 (c # tl2) j" if "j < k" for j
      using mk that by (simp add: occurs_at_Cons)
    show ?thesis
    proof (cases "take (length tl2) (drop (Suc k) s1) = tl2")
      case True
      then have "occurs_at s1 (c # tl2) k" using mk 1(2) by (simp add: occurs_at_Cons)
      with True l1 k before show ?thesis by (simp add: unfold)
    next
      case no: False
      then have here: "\<not> occurs_at s1 (c # tl2) k" by (simp add: occurs_at_Cons)
      have shift: "occurs_at (drop (Suc k) s1) (c # tl2) j \<longleftrightarrow> occurs_at s1 (c # tl2) (Suc k + j)" for j
        using mk by (subst occurs_at_drop) (auto simp: occurs_at_def)
      have len: "l1 - Suc k + length tl2 = length (drop (Suc k) s1)" using mk 1(2) by simp
      have cover: "\<not> occurs_at s1 (c # tl2) j"
        if "\<And>i. j = Suc k + i \<Longrightarrow> \<not> occurs_at (drop (Suc k) s1) (c # tl2) i" for j
      proof (cases "j \<le> k")
        case True
        then show ?thesis using before here by (cases "j = k") auto
      next
        case False
        then obtain i where "j = Suc k + i" using less_iff_Suc_add [of k j] by auto
        with that shift show ?thesis by simp
      qed
      let ?rec = "lmemfind_loop (drop (Suc k) s1) (base + Suc k) (l1 - Suc k) c tl2"
      have eq: "lmemfind_loop s1 base l1 c tl2 = ?rec" using no l1 k by (simp add: unfold)
      show ?thesis
      proof (cases ?rec)
        case None
        with 1(1) [OF l1 k no len] cover eq show ?thesis by simp
      next
        case (Some r)
        with 1(1) [OF l1 k no len] have r: "base + Suc k \<le> r"
            "occurs_at (drop (Suc k) s1) (c # tl2) (r - (base + Suc k))"
            "\<forall>j < r - (base + Suc k). \<not> occurs_at (drop (Suc k) s1) (c # tl2) j" by simp_all
        have rb: "r - base = Suc k + (r - (base + Suc k))" using r(1) by simp
        have "\<not> occurs_at s1 (c # tl2) j" if "j < r - base" for j
          using cover [of j] r(3) that rb by simp
        with r rb shift eq Some show ?thesis by simp
      qed
    qed
  qed
qed

text \<open>\<open>lmemfind\<close> finds the first occurrence, and only misses a pattern that does not occur.\<close>

lemma lmemfind_Some:
  assumes "lmemfind s1 s2 = Some k"
  shows "occurs_at s1 s2 k \<and> (\<forall>j < k. \<not> occurs_at s1 s2 j)"
proof (cases s2)
  case Nil
  with assms show ?thesis by (simp add: lmemfind_def occurs_at_def)
next
  case (Cons c tl2)
  with assms lmemfind_loop_spec [where ?l1.0 = "length s1 - length tl2" and base = 0 and c = c and ?tl2.0 = tl2 and ?s1.0 = s1] show ?thesis
    by (auto simp: lmemfind_def split: if_splits)
qed

lemma lmemfind_None: "lmemfind s1 s2 = None \<Longrightarrow> \<not> occurs_at s1 s2 k"
proof (cases s2)
  case (Cons c tl2)
  assume "lmemfind s1 s2 = None"
  with Cons lmemfind_loop_spec [where ?l1.0 = "length s1 - length tl2" and base = 0 and c = c and ?tl2.0 = tl2 and ?s1.0 = s1] show ?thesis
    by (auto simp: lmemfind_def occurs_at_def split: if_splits)
qed (simp add: lmemfind_def)

text \<open>The comparison loop of \<open>mem_diff\<close>: the first position where the arrays differ.\<close>

fun first_diff :: "byte list \<Rightarrow> byte list \<Rightarrow> nat" where
  "first_diff (a # s1) (b # s2) = (if a = b then Suc (first_diff s1 s2) else 0)"
| "first_diff _ _ = 0"

lemma first_diff_le: "first_diff s1 s2 \<le> min (length s1) (length s2)"
  by (induction s1 s2 rule: first_diff.induct) auto

lemma first_diff_common: "take (first_diff s1 s2) s1 = take (first_diff s1 s2) s2"
  by (induction s1 s2 rule: first_diff.induct) auto

lemma first_diff_differs:
  "first_diff s1 s2 < min (length s1) (length s2) \<Longrightarrow> s1 ! first_diff s1 s2 \<noteq> s2 ! first_diff s1 s2"
  by (induction s1 s2 rule: first_diff.induct) auto

section \<open>The library functions\<close>

text \<open>
  \<open>memfill\<close>: the do-while loop copies the source over and over. Source and target may be
  the same block, so every round reads the heap that the rounds before it left.
\<close>

function memfill :: "heap \<Rightarrow> ptr option \<Rightarrow> nat \<Rightarrow> arr \<Rightarrow> nat \<Rightarrow> nat \<Rightarrow> lerr + heap" where
  "memfill h p sz s so l =
     (let n = (if sz < l then sz else l) in
      bindE (optE UBerr (arr_read h s so n)) (\<lambda>bs.
      bindE (optE UBerr (write_mem h p bs)) (\<lambda>h'.
      if sz - n > 0
      then (if n = 0 then Inl Diverges else memfill h' (ptr_add p n) (sz - n) s so l)
      else Inr h')))"
  by pat_completeness auto
termination
  by (relation "measure (\<lambda>(h, p, sz, s, so, l). sz)") auto

declare memfill.simps [simp del]

text \<open>\<open>code2char\<close> writes one checked byte per argument; earlier bytes stay written.\<close>

definition code2byte :: "lua_api \<Rightarrow> lval list \<Rightarrow> nat \<Rightarrow> lerr + byte" where
  "code2byte api L idx =
     bindE (checkinteger api L idx) (\<lambda>c.
     bindE (argcheck (c \<le> 255) idx ''value out of range'') (\<lambda>_. Inr (ucast c)))"

fun code2char :: "lua_api \<Rightarrow> lval list \<Rightarrow> nat \<Rightarrow> ptr option \<Rightarrow> nat \<Rightarrow> heap \<Rightarrow> (lerr + lval list) \<times> heap" where
  "code2char api L idx p 0 h = (Inr [], h)"
| "code2char api L idx p (Suc n) h =
     onE h (code2byte api L idx) (\<lambda>c.
     onE h (optE UBerr (write_mem h p [c])) (\<lambda>h'.
     code2char api L (Suc idx) (ptr_add p 1) n h'))"

definition is_number :: "lval option \<Rightarrow> bool" where
  "is_number v = (case v of Some (LInt _) \<Rightarrow> True | Some (LFlt _) \<Rightarrow> True | _ \<Rightarrow> False)"

definition u64_len :: "nat \<Rightarrow> u64" where
  "u64_len n = word_of_nat n"

text \<open>\<open>uninit\<close> stands for the unspecified contents of a fresh block.\<close>

definition mem_create :: "lua_api \<Rightarrow> byte list \<Rightarrow> lval list \<Rightarrow> heap \<Rightarrow> lres" where
  "mem_create api uninit L h =
     (if L = [] then
        (let (v, h) = luamem_newref h;
             (_, h) = luamem_resetref (Some v) None 0 (Some luamem_free) False h
         in (Inr [v], h))
      else
        onE h
          (if is_number (arg L 1)
           then bindE (luamem_checklenarg api L 1) (\<lambda>n. Inr (None, 0, n))
           else
             bindE (luamem_checkarray api h L 1) (\<lambda>s.
             let l = u64_len (arr_len s) in
             bindE (optinteger api L 2 1) (\<lambda>i.
             let posi = posrelatI i l in
             bindE (getendpos api L 3 (-1) l) (\<lambda>pose.
             if posi > pose then Inr (Some s, 0, 0)
             else if posi + (pose - posi + 1) \<le> pose then Inl (LuaError ''string slice too long'')
             else Inr (Some s, unat posi - 1, unat (pose - posi + 1))))))
          (\<lambda>(s, off, n).
           if alloc_fails api n then (Inl (LuaError ''not enough memory''), h)
           else
             (let (v, p, h1) = luamem_newalloc n uninit h
              in onE h1
                   (case s of
                      Some s' \<Rightarrow>
                        if arr_null s' then Inr (replicate n 0)
                        else optE UBerr (arr_read h1 s' off n)
                    | None \<Rightarrow> Inr (replicate n 0))
                   (\<lambda>bs. onE h1 (optE UBerr (write_mem h1 (Some p) bs)) (\<lambda>h2. (Inr [v], h2))))))"

definition mem_resize :: "lua_api \<Rightarrow> byte list \<Rightarrow> lval list \<Rightarrow> heap \<Rightarrow> lres" where
  "mem_resize api uninit L h =
     (case luamem_tomemoryx h (arg L 1) of (_, m, l, unr) \<Rightarrow>
        onE h (luamem_checklenarg api L 2) (\<lambda>size.
        onE h (argcheck (unr = Some luamem_free) 1 ''resizable memory expected'') (\<lambda>_.
        if l \<noteq> size then
          onE h (luamem_optarray api h L 3 None) (\<lambda>s.
          let n = (if l < size then size - l else 0);
              sl = arr_len s;
              (resized, h1) = luamem_realloc api uninit m l size h
          in if size \<noteq> 0 \<and> resized = None then (Inl (LuaError ''out of memory''), h1)
             else
               let (_, h2) = luamem_resetref (arg L 1) resized size (Some luamem_free) False h1
               in if n = 0 then (Inr [], h2)
                  else onE h2
                    (if sl \<noteq> 0 then memfill h2 (ptr_add resized l) n s 0 sl
                     else optE UBerr (write_mem h2 (ptr_add resized l) (replicate n 0)))
                    (\<lambda>h3. (Inr [], h3)))
        else (Inr [], h))))"

definition mem_type :: "lval list \<Rightarrow> heap \<Rightarrow> lres" where
  "mem_type L h =
     (case luamem_tomemoryx h (arg L 1) of (t, _, _, unr) \<Rightarrow>
        (Inr [if t = TALLOC then LStr (bytes_of ''fixed'')
              else if t = TREF then
                (if unr = Some luamem_free then LStr (bytes_of ''resizable'') else LStr (bytes_of ''other''))
              else LNil], h))"

definition mem_len :: "lval list \<Rightarrow> heap \<Rightarrow> lres" where
  "mem_len L h = onE h (luamem_checkmemory h L 1) (\<lambda>(_, l). (Inr [LInt (u64_len l)], h))"

definition mem_tostring :: "lua_api \<Rightarrow> lval list \<Rightarrow> heap \<Rightarrow> lres" where
  "mem_tostring api L h =
     onE h (luamem_checkarray api h L 1) (\<lambda>s.
     let l = u64_len (arr_len s) in
     onE h (optinteger api L 2 1) (\<lambda>i.
     let start = posrelatI i l in
     onE h (getendpos api L 3 (-1) l) (\<lambda>e.
     if start \<le> e
     then onE h (optE UBerr (arr_read h s (unat start - 1) (unat (e - start + 1)))) (\<lambda>bs. (Inr [LStr bs], h))
     else (Inr [LStr []], h))))"

text \<open>The bytes are compared as \<open>char\<close>, which is signed on the platform.\<close>

definition mem_diff :: "lua_api \<Rightarrow> lval list \<Rightarrow> heap \<Rightarrow> lres" where
  "mem_diff api L h =
     onE h (luamem_checkarray api h L 1) (\<lambda>a1.
     onE h (luamem_checkarray api h L 2) (\<lambda>a2.
     onE h (optE UBerr (arr_read h a1 0 (arr_len a1))) (\<lambda>s1.
     onE h (optE UBerr (arr_read h a2 0 (arr_len a2))) (\<lambda>s2.
     let l1 = arr_len a1; l2 = arr_len a2; n = (if l1 < l2 then l1 else l2); i = first_diff s1 s2 in
     if i < n then (Inr [LInt (u64_len (i + 1)), LBool (sint (s1 ! i) < sint (s2 ! i))], h)
     else if l1 = l2 then (Inr [LNil, LBool False], h)
     else (Inr [LInt (u64_len (i + 1)), LBool (l1 < l2)], h)))))"

definition str2byte :: "lua_api \<Rightarrow> lval list \<Rightarrow> ptr option \<Rightarrow> nat \<Rightarrow> heap \<Rightarrow> lres" where
  "str2byte api L s l h =
     onE h (checkinteger api L 2) (\<lambda>i.
     let posi = posrelatI i (u64_len l) in
     onE h (getendpos api L 3 i (u64_len l)) (\<lambda>pose.
     if posi > pose then (Inr [], h)
     else if pose - posi \<ge> word_of_int LUAMEM_MAXSIZE then (Inl (LuaError ''string slice too long''), h)
     else onE h (optE UBerr (read_mem h (ptr_add s (unat posi - 1)) (unat (pose - posi) + 1)))
            (\<lambda>bs. (Inr (map (\<lambda>b. LInt (ucast b)) bs), h))))"

definition mem_get :: "lua_api \<Rightarrow> lval list \<Rightarrow> heap \<Rightarrow> lres" where
  "mem_get api L h = onE h (luamem_checkmemory h L 1) (\<lambda>(s, l). str2byte api L s l h)"

definition mem_set :: "lua_api \<Rightarrow> lval list \<Rightarrow> heap \<Rightarrow> lres" where
  "mem_set api L h =
     (let n = u64_len (length L) - 2 in
      onE h (luamem_checkmemory h L 1) (\<lambda>(p, l).
      onE h (checkinteger api L 2) (\<lambda>pos.
      let i = posrelatI pos (u64_len l) in
      onE h (argcheck (1 \<le> i \<and> i \<le> u64_len l) 2 ''index out of bounds'') (\<lambda>_.
      let rest = 1 + u64_len l - i in
      code2char api L 3 (ptr_add p (unat i - 1)) (unat (if n < rest then n else rest)) h))))"

definition mem_find :: "lua_api \<Rightarrow> lval list \<Rightarrow> heap \<Rightarrow> lres" where
  "mem_find api L h =
     onE h (luamem_checkarray api h L 1) (\<lambda>p.
     onE h (luamem_checkarray api h L 2) (\<lambda>s.
     let l = u64_len (arr_len p); sl = u64_len (arr_len s) in
     onE h (optinteger api L 3 1) (\<lambda>pi.
     let i = posrelatI pi l in
     onE h (getendpos api L 4 (-1) l) (\<lambda>j.
     onE h (optinteger api L 5 1) (\<lambda>po.
     let os = posrelatI po sl in
     if i \<le> j \<and> os \<le> sl then
       (let n = j - i + 1 in
        if i + n \<le> j then (Inl (LuaError ''string slice too long''), h)
        else
          let os = os - 1; sl = sl - os; l2 = (if sl < n then sl else n) in
          onE h (optE UBerr (arr_read h p (unat i - 1) (unat n))) (\<lambda>s1.
          onE h (optE UBerr (arr_read h s (unat os) (unat l2))) (\<lambda>s2.
          case lmemfind s1 s2 of
            None \<Rightarrow> (Inr [], h)
          | Some k \<Rightarrow> (Inr [LInt (i - 1 + u64_len k + 1), LInt (i - 1 + u64_len k + sl)], h))))
     else (Inr [], h))))))"

definition mem_fill :: "lua_api \<Rightarrow> lval list \<Rightarrow> heap \<Rightarrow> lres" where
  "mem_fill api L h =
     onE h (luamem_checkmemory h L 1) (\<lambda>(p, l).
     onE h (optinteger api L 3 1) (\<lambda>pi.
     let i = posrelatI pi (u64_len l) in
     onE h (getendpos api L 4 (-1) (u64_len l)) (\<lambda>j.
     onE h
       (if is_number (arg L 2)
        then bindE (code2byte api L 2) (\<lambda>c. Inr (AStr [c], 1, 1))
        else
          bindE (luamem_checkarray api h L 2) (\<lambda>s.
          bindE (optinteger api L 5 1) (\<lambda>po.
          Inr (s, u64_len (arr_len s), posrelatI po (u64_len (arr_len s))))))
       (\<lambda>(s, sl, os).
        if i \<le> j \<and> os \<le> sl
        then onE h (memfill h (ptr_add p (unat i - 1)) (unat (j - i + 1)) s (unat os - 1) (unat (sl - (os - 1))))
               (\<lambda>h'. (Inr [], h'))
        else (Inr [], h)))))"

definition concat_fallback :: "lua_api \<Rightarrow> lval list \<Rightarrow> heap \<Rightarrow> lres" where
  "concat_fallback api L h =
     (case (if ismemory h (arg L 2) then None else concat_meta api (arg L 2)) of
        None \<Rightarrow>
          (let quoted = (\<lambda>v. [CHR 0x27] @ typename api v @ [CHR 0x27])
           in (Inl (LuaError (''attempt to concat a '' @ quoted (arg L 1) @ '' with a '' @ quoted (arg L 2))), h))
      | Some f \<Rightarrow> (Inr [f (arg L 1) (arg L 2)], h))"

definition mem_concat :: "lua_api \<Rightarrow> lval list \<Rightarrow> heap \<Rightarrow> lres" where
  "mem_concat api L h =
     (case (luamem_toarray api h (arg L 1), luamem_toarray api h (arg L 2)) of
        (Some a1, Some a2) \<Rightarrow>
          if \<not> arr_null a1 \<and> \<not> arr_null a2 then
            onE h (optE UBerr (arr_read h a1 0 (arr_len a1))) (\<lambda>s1.
            onE h (optE UBerr (arr_read h a2 0 (arr_len a2))) (\<lambda>s2. (Inr [LStr (s1 @ s2)], h)))
          else concat_fallback api L h
      | _ \<Rightarrow> concat_fallback api L h)"

section \<open>Filling writes the repeated source\<close>

definition cycle :: "byte list \<Rightarrow> nat \<Rightarrow> byte list" where
  "cycle s n = map (\<lambda>i. s ! (i mod length s)) [0..<n]"

lemma length_cycle [simp]: "length (cycle s n) = n"
  by (simp add: cycle_def)

lemma nth_cycle: "i < n \<Longrightarrow> cycle s n ! i = s ! (i mod length s)"
  by (simp add: cycle_def)

lemma cycle_short: "n \<le> length s \<Longrightarrow> cycle s n = take n s"
  by (rule nth_equalityI) (auto simp: nth_cycle)

lemma cycle_long: "s \<noteq> [] \<Longrightarrow> length s \<le> n \<Longrightarrow> cycle s n = s @ cycle s (n - length s)"
  by (rule nth_equalityI) (auto simp: nth_cycle nth_append le_mod_geq)

lemma blit_blit: "off + length bs + length cs \<le> length m \<Longrightarrow>
    blit (blit m off bs) (off + length bs) cs = blit m off (bs @ cs)"
  by (simp add: blit_def ac_simps)

lemma write_mem_append:
  assumes "valid_range h p (length bs + length cs)" and "write_mem h p bs = Some h1"
  shows "write_mem h1 (ptr_add p (length bs)) cs = write_mem h p (bs @ cs)"
proof (cases "cs = []")
  case True
  with assms(2) show ?thesis by (simp add: write_mem_def [of h1])
next
  case cs: False
  show ?thesis
  proof (cases "bs = []")
    case True
    with assms(2) show ?thesis by (simp add: write_mem_def [of h p "[]"])
  next
    case False
    with cs assms show ?thesis
      by (auto simp: write_mem_def ptr_add_def valid_range_def blit_blit)
  qed
qed

lemma valid_range_add: "valid_range h p (n + k) \<Longrightarrow> valid_range h (ptr_add p n) k"
  by (auto simp: valid_range_def ptr_add_def)

lemma valid_range_mono: "valid_range h p n \<Longrightarrow> k \<le> n \<Longrightarrow> valid_range h p k"
  by (auto simp: valid_range_def)

lemma memfill_cycle:
  assumes "valid_range h p n" and "so + l \<le> length s" and "0 < l"
  shows "memfill h p n (AStr s) so l = optE UBerr (write_mem h p (cycle (take l (drop so s)) n))"
  using assms
proof (induction h p n "AStr s" so l rule: memfill.induct)
  case (1 h p n so l)
  let ?src = "take l (drop so s)"
  show ?case
  proof (cases "n \<le> l")
    case True
    then have "arr_read h (AStr s) so n = Some (cycle ?src n)"
      using "1.prems" by (simp add: arr_read_def cycle_short min_absorb1)
    moreover have "(if n < l then n else l) = n" using True by simp
    ultimately show ?thesis
      by (subst memfill.simps) (simp add: optE_def split: option.split)
  next
    case False
    have read: "arr_read h (AStr s) so l = Some ?src"
      using "1.prems" by (simp add: arr_read_def)
    have len: "length ?src = l" using "1.prems" by simp
    obtain h1 where h1: "write_mem h p ?src = Some h1"
      using valid_range_write [of h p n 0 ?src] "1.prems"(1) False len
      by (cases p) (auto simp: ptr_add_def)
    have v: "valid_range h1 (ptr_add p l) (n - l)"
      using valid_range_add [of h p l "n - l"] "1.prems"(1) False write_mem_valid_range [OF h1] by simp
    have "memfill h p n (AStr s) so l = memfill h1 (ptr_add p l) (n - l) (AStr s) so l"
      using False "1.prems"(3) read h1 by (subst memfill.simps) simp
    also have "\<dots> = optE UBerr (write_mem h1 (ptr_add p l) (cycle ?src (n - l)))"
      using "1.hyps" [of l] False "1.prems" read h1 v by simp
    also have "write_mem h1 (ptr_add p l) (cycle ?src (n - l)) = write_mem h p (?src @ cycle ?src (n - l))"
      using write_mem_append [OF _ h1, of "cycle ?src (n - l)"] len False "1.prems"(1) by simp
    also have "?src @ cycle ?src (n - l) = cycle ?src n"
      using cycle_long [of ?src n] len False "1.prems"(3) by auto
    finally show ?thesis .
  qed
qed

text \<open>Whatever the source is, filling stays inside the two ranges and ends.\<close>

definition arr_valid :: "heap \<Rightarrow> arr \<Rightarrow> bool" where
  "arr_valid h a = (case a of AMem p l \<Rightarrow> valid_range h p l | AStr _ \<Rightarrow> True)"

lemma arr_read_valid:
  assumes "arr_valid h a" and "off + n \<le> arr_len a"
  shows "\<exists>bs. arr_read h a off n = Some bs \<and> length bs = n"
  using assms valid_range_read by (cases a) (auto simp: arr_valid_def arr_read_def)

lemma write_mem_arr_valid: "write_mem h p bs = Some h' \<Longrightarrow> arr_valid h a \<Longrightarrow> arr_valid h' a"
  using write_mem_valid_range by (auto simp: arr_valid_def split: arr.splits)

lemma memfill_safe:
  assumes "valid_range h p n" and "arr_valid h s" and "so + l \<le> arr_len s" and "0 < l" and "heap_ok h"
  shows "\<exists>h'. memfill h p n s so l = Inr h' \<and> heap_ok h' \<and> users h' = users h"
  using assms
proof (induction h p n s so l rule: memfill.induct)
  case (1 h p n s so l)
  let ?k = "if n < l then n else l"
  have k: "so + ?k \<le> arr_len s" "?k \<le> n" using "1.prems" by auto
  obtain bs where bs: "arr_read h s so ?k = Some bs" "length bs = ?k"
    using arr_read_valid [OF "1.prems"(2) k(1)] by blast
  obtain h1 where h1: "write_mem h p bs = Some h1"
    using valid_range_write [of h p n 0 bs] "1.prems"(1) bs(2) k(2) by (cases p) (auto simp: ptr_add_def)
  have ok: "heap_ok h1" and us: "users h1 = users h"
    using write_mem_heap_ok [OF h1] "1.prems"(5) write_mem_users [OF h1] by auto
  show ?case
  proof (cases "n - ?k > 0")
    case False
    then show ?thesis using bs h1 ok us by (subst memfill.simps) (simp add: Let_def)
  next
    case True
    then have k0: "?k = l" "?k \<noteq> 0" using "1.prems"(4) by (auto split: if_splits)
    have v: "valid_range h1 (ptr_add p ?k) (n - ?k)"
      using valid_range_add [of h p ?k "n - ?k"] "1.prems"(1) k(2) write_mem_valid_range [OF h1] by simp
    have "\<exists>h'. memfill h1 (ptr_add p ?k) (n - ?k) s so l = Inr h' \<and> heap_ok h' \<and> users h' = users h1"
      using "1.IH" [OF refl _ _ True k0(2), of bs h1] bs h1 v ok write_mem_arr_valid [OF h1] "1.prems"
      by simp
    moreover have "memfill h p n s so l = memfill h1 (ptr_add p ?k) (n - ?k) s so l"
      using bs h1 True k0(2) by (subst memfill.simps) (simp add: Let_def)
    ultimately show ?thesis using us by simp
  qed
qed

section \<open>No library function leaves its arrays\<close>

text \<open>
  The lengths of strings and memory objects fit a \<open>lua_Integer\<close>, which Lua guarantees.
\<close>

definition sizes_ok :: "lua_api \<Rightarrow> heap \<Rightarrow> bool" where
  "sizes_ok api h \<longleftrightarrow>
     (\<forall>u p l. users h u = Some (UAlloc p l) \<longrightarrow> lua_len l) \<and>
     (\<forall>u r. users h u = Some (URef r) \<longrightarrow> lua_len (len r)) \<and>
     (\<forall>v s. tolstring api v = Some s \<longrightarrow> lua_len (length s))"

definition safe :: "lres \<Rightarrow> bool" where
  "safe r \<longleftrightarrow> fst r \<noteq> Inl UBerr \<and> fst r \<noteq> Inl Diverges \<and> heap_ok (snd r)"

lemma safe_Inr [simp]: "safe (Inr vs, h) \<longleftrightarrow> heap_ok h"
  by (simp add: safe_def)

lemma safe_onE: "heap_ok h \<Longrightarrow> (\<And>e. m = Inl e \<Longrightarrow> e \<noteq> UBerr \<and> e \<noteq> Diverges) \<Longrightarrow>
    (\<And>x. m = Inr x \<Longrightarrow> safe (f x)) \<Longrightarrow> safe (onE h m f)"
  by (cases m) (auto simp: safe_def)

lemma arg_errors [dest!]:
  "checkinteger api L i = Inl e \<Longrightarrow> e = TypeError i ''number''"
  "optinteger api L i d = Inl e \<Longrightarrow> e = TypeError i ''number''"
  "getendpos api L i d l = Inl e \<Longrightarrow> e = TypeError i ''number''"
  "luamem_checkmemory h L i = Inl e \<Longrightarrow> e = TypeError i ''memory''"
  "luamem_checkarray api h L i = Inl e \<Longrightarrow> e = TypeError i ''string or memory''"
  by (auto simp: checkinteger_def optinteger_def getendpos_def luamem_checkmemory_def optE_def
      luamem_checkarray_def bindE_eq_Inl split: option.splits if_splits prod.splits)

lemma argcheck_error [dest!]: "argcheck c i m = Inl e \<Longrightarrow> e = ArgError i m"
  by (auto simp: argcheck_def split: if_splits)

lemma code2byte_error: "code2byte api L i = Inl e \<Longrightarrow> e \<noteq> UBerr \<and> e \<noteq> Diverges"
  by (auto simp: code2byte_def bindE_eq_Inl)

lemma checkmemory_arr:
  assumes "heap_ok h" and "sizes_ok api h" and "luamem_checkmemory h L i = Inr (p, l)"
  shows "valid_range h p l \<and> lua_len l"
  using checkmemory_valid [OF assms(1,3)] assms(2,3)
  by (auto simp: luamem_checkmemory_def luamem_tomemoryx_def sizes_ok_def
      split: if_splits option.splits lval.splits userdata.splits)

lemma checkarray_arr:
  assumes "heap_ok h" and "sizes_ok api h" and "luamem_checkarray api h L i = Inr a"
  shows "arr_valid h a \<and> lua_len (arr_len a)"
proof (cases a)
  case (AMem p l)
  with checkarray_valid [OF assms(1)] assms show ?thesis
    by (auto simp: arr_valid_def luamem_checkarray_def luamem_tomemoryx_def sizes_ok_def
      split: if_splits option.splits lval.splits userdata.splits)
next
  case (AStr s)
  with assms show ?thesis
    by (auto simp: arr_valid_def luamem_checkarray_def luamem_tomemoryx_def sizes_ok_def
      split: if_splits option.splits lval.splits userdata.splits)
qed

lemma range_words:
  assumes "(i :: u64) \<le> j" and "unat j < 2 ^ 63"
  shows "unat (j - i) = unat j - unat i" and "unat (j - i + 1) = unat j - unat i + 1"
    and "unat i \<le> unat j"
proof -
  show d: "unat (j - i) = unat j - unat i" using assms(1) by (rule unat_sub)
  show "unat i \<le> unat j" using assms(1) by (simp add: word_le_nat_alt)
  have "unat (j - i) + 1 < 2 ^ 64" using d assms(2) by simp
  then show "unat (j - i + 1) = unat j - unat i + 1"
    using d by (simp add: unat_word_ariths)
qed

lemma array_range:
  assumes "lua_len n" and "getendpos api L k d (u64_len n) = Inr j" and "posrelatI pos (u64_len n) \<le> j"
  shows "unat (posrelatI pos (u64_len n)) - 1 + (unat j - unat (posrelatI pos (u64_len n)) + 1) \<le> n"
    and "unat j < 2 ^ 63" and "unat (posrelatI pos (u64_len n)) \<le> unat j"
    and "1 \<le> unat (posrelatI pos (u64_len n))"
proof -
  have le: "unat j \<le> n" using getendpos_le [OF assms(1)] assms(2) by (simp add: u64_len_def)
  then show j: "unat j < 2 ^ 63" using assms(1) by simp
  show p: "unat (posrelatI pos (u64_len n)) \<le> unat j" by (rule range_words(3) [OF assms(3) j])
  show q: "1 \<le> unat (posrelatI pos (u64_len n))" using posrelatI_ge1 [OF assms(1)] by (simp add: u64_len_def)
  from le p q show "unat (posrelatI pos (u64_len n)) - 1 + (unat j - unat (posrelatI pos (u64_len n)) + 1) \<le> n"
    by simp
qed

lemma optE_read_safe: "\<exists>bs. m = Some bs \<Longrightarrow> optE UBerr m = Inl e \<Longrightarrow> P"
  by auto

lemma mem_len_safe: "heap_ok h \<Longrightarrow> safe (mem_len L h)"
  by (auto simp: mem_len_def intro!: safe_onE)

lemma mem_type_safe: "heap_ok h \<Longrightarrow> safe (mem_type L h)"
  by (auto simp: mem_type_def split: prod.split)

lemma mem_tostring_safe:
  assumes "heap_ok h" and "sizes_ok api h"
  shows "safe (mem_tostring api L h)"
  unfolding mem_tostring_def Let_def
proof (intro safe_onE assms(1), goal_cases)
  case (4 s i e)
  note a = checkarray_arr [OF assms 4(1)]
  show ?case
  proof (cases "posrelatI i (u64_len (arr_len s)) \<le> e")
    case True
    note r = array_range [OF _ 4(3) True] range_words [OF True]
    have "\<exists>bs. arr_read h s (unat (posrelatI i (u64_len (arr_len s))) - 1)
        (unat (e - posrelatI i (u64_len (arr_len s)) + 1)) = Some bs"
      using arr_read_valid [of h s] a r by (metis (no_types, lifting))
    with True assms(1) show ?thesis by auto
  qed (simp add: assms(1))
qed auto

lemma str2byte_safe:
  assumes "heap_ok h" and "valid_range h s l" and "lua_len l"
  shows "safe (str2byte api L s l h)"
  unfolding str2byte_def Let_def
proof (intro safe_onE assms(1), goal_cases)
  case (3 i e)
  let ?p = "posrelatI i (u64_len l)"
  show ?case
  proof (cases "?p > e")
    case False
    then have le: "?p \<le> e" by simp
    note r = array_range [OF assms(3) 3(2) le]
    have "\<exists>bs. read_mem h (ptr_add s (unat ?p - 1)) (unat (e - ?p) + 1) = Some bs"
      using valid_range_read [OF assms(2) r(1)] range_words(1) [OF le r(2)] by auto
    with False assms(1) show ?thesis by (auto simp: safe_def)
  qed (simp add: assms(1))
qed auto

lemma mem_get_safe: "heap_ok h \<Longrightarrow> sizes_ok api h \<Longrightarrow> safe (mem_get api L h)"
  unfolding mem_get_def
  by (intro safe_onE) (auto intro: str2byte_safe dest: checkmemory_arr)

lemma mem_diff_safe:
  assumes "heap_ok h" and "sizes_ok api h"
  shows "safe (mem_diff api L h)"
  unfolding mem_diff_def Let_def
proof (intro safe_onE assms(1), goal_cases)
  case (3 a1 a2 e)
  then show ?case using arr_read_valid [of h a1 0 "arr_len a1"] checkarray_arr [OF assms 3(1)] by auto
next
  case (4 a1 a2 s1 e)
  then show ?case using arr_read_valid [of h a2 0 "arr_len a2"] checkarray_arr [OF assms 4(2)] by auto
qed (auto simp: assms(1))

lemma code2char_safe:
  assumes "heap_ok h" and "valid_range h p n"
  shows "safe (code2char api L idx p n h)"
  using assms
proof (induction n arbitrary: idx p h)
  case (Suc n)
  show ?case
  proof (cases "code2byte api L idx")
    case (Inl e)
    then show ?thesis using Suc.prems code2byte_error by (auto simp: safe_def)
  next
    case (Inr c)
    obtain h1 where h1: "write_mem h p [c] = Some h1"
      using valid_range_write [of h p "Suc n" 0 "[c]"] Suc.prems(2) by auto
    have "valid_range h1 (ptr_add p 1) n"
      using valid_range_add [of h p 1 n] Suc.prems(2) write_mem_valid_range [OF h1] by simp
    then show ?thesis using Suc.IH [of h1 "ptr_add p 1"] write_mem_heap_ok [OF h1 Suc.prems(1)] Inr h1
      by simp
  qed
qed simp

lemma mem_set_safe:
  assumes "heap_ok h" and "sizes_ok api h"
  shows "safe (mem_set api L h)"
  unfolding mem_set_def Let_def case_prod_beta
proof (intro safe_onE assms(1), goal_cases)
  case (4 pl pos u)
  obtain p l where pl: "pl = (p, l)" by (cases pl)
  note v = checkmemory_arr [OF assms 4(1) [unfolded pl]]
  let ?i = "posrelatI pos (u64_len l)" and ?n = "u64_len (length L) - 2"
  have i: "1 \<le> ?i" "?i \<le> u64_len l" using 4(3) pl by (auto simp: argcheck_def split: if_splits)
  have l: "unat (u64_len l) = l" using v by (simp add: u64_len_def unat_word_of_nat)
  have i': "1 \<le> unat ?i" "unat ?i \<le> l" using i l by (auto simp: word_le_nat_alt)
  have "unat (1 + u64_len l - ?i) = l - unat ?i + 1"
    using range_words(2) [OF i(2)] l v by (simp add: add.commute add_diff_eq)
  then have "unat (if ?n < 1 + u64_len l - ?i then ?n else 1 + u64_len l - ?i) \<le> l - unat ?i + 1"
    by (auto simp: word_less_nat_alt)
  then have "valid_range h p ((unat ?i - 1) + unat (if ?n < 1 + u64_len l - ?i then ?n else 1 + u64_len l - ?i))"
    using v i' by (auto intro: valid_range_mono)
  from code2char_safe [OF assms(1) valid_range_add [OF this]] show ?case
    by (simp only: pl fst_conv snd_conv)
qed auto

lemma mem_find_safe:
  assumes "heap_ok h" and "sizes_ok api h"
  shows "safe (mem_find api L h)"
  unfolding mem_find_def Let_def
proof (intro safe_onE assms(1), goal_cases)
  case (6 p s pi j po)
  note a = checkarray_arr [OF assms 6(1)] checkarray_arr [OF assms 6(2)]
  let ?i = "posrelatI pi (u64_len (arr_len p))" and ?os = "posrelatI po (u64_len (arr_len s))"
  let ?sl = "u64_len (arr_len s)"
  show ?case
  proof (cases "?i \<le> j \<and> ?os \<le> ?sl")
    case True
    then have ij: "?i \<le> j" and os: "?os \<le> ?sl" by auto
    note r = array_range [OF _ 6(4) ij] range_words [OF ij]
    have r1: "\<exists>bs. arr_read h p (unat ?i - 1) (unat (j - ?i + 1)) = Some bs"
      using arr_read_valid [of h p] a r by (metis (no_types, lifting))
    have sl: "unat ?sl = arr_len s" using a by (simp add: u64_len_def unat_word_of_nat)
    have os1: "1 \<le> unat ?os" using posrelatI_ge1 a by (simp add: u64_len_def)
    have os2: "unat (?os - 1) = unat ?os - 1" using os1 by (subst unat_sub) (auto simp: word_le_nat_alt)
    have le: "?os - 1 \<le> ?sl" using os os1 os2 by (simp add: word_le_nat_alt)
    let ?l2 = "if ?sl - (?os - 1) < j - ?i + 1 then ?sl - (?os - 1) else j - ?i + 1"
    have "unat ?l2 \<le> unat (?sl - (?os - 1))" by (auto simp: word_less_nat_alt)
    also have "\<dots> = arr_len s - (unat ?os - 1)" using unat_sub [OF le] sl os2 by simp
    finally have "unat (?os - 1) + unat ?l2 \<le> arr_len s"
      using os os2 os1 sl by (simp add: word_le_nat_alt)
    then have r2: "\<exists>bs. arr_read h s (unat (?os - 1)) (unat ?l2) = Some bs"
      using arr_read_valid [of h s] a by blast
    obtain b1 b2 where b: "arr_read h p (unat ?i - 1) (unat (j - ?i + 1)) = Some b1"
        "arr_read h s (unat (?os - 1)) (unat ?l2) = Some b2" using r1 r2 by blast
    show ?thesis
      by (simp only: if_P [OF True] b optE_Some onE_simps) (auto simp: safe_def assms(1) split: option.split)
  next
    case False
    show ?thesis by (simp only: if_not_P [OF False] safe_Inr assms(1))
  qed
qed auto

lemma mem_fill_safe:
  assumes "heap_ok h" and "sizes_ok api h"
  shows "safe (mem_fill api L h)"
  unfolding mem_fill_def Let_def case_prod_beta
proof (intro safe_onE assms(1), goal_cases)
  case (4 pl pi j e)
  then show ?case
    by (auto split: if_splits simp: bindE_eq_Inl dest: code2byte_error)
next
  case (5 pl pi j src)
  obtain p l where pl: "pl = (p, l)" by (cases pl)
  obtain s sl os where src: "src = (s, sl, os)" by (cases src)
  note v = checkmemory_arr [OF assms 5(1) [unfolded pl]]
  have s: "arr_valid h s \<and> lua_len (arr_len s) \<and> sl = u64_len (arr_len s) \<and> 1 \<le> unat os"
  proof (cases "is_number (arg L 2)")
    case True
    with 5(4) src show ?thesis by (auto simp: bindE_eq_Inr arr_valid_def u64_len_def)
  next
    case False
    with 5(4) src obtain po where c: "luamem_checkarray api h L 2 = Inr s"
        and "sl = u64_len (arr_len s)" "os = posrelatI po (u64_len (arr_len s))"
      by (auto simp: bindE_eq_Inr)
    with checkarray_arr [OF assms c] posrelatI_ge1 show ?thesis by (auto simp: u64_len_def)
  qed
  let ?i = "posrelatI pi (u64_len l)"
  show ?case
  proof (cases "?i \<le> j \<and> os \<le> sl")
    case True
    then have ij: "?i \<le> j" and os: "os \<le> sl" by auto
    note r = array_range [OF _ 5(3) [unfolded pl snd_conv] ij]
    have w: "unat (j - ?i + 1) = unat j - unat ?i + 1" using range_words(2) [OF ij] r(2) v by simp
    have fits: "(unat ?i - 1) + unat (j - ?i + 1) \<le> l" using r(1) w v by simp
    have sl: "unat sl = arr_len s" using s by (simp add: u64_len_def unat_word_of_nat)
    have os2: "unat (os - 1) = unat os - 1" using s by (subst unat_sub) (auto simp: word_le_nat_alt)
    have le: "os - 1 \<le> sl" using os os2 s by (simp add: word_le_nat_alt)
    have n: "unat (sl - (os - 1)) = arr_len s - (unat os - 1)" using unat_sub [OF le] sl os2 by simp
    have "valid_range h (ptr_add p (unat ?i - 1)) (unat (j - ?i + 1))"
      by (rule valid_range_add) (rule valid_range_mono [OF conjunct1 [OF v] fits])
    moreover have "unat os - 1 + unat (sl - (os - 1)) \<le> arr_len s" "0 < unat (sl - (os - 1))"
      using n os sl s by (auto simp: word_le_nat_alt)
    ultimately obtain h' where "memfill h (ptr_add p (unat ?i - 1)) (unat (j - ?i + 1)) s (unat os - 1)
        (unat (sl - (os - 1))) = Inr h'" "heap_ok h'"
      using memfill_safe [of h] s assms(1) by blast
    with True pl src show ?thesis by simp
  qed (use pl src assms(1) in auto)
qed auto

lemma newalloc_ok:
  assumes ok: "heap_ok h" and new: "luamem_newalloc n uninit h = (v, p, h1)"
  shows "heap_ok h1 \<and> v = LUser (next_user h) \<and> p = (next_block h, 0) \<and> valid_range h1 (Some p) n
    \<and> users h1 (next_user h) = Some (UAlloc p n)
    \<and> (\<forall>q k. valid_range h q k \<longrightarrow> valid_range h1 q k)"
proof -
  let ?b = "take n (uninit @ replicate n 0)"
  have h1: "h1 = h\<lparr>blocks := (blocks h)(next_block h \<mapsto> ?b), next_block := Suc (next_block h),
      users := (users h)(next_user h \<mapsto> UAlloc p n), next_user := Suc (next_user h)\<rparr>"
    and p: "p = (next_block h, 0)" and v: "v = LUser (next_user h)"
    using new by (auto simp: luamem_newalloc_def alloc_block_def)
  have fresh: "blocks h b \<noteq> None \<Longrightarrow> b \<noteq> next_block h" for b
    using ok by (auto simp: heap_ok_def)
  have keep: "valid_range h1 q k" if "valid_range h q k" for q k
    using that fresh by (fastforce simp: valid_range_def h1)
  have "ref_ok h1 d" if "ref_ok h d" for d
    using that fresh by (fastforce simp: ref_ok_def h1 split: userdata.splits)
  then have "heap_ok h1" using ok by (auto simp: heap_ok_def h1 ref_ok_def p)
  then show ?thesis using keep by (auto simp: v p valid_range_def h1)
qed

lemma newref_ok:
  assumes "heap_ok h"
  shows "safe (mem_create api uninit [] h)"
proof -
  have "ref_ok (h\<lparr>users := f, next_user := n\<rparr>) d" if "ref_ok h d" for d f n
    using that by (auto simp: ref_ok_def split: userdata.splits)
  then show ?thesis using assms
    by (auto simp: mem_create_def luamem_newref_def luamem_resetref_def heap_ok_def ref_ok_def
        split: userdata.splits)
qed

lemma mem_create_safe:
  assumes "heap_ok h" and "sizes_ok api h"
  shows "safe (mem_create api uninit L h)"
proof (cases "L = []")
  case True
  then show ?thesis using newref_ok [OF assms(1)] by simp
next
  case False
  show ?thesis unfolding mem_create_def if_not_P [OF False] case_prod_beta
  proof (intro safe_onE assms(1), goal_cases)
    case (1 e)
    then show ?case
      by (auto split: if_splits simp: bindE_eq_Inl luamem_checklenarg_def Let_def)
  next
    case (2 x)
    obtain s off n where x: "x = (s, off, n)" by (cases x)
    have s: "case s of None \<Rightarrow> True | Some a \<Rightarrow> arr_valid h a \<and> off + n \<le> arr_len a"
    proof (cases s)
      case (Some a)
      with 2 x obtain i pose where a: "luamem_checkarray api h L 1 = Inr a"
        and "optinteger api L 2 1 = Inr i"
        and pose: "getendpos api L 3 (-1) (u64_len (arr_len a)) = Inr pose"
        and off: "(off, n) = (if posrelatI i (u64_len (arr_len a)) > pose then (0, 0)
           else (unat (posrelatI i (u64_len (arr_len a))) - 1,
                 unat (pose - posrelatI i (u64_len (arr_len a)) + 1)))"
        by (auto split: if_splits simp: bindE_eq_Inr Let_def)
      note v = checkarray_arr [OF assms a]
      show ?thesis
      proof (cases "posrelatI i (u64_len (arr_len a)) > pose")
        case False
        then have le: "posrelatI i (u64_len (arr_len a)) \<le> pose" by simp
        note r = array_range [OF _ pose le]
        with range_words(2) [OF le] v off False Some show ?thesis by auto
      qed (use off v Some in auto)
    qed simp
    obtain v p h1 where new: "luamem_newalloc n uninit h = (v, p, h1)"
      by (cases "luamem_newalloc n uninit h") auto
    note h1 = newalloc_ok [OF assms(1) new]
    show ?case
    proof (cases "alloc_fails api n")
      case True
      then show ?thesis using assms(1) x by (simp add: safe_def)
    next
      case no: False
      let ?src = "case s of Some s' \<Rightarrow> if arr_null s' then Inr (replicate n 0) else optE UBerr (arr_read h1 s' off n)
         | None \<Rightarrow> Inr (replicate n 0)"
      have "\<exists>bs. ?src = Inr bs \<and> length bs = n"
      proof (cases s)
        case (Some a)
        then have "arr_valid h1 a" using s h1 by (auto simp: arr_valid_def split: arr.splits)
        then show ?thesis using arr_read_valid [of h1 a off n] s Some by auto
      qed simp
      then obtain bs where bs: "?src = Inr bs" "length bs = n" by blast
      then obtain h2 where h2: "write_mem h1 (Some p) bs = Some h2"
        using valid_range_write [of h1 "Some p" n 0 bs] h1 by auto
      then have "heap_ok h2" using write_mem_heap_ok h1 by blast
      moreover have "fst (luamem_newalloc n uninit h) = v" "fst (snd (luamem_newalloc n uninit h)) = p"
          "snd (snd (luamem_newalloc n uninit h)) = h1"
        using new by simp_all
      ultimately show ?thesis using no bs(1) h2 by (cases s) (auto simp: x split: if_splits)
    qed
  qed
qed

lemma toarray_arr:
  assumes "heap_ok h" and "luamem_toarray api h v = Some a"
  shows "arr_valid h a"
  using assms checkmemory_valid [OF assms(1), of "[the v]" 1]
  by (auto simp: luamem_toarray_def arr_valid_def luamem_checkmemory_def arg_def luamem_tomemoryx_def
      split: if_splits option.splits lval.splits userdata.splits)

lemma mem_concat_safe:
  assumes "heap_ok h"
  shows "safe (mem_concat api L h)"
proof -
  have fb: "safe (concat_fallback api L h)"
    using assms by (auto simp: concat_fallback_def safe_def Let_def split: option.splits)
  show ?thesis
  proof (cases "luamem_toarray api h (arg L 1)"; cases "luamem_toarray api h (arg L 2)")
    fix a1 a2
    assume a: "luamem_toarray api h (arg L 1) = Some a1" "luamem_toarray api h (arg L 2) = Some a2"
    obtain b1 b2 where "arr_read h a1 0 (arr_len a1) = Some b1" "arr_read h a2 0 (arr_len a2) = Some b2"
      using arr_read_valid [OF toarray_arr [OF assms a(1)], of 0 "arr_len a1"]
        arr_read_valid [OF toarray_arr [OF assms a(2)], of 0 "arr_len a2"] by auto
    then show ?thesis using fb a assms by (simp add: mem_concat_def)
  qed (use fb in \<open>auto simp: mem_concat_def\<close>)
qed

lemmas library_safe = mem_create_safe mem_type_safe mem_len_safe mem_tostring_safe mem_diff_safe
  mem_get_safe mem_set_safe mem_find_safe mem_fill_safe mem_concat_safe

section \<open>What the functions compute\<close>

lemma read_write_inside:
  assumes "read_mem h p l = Some old" and "off + length bs \<le> l" and "write_mem h (ptr_add p off) bs = Some h'"
  shows "read_mem h' p l = Some (blit old off bs)"
proof (cases "bs = []")
  case True
  then show ?thesis using assms read_mem_length [OF assms(1)] by (simp add: write_mem_def blit_def)
next
  case False
  then obtain b o' m where "p = Some (b, o')" "blocks h b = Some m" "o' + l \<le> length m" "old = take l (drop o' m)"
    using assms by (auto simp: read_mem_def split: if_splits option.splits prod.splits)
  moreover have "take l (drop o' (blit m (o' + off) bs)) = blit (take l (drop o' m)) off bs"
    using assms(2) calculation by (intro nth_equalityI) (auto simp: nth_blit)
  ultimately show ?thesis using assms False
    by (auto simp: write_mem_def read_mem_def ptr_add_def split: if_splits)
qed

text \<open>Filling with a string: the range holds the repetition of the source, the rest is kept.\<close>

lemma mem_fill_string:
  assumes p: "luamem_checkmemory h L 1 = Inr (p, l)" and valid: "valid_range h p l" and l: "lua_len l"
    and s: "luamem_checkarray api h L 2 = Inr (AStr s)" "\<not> is_number (arg L 2)" and ls: "lua_len (length s)"
    and ints: "optinteger api L 3 1 = Inr pi" "optinteger api L 4 (-1) = Inr pj" "optinteger api L 5 1 = Inr po"
    and old: "read_mem h p l = Some old"
    and i: "i = start_pos (sint pi) l" and j: "j = end_pos (sint pj) l" and k: "k = start_pos (sint po) (length s)"
    and le: "i \<le> j" "k \<le> length s"
  shows "\<exists>h'. mem_fill api L h = (Inr [], h') \<and>
    read_mem h' p l = Some (blit old (i - 1) (cycle (drop (k - 1) s) (j - i + 1)))"
proof -
  obtain e where e: "getendpos api L 4 (-1) (u64_len l) = Inr e" using ints(2) by (simp add: getendpos_def)
  have ue: "unat e = j" using getendpos_nat [OF l, of api L 4 "-1" e] e ints(2) j by (auto simp: u64_len_def)
  let ?i = "posrelatI pi (u64_len l)" and ?k = "posrelatI po (u64_len (length s))" and ?sl = "u64_len (length s)"
  have ui: "unat ?i = i" and uk: "unat ?k = k" and us: "unat ?sl = length s"
    using posrelatI_nat [OF l] posrelatI_nat [OF ls] i k ls by (simp_all add: u64_len_def unat_word_of_nat)
  have i1: "1 \<le> i" "1 \<le> k" using i k start_pos_ge1 by (metis One_nat_def)+
  have ij: "?i \<le> e" and ks: "?k \<le> ?sl" using ui ue uk us le by (simp_all add: word_le_nat_alt)
  have jl: "j \<le> l" using j end_pos_le by simp
  have n: "unat (e - ?i + 1) = j - i + 1" using range_words(2) [OF ij] ue ui jl l by simp
  have k1: "unat (?k - 1) = k - 1" using uk i1 by (subst unat_sub) (auto simp: word_le_nat_alt)
  have k2: "unat (?sl - (?k - 1)) = length s - (k - 1)"
    using k1 us uk i1 le by (subst unat_sub) (auto simp: word_le_nat_alt)
  have fits: "i - 1 + (j - i + 1) \<le> l" using jl le i1 by simp
  have v: "valid_range h (ptr_add p (i - 1)) (j - i + 1)"
    by (rule valid_range_add) (rule valid_range_mono [OF valid fits])
  have "memfill h (ptr_add p (i - 1)) (j - i + 1) (AStr s) (k - 1) (length s - (k - 1))
      = optE UBerr (write_mem h (ptr_add p (i - 1)) (cycle (drop (k - 1) s) (j - i + 1)))"
    using memfill_cycle [OF v, of "k - 1" "length s - (k - 1)" s] le i1 by simp
  moreover obtain h' where h': "write_mem h (ptr_add p (i - 1)) (cycle (drop (k - 1) s) (j - i + 1)) = Some h'"
    using valid_range_write [OF valid, of "i - 1" "cycle (drop (k - 1) s) (j - i + 1)"] fits by auto
  ultimately have "mem_fill api L h = (Inr [], h')"
    using p s ints e ij ks unfolding mem_fill_def Let_def by (simp add: n k1 k2 ui uk)
  moreover have "read_mem h' p l = Some (blit old (i - 1) (cycle (drop (k - 1) s) (j - i + 1)))"
    using read_write_inside [OF old _ h'] fits by simp
  ultimately show ?thesis by blast
qed

text \<open>Reading: \<open>mem_get\<close> returns the bytes of the clipped range.\<close>

lemma read_mem_sub:
  assumes "read_mem h p l = Some bytes" and "off + n \<le> l"
  shows "read_mem h (ptr_add p off) n = Some (take n (drop off bytes))"
  using assms by (auto simp: read_mem_def ptr_add_def add.commute drop_take min_def
      split: if_splits option.splits prod.splits)

lemma mem_get_bytes:
  assumes p: "luamem_checkmemory h L 1 = Inr (p, l)" and l: "lua_len l"
    and bytes: "read_mem h p l = Some bytes"
    and i: "checkinteger api L 2 = Inr i" and j: "optinteger api L 3 i = Inr j"
    and s: "s = start_pos (sint i) l" and e: "e = end_pos (sint j) l" and small: "e - s < 2147483647"
  shows "mem_get api L h =
    (Inr (map (\<lambda>b. LInt (ucast b)) (if s \<le> e then take (e - s + 1) (drop (s - 1) bytes) else [])), h)"
proof -
  obtain w where w: "getendpos api L 3 i (u64_len l) = Inr w" using j by (simp add: getendpos_def)
  let ?s = "posrelatI i (u64_len l)"
  have us: "unat ?s = s" using posrelatI_nat [OF l] s by (simp add: u64_len_def)
  have ue: "unat w = e" using getendpos_nat [OF l, of api L 3 i w] w j e by (auto simp: u64_len_def)
  have el: "e \<le> l" using e end_pos_le by simp
  have s1: "1 \<le> s" using s start_pos_ge1 by simp
  show ?thesis
  proof (cases "s \<le> e")
    case True
    then have le: "?s \<le> w" using us ue by (simp add: word_le_nat_alt)
    have d: "unat (w - ?s) = e - s" using range_words(1) [OF le] us ue el l by simp
    then have "\<not> w - ?s \<ge> word_of_int LUAMEM_MAXSIZE"
      using small by (simp add: LUAMEM_MAXSIZE_def word_le_nat_alt)
    moreover have "read_mem h (ptr_add p (s - 1)) (e - s + 1) = Some (take (e - s + 1) (drop (s - 1) bytes))"
      using bytes el True s1 by (intro read_mem_sub [of h p l]) auto
    ultimately show ?thesis
      using p i w le leD [OF le] True by (simp add: mem_get_def str2byte_def us d Let_def)
  next
    case False
    then have "w < ?s" using us ue by (simp add: word_less_nat_alt)
    with p i w False show ?thesis by (simp add: mem_get_def str2byte_def Let_def)
  qed
qed

text \<open>Writing: the bytes before the first bad argument are written, then its error is raised.\<close>

lemma code2char_upto:
  assumes "valid_range h p n" and "length cs \<le> n"
    and "\<forall>k < length cs. code2byte api L (idx + k) = Inr (cs ! k)"
    and "length cs < n \<Longrightarrow> code2byte api L (idx + length cs) = Inl err"
  shows "\<exists>h'. write_mem h p cs = Some h' \<and>
    code2char api L idx p n h = (if length cs < n then Inl err else Inr [], h')"
  using assms
proof (induction n arbitrary: idx p h cs)
  case 0
  then show ?case by (simp add: write_mem_def)
next
  case (Suc n)
  show ?case
  proof (cases cs)
    case Nil
    with Suc.prems(4) show ?thesis by (simp add: write_mem_def)
  next
    case (Cons c cs')
    obtain h1 where h1: "write_mem h p [c] = Some h1"
      using valid_range_write [of h p "Suc n" 0 "[c]"] Suc.prems(1) by auto
    have v: "valid_range h1 (ptr_add p 1) n"
      using valid_range_add [of h p 1 n] Suc.prems(1) write_mem_valid_range [OF h1] by simp
    have first: "code2byte api L idx = Inr c" using Suc.prems(3) Cons by force
    have rest: "\<forall>k < length cs'. code2byte api L (Suc idx + k) = Inr (cs' ! k)"
      using Suc.prems(3) Cons by force
    obtain h' where h': "write_mem h1 (ptr_add p 1) cs' = Some h'"
        "code2char api L (Suc idx) (ptr_add p 1) n h1 = (if length cs' < n then Inl err else Inr [], h')"
      using Suc.IH [OF v _ rest] Suc.prems(2,4) Cons by auto
    moreover have "valid_range h p (length [c] + length cs')"
      using valid_range_mono [OF Suc.prems(1)] Suc.prems(2) Cons by simp
    ultimately show ?thesis
      using write_mem_append [OF _ h1, of cs'] Cons first h1 by simp
  qed
qed

lemma mem_set_bytes:
  assumes p: "luamem_checkmemory h L 1 = Inr (p, l)" and valid: "valid_range h p l" and l: "lua_len l"
    and old: "read_mem h p l = Some old" and pos: "checkinteger api L 2 = Inr pos"
    and top: "2 \<le> length L" "lua_len (length L)"
    and i: "i = start_pos (sint pos) l" and le: "i \<le> l"
    and n: "n = min (length L - 2) (l - i + 1)"
    and cs: "length cs \<le> n" "\<forall>k < length cs. code2byte api L (3 + k) = Inr (cs ! k)"
      "length cs < n \<Longrightarrow> code2byte api L (3 + length cs) = Inl err"
  shows "\<exists>h'. mem_set api L h = (if length cs < n then Inl err else Inr [], h') \<and>
    read_mem h' p l = Some (blit old (i - 1) cs)"
proof -
  let ?i = "posrelatI pos (u64_len l)"
  have ui: "unat ?i = i" using posrelatI_nat [OF l] i by (simp add: u64_len_def)
  have ul: "unat (u64_len l) = l" using l by (simp add: u64_len_def unat_word_of_nat)
  have i1: "1 \<le> i" using i start_pos_ge1 by simp
  have il: "?i \<le> u64_len l" using ui ul le by (simp add: word_le_nat_alt)
  have ok: "1 \<le> ?i \<and> ?i \<le> u64_len l" using il i1 ui by (simp add: word_le_nat_alt)
  have r: "unat (1 + u64_len l - ?i) = l - i + 1"
    using range_words(2) [OF il] ul l ui by (simp add: add.commute add_diff_eq)
  have t: "unat (u64_len (length L) - 2) = length L - 2"
    using top by (subst unat_sub) (auto simp: u64_len_def unat_word_of_nat word_le_nat_alt)
  have m: "unat (if u64_len (length L) - 2 < 1 + u64_len l - ?i then u64_len (length L) - 2
      else 1 + u64_len l - ?i) = n"
    using r t n by (auto simp: word_less_nat_alt)
  have fits: "(i - 1) + n \<le> l" using n le i1 by simp
  have v: "valid_range h (ptr_add p (i - 1)) n"
    by (rule valid_range_add) (rule valid_range_mono [OF valid fits])
  obtain h' where h': "write_mem h (ptr_add p (i - 1)) cs = Some h'"
      "code2char api L 3 (ptr_add p (i - 1)) n h = (if length cs < n then Inl err else Inr [], h')"
    using code2char_upto [OF v cs] by blast
  have "mem_set api L h = code2char api L 3 (ptr_add p (i - 1)) n h"
    using p pos ok by (simp only: mem_set_def Let_def onE_simps prod.case argcheck_def if_True m ui simp_thms)
  moreover have "read_mem h' p l = Some (blit old (i - 1) cs)"
    using read_write_inside [OF old _ h'(1)] fits cs(1) by simp
  ultimately show ?thesis using h'(2) by auto
qed

text \<open>Searching two strings: the first occurrence, at 1-based positions.\<close>

lemma mem_find_strings:
  assumes L: "L = [LStr a, LStr b]"
    and a: "tolstring api (LStr a) = Some a" and b: "tolstring api (LStr b) = Some b"
    and la: "lua_len (length a)" "a \<noteq> []" and lb: "lua_len (length b)" "b \<noteq> []"
  shows "fst (mem_find api L h) =
    (case lmemfind a (take (length a) b) of
       None \<Rightarrow> Inr []
     | Some k \<Rightarrow> Inr [LInt (u64_len (k + 1)), LInt (u64_len (k + length b))])"
proof -
  have arrs: "luamem_checkarray api h L 1 = Inr (AStr a)" "luamem_checkarray api h L 2 = Inr (AStr b)"
    using a b by (simp_all add: L luamem_checkarray_def luamem_tomemoryx_def arg_def)
  have opt: "optinteger api L k d = Inr d" if "3 \<le> k" for k d
    using that by (simp add: L optinteger_def isnoneornil_def arg_def)
  have one: "posrelatI 1 n = 1" for n by (simp add: posrelatI_def)
  have la0: "0 < int (length a)" "0 < length a" using la(2) by simp_all
  have e: "getendpos api L 4 (-1) (u64_len (length a)) = Inr (u64_len (length a))"
    using la(1) la0 by (simp add: getendpos_def opt u64_len_def sint_word_of_nat)
  have le: "1 \<le> u64_len (length a)" "1 \<le> u64_len (length b)"
    using la lb by (auto simp: u64_len_def word_le_nat_alt unat_word_of_nat Suc_le_eq)
  have ovf: "\<not> 1 + (u64_len (length a) - 1 + 1) \<le> u64_len (length a)"
  proof -
    have "unat (u64_len (length a) + 1) = length a + 1"
      using la(1) by (simp add: unat_word_ariths u64_len_def unat_word_of_nat)
    moreover have "1 + (u64_len (length a) - 1 + 1) = u64_len (length a) + 1" by simp
    ultimately show ?thesis using la(1) by (simp only: word_le_nat_alt) (simp add: u64_len_def unat_word_of_nat)
  qed
  have ra: "arr_read h (AStr a) 0 (unat (u64_len (length a))) = Some a"
    using la by (simp add: arr_read_def u64_len_def unat_word_of_nat)
  have l2: "unat (if u64_len (length b) < u64_len (length a) then u64_len (length b) else u64_len (length a))
      = min (length b) (length a)"
    using la lb by (auto simp: u64_len_def word_less_nat_alt unat_word_of_nat)
  have rb: "arr_read h (AStr b) 0 (min (length b) (length a)) = Some (take (length a) b)"
    by (simp add: arr_read_def min_def)
  have guard: "(1 \<le> u64_len (length a) \<and> 1 \<le> u64_len (length b)) = True" using le by simp
  have ovf': "(1 + u64_len (length a) \<le> u64_len (length a)) = False" using ovf by simp
  have w: "u64_len (length b) - (1 - 1) = u64_len (length b)" "u64_len (length a) - 1 + 1 = u64_len (length a)"
      "unat (1 :: u64) - 1 = 0" "unat (1 - 1 :: u64) = 0" by simp_all
  have o: "optinteger api L 3 1 = Inr 1" "optinteger api L 5 1 = Inr 1" by (simp_all add: opt)
  have "mem_find api L h = (case lmemfind a (take (length a) b) of None \<Rightarrow> (Inr [], h)
      | Some k \<Rightarrow> (Inr [LInt (1 - 1 + u64_len k + 1), LInt (1 - 1 + u64_len k + u64_len (length b))], h))"
    by (simp only: mem_find_def Let_def arrs onE_simps o one e arr_len.simps guard if_True ovf' if_False w
        ra l2 rb optE_Some)
  then show ?thesis by (simp add: u64_len_def add.commute split: option.split)
qed

text \<open>
  Resizing keeps the common prefix; growth is filled with the repeated string, or zeros.
\<close>

definition fill_bytes :: "arr \<Rightarrow> nat \<Rightarrow> byte list" where
  "fill_bytes s n = (case s of AStr t \<Rightarrow> if t = [] then replicate n 0 else cycle t n | AMem _ _ \<Rightarrow> replicate n 0)"

lemma mem_resize_contents:
  assumes arg: "arg L 1 = Some (LUser u)" "users h u = Some (URef r)" "unref r = Some luamem_free"
    and sz: "luamem_checklenarg api L 2 = Inr sz"
    and fill: "luamem_optarray api h L 3 None = Inr s" "s = AMem None 0 \<or> (\<exists>t. s = AStr t)"
    and old: "read_mem h (mem r) (len r) = Some old" and mem: "\<not> alloc_fails api sz" "sz \<noteq> 0"
  shows "\<exists>h' p. mem_resize api uninit L h = (Inr [], h') \<and>
    users h' u = Some (URef \<lparr>mem = p, len = sz, unref = Some luamem_free\<rparr>) \<and>
    read_mem h' p sz = Some (take sz old @ fill_bytes s (sz - len r))"
proof -
  have lo: "length old = len r" using read_mem_length [OF old] .
  have tm: "luamem_tomemoryx h (arg L 1) = (TREF, mem r, len r, Some luamem_free)"
    using arg by (simp add: luamem_tomemoryx_def)
  show ?thesis
  proof (cases "len r = sz")
    case True
    have "mem_resize api uninit L h = (Inr [], h)"
      unfolding mem_resize_def tm using sz True by (simp add: argcheck_def)
    moreover have "fill_bytes s 0 = []" using fill(2) by (auto simp: fill_bytes_def cycle_def)
    moreover have "r = \<lparr>mem = mem r, len = len r, unref = unref r\<rparr>" by simp
    ultimately show ?thesis using arg old lo True by (intro exI [of _ h] exI [of _ "mem r"]) auto
  next
    case ne: False
    define b where "b = next_block h"
    define h0 where "h0 = free_block (mem r) h"
    define c where "c = take sz (old @ uninit @ replicate sz 0)"
    have nb: "next_block h0 = b" "users h0 = users h"
      by (auto simp: h0_def b_def free_block_def split: option.split)
    define h1 where "h1 = h0\<lparr>blocks := (blocks h0)(b \<mapsto> c), next_block := Suc b\<rparr>"
    have re: "luamem_realloc api uninit (mem r) (len r) sz h = (Some (b, 0), h1)"
      using mem old nb by (simp add: luamem_realloc_def alloc_block_def h1_def c_def h0_def [symmetric])
    define h2 where "h2 = h1\<lparr>users := (users h1)(u \<mapsto> URef \<lparr>mem = Some (b, 0), len = sz, unref = Some luamem_free\<rparr>)\<rparr>"
    have rs: "luamem_resetref (arg L 1) (Some (b, 0)) sz (Some luamem_free) False h1 = (True, h2)"
      using arg nb by (simp add: luamem_resetref_def h1_def h2_def)
    have lc: "length c = sz" by (simp add: c_def)
    have rd: "read_mem h2 (Some (b, 0)) sz = Some c" using lc mem(2) by (simp add: read_mem_def h2_def h1_def)
    define n where "n = (if len r < sz then sz - len r else 0)"
    have eq: "mem_resize api uninit L h = (if n = 0 then (Inr [], h2)
        else onE h2 (if arr_len s \<noteq> 0 then memfill h2 (ptr_add (Some (b, 0)) (len r)) n s 0 (arr_len s)
             else optE UBerr (write_mem h2 (ptr_add (Some (b, 0)) (len r)) (replicate n 0))) (\<lambda>h3. (Inr [], h3)))"
      unfolding mem_resize_def tm using sz fill(1) ne re rs mem(2)
      by (simp add: argcheck_def Let_def n_def [symmetric] del: optE_Some)
    have u2: "users h2 u = Some (URef \<lparr>mem = Some (b, 0), len = sz, unref = Some luamem_free\<rparr>)"
      by (simp add: h2_def)
    show ?thesis
    proof (cases "len r < sz")
      case False
      then have "n = 0" "c = take sz old" "sz - len r = 0" using lo ne by (simp_all add: n_def c_def)
      moreover have "fill_bytes s 0 = []" using fill(2) by (auto simp: fill_bytes_def cycle_def)
      ultimately show ?thesis using eq u2 rd by auto
    next
      case True
      then have n: "n = sz - len r" "n \<noteq> 0" "len r + n = sz" by (simp_all add: n_def)
      have v: "valid_range h2 (ptr_add (Some (b, 0)) (len r)) n"
        using lc n by (simp add: valid_range_def ptr_add_def h2_def h1_def)
      have lf: "length (fill_bytes s n) = n" by (simp add: fill_bytes_def split: arr.split)
      have st: "(if arr_len s \<noteq> 0 then memfill h2 (ptr_add (Some (b, 0)) (len r)) n s 0 (arr_len s)
             else optE UBerr (write_mem h2 (ptr_add (Some (b, 0)) (len r)) (replicate n 0)))
           = optE UBerr (write_mem h2 (ptr_add (Some (b, 0)) (len r)) (fill_bytes s n))"
        using fill(2) memfill_cycle [OF v, of 0] by (auto simp: fill_bytes_def)
      obtain h3 where h3: "write_mem h2 (ptr_add (Some (b, 0)) (len r)) (fill_bytes s n) = Some h3"
        using valid_range_write [OF v, of 0 "fill_bytes s n"] lf by auto
      have "read_mem h3 (Some (b, 0)) sz = Some (blit c (len r) (fill_bytes s n))"
        using read_write_inside [OF rd _ h3] lf n by simp
      moreover have "blit c (len r) (fill_bytes s n) = old @ fill_bytes s n"
        using lf n lo lc True by (simp add: blit_def c_def)
      moreover have "users h3 u = users h2 u" using write_mem_users [OF h3] by simp
      moreover have "mem_resize api uninit L h = (Inr [], h3)"
        unfolding eq st h3 using n(2) by simp
      ultimately show ?thesis using u2 n True lo by auto
    qed
  qed
qed

text \<open>
  A memory object used to fill its own growth is read after it was freed.
\<close>

lemma mem_resize_self:
  assumes arg: "arg L 1 = Some (LUser u)" "arg L 3 = Some (LUser u)" "users h u = Some (URef r)"
      "unref r = Some luamem_free" "mem r = Some (b, off)" "0 < len r"
    and sz: "luamem_checklenarg api L 2 = Inr sz" "len r < sz" and mem: "\<not> alloc_fails api sz"
    and old: "read_mem h (mem r) (len r) = Some old" "b < next_block h"
  shows "fst (mem_resize api uninit L h) = Inl UBerr"
proof -
  have tm: "luamem_tomemoryx h (arg L 1) = (TREF, mem r, len r, Some luamem_free)"
    using arg by (simp add: luamem_tomemoryx_def)
  have s: "luamem_optarray api h L 3 None = Inr (AMem (Some (b, off)) (len r))"
    using arg by (simp add: luamem_optarray_def isnoneornil_def luamem_checkarray_def luamem_tomemoryx_def)
  define h1 where "h1 = snd (luamem_realloc api uninit (mem r) (len r) sz h)"
  define q where "q = fst (luamem_realloc api uninit (mem r) (len r) sz h)"
  have re: "luamem_realloc api uninit (mem r) (len r) sz h = (q, h1)" by (simp add: q_def h1_def)
  have q: "q = Some (next_block h, 0)" and nob: "blocks h1 b = None"
    using mem sz(2) old arg(5) by (auto simp: q_def h1_def luamem_realloc_def alloc_block_def free_block_def)
  define h2 where "h2 = snd (luamem_resetref (arg L 1) q sz (Some luamem_free) False h1)"
  obtain ok where rs: "luamem_resetref (arg L 1) q sz (Some luamem_free) False h1 = (ok, h2)"
    by (cases "luamem_resetref (arg L 1) q sz (Some luamem_free) False h1") (simp add: h2_def)
  have nob2: "blocks h2 b = None"
    using nob by (simp add: h2_def luamem_resetref_def Let_def split: option.splits lval.splits userdata.splits)
  have "memfill h2 p n (AMem (Some (b, off)) (len r)) 0 (len r) = Inl UBerr" if "0 < n" for p n
    using that nob2 arg(6) by (subst memfill.simps) (simp add: arr_read_def read_mem_def ptr_add_def)
  then show ?thesis
    unfolding mem_resize_def tm using sz s re rs q arg(6) by (simp add: argcheck_def Let_def)
qed

end
