(* ===== verification/LuaPack.thy ===== *)
theory LuaPack
  imports LuaMemLib
begin

text \<open>
  The packing half of \<open>src/lua/memory/lmemlib.c\<close>: format strings, \<open>mem_pack\<close> and
  \<open>mem_unpack\<close>. A format is the C string up to its first zero byte. Option sizes are
  those of the platform: \<open>short\<close> 2, \<open>int\<close> and \<open>float\<close> 4, \<open>long\<close>, \<open>size_t\<close>,
  \<open>lua_Integer\<close> and \<open>lua_Number\<close> 8, maximum alignment 8, little-endian. Positions and
  sizes are natural numbers: they are bounded by the length of the memory. Growing the Lua
  stack (\<open>luaL_checkstack\<close>) is taken to succeed.
\<close>

section \<open>Format strings\<close>

datatype KOption =
    Kint | Kuint | Kfloat | Kchar | Kstring | Kzstr | Kpadding | Kpaddalign | Knop

record Header =
  islittle :: bool
  maxalign :: nat

definition MAXINTSIZE :: int where "MAXINTSIZE = 16"
definition MAXALIGN :: int where "MAXALIGN = 8"
definition SZINT :: nat where "SZINT = 8"

definition initheader :: Header where
  "initheader = \<lparr>islittle = True, maxalign = 1\<rparr>"

definition digit :: "char \<Rightarrow> bool" where
  "digit c = (48 \<le> (of_char c :: nat) \<and> (of_char c :: nat) \<le> 57)"

fun digit_head :: "string \<Rightarrow> bool" where
  "digit_head [] = False"
| "digit_head (c # _) = digit c"

text \<open>The do-while loop of \<open>getnum\<close>: it stops before the number could overflow an \<open>int\<close>.\<close>

fun getnum_loop :: "nat \<Rightarrow> string \<Rightarrow> nat \<times> string" where
  "getnum_loop a [] = (a, [])"
| "getnum_loop a (c # cs) =
     (let a' = a * 10 + (of_char c - 48) in
      if digit_head cs \<and> int a' \<le> (LUAMEM_MAXSIZE - 9) div 10 then getnum_loop a' cs else (a', cs))"

definition getnum :: "string \<Rightarrow> int \<Rightarrow> int \<times> string" where
  "getnum fmt df =
     (if \<not> digit_head fmt then (df, fmt)
      else (case getnum_loop 0 fmt of (a, rest) \<Rightarrow> (int a, rest)))"

definition getnumlimit :: "string \<Rightarrow> int \<Rightarrow> lerr + (int \<times> string)" where
  "getnumlimit fmt df =
     (case getnum fmt df of (sz, rest) \<Rightarrow>
        if sz > MAXINTSIZE \<or> sz \<le> 0
        then Inl (LuaError (''integral size ('' @ show_int sz @ '') out of limits [1,16]''))
        else Inr (sz, rest))"

text \<open>
  \<open>getoption\<close> reads one option (the format is not empty): its kind, the header it leaves
  behind, its size and the rest of the format.
\<close>

definition getoption :: "Header \<Rightarrow> string \<Rightarrow> lerr + (KOption \<times> Header \<times> int \<times> string)" where
  "getoption h fmt =
     (case fmt of [] \<Rightarrow> Inl UBerr
      | opt # cs \<Rightarrow>
          if opt = CHR ''b'' then Inr (Kint, h, 1, cs)
          else if opt = CHR ''B'' then Inr (Kuint, h, 1, cs)
          else if opt = CHR ''h'' then Inr (Kint, h, 2, cs)
          else if opt = CHR ''H'' then Inr (Kuint, h, 2, cs)
          else if opt = CHR ''l'' then Inr (Kint, h, 8, cs)
          else if opt = CHR ''L'' then Inr (Kuint, h, 8, cs)
          else if opt = CHR ''j'' then Inr (Kint, h, 8, cs)
          else if opt = CHR ''J'' then Inr (Kuint, h, 8, cs)
          else if opt = CHR ''T'' then Inr (Kuint, h, 8, cs)
          else if opt = CHR ''f'' then Inr (Kfloat, h, 4, cs)
          else if opt = CHR ''d'' then Inr (Kfloat, h, 8, cs)
          else if opt = CHR ''n'' then Inr (Kfloat, h, 8, cs)
          else if opt = CHR ''i'' then bindE (getnumlimit cs 4) (\<lambda>(sz, cs). Inr (Kint, h, sz, cs))
          else if opt = CHR ''I'' then bindE (getnumlimit cs 4) (\<lambda>(sz, cs). Inr (Kuint, h, sz, cs))
          else if opt = CHR ''s'' then bindE (getnumlimit cs 8) (\<lambda>(sz, cs). Inr (Kstring, h, sz, cs))
          else if opt = CHR ''c'' then
            (case getnum cs (-1) of (sz, cs) \<Rightarrow>
               if sz = -1 then Inl (LuaError (''missing size for format option '' @ [CHR 0x27, CHR ''c'', CHR 0x27]))
               else Inr (Kchar, h, sz, cs))
          else if opt = CHR ''z'' then Inr (Kzstr, h, 0, cs)
          else if opt = CHR ''x'' then Inr (Kpadding, h, 1, cs)
          else if opt = CHR ''X'' then Inr (Kpaddalign, h, 0, cs)
          else if opt = CHR '' '' then Inr (Knop, h, 0, cs)
          else if opt = CHR ''<'' then Inr (Knop, h\<lparr>islittle := True\<rparr>, 0, cs)
          else if opt = CHR ''>'' then Inr (Knop, h\<lparr>islittle := False\<rparr>, 0, cs)
          else if opt = CHR ''='' then Inr (Knop, h\<lparr>islittle := True\<rparr>, 0, cs)
          else if opt = CHR ''!'' then
            bindE (getnumlimit cs MAXALIGN) (\<lambda>(sz, cs). Inr (Knop, h\<lparr>maxalign := nat sz\<rparr>, 0, cs))
          else Inl (LuaError (''invalid format option '' @ [CHR 0x27, opt, CHR 0x27])))"

text \<open>
  \<open>getdetails\<close>: kind, header, size, bytes to skip for alignment, rest of the format. The
  bit trick \<open>(align & (align - 1)) != 0\<close> and the padding computation are kept as they are.
\<close>

definition getdetails :: "Header \<Rightarrow> nat \<Rightarrow> string \<Rightarrow> lerr + (KOption \<times> Header \<times> int \<times> nat \<times> string)" where
  "getdetails h totalsize fmt =
     bindE (getoption h fmt) (\<lambda>(opt, h, psize, fmt).
     bindE
       (if opt = Kpaddalign then
          (case fmt of [] \<Rightarrow> Inl (ArgError 1 (''invalid next option for option '' @ [CHR 0x27, CHR ''X'', CHR 0x27]))
           | _ \<Rightarrow>
               bindE (getoption h fmt) (\<lambda>(opt2, h2, align, fmt2).
               if opt2 = Kchar \<or> align = 0
               then Inl (ArgError 1 (''invalid next option for option '' @ [CHR 0x27, CHR ''X'', CHR 0x27]))
               else Inr (align, h2, fmt2)))
        else Inr (psize, h, fmt))
       (\<lambda>(align, h, fmt).
        if align \<le> 1 \<or> opt = Kchar then Inr (opt, h, psize, 0, fmt)
        else
          let align = min (nat align) (maxalign h) in
          if align AND (align - 1) \<noteq> 0
          then Inl (ArgError 1 ''format asks for alignment not power of 2'')
          else Inr (opt, h, psize,
                    (align - (totalsize AND (align - 1))) AND (align - 1), fmt)))"

lemma getnum_loop_shorter: "getnum_loop a fmt = (n, rest) \<Longrightarrow> length rest \<le> length fmt"
  by (induction a fmt rule: getnum_loop.induct) (fastforce simp: Let_def split: if_splits)+

lemma getnum_shorter: "getnum fmt df = (n, rest) \<Longrightarrow> length rest \<le> length fmt"
  by (auto simp: getnum_def dest: getnum_loop_shorter split: if_splits prod.splits)

lemma getnumlimit_result:
  assumes "getnumlimit fmt df = Inr (n, rest)"
  shows "length rest \<le> length fmt" and "1 \<le> n \<and> n \<le> 16"
  using assms by (auto simp: getnumlimit_def MAXINTSIZE_def dest: getnum_shorter split: if_splits prod.splits)

lemma getoption_shorter:
  assumes "getoption h fmt = Inr (opt, h', sz, rest)"
  shows "length rest < length fmt"
proof (cases fmt)
  case Nil
  then show ?thesis using assms by (simp add: getoption_def)
next
  case (Cons c cs)
  have "length rest \<le> length cs"
    using assms unfolding Cons getoption_def list.case
    by (auto simp: bindE_eq_Inr dest!: getnumlimit_result(1) getnum_shorter split: if_splits prod.splits)
  then show ?thesis by (simp add: Cons)
qed

lemma getdetails_shorter:
  assumes "getdetails h pos fmt = Inr (opt, h', sz, al, rest)"
  shows "length rest < length fmt"
proof (cases "getoption h fmt")
  case (Inl e)
  then show ?thesis using assms by (simp add: getdetails_def)
next
  case (Inr r)
  then obtain o1 h1 s1 fmt1 where 1: "getoption h fmt = Inr (o1, h1, s1, fmt1)" by (cases r) auto
  note sh = getoption_shorter [OF 1]
  show ?thesis
  proof (cases "o1 = Kpaddalign")
    case False
    with assms 1 sh show ?thesis
      by (simp add: getdetails_def Let_def split: if_splits)
  next
    case True
    show ?thesis
    proof (cases "fmt1 = [] \<or> (\<exists>e. getoption h1 fmt1 = Inl e)")
      case True
      with \<open>o1 = Kpaddalign\<close> assms 1 show ?thesis by (cases fmt1) (auto simp: getdetails_def)
    next
      case False
      then obtain o2 h2 s2 fmt2 where 2: "getoption h1 fmt1 = Inr (o2, h2, s2, fmt2)" "fmt1 \<noteq> []"
        by (cases "getoption h1 fmt1") auto
      then have "rest = fmt2" using \<open>o1 = Kpaddalign\<close> assms 1
        by (cases fmt1) (simp_all add: getdetails_def Let_def split: if_splits)
      with getoption_shorter [OF 2(1)] sh show ?thesis by simp
    qed
  qed
qed

section \<open>Packing\<close>

text \<open>
  The cursor of \<open>mem_pack\<close> is the position \<open>i\<close>: the C pointer \<open>mem\<close> always is the start of
  the memory \<open>p\<close> plus \<open>i\<close>. \<open>getbytes\<close> yields the cursor and the position behind the
  bytes; the C function returns the pointer, which is null also when the memory itself is
  the null pointer, even for zero bytes.
\<close>

definition getbytes :: "ptr option \<Rightarrow> nat \<Rightarrow> nat \<Rightarrow> nat \<Rightarrow> (ptr option \<times> nat) option" where
  "getbytes p i lb sz =
     (let newtotal = i + sz in
      if newtotal \<le> lb \<and> p \<noteq> None then Some (ptr_add p i, newtotal) else None)"

definition cformat :: "lua_api \<Rightarrow> lval list \<Rightarrow> nat \<Rightarrow> lerr + string" where
  "cformat api L i =
     (case arg L i of None \<Rightarrow> Inl (TypeError i ''string'')
      | Some v \<Rightarrow> bindE (optE (TypeError i ''string'') (tolstring api v)) (\<lambda>bs.
          Inr (string_of (takeWhile (\<lambda>b. b \<noteq> 0) bs))))"

text \<open>
  \<open>lua_tolstring\<close> replaces a number on the stack by its string, which shows among the
  values a failed packing returns.
\<close>

definition convert_arg :: "lua_api \<Rightarrow> lval list \<Rightarrow> nat \<Rightarrow> lval list" where
  "convert_arg api L i =
     (if is_number (arg L i)
      then (case tolstring api (L ! (i - 1)) of Some bs \<Rightarrow> L[i - 1 := LStr bs] | None \<Rightarrow> L)
      else L)"

text \<open>
  What a step of the packing loop comes to: the next position, or the failure at a position
  for lack of room, with the stack as it is then.
\<close>

datatype packstep = PackNext nat | PackFail nat "lval list"

definition packfailed :: "lval list \<Rightarrow> nat \<Rightarrow> nat \<Rightarrow> lval list" where
  "packfailed L i ar = [LBool False, LInt (u64_len (i + 1))] @ drop (ar - 1) L"

fun int_digits :: "nat \<Rightarrow> u64 \<Rightarrow> byte list" where
  "int_digits 0 n = []"
| "int_digits (Suc k) n = ucast (n AND 255) # int_digits k (drop_bit 8 n)"

text \<open>The bytes of an integer, first digit first; digits past the eighth correct the sign.\<close>

definition packint_bytes :: "u64 \<Rightarrow> bool \<Rightarrow> nat \<Rightarrow> bool \<Rightarrow> byte list" where
  "packint_bytes n little sz neg =
     (let ds = int_digits sz n;
          ds = (if neg \<and> sz > SZINT then take SZINT ds @ replicate (sz - SZINT) 255 else ds)
      in if little then ds else rev ds)"

definition packint ::
  "ptr option \<Rightarrow> nat \<Rightarrow> nat \<Rightarrow> u64 \<Rightarrow> bool \<Rightarrow> nat \<Rightarrow> bool \<Rightarrow> heap \<Rightarrow> lerr + (nat \<times> heap) option" where
  "packint p i lb n little sz neg h =
     (case getbytes p i lb sz of
        None \<Rightarrow> Inr None
      | Some (buff, i') \<Rightarrow>
          bindE (optE UBerr (write_mem h buff (packint_bytes n little sz neg))) (\<lambda>h'. Inr (Some (i', h'))))"

definition packchar :: "ptr option \<Rightarrow> nat \<Rightarrow> nat \<Rightarrow> byte \<Rightarrow> heap \<Rightarrow> lerr + (nat \<times> heap) option" where
  "packchar p i lb c h =
     (if i < lb
      then bindE (optE UBerr (write_mem h (ptr_add p i) [c])) (\<lambda>h'. Inr (Some (i + 1, h')))
      else Inr None)"

text \<open>\<open>memcpy\<close> between overlapping ranges is undefined.\<close>

definition overlap :: "ptr option \<Rightarrow> arr \<Rightarrow> nat \<Rightarrow> bool" where
  "overlap d s n =
     (case (d, s) of
        (Some (b, off), AMem (Some (b', off')) _) \<Rightarrow> b = b' \<and> off < off' + n \<and> off' < off + n
      | _ \<Rightarrow> False)"

definition packstream :: "ptr option \<Rightarrow> nat \<Rightarrow> nat \<Rightarrow> arr \<Rightarrow> nat \<Rightarrow> heap \<Rightarrow> lerr + (nat \<times> heap) option" where
  "packstream p i lb s sl h =
     (if sl > 0 then
        (case getbytes p i lb sl of
           None \<Rightarrow> Inr None
         | Some (d, i') \<Rightarrow>
             if overlap d s sl then Inl UBerr
             else bindE (optE UBerr (arr_read h s 0 sl)) (\<lambda>bs.
                  bindE (optE UBerr (write_mem h d bs)) (\<lambda>h'. Inr (Some (i', h')))))
      else Inr (Some (i, h)))"

definition copywithendian :: "byte list \<Rightarrow> bool \<Rightarrow> byte list" where
  "copywithendian bs little = (if little then bs else rev bs)"

definition float_bytes :: "lua_api \<Rightarrow> dbl \<Rightarrow> nat \<Rightarrow> byte list" where
  "float_bytes api n sz = (if sz = 4 then le_bytes 4 (unat (to_float api n)) else le_bytes 8 (unat n))"

text \<open>The body of the switch of \<open>mem_pack\<close>, after the alignment bytes were skipped.\<close>

type_synonym pres = "(lerr + packstep) \<times> heap"

definition on_fit :: "heap \<Rightarrow> lerr + (nat \<times> heap) option \<Rightarrow> pres \<Rightarrow> (nat \<Rightarrow> heap \<Rightarrow> pres) \<Rightarrow> pres" where
  "on_fit h m fail f =
     (case m of Inl e \<Rightarrow> (Inl e, h) | Inr None \<Rightarrow> fail | Inr (Some (i, h')) \<Rightarrow> f i h')"

definition onP :: "heap \<Rightarrow> lerr + 'a \<Rightarrow> ('a \<Rightarrow> pres) \<Rightarrow> pres" where
  "onP h m f = (case m of Inl e \<Rightarrow> (Inl e, h) | Inr x \<Rightarrow> f x)"

definition pack_item ::
  "lua_api \<Rightarrow> lval list \<Rightarrow> ptr option \<Rightarrow> nat \<Rightarrow> KOption \<Rightarrow> bool \<Rightarrow> nat \<Rightarrow> nat \<Rightarrow> nat \<Rightarrow> heap \<Rightarrow> pres" where
  "pack_item api L p lb opt little sz i ar h =
     (case opt of
        Kint \<Rightarrow>
          onP h (checkinteger api L ar) (\<lambda>n.
          onP h (argcheck (sz \<ge> SZINT \<or>
                   (let lim = 2 ^ (sz * 8 - 1) in - lim \<le> sint n \<and> sint n < lim)) ar ''integer overflow'') (\<lambda>_.
          on_fit h (packint p i lb n little sz (sint n < 0) h) (Inr (PackFail i L), h) (\<lambda>i h. (Inr (PackNext i), h))))
      | Kuint \<Rightarrow>
          onP h (checkinteger api L ar) (\<lambda>n.
          onP h (argcheck (sz \<ge> SZINT \<or> unat n < 2 ^ (sz * 8)) ar ''unsigned overflow'') (\<lambda>_.
          on_fit h (packint p i lb n little sz False h) (Inr (PackFail i L), h) (\<lambda>i h. (Inr (PackNext i), h))))
      | Kfloat \<Rightarrow>
          (case getbytes p i lb sz of
             None \<Rightarrow> (Inr (PackFail i L), h)
           | Some (d, i') \<Rightarrow>
               onP h (checknumber api L ar) (\<lambda>n.
               onP h (optE UBerr (write_mem h d (copywithendian (float_bytes api n sz) little))) (\<lambda>h.
               (Inr (PackNext i'), h))))
      | Kchar \<Rightarrow>
          onP h (luamem_checkarray api h L ar) (\<lambda>s.
          onP h (argcheck (arr_len s = sz) ar ''wrong length'') (\<lambda>_.
          on_fit h (packstream p i lb s sz h) (Inr (PackFail i (convert_arg api L ar)), h)
            (\<lambda>i h. (Inr (PackNext i), h))))
      | Kstring \<Rightarrow>
          onP h (luamem_checkarray api h L ar) (\<lambda>s.
          let ln = arr_len s; fail = (\<lambda>i h. (Inr (PackFail i (convert_arg api L ar)), h)) in
          onP h (argcheck (sz \<ge> 8 \<or> ln < 2 ^ (sz * 8)) ar ''string length does not fit in given size'') (\<lambda>_.
          on_fit h (packint p i lb (u64_len ln) little sz False h) (fail i h) (\<lambda>i h.
          on_fit h (packstream p i lb s ln h) (fail i h) (\<lambda>i h. (Inr (PackNext i), h)))))
      | Kzstr \<Rightarrow>
          onP h (luamem_checkarray api h L ar) (\<lambda>s.
          let ln = arr_len s; fail = (\<lambda>i h. (Inr (PackFail i (convert_arg api L ar)), h)) in
          onP h (optE UBerr (arr_read h s 0 ln)) (\<lambda>bs.
          onP h (argcheck (memchr bs 0 ln = None) ar ''string contains zeros'') (\<lambda>_.
          on_fit h (packstream p i lb s ln h) (fail i h) (\<lambda>i h.
          on_fit h (packchar p i lb 0 h) (fail i h) (\<lambda>i h. (Inr (PackNext i), h))))))
      | Kpadding \<Rightarrow>
          (case getbytes p i lb 1 of None \<Rightarrow> (Inr (PackFail i L), h) | Some (_, i') \<Rightarrow> (Inr (PackNext i'), h))
      | Kpaddalign \<Rightarrow> (Inr (PackNext i), h)
      | Knop \<Rightarrow> (Inr (PackNext i), h))"

definition takes_arg :: "KOption \<Rightarrow> bool" where
  "takes_arg opt = (opt \<notin> {Kpadding, Kpaddalign, Knop})"

text \<open>The loop over the format; \<open>ar\<close> is the last argument used.\<close>

function mem_pack_loop ::
  "lua_api \<Rightarrow> lval list \<Rightarrow> ptr option \<Rightarrow> nat \<Rightarrow> Header \<Rightarrow> string \<Rightarrow> nat \<Rightarrow> nat \<Rightarrow> heap \<Rightarrow> lres" where
  "mem_pack_loop api L p lb hr fmt i ar h =
     (if fmt = [] then (Inr [LBool True, LInt (u64_len (i + 1))], h)
      else case getdetails hr i fmt of
        Inl e \<Rightarrow> (Inl e, h)
      | Inr (opt, hr', sz, ntoalign, rest) \<Rightarrow>
          (case getbytes p i lb ntoalign of
             None \<Rightarrow> (Inr (packfailed L i (ar + 1)), h)
           | Some (_, i) \<Rightarrow>
               (case pack_item api L p lb opt (islittle hr') (nat sz) i (ar + 1) h of
                  (Inl e, h') \<Rightarrow> (Inl e, h')
                | (Inr (PackFail i' L'), h') \<Rightarrow> (Inr (packfailed L' i' (ar + 1)), h')
                | (Inr (PackNext i'), h') \<Rightarrow>
                    mem_pack_loop api L p lb hr' rest i' (if takes_arg opt then ar + 1 else ar) h')))"
  by pat_completeness auto
termination
  by (relation "measure (\<lambda>(api, L, p, lb, hr, fmt, i, ar, h). length fmt)")
    (auto dest: getdetails_shorter)

declare mem_pack_loop.simps [simp del]

definition mem_pack :: "lua_api \<Rightarrow> lval list \<Rightarrow> heap \<Rightarrow> lres" where
  "mem_pack api L h =
     onE h (luamem_checkmemory h L 1) (\<lambda>(p, lb).
     onE h (cformat api L 2) (\<lambda>fmt.
     onE h (checkinteger api L 3) (\<lambda>pos.
     let i = posrelatI pos (u64_len lb) - 1 in
     onE h (argcheck (i \<le> u64_len lb) 3 ''index out of bounds'') (\<lambda>_.
     mem_pack_loop api L p lb initheader fmt (unat i) 3 h))))"

section \<open>Unpacking\<close>

fun undigits :: "byte list \<Rightarrow> u64" where
  "undigits [] = 0"
| "undigits (b # bs) = push_bit 8 (undigits bs) OR ucast b"

definition unpackint :: "byte list \<Rightarrow> bool \<Rightarrow> nat \<Rightarrow> bool \<Rightarrow> lerr + u64" where
  "unpackint str little sz issigned =
     (let ds = (if little then take sz str else rev (take sz str));
          lim = (if sz \<le> SZINT then sz else SZINT);
          res = undigits (take lim ds) in
      if sz < SZINT then
        (if issigned
         then (let mask = push_bit (sz * 8 - 1) 1 in Inr ((res XOR mask) - mask))
         else Inr res)
      else if sz > SZINT then
        (let mask = (if \<not> issigned \<or> sint res \<ge> 0 then 0 else 255) in
         if \<exists>b \<in> set (drop lim ds). b \<noteq> mask
         then Inl (LuaError (show_nat sz @ ''-byte integer does not fit into Lua Integer''))
         else Inr res)
      else Inr res)"

definition float_of_bytes :: "lua_api \<Rightarrow> byte list \<Rightarrow> nat \<Rightarrow> dbl" where
  "float_of_bytes api bs sz =
     (if sz = 4 then of_float api (word_of_nat (le_nat bs)) else word_of_nat (le_nat bs))"

text \<open>One option of \<open>mem_unpack\<close>: the value it yields, if any, and the next position.\<close>

definition unpack_item ::
  "lua_api \<Rightarrow> ptr option \<Rightarrow> nat \<Rightarrow> KOption \<Rightarrow> bool \<Rightarrow> nat \<Rightarrow> nat \<Rightarrow> heap \<Rightarrow> lerr + (lval list \<times> nat)" where
  "unpack_item api p ld opt little sz pos h =
     (let rd = (\<lambda>off n. optE UBerr (read_mem h (ptr_add p off) n)) in
      case opt of
        Kint \<Rightarrow> bindE (rd pos sz) (\<lambda>bs. bindE (unpackint bs little sz True) (\<lambda>n. Inr ([LInt n], pos + sz)))
      | Kuint \<Rightarrow> bindE (rd pos sz) (\<lambda>bs. bindE (unpackint bs little sz False) (\<lambda>n. Inr ([LInt n], pos + sz)))
      | Kfloat \<Rightarrow> bindE (rd pos sz) (\<lambda>bs.
          Inr ([LFlt (float_of_bytes api (copywithendian bs little) sz)], pos + sz))
      | Kchar \<Rightarrow> bindE (rd pos sz) (\<lambda>bs. Inr ([LStr bs], pos + sz))
      | Kstring \<Rightarrow>
          bindE (rd pos sz) (\<lambda>bs.
          bindE (unpackint bs little sz False) (\<lambda>n.
          bindE (argcheck (unat n \<le> ld - pos - sz) 2 ''data string too short'') (\<lambda>_.
          bindE (rd (pos + sz) (unat n)) (\<lambda>s. Inr ([LStr s], pos + unat n + sz)))))
      | Kzstr \<Rightarrow>
          bindE (rd pos (ld - pos)) (\<lambda>bs.
          case memchr bs 0 (ld - pos) of
            None \<Rightarrow> Inl (ArgError 2 (''unfinished string for format '' @ [CHR 0x27] @ ''z'' @ [CHR 0x27]))
          | Some k \<Rightarrow> Inr ([LStr (take k bs)], pos + (k + 1) + sz))
      | Kpadding \<Rightarrow> Inr ([], pos + sz)
      | Kpaddalign \<Rightarrow> Inr ([], pos + sz)
      | Knop \<Rightarrow> Inr ([], pos + sz))"

function mem_unpack_loop ::
  "lua_api \<Rightarrow> ptr option \<Rightarrow> nat \<Rightarrow> Header \<Rightarrow> string \<Rightarrow> nat \<Rightarrow> heap \<Rightarrow> lerr + lval list" where
  "mem_unpack_loop api p ld hr fmt pos h =
     (if fmt = [] then Inr [LInt (u64_len (pos + 1))]
      else case getdetails hr pos fmt of
        Inl e \<Rightarrow> Inl e
      | Inr (opt, hr', sz, ntoalign, rest) \<Rightarrow>
          bindE (argcheck (ntoalign + nat sz \<le> ld - pos) 2 ''data string too short'') (\<lambda>_.
          case unpack_item api p ld opt (islittle hr') (nat sz) (pos + ntoalign) h of
            Inl e \<Rightarrow> Inl e
          | Inr (vs, pos') \<Rightarrow>
              bindE (mem_unpack_loop api p ld hr' rest pos' h) (\<lambda>ws. Inr (vs @ ws))))"
  by pat_completeness auto
termination
  by (relation "measure (\<lambda>(api, p, ld, hr, fmt, pos, h). length fmt)")
    (auto dest: getdetails_shorter)

declare mem_unpack_loop.simps [simp del]

definition mem_unpack :: "lua_api \<Rightarrow> lval list \<Rightarrow> heap \<Rightarrow> lres" where
  "mem_unpack api L h =
     onE h (luamem_checkmemory h L 1) (\<lambda>(p, ld).
     onE h (cformat api L 2) (\<lambda>fmt.
     onE h (optinteger api L 3 1) (\<lambda>ps.
     let pos = posrelatI ps (u64_len ld) - 1 in
     onE h (argcheck (pos \<le> u64_len ld) 3 ''index out of bounds'') (\<lambda>_.
     (mem_unpack_loop api p ld initheader fmt (unat pos) h, h)))))"

section \<open>Integers come back\<close>

lemma length_int_digits [simp]: "length (int_digits k n) = k"
  by (induction k arbitrary: n) auto

lemma undigits_int_digits: "undigits (int_digits k n) = take_bit (8 * k) n"
proof (induction k arbitrary: n)
  case (Suc k)
  have "bit (undigits (int_digits (Suc k) n)) j = bit (take_bit (8 * Suc k) n) j" if "j < 64" for j
  proof (cases "j < 8")
    case True
    then have "bit (255 :: u64) j"
      by (simp add: numeral_eq_Suc less_Suc_eq) (auto simp: bit_simps)
    with True that show ?thesis by (simp add: Suc bit_simps)
  next
    case False
    with that show ?thesis by (auto simp: Suc bit_simps)
  qed
  then show ?case by (simp add: bit_eq_iff bit_simps)
qed simp

lemma take_int_digits: "j \<le> k \<Longrightarrow> take j (int_digits k n) = int_digits j n"
proof (induction k arbitrary: j n)
  case (Suc k)
  then show ?case by (cases j) auto
qed simp

lemma drop_int_digits: "drop j (int_digits k n) = int_digits (k - j) (drop_bit (8 * j) n)"
proof (induction k arbitrary: j n)
  case (Suc k)
  then show ?case by (cases j) (auto simp: drop_bit_drop_bit add.commute)
qed simp

lemma int_digits_0 [simp]: "int_digits k 0 = replicate k 0"
  by (induction k) auto

lemma length_packint_bytes [simp]: "length (packint_bytes n little sz neg) = sz"
  by (simp add: packint_bytes_def SZINT_def Let_def)

lemma xor_mask_minus:
  fixes w :: u64
  shows "(w XOR push_bit k 1) - push_bit k 1 = w - push_bit (Suc k) 1 * of_bool (bit w k)"
proof (cases "bit w k")
  case True
  have "(w XOR push_bit k 1) AND push_bit k 1 = 0" using True by (auto intro!: bit_word_eqI simp: bit_simps)
  moreover have "w = (w XOR push_bit k 1) OR push_bit k 1" using True
    by (auto intro!: bit_word_eqI simp: bit_simps)
  ultimately have "w = (w XOR push_bit k 1) + push_bit k 1" by (metis disjunctive_add_eq_or)
  then have "w XOR push_bit k 1 = w - push_bit k 1" by (metis add_diff_cancel_right')
  then show ?thesis using True by (simp add: push_bit_Suc push_bit_eq_mult mult.commute)
next
  case False
  have "w AND push_bit k 1 = 0" using False by (auto intro!: bit_word_eqI simp: bit_simps)
  then have "w XOR push_bit k 1 = w + push_bit k 1" by (metis disjunctive_add_eq_xor)
  then show ?thesis using False by simp
qed

lemma sign_extend_take_bit:
  fixes n :: u64
  shows "(take_bit (Suc k) n XOR push_bit k 1) - push_bit k 1 = signed_take_bit k n"
  unfolding xor_mask_minus signed_take_bit_eq_take_bit_minus by (simp add: bit_simps push_bit_eq_mult)

lemma signed_take_bit_fits:
  fixes n :: u64
  assumes "- (2 ^ k) \<le> sint n" and "sint n < 2 ^ k" and "k < 64"
  shows "signed_take_bit k n = n"
proof (rule bit_word_eqI)
  fix j assume j: "j < LENGTH(64)"
  have "signed_take_bit k (sint n) = sint n" using assms(1,2) by (intro signed_take_bit_int_eq_self) auto
  then have "bit (sint n) j = bit (sint n) (min k j)" by (metis bit_signed_take_bit_iff possible_bit_int)
  moreover have "bit (sint n) i = bit n (min i 63)" for i
  proof (cases "i < 63")
    case False
    then have "min i 63 = 63" by simp
    with False show ?thesis by (simp add: bit_simps)
  qed (simp add: bit_simps)
  ultimately have "bit n (min (min k j) 63) = bit n (min j 63)" by simp
  moreover have "min (min k j) 63 = min k j" "min j 63 = j" using j assms(3) by auto
  ultimately show "bit (signed_take_bit k n) j = bit n j"
    using j by (simp add: bit_simps)
qed

text \<open>An integer that passes the checks of \<open>mem_pack\<close> is what \<open>mem_unpack\<close> reads.\<close>

lemma unpack_pack_uint:
  assumes "1 \<le> sz" and "sz \<ge> 8 \<or> unat n < 2 ^ (sz * 8)"
  shows "unpackint (packint_bytes n little sz False) little sz False = Inr n"
proof -
  have t: "take_bit (8 * sz) n = n" if "sz < 8"
  proof -
    have "unat (take_bit (8 * sz) n) = take_bit (8 * sz) (unat n)" by (rule unsigned_take_bit_eq)
    also have "\<dots> = unat n" using that assms(2) by (simp add: take_bit_nat_eq_self mult.commute)
    finally show ?thesis by (simp only: unsigned_word_eqI)
  qed
  show ?thesis
  proof (cases "sz < 8")
    case True
    then show ?thesis using t by (simp add: unpackint_def packint_bytes_def SZINT_def undigits_int_digits Let_def)
  next
    case False
    then have "undigits (take 8 (int_digits sz n)) = n"
      by (simp add: take_int_digits undigits_int_digits take_bit_word_beyond_length_eq)
    moreover have "drop 8 (int_digits sz n) = replicate (sz - 8) 0"
      using False by (simp add: drop_int_digits)
    ultimately show ?thesis using False
      by (auto simp: unpackint_def packint_bytes_def SZINT_def Let_def)
  qed
qed

lemma unpack_pack_int:
  assumes "1 \<le> sz" and "sz \<ge> 8 \<or> (- (2 ^ (sz * 8 - 1)) \<le> sint n \<and> sint n < 2 ^ (sz * 8 - 1))"
  shows "unpackint (packint_bytes n little sz (sint n < 0)) little sz True = Inr n"
proof (cases "sz < 8")
  case True
  have "(take_bit (Suc (sz * 8 - 1)) n XOR push_bit (sz * 8 - 1) 1) - push_bit (sz * 8 - 1) 1 = n"
    unfolding sign_extend_take_bit using True assms by (intro signed_take_bit_fits) auto
  moreover have "Suc (sz * 8 - 1) = sz * 8" using assms(1) by simp
  ultimately show ?thesis using True
    by (simp add: mult.commute unpackint_def packint_bytes_def SZINT_def undigits_int_digits Let_def)
next
  case False
  then have u: "undigits (take 8 (int_digits sz n)) = n"
    by (simp add: take_int_digits undigits_int_digits take_bit_word_beyond_length_eq)
  moreover have "drop 8 (int_digits sz n) = replicate (sz - 8) 0"
    using False by (simp add: drop_int_digits)
  ultimately show ?thesis using False
    by (auto simp: unpackint_def packint_bytes_def SZINT_def Let_def)
qed

section \<open>What a format packs\<close>

lemma getoption_size:
  assumes "getoption h fmt = Inr (opt, h', sz, rest)"
  shows "(opt \<in> {Kint, Kuint, Kstring} \<longrightarrow> 1 \<le> sz \<and> sz \<le> 16) \<and> (opt = Kfloat \<longrightarrow> sz = 4 \<or> sz = 8)
    \<and> (opt = Kpadding \<longrightarrow> sz = 1) \<and> (opt \<in> {Kzstr, Kpaddalign, Knop} \<longrightarrow> sz = 0)"
proof (cases fmt)
  case Nil
  then show ?thesis using assms by (simp add: getoption_def)
next
  case (Cons c cs)
  show ?thesis
    using assms unfolding Cons getoption_def list.case
    by (auto simp: bindE_eq_Inr dest!: getnumlimit_result(2) split: if_splits prod.splits)
qed

lemma getdetails_size:
  assumes "getdetails h pos fmt = Inr (opt, h', sz, al, rest)"
  shows "(opt \<in> {Kint, Kuint, Kstring} \<longrightarrow> 1 \<le> sz \<and> sz \<le> 16) \<and> (opt = Kfloat \<longrightarrow> sz = 4 \<or> sz = 8)
    \<and> (opt = Kpadding \<longrightarrow> sz = 1) \<and> (opt \<in> {Kzstr, Kpaddalign, Knop} \<longrightarrow> sz = 0)"
proof (cases "getoption h fmt")
  case (Inl e)
  then show ?thesis using assms by (simp add: getdetails_def)
next
  case (Inr r)
  then obtain o1 h1 s1 fmt1 where 1: "getoption h fmt = Inr (o1, h1, s1, fmt1)" by (cases r) auto
  have "opt = o1 \<and> sz = s1"
    using assms 1 by (cases fmt1; cases "o1 = Kpaddalign"; cases "getoption h1 fmt1")
      (simp_all add: getdetails_def Let_def split: if_splits prod.splits)
  with getoption_size [OF 1] show ?thesis by simp
qed

text \<open>Two heaps agree on the memory \<open>p\<close> below position \<open>k\<close>.\<close>

definition same_below :: "ptr option \<Rightarrow> nat \<Rightarrow> heap \<Rightarrow> heap \<Rightarrow> bool" where
  "same_below p k h h' \<longleftrightarrow>
     (\<forall>off n. off + n \<le> k \<longrightarrow> read_mem h' (ptr_add p off) n = read_mem h (ptr_add p off) n)"

lemma same_below_refl [simp, intro]: "same_below p k h h"
  by (simp add: same_below_def)

lemma same_below_trans: "same_below p k h1 h2 \<Longrightarrow> same_below p k' h2 h3 \<Longrightarrow> k \<le> k' \<Longrightarrow> same_below p k h1 h3"
  by (simp add: same_below_def)

lemma same_below_mono: "same_below p k h h' \<Longrightarrow> i \<le> k \<Longrightarrow> same_below p i h h'"
  by (simp add: same_below_def)

lemma same_below_read:
  "same_below p k h h' \<Longrightarrow> read_mem h (ptr_add p off) n = Some bs \<Longrightarrow> off + n \<le> k \<Longrightarrow>
     read_mem h' (ptr_add p off) n = Some bs"
  by (simp add: same_below_def)

lemma write_mem_same_below:
  assumes "write_mem h (ptr_add p i) bs = Some h'"
  shows "same_below p i h h'"
proof (cases "bs = [] \<or> p = None")
  case True
  then show ?thesis using assms by (auto simp: write_mem_def same_below_def read_mem_def ptr_add_def)
next
  case False
  then obtain b off where p: "p = Some (b, off)" by auto
  with False assms obtain m where m: "blocks h b = Some m" "off + i + length bs \<le> length m"
    "h' = h\<lparr>blocks := (blocks h)(b \<mapsto> blit m (off + i) bs)\<rparr>"
    by (auto simp: write_mem_def ptr_add_def split: if_splits option.splits)
  have "take n (drop (off + k) (blit m (off + i) bs)) = take n (drop (off + k) m)" if "k + n \<le> i" for k n
    using that m(2) by (intro nth_equalityI) (auto simp: nth_blit)
  then show ?thesis using m by (auto simp: same_below_def read_mem_def p ptr_add_def)
qed

lemma packint_Some:
  assumes "packint p i lb n little sz neg h = Inr (Some (i', h'))"
  shows "i' = i + sz \<and> i' \<le> lb \<and> write_mem h (ptr_add p i) (packint_bytes n little sz neg) = Some h'"
  using assms
  by (auto simp: packint_def getbytes_def Let_def bindE_eq_Inr optE_def split: option.splits if_splits)

lemma arr_read_length: "arr_read h s off n = Some bs \<Longrightarrow> length bs = n"
  by (cases s) (auto simp: arr_read_def dest: read_mem_length split: if_splits)

lemma packstream_Some:
  assumes "packstream p i lb s sl h = Inr (Some (i', h'))" and "i \<le> lb"
  shows "i' = i + sl \<and> i' \<le> lb \<and>
    (\<exists>bs. arr_read h s 0 sl = Some bs \<and> length bs = sl \<and> write_mem h (ptr_add p i) bs = Some h')"
proof (cases "sl = 0")
  case True
  have "arr_read h s 0 0 = Some []" by (cases s) (auto simp: arr_read_def read_mem_def)
  with True assms show ?thesis by (auto simp: packstream_def write_mem_def)
next
  case False
  then show ?thesis using assms
    by (auto simp: packstream_def getbytes_def Let_def optE_def arr_read_length
        split: if_splits option.splits)
qed

lemma packchar_Some:
  assumes "packchar p i lb c h = Inr (Some (i', h'))"
  shows "i' = i + 1 \<and> i' \<le> lb \<and> write_mem h (ptr_add p i) [c] = Some h'"
  using assms by (auto simp: packchar_def bindE_eq_Inr optE_def split: option.splits if_splits)

lemma on_fit_Next: "on_fit h m (Inr (PackFail j L), h0) f = (Inr (PackNext i), h') \<Longrightarrow>
    \<exists>j h1. m = Inr (Some (j, h1)) \<and> f j h1 = (Inr (PackNext i), h')"
  by (auto simp: on_fit_def split: sum.splits option.splits)

lemma onP_Next: "onP h m f = (Inr (PackNext i), h') \<Longrightarrow> \<exists>x. m = Inr x \<and> f x = (Inr (PackNext i), h')"
  by (auto simp: onP_def split: sum.splits)

lemma pack_item_frame:
  assumes "pack_item api L p lb opt little sz i ar h = (Inr (PackNext i'), h')" and "i \<le> lb"
    and "opt = Kpadding \<longrightarrow> sz = 1" and "opt \<in> {Kzstr, Kpaddalign, Knop} \<longrightarrow> sz = 0"
  shows "i + sz \<le> i' \<and> i' \<le> lb \<and> same_below p i h h'"
proof (cases opt)
  case Kstring
  from assms(1,2) show ?thesis unfolding pack_item_def Kstring KOption.case Let_def
    by (fastforce dest!: onP_Next on_fit_Next packint_Some packstream_Some
        intro: same_below_trans dest: write_mem_same_below)
next
  case Kzstr
  from assms(1,2,4) show ?thesis unfolding pack_item_def Kzstr KOption.case Let_def
    by (fastforce dest!: onP_Next on_fit_Next packchar_Some packstream_Some
        intro: same_below_trans dest: write_mem_same_below)
next
  case Kfloat
  from assms(1,2) show ?thesis unfolding pack_item_def Kfloat KOption.case Let_def
    by (auto simp: getbytes_def Let_def optE_def split: if_splits option.splits dest!: onP_Next
        intro: write_mem_same_below)
qed (use assms in \<open>auto simp: pack_item_def getbytes_def Let_def split: if_splits option.splits
      dest!: onP_Next on_fit_Next packint_Some packstream_Some dest: write_mem_same_below\<close>)

section \<open>Unpacking reads what packing wrote\<close>

text \<open>A value read back is what the packed argument converts to.\<close>

definition packs_as :: "lua_api \<Rightarrow> lval \<Rightarrow> lval \<Rightarrow> bool" where
  "packs_as api v a =
     (case v of
        LInt n \<Rightarrow> tointeger api a = Some n
      | LFlt x \<Rightarrow> (case tonumber api a of None \<Rightarrow> False | Some d \<Rightarrow> x = d \<or> x = of_float api (to_float api d))
      | LStr s \<Rightarrow> tolstring api a = Some s
      | _ \<Rightarrow> False)"

lemma checkinteger_Inr: "checkinteger api L i = Inr n \<Longrightarrow> \<exists>a. arg L i = Some a \<and> tointeger api a = Some n"
  by (auto simp: checkinteger_def optE_def split: option.splits)

lemma checknumber_Inr: "checknumber api L i = Inr n \<Longrightarrow> \<exists>a. arg L i = Some a \<and> tonumber api a = Some n"
  by (auto simp: checknumber_def optE_def split: option.splits)

lemma checkarray_string:
  assumes "luamem_checkarray api h L i = Inr s" and "\<not> ismemory h (arg L i)"
  shows "\<exists>a t. arg L i = Some a \<and> tolstring api a = Some t \<and> s = AStr t"
  using assms
  by (auto simp: luamem_checkarray_def ismemory_def luamem_type_def luamem_tomemoryx_def
      split: option.splits lval.splits userdata.splits if_splits)

lemma unat_u64_len: "lua_len n \<Longrightarrow> unat (u64_len n) = n"
  by (simp add: u64_len_def unat_word_of_nat)

lemma float_bytes_back:
  "sz = 4 \<or> sz = 8 \<Longrightarrow> float_of_bytes api (float_bytes api d sz) sz \<in> {d, of_float api (to_float api d)}"
  using unat_u64 [of d] unsigned_less [of "to_float api d", where ?'a = nat]
  by (auto simp: float_of_bytes_def float_bytes_def)

lemma length_float_bytes: "sz = 4 \<or> sz = 8 \<Longrightarrow> length (float_bytes api d sz) = sz"
  by (auto simp: float_bytes_def)

lemma copywithendian_simps [simp]:
  "copywithendian (copywithendian bs little) little = bs" "length (copywithendian bs little) = length bs"
  by (simp_all add: copywithendian_def)

lemma memchr_zero: "0 \<notin> set t \<Longrightarrow> length t < n \<Longrightarrow> memchr (t @ 0 # r) 0 n = Some (length t)"
proof (induction t arbitrary: n)
  case Nil
  then show ?case by (cases n) auto
next
  case (Cons a t)
  then show ?case by (cases n) auto
qed

lemma memchr_no_zero: "memchr t 0 (length t) = None \<Longrightarrow> 0 \<notin> set t"
  using memchr_None [of t 0 "length t"] by (metis in_set_conv_nth)

lemma read_back:
  assumes "write_mem h (ptr_add p i) bs = Some h'" and "same_below p k h' h''" and "i + length bs \<le> k"
  shows "read_mem h'' (ptr_add p i) (length bs) = Some bs"
  using same_below_read [OF assms(2) write_read_same [OF assms(1)] assms(3)] .

definition yields :: "lua_api \<Rightarrow> lval list \<Rightarrow> nat \<Rightarrow> KOption \<Rightarrow> lval list \<Rightarrow> bool" where
  "yields api L ar opt vs =
     (if takes_arg opt
      then (case (vs, arg L ar) of ([v], Some a) \<Rightarrow> packs_as api v a | _ \<Rightarrow> False)
      else vs = [])"

lemma pack_item_string_back:
  assumes pk: "pack_item api L p lb Kstring little sz i ar h = (Inr (PackNext i'), h')" and i: "i \<le> lb"
    and same: "same_below p i' h' h''"
    and str: "\<not> ismemory h (arg L ar)" and lens: "\<forall>v s. tolstring api v = Some s \<longrightarrow> lua_len (length s)"
    and sz: "1 \<le> sz"
  shows "\<exists>vs. unpack_item api p lb Kstring little sz i h'' = Inr (vs, i') \<and> yields api L ar Kstring vs"
proof -
  obtain s j h1 where s: "luamem_checkarray api h L ar = Inr s"
    and fit: "sz \<ge> 8 \<or> arr_len s < 2 ^ (sz * 8)"
    and p1: "packint p i lb (u64_len (arr_len s)) little sz False h = Inr (Some (j, h1))"
    and p2: "packstream p j lb s (arr_len s) h1 = Inr (Some (i', h'))"
    using pk unfolding pack_item_def KOption.case Let_def
    by (auto dest!: onP_Next on_fit_Next simp: argcheck_def split: if_splits)
  obtain a t where t: "arg L ar = Some a" "tolstring api a = Some t" "s = AStr t"
    using checkarray_string [OF s str] by blast
  have ln: "lua_len (length t)" using lens t(2) by blast
  let ?b = "packint_bytes (u64_len (length t)) little sz False"
  from packint_Some [OF p1] t have j: "j = i + sz" "j \<le> lb" and w1: "write_mem h (ptr_add p i) ?b = Some h1" by auto
  from packstream_Some [OF p2 j(2)] t have i': "i' = j + length t" "i' \<le> lb"
    and w2: "write_mem h1 (ptr_add p j) t = Some h'" by (auto simp: arr_read_def)
  have r1: "read_mem h'' (ptr_add p i) sz = Some ?b"
    using read_back [OF w1 same_below_trans [OF write_mem_same_below [OF w2] same]] j i' by simp
  have r2: "read_mem h'' (ptr_add p (i + sz)) (length t) = Some t"
    using read_back [OF w2 same] i' j by simp
  have "unpackint ?b little sz False = Inr (u64_len (length t))"
    using fit t(3) unat_u64_len [OF ln] sz by (intro unpack_pack_uint) auto
  then show ?thesis
    using r1 r2 i' j t unat_u64_len [OF ln]
    by (auto simp: unpack_item_def Let_def argcheck_def yields_def takes_arg_def packs_as_def optE_def)
qed

lemma pack_item_zstr_back:
  assumes pk: "pack_item api L p lb Kzstr little 0 i ar h = (Inr (PackNext i'), h')" and i: "i \<le> lb"
    and same: "same_below p i' h' h''" and valid: "valid_range h'' p lb"
    and str: "\<not> ismemory h (arg L ar)"
  shows "\<exists>vs. unpack_item api p lb Kzstr little 0 i h'' = Inr (vs, i') \<and> yields api L ar Kzstr vs"
proof -
  obtain s bs j h1 where s: "luamem_checkarray api h L ar = Inr s"
    and rd: "arr_read h s 0 (arr_len s) = Some bs" and nz: "memchr bs 0 (arr_len s) = None"
    and p1: "packstream p i lb s (arr_len s) h = Inr (Some (j, h1))"
    and p2: "packchar p j lb 0 h1 = Inr (Some (i', h'))"
    using pk unfolding pack_item_def KOption.case Let_def
    by (auto dest!: onP_Next on_fit_Next simp: argcheck_def optE_def split: if_splits option.splits)
  obtain a t where t: "arg L ar = Some a" "tolstring api a = Some t" "s = AStr t"
    using checkarray_string [OF s str] by blast
  have bs: "bs = t" using rd t by (simp add: arr_read_def)
  from packstream_Some [OF p1 i] t have j: "j = i + length t" "j \<le> lb"
    and w1: "write_mem h (ptr_add p i) t = Some h1" by (auto simp: arr_read_def)
  from packchar_Some [OF p2] have i': "i' = j + 1" "i' \<le> lb"
    and w2: "write_mem h1 (ptr_add p j) [0] = Some h'" by auto
  have r1: "read_mem h'' (ptr_add p i) (length t) = Some t"
    using read_back [OF w1 same_below_trans [OF write_mem_same_below [OF w2] same]] j i' by simp
  have r2: "read_mem h'' (ptr_add p j) 1 = Some [0]" using read_back [OF w2 same] i' j by simp
  obtain all where all: "read_mem h'' (ptr_add p i) (lb - i) = Some all" and len: "length all = lb - i"
    using valid_range_read [OF valid, of i "lb - i"] i by auto
  have "take (length t) all = t"
    using read_mem_sub [OF all, of 0 "length t"] r1 j i' by simp
  moreover have "take 1 (drop (length t) all) = [0]"
    using read_mem_sub [OF all, of "length t" 1] r2 j i' by simp
  then obtain r where "drop (length t) all = 0 # r"
    by (cases "drop (length t) all") auto
  ultimately have app: "all = t @ 0 # r" by (metis append_take_drop_id)
  have "memchr all 0 (lb - i) = Some (length t)"
    unfolding app using memchr_no_zero nz t(3) bs i' j by (intro memchr_zero) auto
  then show ?thesis
    using all app i' j t by (auto simp: unpack_item_def Let_def yields_def takes_arg_def packs_as_def)
qed

lemma pack_item_back:
  assumes pk: "pack_item api L p lb opt little sz i ar h = (Inr (PackNext i'), h')" and i: "i \<le> lb"
    and same: "same_below p i' h' h''" and valid: "valid_range h'' p lb"
    and str: "\<not> ismemory h (arg L ar)" and lens: "\<forall>v s. tolstring api v = Some s \<longrightarrow> lua_len (length s)"
    and sz: "opt \<in> {Kint, Kuint, Kstring} \<longrightarrow> 1 \<le> sz" "opt = Kfloat \<longrightarrow> sz = 4 \<or> sz = 8"
      "opt = Kpadding \<longrightarrow> sz = 1" "opt \<in> {Kzstr, Kpaddalign, Knop} \<longrightarrow> sz = 0"
  shows "\<exists>vs. unpack_item api p lb opt little sz i h'' = Inr (vs, i') \<and> yields api L ar opt vs"
proof (cases opt)
  case Kint
  obtain n where n: "checkinteger api L ar = Inr n"
    and fit: "sz \<ge> 8 \<or> (- (2 ^ (sz * 8 - 1)) \<le> sint n \<and> sint n < 2 ^ (sz * 8 - 1))"
    and p1: "packint p i lb n little sz (sint n < 0) h = Inr (Some (i', h'))"
    using pk unfolding pack_item_def Kint KOption.case
    by (auto dest!: onP_Next on_fit_Next simp: argcheck_def SZINT_def Let_def split: if_splits)
  from packint_Some [OF p1] have "read_mem h'' (ptr_add p i) sz = Some (packint_bytes n little sz (sint n < 0))" "i' = i + sz"
    using read_back [OF _ same] by (metis le_refl length_packint_bytes)+
  with unpack_pack_int [OF _ fit] sz Kint checkinteger_Inr [OF n] show ?thesis
    by (auto simp: unpack_item_def yields_def takes_arg_def packs_as_def)
next
  case Kuint
  obtain n where n: "checkinteger api L ar = Inr n" and fit: "sz \<ge> 8 \<or> unat n < 2 ^ (sz * 8)"
    and p1: "packint p i lb n little sz False h = Inr (Some (i', h'))"
    using pk unfolding pack_item_def Kuint KOption.case
    by (auto dest!: onP_Next on_fit_Next simp: argcheck_def SZINT_def split: if_splits)
  from packint_Some [OF p1] have "read_mem h'' (ptr_add p i) sz = Some (packint_bytes n little sz False)" "i' = i + sz"
    using read_back [OF _ same] by (metis le_refl length_packint_bytes)+
  with unpack_pack_uint [OF _ fit] sz Kuint checkinteger_Inr [OF n] show ?thesis
    by (auto simp: unpack_item_def yields_def takes_arg_def packs_as_def)
next
  case Kfloat
  with sz have s48: "sz = 4 \<or> sz = 8" by simp
  obtain n where n: "checknumber api L ar = Inr n" and i': "i' = i + sz"
    and w: "write_mem h (ptr_add p i) (copywithendian (float_bytes api n sz) little) = Some h'"
    using pk unfolding pack_item_def Kfloat KOption.case
    by (auto simp: getbytes_def Let_def optE_def split: if_splits option.splits dest!: onP_Next)
  have "read_mem h'' (ptr_add p i) sz = Some (copywithendian (float_bytes api n sz) little)"
    using read_back [OF w same] i' by (simp add: length_float_bytes [OF s48])
  with Kfloat i' float_bytes_back [OF s48, of api n] checknumber_Inr [OF n] show ?thesis
    by (auto simp: unpack_item_def yields_def takes_arg_def packs_as_def)
next
  case Kchar
  obtain s where s: "luamem_checkarray api h L ar = Inr s" "arr_len s = sz"
    and p1: "packstream p i lb s sz h = Inr (Some (i', h'))"
    using pk unfolding pack_item_def Kchar KOption.case
    by (auto dest!: onP_Next on_fit_Next simp: argcheck_def split: if_splits)
  obtain a t where t: "arg L ar = Some a" "tolstring api a = Some t" "s = AStr t"
    using checkarray_string [OF s(1) str] by blast
  from packstream_Some [OF p1 i] t s have i': "i' = i + sz" and w: "write_mem h (ptr_add p i) t = Some h'"
    by (auto simp: arr_read_def)
  with read_back [OF w same] t s Kchar show ?thesis
    by (auto simp: unpack_item_def yields_def takes_arg_def packs_as_def)
next
  case Kstring
  then show ?thesis using pack_item_string_back [OF _ i same str lens] pk sz by simp
next
  case Kzstr
  then show ?thesis using pack_item_zstr_back [OF _ i same valid str] pk sz by simp
qed (use pk sz in \<open>auto simp: pack_item_def unpack_item_def yields_def takes_arg_def getbytes_def Let_def
      split: if_splits\<close>)

lemma pack_item_users:
  assumes "pack_item api L p lb opt little sz i ar h = (Inr (PackNext i'), h')" and "i \<le> lb"
  shows "users h' = users h"
proof (cases opt)
  case Kstring
  from assms show ?thesis unfolding pack_item_def Kstring KOption.case Let_def
    by (fastforce dest!: onP_Next on_fit_Next packint_Some packstream_Some dest: write_mem_users)
next
  case Kzstr
  from assms show ?thesis unfolding pack_item_def Kzstr KOption.case Let_def
    by (fastforce dest!: onP_Next on_fit_Next packchar_Some packstream_Some dest: write_mem_users)
next
  case Kfloat
  from assms show ?thesis unfolding pack_item_def Kfloat KOption.case Let_def
    by (auto simp: getbytes_def Let_def optE_def split: if_splits option.splits dest!: onP_Next
        dest: write_mem_users)
qed (use assms in \<open>auto simp: pack_item_def getbytes_def Let_def split: if_splits option.splits
      dest!: onP_Next on_fit_Next packint_Some packstream_Some dest: write_mem_users\<close>)

lemma ismemory_users: "users h' = users h \<Longrightarrow> ismemory h' v = ismemory h v"
  by (simp add: ismemory_def luamem_type_def split: option.splits lval.splits userdata.splits)

lemma mem_pack_loop_back:
  assumes "mem_pack_loop api L p lb hr fmt i ar h = (Inr [LBool True, LInt e], h')" and "i \<le> lb"
    and "\<forall>k > ar. \<not> ismemory h (arg L k)"
    and lens: "\<forall>v s. tolstring api v = Some s \<longrightarrow> lua_len (length s)"
  shows "\<exists>k. i \<le> k \<and> k \<le> lb \<and> e = u64_len (k + 1) \<and> same_below p i h h' \<and>
     (\<forall>h''. same_below p k h' h'' \<and> valid_range h'' p lb \<longrightarrow>
        (\<exists>vs. mem_unpack_loop api p lb hr fmt i h'' = Inr (vs @ [LInt e]) \<and>
              list_all2 (packs_as api) vs (take (length vs) (drop ar L))))"
  using assms
proof (induction api L p lb hr fmt i ar h rule: mem_pack_loop.induct)
  case (1 api L p lb hr fmt i ar h)
  show ?case
  proof (cases "fmt = []")
    case True
    with "1.prems" have "e = u64_len (i + 1)" "h' = h" by (simp_all add: mem_pack_loop.simps)
    with True "1.prems"(2) show ?thesis
      by (intro exI [of _ i]) (auto simp: mem_unpack_loop.simps intro!: exI [of _ "[]"])
  next
    case ne: False
    obtain opt hr1 sz al rest where d: "getdetails hr i fmt = Inr (opt, hr1, sz, al, rest)"
      using "1.prems"(1) ne
      by (cases "getdetails hr i fmt") (auto simp: mem_pack_loop.simps)
    have al: "getbytes p i lb al = Some (ptr_add p i, i + al)" "i + al \<le> lb"
      using "1.prems"(1) ne d
      by (auto simp: mem_pack_loop.simps [of api L p lb hr fmt] getbytes_def packfailed_def Let_def split: if_splits)
    obtain r h1 where it': "pack_item api L p lb opt (islittle hr1) (nat sz) (i + al) (ar + 1) h = (r, h1)"
      by (cases "pack_item api L p lb opt (islittle hr1) (nat sz) (i + al) (ar + 1) h")
    have "(case r of Inl e \<Rightarrow> (Inl e, h1)
        | Inr (PackFail i' L') \<Rightarrow> (Inr (packfailed L' i' (ar + 1)), h1)
        | Inr (PackNext i') \<Rightarrow> mem_pack_loop api L p lb hr1 rest i' (if takes_arg opt then ar + 1 else ar) h1)
        = (Inr [LBool True, LInt e], h')"
      using "1.prems"(1) unfolding mem_pack_loop.simps [of api L p lb hr fmt i ar h]
      using ne d al(1) it' by (simp split: sum.splits)
    note step = this
    obtain j where it: "pack_item api L p lb opt (islittle hr1) (nat sz) (i + al) (ar + 1) h = (Inr (PackNext j), h1)"
      using step it' by (cases r; cases "projr r") (auto simp: packfailed_def)
    let ?ar = "if takes_arg opt then ar + 1 else ar"
    have lp: "mem_pack_loop api L p lb hr1 rest j ?ar h1 = (Inr [LBool True, LInt e], h')"
      using step it it' by auto
    have sz: "opt \<in> {Kint, Kuint, Kstring} \<longrightarrow> 1 \<le> nat sz" "opt = Kfloat \<longrightarrow> nat sz = 4 \<or> nat sz = 8"
      "opt = Kpadding \<longrightarrow> nat sz = 1" "opt \<in> {Kzstr, Kpaddalign, Knop} \<longrightarrow> nat sz = 0"
      using getdetails_size [OF d] by (cases opt; force)+
    from pack_item_frame [OF it al(2) sz(3,4)] have fr: "i + al + nat sz \<le> j" "j \<le> lb" "same_below p (i + al) h h1"
      by auto
    have us: "\<forall>k > ?ar. \<not> ismemory h1 (arg L k)"
      using "1.prems"(3) ismemory_users [OF pack_item_users [OF it al(2)]] by auto
    from "1.IH" [OF ne d refl refl refl refl al(1) refl it [symmetric] refl refl lp fr(2) us "1.prems"(4)]
    obtain k where k: "j \<le> k" "k \<le> lb" "e = u64_len (k + 1)" "same_below p j h1 h'"
      and un: "\<And>h''. same_below p k h' h'' \<Longrightarrow> valid_range h'' p lb \<Longrightarrow>
          \<exists>vs. mem_unpack_loop api p lb hr1 rest j h'' = Inr (vs @ [LInt e]) \<and>
            list_all2 (packs_as api) vs (take (length vs) (drop ?ar L))" by blast
    have "\<exists>vs. mem_unpack_loop api p lb hr fmt i h'' = Inr (vs @ [LInt e]) \<and>
            list_all2 (packs_as api) vs (take (length vs) (drop ar L))"
      if s2: "same_below p k h' h''" and v: "valid_range h'' p lb" for h''
    proof -
      have "\<not> ismemory h (arg L (ar + 1))" using "1.prems"(3) by simp
      from pack_item_back [OF it al(2) same_below_trans [OF k(4) s2 k(1)] v this "1.prems"(4) sz]
      obtain us where us: "unpack_item api p lb opt (islittle hr1) (nat sz) (i + al) h'' = Inr (us, j)"
        "yields api L (ar + 1) opt us" by blast
      from un [OF s2 v] obtain vs where vs: "mem_unpack_loop api p lb hr1 rest j h'' = Inr (vs @ [LInt e])"
        "list_all2 (packs_as api) vs (take (length vs) (drop ?ar L))" by blast
      have "mem_unpack_loop api p lb hr fmt i h'' = Inr ((us @ vs) @ [LInt e])"
        using ne d us(1) vs(1) fr(1,2) by (simp add: mem_unpack_loop.simps [of api p lb hr fmt] argcheck_def)
      moreover have "list_all2 (packs_as api) (us @ vs) (take (length (us @ vs)) (drop ar L))"
        using us(2) vs(2)
        by (auto simp: yields_def arg_def Cons_nth_drop_Suc [symmetric] split: if_splits list.splits option.splits)
      ultimately show ?thesis by blast
    qed
    moreover have "same_below p i h h'"
      using same_below_trans [OF same_below_mono [OF fr(3)] k(4), of i] fr(1) by simp
    ultimately show ?thesis using k fr(1) by (intro exI [of _ k]) auto
  qed
qed

section \<open>Packing and unpacking stay inside the memory\<close>

definition stays :: "heap \<Rightarrow> ptr option \<Rightarrow> nat \<Rightarrow> heap \<Rightarrow> bool" where
  "stays h p lb h' \<longleftrightarrow> heap_ok h' \<and> users h' = users h \<and> valid_range h' p lb"

lemma stays_trans: "stays h p lb h1 \<Longrightarrow> stays h1 p lb h2 \<Longrightarrow> stays h p lb h2"
  by (simp add: stays_def)

lemma write_mem_stays:
  assumes "heap_ok h" and "valid_range h p lb" and "i + length bs \<le> lb"
  shows "\<exists>h'. write_mem h (ptr_add p i) bs = Some h' \<and> stays h p lb h'"
proof -
  obtain h' where "write_mem h (ptr_add p i) bs = Some h'" using valid_range_write [OF assms(2,3)] by blast
  with assms show ?thesis
    using write_mem_heap_ok write_mem_users write_mem_valid_range by (auto simp: stays_def)
qed

definition fits :: "heap \<Rightarrow> ptr option \<Rightarrow> nat \<Rightarrow> lerr + (nat \<times> heap) option \<Rightarrow> bool" where
  "fits h p lb r =
     (case r of Inl e \<Rightarrow> False | Inr None \<Rightarrow> True | Inr (Some (i, h')) \<Rightarrow> i \<le> lb \<and> stays h p lb h')"

lemma packint_fits:
  assumes "heap_ok h" and "valid_range h p lb"
  shows "fits h p lb (packint p i lb n little sz neg h)"
proof (cases "i + sz \<le> lb \<and> p \<noteq> None")
  case True
  then obtain h' where "write_mem h (ptr_add p i) (packint_bytes n little sz neg) = Some h'" "stays h p lb h'"
    using write_mem_stays [OF assms, of i "packint_bytes n little sz neg"] by auto
  with True show ?thesis by (auto simp: fits_def packint_def getbytes_def)
qed (auto simp: fits_def packint_def getbytes_def)

lemma packstream_fits:
  assumes "heap_ok h" and "valid_range h p lb" and "i \<le> lb"
  shows "fits h p lb (packstream p i lb (AStr t) (length t) h)"
proof (cases "t \<noteq> [] \<and> i + length t \<le> lb \<and> p \<noteq> None")
  case True
  then obtain h' where "write_mem h (ptr_add p i) t = Some h'" "stays h p lb h'"
    using write_mem_stays [OF assms(1,2), of i t] by auto
  with True show ?thesis
    by (auto simp: fits_def packstream_def getbytes_def overlap_def arr_read_def split: option.splits)
qed (use assms in \<open>auto simp: fits_def packstream_def getbytes_def stays_def\<close>)

lemma packchar_fits:
  assumes "heap_ok h" and "valid_range h p lb"
  shows "fits h p lb (packchar p i lb c h)"
proof (cases "i < lb")
  case True
  then obtain h' where "write_mem h (ptr_add p i) [c] = Some h'" "stays h p lb h'"
    using write_mem_stays [OF assms, of i "[c]"] by auto
  with True show ?thesis by (auto simp: fits_def packchar_def)
qed (auto simp: fits_def packchar_def)

definition psafe :: "heap \<Rightarrow> ptr option \<Rightarrow> nat \<Rightarrow> pres \<Rightarrow> bool" where
  "psafe h p lb r \<longleftrightarrow> fst r \<noteq> Inl UBerr \<and> fst r \<noteq> Inl Diverges \<and> stays h p lb (snd r) \<and>
     (\<forall>i. fst r = Inr (PackNext i) \<longrightarrow> i \<le> lb)"

lemma psafe_on_fit:
  assumes "fits h p lb m" and "stays h0 p lb h" and "psafe h0 p lb fail"
    and "\<And>i h'. m = Inr (Some (i, h')) \<Longrightarrow> i \<le> lb \<Longrightarrow> stays h0 p lb h' \<Longrightarrow> psafe h0 p lb (f i h')"
  shows "psafe h0 p lb (on_fit h m fail f)"
  using assms stays_trans [OF assms(2)]
  by (auto simp: on_fit_def fits_def split: sum.splits option.splits)

lemma psafe_onP:
  assumes "stays h0 p lb h" and "\<And>e. m = Inl e \<Longrightarrow> e \<noteq> UBerr \<and> e \<noteq> Diverges"
    and "\<And>x. m = Inr x \<Longrightarrow> psafe h0 p lb (f x)"
  shows "psafe h0 p lb (onP h m f)"
  using assms by (auto simp: onP_def psafe_def split: sum.splits)

lemma checknumber_error [dest!]: "checknumber api L i = Inl e \<Longrightarrow> e = TypeError i ''number''"
  by (auto simp: checknumber_def optE_def split: option.splits)

lemma psafe_simps [simp]:
  "psafe h p lb (Inr (PackFail i L), h') = stays h p lb h'"
  "psafe h p lb (Inr (PackNext i), h') = (stays h p lb h' \<and> i \<le> lb)"
  by (auto simp: psafe_def)

lemma stays_refl [simp]: "heap_ok h \<Longrightarrow> valid_range h p lb \<Longrightarrow> stays h p lb h"
  by (simp add: stays_def)

lemma stays_ok: "stays h p lb h' \<Longrightarrow> heap_ok h'" "stays h p lb h' \<Longrightarrow> valid_range h' p lb"
  by (simp_all add: stays_def)

lemma pack_item_safe:
  assumes ok: "heap_ok h" and v: "valid_range h p lb" and i: "i \<le> lb"
    and str: "\<not> ismemory h (arg L ar)" and sz: "opt = Kfloat \<longrightarrow> sz = 4 \<or> sz = 8"
  shows "psafe h p lb (pack_item api L p lb opt little sz i ar h)"
proof (cases opt)
  case Kfloat
  show ?thesis
  proof (cases "i + sz \<le> lb \<and> p \<noteq> None")
    case True
    have w: "\<exists>h'. write_mem h (ptr_add p i) (copywithendian (float_bytes api n sz) little) = Some h' \<and> stays h p lb h'"
      for n using True sz Kfloat by (intro write_mem_stays [OF ok v]) (auto simp: length_float_bytes)
    from True have g: "getbytes p i lb sz = Some (ptr_add p i, i + sz)" by (simp add: getbytes_def)
    show ?thesis unfolding pack_item_def Kfloat KOption.case g option.case prod.case
    proof (rule psafe_onP, goal_cases)
      case (3 n)
      with w [of n] True show ?case by (auto simp: onP_def)
    qed (use ok v in auto)
  qed (use Kfloat ok v in \<open>auto simp: pack_item_def getbytes_def Let_def\<close>)
next
  case Kchar
  show ?thesis unfolding pack_item_def Kchar KOption.case
  proof (intro psafe_onP psafe_on_fit, goal_cases)
    case (5 s u)
    then obtain t where "s = AStr t" "length t = sz" using checkarray_string [OF 5(1) str]
      by (auto simp: argcheck_def split: if_splits)
    with packstream_fits [OF ok v i, of t] show ?case by simp
  qed (use ok v in auto)
next
  case Kstring
  show ?thesis unfolding pack_item_def Kstring KOption.case Let_def
  proof (intro psafe_onP psafe_on_fit, goal_cases)
    case (8 s u j h1)
    then obtain t where "s = AStr t" using checkarray_string [OF 8(1) str] by auto
    with packstream_fits [of h1 p lb j t] 8 stays_ok show ?case by auto
  qed (use ok v in \<open>auto intro: packint_fits\<close>)
next
  case Kzstr
  show ?thesis unfolding pack_item_def Kzstr KOption.case Let_def
  proof (intro psafe_onP psafe_on_fit, goal_cases)
    case (4 s e)
    then obtain t where "s = AStr t" using checkarray_string [OF 4(1) str] by auto
    with 4 show ?case by (simp add: arr_read_def)
  next
    case (7 s bs u)
    then obtain t where "s = AStr t" using checkarray_string [OF 7(1) str] by auto
    with packstream_fits [OF ok v i, of t] show ?case by simp
  next
    case (10 s bs u j h1)
    then show ?case using stays_ok by (auto intro: packchar_fits)
  qed (use ok v in auto)
next
  case Kint
  show ?thesis unfolding pack_item_def Kint KOption.case
    by (intro psafe_onP psafe_on_fit packint_fits) (use ok v in auto)
next
  case Kuint
  show ?thesis unfolding pack_item_def Kuint KOption.case
    by (intro psafe_onP psafe_on_fit packint_fits) (use ok v in auto)
qed (use ok v i in \<open>auto simp: pack_item_def Let_def getbytes_def\<close>)

lemma getnumlimit_error: "getnumlimit fmt d = Inl e \<Longrightarrow> e \<noteq> UBerr \<and> e \<noteq> Diverges"
  by (auto simp: getnumlimit_def split: prod.splits if_splits)

lemma getoption_error:
  assumes "getoption h fmt = Inl e" and "fmt \<noteq> []"
  shows "e \<noteq> UBerr \<and> e \<noteq> Diverges"
proof (cases fmt)
  case (Cons c cs)
  from assms(1) show ?thesis unfolding Cons getoption_def list.case
    by (auto simp: bindE_eq_Inl dest: getnumlimit_error split: if_splits prod.splits)
qed (use assms in simp)

lemma getdetails_error:
  assumes "getdetails h pos fmt = Inl e" and "fmt \<noteq> []"
  shows "e \<noteq> UBerr \<and> e \<noteq> Diverges"
proof (cases "getoption h fmt")
  case (Inl e')
  then show ?thesis using assms getoption_error by (auto simp: getdetails_def)
next
  case (Inr r)
  then obtain o1 h1 s1 fmt1 where 1: "getoption h fmt = Inr (o1, h1, s1, fmt1)" by (cases r) auto
  show ?thesis
  proof (cases "getoption h1 fmt1")
    case (Inl e')
    then show ?thesis using assms 1 getoption_error [OF Inl]
      by (cases fmt1; cases "o1 = Kpaddalign") (auto simp: getdetails_def Let_def split: if_splits)
  next
    case (Inr r2)
    then obtain o2 h2 s2 fmt2 where 2: "getoption h1 fmt1 = Inr (o2, h2, s2, fmt2)" by (cases r2) auto
    then show ?thesis using assms 1
      by (cases fmt1; cases "o1 = Kpaddalign") (auto simp: getdetails_def Let_def split: if_splits)
  qed
qed

lemma mem_pack_loop_safe:
  assumes "heap_ok h" and "valid_range h p lb" and "i \<le> lb" and "\<forall>k > ar. \<not> ismemory h (arg L k)"
  shows "safe (mem_pack_loop api L p lb hr fmt i ar h) \<and>
    users (snd (mem_pack_loop api L p lb hr fmt i ar h)) = users h \<and>
    valid_range (snd (mem_pack_loop api L p lb hr fmt i ar h)) p lb"
  using assms
proof (induction api L p lb hr fmt i ar h rule: mem_pack_loop.induct)
  case (1 api L p lb hr fmt i ar h)
  show ?case
  proof (cases "fmt = [] \<or> (\<exists>e. getdetails hr i fmt = Inl e)")
    case True
    then show ?thesis using "1.prems" getdetails_error
      by (auto simp: mem_pack_loop.simps [of api L p lb hr fmt] safe_def)
  next
    case False
    then obtain opt hr1 sz al rest where ne: "fmt \<noteq> []" and d: "getdetails hr i fmt = Inr (opt, hr1, sz, al, rest)"
      by (cases "getdetails hr i fmt") auto
    show ?thesis
    proof (cases "getbytes p i lb al")
      case None
      then show ?thesis using "1.prems" ne d by (simp add: mem_pack_loop.simps [of api L p lb hr fmt])
    next
      case (Some q)
      then have al: "getbytes p i lb al = Some (ptr_add p i, i + al)" "i + al \<le> lb"
        by (auto simp: getbytes_def Let_def split: if_splits)
      obtain r h1 where it: "pack_item api L p lb opt (islittle hr1) (nat sz) (i + al) (ar + 1) h = (r, h1)"
        by (cases "pack_item api L p lb opt (islittle hr1) (nat sz) (i + al) (ar + 1) h")
      have szf: "opt = Kfloat \<longrightarrow> nat sz = 4 \<or> nat sz = 8" using getdetails_size [OF d] by auto
      have ps: "psafe h p lb (r, h1)"
        using pack_item_safe [OF "1.prems"(1,2) al(2) _ szf, of L "ar + 1" api "islittle hr1"] it "1.prems"(4) by simp
      let ?ar = "if takes_arg opt then ar + 1 else ar"
      have eq: "mem_pack_loop api L p lb hr fmt i ar h = (case r of Inl e \<Rightarrow> (Inl e, h1)
        | Inr (PackFail i' L') \<Rightarrow> (Inr (packfailed L' i' (ar + 1)), h1)
        | Inr (PackNext i') \<Rightarrow> mem_pack_loop api L p lb hr1 rest i' ?ar h1)"
        using ne d al(1) it by (simp add: mem_pack_loop.simps [of api L p lb hr fmt] split: sum.splits)
      show ?thesis
      proof (cases "\<exists>j. r = Inr (PackNext j)")
        case True
        then obtain j where j: "r = Inr (PackNext j)" by blast
        have us: "\<forall>k > ?ar. \<not> ismemory h1 (arg L k)"
        proof -
          have "users h1 = users h" using ps by (simp add: psafe_def stays_def)
          with "1.prems"(4) ismemory_users [OF this] show ?thesis by simp
        qed
        show ?thesis
          using "1.IH" [OF ne d refl refl refl refl al(1) refl it [symmetric] j refl _ _ _ us] ps
          unfolding eq j by (simp add: psafe_def stays_def)
      next
        case False
        then show ?thesis using ps unfolding eq
          by (auto simp: psafe_def stays_def safe_def split: sum.splits packstep.splits)
      qed
    qed
  qed
qed

lemma memory_start:
  assumes "lua_len l" and "argcheck (posrelatI pos (u64_len l) - 1 \<le> u64_len l) 3 m = Inr u"
  shows "unat (posrelatI pos (u64_len l) - 1) \<le> l"
  using assms by (auto simp: argcheck_def word_le_nat_alt unat_u64_len split: if_splits)

lemma cformat_error [dest!]: "cformat api L i = Inl e \<Longrightarrow> e = TypeError i ''string''"
  by (auto simp: cformat_def bindE_eq_Inl optE_def split: option.splits)

lemma mem_pack_safe:
  assumes "heap_ok h" and "sizes_ok api h" and "\<forall>k > 3. \<not> ismemory h (arg L k)"
  shows "safe (mem_pack api L h)"
  unfolding mem_pack_def Let_def case_prod_beta
proof (intro safe_onE assms(1), goal_cases)
  case (5 pl fmt pos u)
  have pl: "luamem_checkmemory h L 1 = Inr (fst pl, snd pl)" using 5(1) by simp
  from mem_pack_loop_safe [OF assms(1) _ _ assms(3)] checkmemory_arr [OF assms(1,2) pl] memory_start [OF _ 5(4)]
  show ?case by simp
qed auto

lemma unpackint_error: "unpackint bs little sz sg = Inl e \<Longrightarrow> e \<noteq> UBerr \<and> e \<noteq> Diverges"
  by (auto simp: unpackint_def Let_def split: if_splits)

lemma unpack_item_safe:
  assumes v: "valid_range h p ld" and le: "pos + sz \<le> ld"
  shows "case unpack_item api p ld opt little sz pos h of
      Inl e \<Rightarrow> e \<noteq> UBerr \<and> e \<noteq> Diverges | Inr (vs, pos') \<Rightarrow> pos' \<le> (if opt = Kzstr then ld + sz else ld)"
proof -
  have rd: "\<exists>bs. read_mem h (ptr_add p off) n = Some bs \<and> length bs = n" if "off + n \<le> ld" for off n
    using valid_range_read [OF v that] .
  obtain bs where bs: "read_mem h (ptr_add p pos) sz = Some bs" using rd [OF le] by blast
  obtain cs where cs: "read_mem h (ptr_add p pos) (ld - pos) = Some cs" using rd [of pos "ld - pos"] le by auto
  show ?thesis
  proof (cases opt)
    case Kint
    then show ?thesis using bs le unpackint_error
      by (cases "unpackint bs little sz True") (auto simp: unpack_item_def Let_def)
  next
    case Kuint
    then show ?thesis using bs le unpackint_error
      by (cases "unpackint bs little sz False") (auto simp: unpack_item_def Let_def)
  next
    case Kstring
    show ?thesis
    proof (cases "unpackint bs little sz False")
      case (Inl e)
      then show ?thesis using bs Kstring unpackint_error by (auto simp: unpack_item_def Let_def)
    next
      case (Inr n)
      show ?thesis
      proof (cases "unat n \<le> ld - pos - sz")
        case True
        then have "pos + sz + unat n \<le> ld" using le by simp
        then obtain s where "read_mem h (ptr_add p (pos + sz)) (unat n) = Some s"
          using rd [of "pos + sz" "unat n"] by blast
        then show ?thesis using bs Inr Kstring True le by (auto simp: unpack_item_def Let_def argcheck_def)
      next
        case False
        then show ?thesis using bs Inr Kstring by (auto simp: unpack_item_def Let_def argcheck_def)
      qed
    qed
  next
    case Kzstr
    then show ?thesis using cs le memchr_Some [of cs 0 "ld - pos"]
      by (cases "memchr cs 0 (ld - pos)") (auto simp: unpack_item_def Let_def)
  qed (use bs le in \<open>auto simp: unpack_item_def Let_def\<close>)
qed

lemma mem_unpack_loop_safe:
  assumes "valid_range h p ld" and "pos \<le> ld" and "mem_unpack_loop api p ld hr fmt pos h = Inl e"
  shows "e \<noteq> UBerr \<and> e \<noteq> Diverges"
  using assms
proof (induction api p ld hr fmt pos h rule: mem_unpack_loop.induct)
  case (1 api p ld hr fmt pos h)
  show ?case
  proof (cases "fmt = [] \<or> (\<exists>e. getdetails hr pos fmt = Inl e)")
    case True
    with "1.prems"(3) have "fmt \<noteq> [] \<and> getdetails hr pos fmt = Inl e"
      by (auto simp: mem_unpack_loop.simps [of api p ld hr fmt] split: if_splits)
    then show ?thesis using getdetails_error by blast
  next
    case False
    then obtain opt hr1 sz al rest where ne: "fmt \<noteq> []" and d: "getdetails hr pos fmt = Inr (opt, hr1, sz, al, rest)"
      by (cases "getdetails hr pos fmt") auto
    show ?thesis
    proof (cases "al + nat sz \<le> ld - pos")
      case False
      then show ?thesis using "1.prems"(3) ne d
        by (auto simp: mem_unpack_loop.simps [of api p ld hr fmt] argcheck_def)
    next
      case True
      then have le: "pos + al + nat sz \<le> ld" using "1.prems"(2) by simp
      have ac: "argcheck (al + nat sz \<le> ld - pos) 2 ''data string too short'' = Inr ()"
        using True by (simp add: argcheck_def)
      have z: "opt = Kzstr \<Longrightarrow> nat sz = 0" using getdetails_size [OF d] by auto
      note it = unpack_item_safe [OF "1.prems"(1) le, where api = api and opt = opt and little = "islittle hr1"]
      show ?thesis
      proof (cases "unpack_item api p ld opt (islittle hr1) (nat sz) (pos + al) h")
        case (Inl e')
        then show ?thesis using it "1.prems"(3) ne d ac
          by (simp add: mem_unpack_loop.simps [of api p ld hr fmt])
      next
        case (Inr r)
        then obtain vs pos' where r: "unpack_item api p ld opt (islittle hr1) (nat sz) (pos + al) h = Inr (vs, pos')"
          by (cases r) auto
        then have p': "pos' \<le> ld" using it z by (auto split: if_splits)
        have "mem_unpack_loop api p ld hr1 rest pos' h = Inl e"
          using "1.prems"(3) ne d ac r
          by (simp add: mem_unpack_loop.simps [of api p ld hr fmt] bindE_eq_Inl)
        from "1.IH" [OF ne d refl refl refl refl ac r refl "1.prems"(1) p' this] show ?thesis .
      qed
    qed
  qed
qed

lemma tomemoryx_users: "users h' = users h \<Longrightarrow> luamem_tomemoryx h' v = luamem_tomemoryx h v"
  by (simp add: luamem_tomemoryx_def split: option.splits lval.splits userdata.splits)

lemma mem_unpack_safe:
  assumes "heap_ok h" and "sizes_ok api h"
  shows "safe (mem_unpack api L h) \<and> snd (mem_unpack api L h) = h"
proof
  show "safe (mem_unpack api L h)"
    unfolding mem_unpack_def Let_def case_prod_beta
  proof (intro safe_onE assms(1), goal_cases)
    case (5 pl fmt pos u)
    have pl: "luamem_checkmemory h L 1 = Inr (fst pl, snd pl)" using 5(1) by simp
    from checkmemory_arr [OF assms pl] memory_start [OF _ 5(4)] mem_unpack_loop_safe assms(1)
    show ?case unfolding safe_def by fastforce
  qed auto
  show "snd (mem_unpack api L h) = h"
    by (simp add: mem_unpack_def onE_def Let_def split: sum.splits prod.splits)
qed

text \<open>
  Unpacking with the format and position of a successful packing, on the memory it left:
  the values are those packed, and the next position is the same.
\<close>

lemma mem_unpack_pack:
  assumes ok: "heap_ok h" and szs: "sizes_ok api h" and str: "\<forall>k > 3. \<not> ismemory h (arg L k)"
    and three: "length L \<ge> 3" "L ! 2 \<noteq> LNil"
    and pk: "mem_pack api L h = (Inr [LBool True, LInt e], h')"
  shows "\<exists>vs. mem_unpack api (take 3 L) h' = (Inr (vs @ [LInt e]), h') \<and>
     list_all2 (packs_as api) vs (take (length vs) (drop 3 L))"
proof -
  have arg: "arg (take 3 L) k = arg L k" if "k \<le> 3" for k using that three(1) by (auto simp: arg_def)
  obtain p lb fmt pos where m: "luamem_checkmemory h L 1 = Inr (p, lb)" and f: "cformat api L 2 = Inr fmt"
    and pos: "checkinteger api L 3 = Inr pos"
    and i: "posrelatI pos (u64_len lb) - 1 \<le> u64_len lb"
    and lp: "mem_pack_loop api L p lb initheader fmt (unat (posrelatI pos (u64_len lb) - 1)) 3 h = (Inr [LBool True, LInt e], h')"
    using pk by (auto simp: mem_pack_def Let_def onE_def argcheck_def split: sum.splits if_splits)
  from checkmemory_arr [OF ok szs m] have v: "valid_range h p lb" and ln: "lua_len lb" by auto
  have i': "unat (posrelatI pos (u64_len lb) - 1) \<le> lb"
    using i by (simp add: word_le_nat_alt unat_u64_len [OF ln])
  from mem_pack_loop_safe [OF ok v i' str, of api initheader fmt] lp
  have h': "users h' = users h" "valid_range h' p lb" by auto
  have "\<forall>v s. tolstring api v = Some s \<longrightarrow> lua_len (length s)" using szs by (simp add: sizes_ok_def)
  from mem_pack_loop_back [OF lp i' str this] h'(2)
  obtain vs where vs: "mem_unpack_loop api p lb initheader fmt (unat (posrelatI pos (u64_len lb) - 1)) h' = Inr (vs @ [LInt e])"
    "list_all2 (packs_as api) vs (take (length vs) (drop 3 L))" by (meson same_below_refl)
  have "luamem_checkmemory h' (take 3 L) 1 = Inr (p, lb)"
    using m h'(1) tomemoryx_users [of h' h] by (simp add: luamem_checkmemory_def arg)
  moreover have "cformat api (take 3 L) 2 = Inr fmt" using f by (simp add: cformat_def arg)
  moreover have "optinteger api (take 3 L) 3 1 = Inr pos"
    using pos three by (auto simp: optinteger_def isnoneornil_def checkinteger_def arg_def split: option.splits)
  ultimately show ?thesis using vs i by (auto simp: mem_unpack_def Let_def argcheck_def)
qed

end
