(* ===== verification/Spec2Isabelle.thy ===== *)
theory Spec2Isabelle
  imports Prelude Json JsonSerialize Results Service MemView Jx9Str Jx9Codec Jx9Uri Jx9Map Jx9Ds Doubles Vm Store Demo Jx9Vm Jx9Json Jx9Compare Jx9Sort Jx9Array Jx9Text PyVm RubyVm LuaVm JsVm LuaMem LuaMemLib LuaPack
begin

text \<open>
  A model of Poesie (\<open>src/\<close>), the remote interpreter service of the Mochi suite, with the
  theorems that make it correct and those that say where it is not.

  \<^bold>\<open>The program.\<close> A client holds a \<open>VmHandle\<close> (\<open>VmHandle.cpp\<close>) and asks a provider
  (\<open>ProviderImpl.hpp\<close>) to execute code, load a file or call a function, with JSON values as
  arguments. Arguments and results travel in the format of \<open>JsonSerialize.hpp\<close> and \<open>Result.hpp\<close>.
  The provider owns at most one virtual machine, made by a factory (\<open>Backend.cpp\<close>) from its
  configuration: Lua, JavaScript (Duktape), Jx9, Python or Ruby. A backend turns the arguments
  into values of its interpreter, runs the script under a mutex and turns the result back. A
  binary argument may denote a memory view (\<open>MemoryView.cpp\<close>): a range of remote memory that is
  fetched when a script needs it and written back when the call ends. Two libraries come along
  with their sources and are modelled as far as the backends rest on them: the memory objects of
  Lua (\<open>src/lua/memory\<close>) and parts of the Jx9 engine (\<open>src/jx9/jx9/jx9.c\<close>).

  \<^bold>\<open>The theories.\<close>
  \<^item> \<open>Prelude\<close>: machine integers, bytes, strings, the errors \<open>exn\<close> and the error sum. \<open>UB\<close> stands for
    undefined behaviour, \<open>Abort\<close> for the end of the process, \<open>Deadlock\<close> for waiting for ever.
  \<^item> \<open>Json\<close>, \<open>JsonSerialize\<close>, \<open>Results\<close>: JSON values and the wire format, generic in the archive.
  \<^item> \<open>Service\<close>: factory, provider (with the finalize callbacks of the engine), client handle and the
    whole path of a remote call; \<open>MemView\<close>, \<open>Demo\<close>: memory views and a small network.
  \<^item> \<open>Vm\<close>, \<open>Store\<close>: what the backends share. An action maps a state to a value or exception and a
    state; the record \<open>vm_world\<close> holds the mutex, the views that are alive, those the running call
    created and the write-backs; \<open>Store\<close> is a heap of cells.
  \<^item> \<open>LuaVm\<close>, \<open>JsVm\<close>, \<open>Jx9Vm\<close>, \<open>PyVm\<close>, \<open>RubyVm\<close>: one theory per backend, every function of its source
    file, in order.
  \<^item> \<open>LuaMem\<close>, \<open>LuaMemLib\<close>, \<open>LuaPack\<close>: memory objects, the library functions over them, \<open>pack\<close> and
    \<open>unpack\<close>.
  \<^item> \<open>Jx9Str\<close> (string routines and numeral scanners), \<open>Jx9Codec\<close> (hash, CRC-32, base64), \<open>Jx9Uri\<close> (URL
    encoding and UTF-8), \<open>Jx9Map\<close> (the hashmaps behind arrays and objects), \<open>Jx9Ds\<close> (the buffers, arrays
    and hash tables of the engine), \<open>Jx9Json\<close> (\<open>json_encode\<close> and \<open>json_decode\<close>), \<open>Jx9Compare\<close> (conversion
    and comparison of values), \<open>Jx9Sort\<close> (\<open>sort\<close>, \<open>rsort\<close>, \<open>usort\<close>), \<open>Jx9Array\<close> (the other functions of
    a script on arrays), \<open>Jx9Text\<close> (its functions on a string): parts of \<open>jx9.c\<close>; \<open>Doubles\<close>: the
    conversions between doubles and integers that the backends rest on.

  \<^bold>\<open>Locales.\<close> \<open>backend\<close> and \<open>robust_backend\<close> (\<open>Vm\<close>) say what a provider relies on between two requests;
  Lua, JavaScript, Jx9 and Ruby are robust, Python only a backend, for its mutex is not released by
  exceptions. \<open>heap_of\<close> (\<open>Store\<close>) is about conversions that allocate, \<open>codec\<close> (\<open>Jx9Codec\<close>) about
  encoders and decoders, \<open>ordered_map\<close> (\<open>Jx9Map\<close>) about maps in insertion order,
  \<open>growing_array\<close> and \<open>symbol_table\<close> (\<open>Jx9Ds\<close>) about the containers, \<open>total_comparison\<close> (\<open>Jx9Sort\<close>) about what sorting asks of a comparison, \<open>pattern_search\<close> (\<open>Jx9Text\<close>)
  about searches over a matcher. Each is interpreted on the definitions of the code.

  \<^bold>\<open>What is shown.\<close> A remote call runs the backend once on the arguments as they travel and yields
  what it replied; values, results, views, packed data, base64 and URL encodings survive their
  round trip; each backend returns to its idle state after every request (Python: after every
  request it answers), and what a value becomes on its way through each interpreter is stated
  exactly, for Lua up to the order in which tables are traversed; memory objects and views are
  accessed inside their bytes, and a view fetches its data once; the containers, the sorting and
  the searches of the Jx9 engine are those of lists and maps. Where the code fails, the theorem
  says how: providers that dangle after a move, ranges that wrap around, views that die before the
  script sees them, a stack that fills up, a mutex that stays locked, a process that ends.

  \<^bold>\<open>Parameters.\<close> What is not under \<open>src/\<close> is an argument: the network and RDMA (\<open>net\<close>), the archive, the
  interpreters (\<open>lua_engine\<close>, \<open>lua_api\<close>, \<open>js_api\<close>, \<open>jx9_api\<close>, \<open>py_engine\<close>, \<open>rb_engine\<close>), files (a map from
  names to contents), printing of JSON, and whether an allocation succeeds (\<open>room\<close>). Assumptions on
  them are named (\<open>archive_ok\<close>, \<open>py_api_ok\<close>, \<open>sizes_ok\<close>) and each theorem with one is applied at an
  instance where it holds.

  \<^bold>\<open>Bounds.\<close> Conversions to JSON recurse over values that may be cyclic, so they take the depth the
  stack allows (\<open>max_depth\<close>, \<open>js_depth\<close>, \<open>stack_depth\<close>, \<open>py_depth\<close>, \<open>rb_depth\<close>) and \<open>Abort\<close> beyond it; the
  round trips ask that the value's depth be within it. The decoder of \<open>json_decode\<close> recurses at most
  32 levels, as its code does; its loops take one round more than there are tokens, and
  \<open>json_decode_errors\<close> shows that they never use them up. \<open>loadJSON\<close> takes the same kind of bound. Loops
  over words are recursions that end by a measure.

  \<^bold>\<open>Not modelled.\<close> Duktape, the compiler, byte code, arithmetic, most builtins, formatting of doubles
  and virtual file system of Jx9, and the interpreters of Lua, Python and Ruby: running a script is a parameter.
  The Bedrock module and the logging are glue. Threads of Argobots: a request runs to its end
  before the next one, which the mutexes see to within a backend. Tests and examples.
\<close>

section \<open>Remote execution\<close>

definition echo_ops :: "unit backend_ops" where
  "echo_ops = \<lparr>op_getConfig = \<lambda>_. ''{}'',
     op_execute = \<lambda>code args b. (Inr \<lparr>m_success = True, m_error = [], m_value = JArray args\<rparr>, b),
     op_load = \<lambda>f args b. (Inr \<lparr>m_success = False, m_error = ''no such file'', m_value = JNull\<rparr>, b),
     op_call = \<lambda>f t args b. (Inr \<lparr>m_success = True, m_error = [], m_value = JArray (JString f # args)\<rparr>, b),
     op_destroy = \<lambda>b. b\<rparr>"

definition echo_provider :: "unit provider" where
  "echo_provider = \<lparr>m_backend = Some \<lparr>vm_name = ''echo'', vm_impl = ()\<rparr>\<rparr>"

text \<open>
  C1. A remote execution runs the backend's \<open>execute\<close> once, on the code and on the arguments
  as they travel, and \<open>wait()\<close> yields its value, or throws its error; the provider keeps the
  VM, with the state the backend left.
\<close>

theorem remote_execute_correct:
  assumes "archive_ok ar" and "archive_view_ok ar" and "length code < size_max" and "args_ok fuel args"
    and "m_backend p = Some vm" and "op_execute ops code (map wire_value args) (vm_impl vm) = (Inr r, b)"
    and "reply_ok fuel r"
  shows "remote_execute fuel ar ops True code args p =
     (if m_success r then Inr (wire_value (m_value r)) else Inl (Exn (m_error r)),
      p\<lparr>m_backend := Some (vm\<lparr>vm_impl := b\<rparr>)\<rparr>)"
proof -
  have "run_backend (op_execute ops code (map wire_value args)) p
      = (Replies r, p\<lparr>m_backend := Some (vm\<lparr>vm_impl := b\<rparr>)\<rparr>)"
    using assms(5,6) by (simp add: run_backend_def)
  from remote_execute_run [OF assms(1-4) this assms(7)] show ?thesis
    by (simp add: wire_outcome_def valueOrThrow_def Result_check_def)
qed

theorem remote_execute_correct_witness:
  "remote_execute 3 raw_archive echo_ops True ''f'' [JBool True, JBinary [1, 2] None] echo_provider =
     (Inr (JArray [JBool True, JBinary [1, 2] (Some (-1))]), echo_provider)"
proof -
  have "args_ok 3 [JBool True, JBinary [1, 2] None]" by (simp add: args_ok_def size_max_def)
  moreover have "reply_ok 3 \<lparr>m_success = True, m_error = [], m_value = JArray (map wire_value [JBool True, JBinary [1, 2] None])\<rparr>"
    by (simp add: reply_ok_def size_max_def)
  ultimately show ?thesis
    using remote_execute_correct [OF raw_archive_ok raw_archive_view_ok, where ops = echo_ops and p = echo_provider
      and code = "''f''" and fuel = 3 and args = "[JBool True, JBinary [1, 2] None]"
      and vm = "\<lparr>vm_name = ''echo'', vm_impl = ()\<rparr>" and b = "()"]
    by (simp add: echo_ops_def echo_provider_def size_max_def binary_subtype_def)
qed

text \<open>
  C2. The same of a remote call, by function name and target in that order; without a VM the
  backend is not run, \<open>wait()\<close> throws that there is none and the provider stays as it is.
\<close>

theorem remote_call_correct:
  assumes "archive_ok ar" and "archive_view_ok ar" and "length fname < size_max"
    and "length target < size_max" and "args_ok fuel args" and "reply_ok fuel r"
    and "\<And>vm. m_backend p = Some vm \<Longrightarrow> op_call ops fname target (map wire_value args) (vm_impl vm) = (Inr r, b)"
    and "m_backend p = None \<Longrightarrow> r = \<lparr>m_success = False, m_error = ''Provider has no VM attached'', m_value = JNull\<rparr>"
  shows "remote_call fuel ar ops True fname target args p =
     (if m_success r then Inr (wire_value (m_value r)) else Inl (Exn (m_error r)),
      case m_backend p of None \<Rightarrow> p | Some vm \<Rightarrow> p\<lparr>m_backend := Some (vm\<lparr>vm_impl := b\<rparr>)\<rparr>)"
proof -
  have "run_backend (op_call ops fname target (map wire_value args)) p
      = (Replies r, case m_backend p of None \<Rightarrow> p | Some vm \<Rightarrow> p\<lparr>m_backend := Some (vm\<lparr>vm_impl := b\<rparr>)\<rparr>)"
    using assms(7,8)
    by (cases "m_backend p") (simp_all add: run_backend_def no_vm_result_def Result_default_def)
  from remote_call_run [OF assms(1-5) this assms(6)] show ?thesis
    by (simp add: wire_outcome_def valueOrThrow_def Result_check_def)
qed

theorem remote_call_correct_witness:
  "remote_call 3 raw_archive echo_ops True ''f'' ''t'' [JNull] echo_provider = (Inr (JArray [JString ''f'', JNull]), echo_provider)"
proof -
  have "args_ok 3 [JNull]" by (simp add: args_ok_def size_max_def)
  moreover have "reply_ok 3 \<lparr>m_success = True, m_error = [], m_value = JArray [JString ''f'', JNull]\<rparr>"
    by (simp add: reply_ok_def size_max_def)
  ultimately show ?thesis
    using remote_call_correct [OF raw_archive_ok raw_archive_view_ok, where ops = echo_ops and fname = "''f''"
      and target = "''t''" and fuel = 3 and args = "[JNull]" and p = echo_provider and b = "()"
      and r = "\<lparr>m_success = True, m_error = [], m_value = JArray [JString ''f'', JNull]\<rparr>"]
    by (simp add: echo_ops_def echo_provider_def size_max_def)
qed

text \<open>
  C3. The client's call of a Python function that returns its argument, through serialization,
  handler, interpreter and back: \<open>wait()\<close> yields the argument, changed only as the wire and the
  two conversions of the Python backend change it, and the provider is ready for the next request.
\<close>

theorem remote_python_call:
  assumes "archive_ok ar" and "archive_view_ok ar" and "length fname < size_max" and "args_ok fuel [j]"
    and "py_api_ok api" and "py_plain api (wire_value j)" and "depth j \<le> py_depth api"
    and "m_backend p = Some vm" and "idle (vm_impl vm)" and "store_ok (objects (py (vm_impl vm)))"
    and "py_attr api PyMain (cstr fname) (py (vm_impl vm)) = Some f"
    and "\<And>x c m. py_call api f [x] c m = (Inr x, c, m)"
    and "reply_ok fuel (succeeded (py_norm api (wire_value j)))"
  shows "\<exists>p'. remote_call fuel ar (PythonVm_ops api net files dump) True fname [] [j] p =
       (Inr (wire_value (py_norm api (wire_value j))), p') \<and>
     provider_ready idle m_config (Some (vm_name vm)) (m_config (vm_impl vm)) p'"
proof -
  let ?ops = "PythonVm_ops api net files dump"
  have "fst (PythonVm_call api net fname [] [wire_value j] (vm_impl vm)) = Inr (succeeded (py_norm api (wire_value j)))"
    using assms(5-12) by (intro PythonVm_call_echo) simp_all
  then obtain b where b: "PythonVm_call api net fname [] [wire_value j] (vm_impl vm) = (Inr (succeeded (py_norm api (wire_value j))), b)"
    by (metis prod.collapse)
  then have "run_backend (op_call ?ops fname [] (map wire_value [j])) p =
      (Replies (succeeded (py_norm api (wire_value j))), p\<lparr>m_backend := Some (vm\<lparr>vm_impl := b\<rparr>)\<rparr>)"
    using assms(8) by (simp add: run_backend_def PythonVm_ops_def)
  from remote_call_run [OF assms(1-3) _ assms(4) this assms(13)]
  have "remote_call fuel ar ?ops True fname [] [j] p =
      (Inr (wire_value (py_norm api (wire_value j))), p\<lparr>m_backend := Some (vm\<lparr>vm_impl := b\<rparr>)\<rparr>)"
    by (simp add: wire_outcome_def valueOrThrow_def Result_check_def succeeded_def Result_default_def size_max_def)
  moreover have "idle b \<and> m_config b = m_config (vm_impl vm)" using PythonVm_call_idle [OF assms(9) b] .
  ultimately show ?thesis by (simp add: provider_ready_def)
qed

theorem remote_python_call_witness:
  "\<exists>p'. remote_call 3 raw_archive (PythonVm_ops demo_py demo_net Map.empty (\<lambda>_. ''{}'')) True ''f'' []
      [JArray [JUInt 5, JBinary [0, 1, 2] None]] demo_py_provider =
     (Inr (JArray [JInt 5, JString ''AAEC'']), p') \<and> provider_ready idle m_config (Some ''python'') JNull p'"
proof -
  let ?j = "JArray [JUInt 5, JBinary [0, 1, 2] None]" and ?vm = "\<lparr>vm_name = ''python'', vm_impl = demo_py_vm\<rparr>"
  have a: "args_ok 3 [?j]" by (simp add: args_ok_def size_max_def)
  have p: "py_plain demo_py (wire_value ?j)" by (simp add: demo_py_def IsMemoryView_def binary_subtype_def MEMORY_VIEW_SUBTYPE_CODE_def)
  have d: "depth ?j \<le> py_depth demo_py" by (simp add: demo_py_def)
  have vm: "m_backend demo_py_provider = Some ?vm" by (simp add: demo_py_provider_def)
  have i: "idle (vm_impl ?vm)" "store_ok (objects (py (vm_impl ?vm)))" by (simp_all add: demo_py_def)
  have f: "py_attr demo_py PyMain (cstr ''f'') (py (vm_impl ?vm)) = Some (PyFunction 0)" by (simp add: demo_py_def cstr_def)
  have c: "py_call demo_py (PyFunction 0) [x] c m = (Inr x, c, m)" for x c m by (simp add: demo_py_def)
  have n: "py_norm demo_py (wire_value ?j) = JArray [JInt 5, JString ''AAEC'']" by (simp add: demo_py_def)
  have r: "reply_ok 3 (succeeded (py_norm demo_py (wire_value ?j)))"
    unfolding n by (simp add: reply_ok_def succeeded_def Result_default_def size_max_def)
  have l: "length ''f'' < size_max" by (simp add: size_max_def)
  from remote_python_call [OF raw_archive_ok raw_archive_view_ok l a demo_py_ok p d vm i f c r, of demo_net Map.empty "\<lambda>_. ''{}''"]
  show ?thesis unfolding n by simp
qed

section \<open>Values on the wire\<close>

text \<open>
  C4. Serializing a value and deserializing it returns the value, with a binary value's
  missing subtype replaced by the one the wire format gives it, and consumes exactly the
  bytes written, whatever follows them.
\<close>

theorem json_roundtrip:
  assumes "archive_ok ar" and "json_ok v" and "depth v \<le> fuel"
  shows "\<exists>bs. saveJSON ar v = Inr bs \<and> loadJSON fuel ar JNull (bs @ r) = Inr (wire_value v, r)"
  using load_save [OF assms] by blast

theorem json_roundtrip_witness:
  "\<exists>bs. saveJSON raw_archive (JObject [(''a'', JArray [JInt (-1), JBinary [7] (Some 5)])]) = Inr bs \<and>
     loadJSON 4 raw_archive JNull (bs @ [9]) = Inr (JObject [(''a'', JArray [JInt (-1), JBinary [7] (Some 5)])], [9])"
  using json_roundtrip [OF raw_archive_ok, of "JObject [(''a'', JArray [JInt (-1), JBinary [7] (Some 5)])]" 4 "[9]"]
  by (simp add: size_max_def binary_subtype_def)

text \<open>
  C5. A result of JSON values survives the wire in its flag and in the value or error the
  flag selects.
\<close>

theorem result_roundtrip:
  assumes "archive_ok ar" and "m_success r \<Longrightarrow> json_ok (m_value r) \<and> depth (m_value r) \<le> fuel"
    and "\<not> m_success r \<Longrightarrow> length (m_error r) < size_max"
  shows "\<exists>bs. Result_save ar (save_wrapper ar) r = Inr bs \<and>
     Result_load ar (load_wrapper fuel ar) (Result_default JNull) (bs @ rest) =
       Inr (if m_success r then (Result_default JNull)\<lparr>m_success := True, m_value := wire_value (m_value r)\<rparr>
            else (Result_default JNull)\<lparr>m_success := False, m_error := m_error r\<rparr>, rest)"
proof -
  obtain bs where bs: "m_success r \<Longrightarrow> save_wrapper ar (m_value r) = Inr bs"
    using assms(2) save_total [of "m_value r" ar] by (cases "m_success r") (auto simp: save_wrapper_def)
  show ?thesis
    by (rule Result_load_save [OF assms(1), where vb = bs])
      (use assms bs load_wrapper_save [OF assms(1)] in auto)
qed

theorem result_roundtrip_witness:
  "\<exists>bs. Result_save raw_archive (save_wrapper raw_archive) \<lparr>m_success = False, m_error = ''no'', m_value = JNull\<rparr> = Inr bs \<and>
     Result_load raw_archive (load_wrapper 0 raw_archive) (Result_default JNull) bs =
       Inr (\<lparr>m_success = False, m_error = ''no'', m_value = JNull\<rparr>, [])"
  using result_roundtrip [OF raw_archive_ok, of "\<lparr>m_success = False, m_error = ''no'', m_value = JNull\<rparr>" 0 "[]"]
  by (simp add: Result_default_def size_max_def)

section \<open>Providers\<close>

text \<open>
  C6. The configuration a provider reports describes it. Constructed from a text that names a
  virtual machine of a registered type, it reports that type and its configuration (the empty
  object if there is none), and a provider constructed from this report is the same one. The
  constructor throws only for a type that is not registered, with its name, or with what the
  creation function of the type throws.
\<close>

definition provider_config :: "string \<Rightarrow> json \<Rightarrow> json" where
  "provider_config t c = JObject [(''vm'', JObject [(''config'', c), (''type'', JString t)])]"

theorem provider_config_roundtrip:
  assumes "parse config = Inr j" and "member j ''vm'' = Some vm" and "member vm ''type'' = Some (JString t)"
    and "c = (case member vm ''config'' of Some c \<Rightarrow> c | None \<Rightarrow> JObject [])"
    and "\<And>name f cfg b. (name, f) \<in> set regs \<Longrightarrow> f cfg = Inr b \<Longrightarrow> op_getConfig ops b = dump cfg"
    and "parse (dump c) = Inr c" and "parse (dump (provider_config t c)) = Inr (provider_config t c)"
  shows "case ProviderImpl_new parse (registered regs) config of
      Inr p \<Rightarrow> ProviderImpl_getConfig parse dump ops p = Inr (dump (provider_config t c)) \<and>
        ProviderImpl_new parse (registered regs) (dump (provider_config t c)) = Inr p
    | Inl e \<Rightarrow> t \<notin> fst ` set regs \<and> e = Exn (''Unknown vm type '' @ t) \<or>
        (\<exists>f what. (t, f) \<in> set regs \<and> f c = Inl what \<and> e = Exn what)"
proof -
  have new: "ProviderImpl_new parse (registered regs) s = new_with (registered regs) t c"
    if "parse s = Inr j'" "member j' ''vm'' = Some vm'" "member vm' ''type'' = Some (JString t)"
      "c = (case member vm' ''config'' of Some c \<Rightarrow> c | None \<Rightarrow> JObject [])" for s j' vm'
    using that by (rule ProviderImpl_new_vm)
  have n1: "ProviderImpl_new parse (registered regs) config = new_with (registered regs) t c"
    by (rule new [OF assms(1-4)])
  have n2: "ProviderImpl_new parse (registered regs) (dump (provider_config t c)) = new_with (registered regs) t c"
    by (rule new [OF assms(7), where vm' = "JObject [(''config'', c), (''type'', JString t)]"])
      (simp_all add: provider_config_def member_def)
  show ?thesis
  proof (cases "registered regs t")
    case None
    then show ?thesis by (simp add: n1 new_with_def registered_None)
  next
    case (Some g)
    then obtain f where f: "(t, f) \<in> set regs" "g = (\<lambda>config. bindE (f config) (\<lambda>p. Inr \<lparr>vm_name = t, vm_impl = p\<rparr>))"
      by (blast dest: registered_Some)
    show ?thesis
    proof (cases "f c")
      case (Inl what)
      then show ?thesis using Some f by (auto simp: n1 new_with_def)
    next
      case (Inr b)
      then have "op_getConfig ops b = dump c" using assms(5) [OF f(1)] by blast
      then show ?thesis
        using Some f(2) Inr assms(6) unfolding n1 n2
        by (simp add: new_with_def ProviderImpl_getConfig_def obj_set_vm provider_config_def)
    qed
  qed
qed

definition demo_parse :: "string \<Rightarrow> string + json" where
  "demo_parse s = (if s = ''short'' then Inr (JObject [(''vm'', JObject [(''type'', JString ''echo'')])])
     else if s = ''full'' then Inr (provider_config ''echo'' (JObject []))
     else if s = ''{}'' then Inr (JObject []) else Inl ''parse error'')"

definition demo_dump :: "json \<Rightarrow> string" where
  "demo_dump j = (if j = JObject [] then ''{}'' else if j = provider_config ''echo'' (JObject []) then ''full'' else ''?'')"

theorem provider_config_roundtrip_witness:
  "ProviderImpl_getConfig demo_parse demo_dump (echo_ops\<lparr>op_getConfig := demo_dump \<circ> (\<lambda>_. JObject [])\<rparr>)
     \<lparr>m_backend = Some \<lparr>vm_name = ''echo'', vm_impl = ()\<rparr>\<rparr> = Inr ''full''"
proof -
  let ?regs = "[(''echo'', \<lambda>cfg. if cfg = JObject [] then Inr () else Inl ''no'')]"
  let ?ops = "echo_ops\<lparr>op_getConfig := demo_dump \<circ> (\<lambda>_. JObject [])\<rparr>"
  let ?vm = "JObject [(''type'', JString ''echo'')]"
  have p: "demo_parse ''short'' = Inr (JObject [(''vm'', ?vm)])" by (simp add: demo_parse_def)
  have m: "member (JObject [(''vm'', ?vm)]) ''vm'' = Some ?vm" "member ?vm ''type'' = Some (JString ''echo'')"
    "JObject [] = (case member ?vm ''config'' of Some c \<Rightarrow> c | None \<Rightarrow> JObject [])"
    by (simp_all add: member_def)
  have g: "op_getConfig ?ops b = demo_dump cfg" if "(name, f) \<in> set ?regs" "f cfg = Inr b" for name f cfg b
    using that by (auto split: if_splits)
  have d: "demo_parse (demo_dump (JObject [])) = Inr (JObject [])"
    "demo_parse (demo_dump (provider_config ''echo'' (JObject []))) = Inr (provider_config ''echo'' (JObject []))"
    by (simp_all add: demo_parse_def demo_dump_def provider_config_def)
  have "ProviderImpl_new demo_parse (registered ?regs) ''short'' = new_with (registered ?regs) ''echo'' (JObject [])"
    by (rule ProviderImpl_new_vm) (rule p m)+
  then have n: "ProviderImpl_new demo_parse (registered ?regs) ''short'' = Inr \<lparr>m_backend = Some \<lparr>vm_name = ''echo'', vm_impl = ()\<rparr>\<rparr>"
    by (simp add: new_with_def registered_def register_backend_def)
  have f: "demo_dump (provider_config ''echo'' (JObject [])) = ''full''" by (simp add: demo_dump_def provider_config_def)
  show ?thesis
    using provider_config_roundtrip [where c = "JObject []" and t = "''echo''" and regs = ?regs and ops = ?ops and dump = demo_dump,
      OF p m(1) m(2) m(3) g d(1) d(2)] unfolding n f by simp
qed

text \<open>
  C7. Whatever provider objects are constructed, destroyed and finalized, in any order,
  without moving one, finalizing the engine runs only callbacks of live objects.
\<close>

theorem provider_lives_finalize:
  assumes "life no_world ops w" and "\<forall>p q. PMove p q \<notin> set ops"
  shows "\<exists>w'. engine_finalize (callbacks w) w = Inr w'"
  by (rule world_ok_finalizes, rule life_ok [OF assms(1) _ assms(2)]) (simp add: world_ok_def no_world_def)

theorem provider_lives_finalize_witness:
  "\<exists>w'. engine_finalize [5] \<lparr>objs = [5 \<mapsto> Some ()], callbacks = [5 :: nat]\<rparr> = Inr w'"
proof -
  have "life no_world [PNew 5 ()] \<lparr>objs = [5 \<mapsto> Some ()], callbacks = [5]\<rparr>"
    by (rule life.step [OF _ life.stop], rule life_step.new)
      (simp_all add: no_world_def Provider_new_def push_finalize_def)
  from provider_lives_finalize [OF this] show ?thesis by simp
qed

text \<open>
  C8. Moving a provider leaves the callback of the object moved from: destroying that
  object and then finalizing the engine is an access to a dead object.
\<close>

theorem provider_move_dangles:
  assumes "life no_world ops w" and "\<forall>p q. PMove p q \<notin> set ops"
    and "objs w this = None" and "Provider_move this other w = Inr w1" and "Provider_delete other w1 = Inr w2"
  shows "engine_finalize (callbacks w2) w2 = Inl UB"
  using life_ok [OF assms(1) _ assms(2)] by (intro move_dangles [OF _ assms(3-5)]) (simp add: world_ok_def no_world_def)

theorem provider_move_dangles_witness:
  "bindE (Provider_new 1 () no_world) (\<lambda>w. bindE (Provider_move 2 1 w) (\<lambda>w. bindE (Provider_delete 1 w)
     (\<lambda>w. engine_finalize (callbacks w) w))) = Inl UB"
proof -
  let ?w = "\<lparr>objs = [1 \<mapsto> Some ()], callbacks = [1 :: nat]\<rparr>"
  have "life no_world [PNew 1 ()] ?w"
    by (rule life.step [OF _ life.stop], rule life_step.new)
      (simp_all add: no_world_def Provider_new_def push_finalize_def)
  from provider_move_dangles [OF this, of 2 1] show ?thesis
    by (simp add: Provider_new_def Provider_move_def Provider_delete_def push_finalize_def pop_finalize_def no_world_def Let_def)
qed

section \<open>Memory views\<close>

text \<open>
  C9. A view turned into JSON is recognized and constructs a view of the same range, with
  no local data yet, both from the binary value and from what it becomes when JSON text is
  printed and parsed in between.
\<close>

theorem memoryview_roundtrip:
  assumes "j = view_toJson net (Some v) \<or> j = dumped_form (view_toJson net (Some v))"
    and "length (ep_string net (m_remote_ep v)) < size_max" "length (bulk_serialize net (m_remote_bulk v)) < size_max"
      "length (ep_string net (m_remote_ep v)) \<le> string_max net"
    and "ep_lookup net (ep_string net (m_remote_ep v)) = Inr (m_remote_ep v)"
    and "bulk_deserialize net (bulk_serialize net (m_remote_bulk v)) = m_remote_bulk v"
    and "m_remote_offset v + m_remote_size v \<le> bulk_size net (m_remote_bulk v)"
  shows "IsMemoryView j \<and> MemoryView_json net j =
     Inr (v\<lparr>m_local_data := NoData, m_local_bulk := NullBulk, m_owns_local_data := False\<rparr>)"
  by (rule view_json_back [OF assms])

theorem memoryview_roundtrip_witness:
  "MemoryView_json demo_net (dumped_form (view_toJson demo_net (Some demo_view))) = Inr demo_view"
  using memoryview_roundtrip [of "dumped_form (view_toJson demo_net (Some demo_view))" demo_net demo_view]
  by (simp add: demo_net_def demo_view_def size_max_def)

text \<open>
  C10. A range given by offset and size, whose sum does not wrap around, is accepted exactly when
  it lies inside the bulk, and the view has that range; with neither given the view is the whole
  bulk. Nothing is fetched by the construction.
\<close>

theorem memoryview_bounds:
  assumes "unat off + unat sz < 2 ^ 64"
  shows "(case MemoryView_bulk net bulk owner i (Some off) (Some sz) of
       Inr v \<Rightarrow> unat off + unat sz \<le> unat (bulk_size net bulk) \<and> m_remote_offset v = off \<and> m_remote_size v = sz \<and>
         m_remote_bulk v = bulk \<and> view_in_bulk net v \<and> m_local_data v = NoData \<and> view_inv v
     | Inl e \<Rightarrow> unat (bulk_size net bulk) < unat off + unat sz) \<and>
    (\<exists>v. MemoryView_bulk net bulk owner i None None = Inr v \<and> m_remote_offset v = 0 \<and>
       m_remote_size v = bulk_size net bulk \<and> m_remote_bulk v = bulk \<and> view_in_bulk net v \<and>
       m_local_data v = NoData \<and> view_inv v)"
proof -
  have "unat (off + sz) = unat off + unat sz" using assms by (simp add: unat_word_ariths)
  then show ?thesis
    by (auto simp: MemoryView_bulk_def value_or_def view_in_bulk_def view_inv_def word_less_nat_alt)
qed

theorem memoryview_bounds_witness:
  "(\<exists>e. MemoryView_bulk demo_net 100 0 IN (Some 90) (Some 11) = Inl e) \<and>
   (\<exists>v. MemoryView_bulk demo_net 100 0 IN None None = Inr v \<and> m_remote_size v = 100)"
  using memoryview_bounds [of 90 11 demo_net 100 0 IN]
  by (auto simp: demo_net_def split: sum.splits)

text \<open>
  A range whose offset and size sum past the largest \<open>size_t\<close> is accepted as soon as
  the wrapped sum fits, although it leaves the bulk.
\<close>

theorem memoryview_wraps:
  assumes "2 ^ 64 \<le> unat off + unat sz" and "off + sz \<le> bulk_size net bulk"
  shows "\<exists>v. MemoryView_bulk net bulk owner i (Some off) (Some sz) = Inr v \<and> \<not> view_in_bulk net v"
  using assms unat_u64 [of "bulk_size net bulk"]
  by (auto simp: MemoryView_bulk_def value_or_def view_in_bulk_def not_less)

theorem memoryview_wraps_witness:
  "\<exists>v. MemoryView_bulk demo_net 100 0 IN (Some (-1)) (Some 2) = Inr v \<and> \<not> view_in_bulk demo_net v"
  by (rule memoryview_wraps) (simp_all add: demo_net_def unsigned_minus_1_eq_mask mask_eq_exp_minus_1)



section \<open>The Lua memory library\<close>

definition demo_api :: lua_api where
  "demo_api = \<lparr>
     tointeger = (\<lambda>v. case v of LInt n \<Rightarrow> Some n | _ \<Rightarrow> None),
     tolstring = (\<lambda>v. case v of LStr s \<Rightarrow> if length s < 100 then Some s else None | LInt n \<Rightarrow> Some [48] | _ \<Rightarrow> None),
     tonumber = (\<lambda>v. case v of LFlt d \<Rightarrow> Some d | LInt n \<Rightarrow> Some n | _ \<Rightarrow> None),
     asstring = (\<lambda>v. []), alloc_fails = (\<lambda>n. 1000 < n), typename = (\<lambda>v. ''value''),
     concat_meta = (\<lambda>v. None), to_float = ucast, of_float = ucast\<rparr>"

definition demo_heap :: heap where
  "demo_heap = \<lparr>blocks = [0 \<mapsto> replicate 12 7], users = [0 \<mapsto> UAlloc (0, 0) 12],
     next_block = 1, next_user = 1, unref_log = []\<rparr>"

lemma demo_api_simps [simp]:
  "tointeger demo_api (LInt n) = Some n"
  "tolstring demo_api (LStr s) = (if length s < 100 then Some s else None)"
  "tointeger demo_api (LStr s) = None"
  by (simp_all add: demo_api_def)

lemma demo_heap_simps [simp]:
  "users demo_heap u = (if u = 0 then Some (UAlloc (0, 0) 12) else None)"
  "blocks demo_heap b = (if b = 0 then Some (replicate 12 7) else None)"
  "next_block demo_heap = 1" "next_user demo_heap = 1"
  by (simp_all add: demo_heap_def)

lemma demo_heap_ok: "heap_ok demo_heap"
  by (simp add: heap_ok_def ref_ok_def)

lemma demo_sizes_ok: "sizes_ok demo_api demo_heap"
proof -
  have "tolstring demo_api v = Some s \<Longrightarrow> length s < 100" for v s
    by (cases v) (auto simp: demo_api_def split: if_splits)
  then have "tolstring demo_api v = Some s \<Longrightarrow> lua_len (length s)" for v s by fastforce
  then show ?thesis by (simp add: sizes_ok_def)
qed

text \<open>
  C12. No library function but \<open>resize\<close> and \<open>pack\<close> leaves its memory objects or diverges,
  whatever its arguments; each leaves a heap where every object denotes live bytes.
\<close>

theorem lua_library_safe:
  assumes "heap_ok h" and "sizes_ok api h"
  shows "safe (mem_create api uninit L h) \<and> safe (mem_type L h) \<and> safe (mem_len L h)
    \<and> safe (mem_tostring api L h) \<and> safe (mem_diff api L h) \<and> safe (mem_get api L h)
    \<and> safe (mem_set api L h) \<and> safe (mem_find api L h) \<and> safe (mem_fill api L h)
    \<and> safe (mem_concat api L h) \<and> safe (mem_unpack api L h)"
  using assms mem_unpack_safe [OF assms, of L] by (simp add: library_safe)

theorem lua_library_safe_witness:
  "safe (mem_fill demo_api [LUser 0, LUser 0, LInt 3] demo_heap)"
  using lua_library_safe [OF demo_heap_ok demo_sizes_ok] by blast

text \<open>
  C13. Packing, with strings and numbers for arguments, stays inside the memory too, whether it
  succeeds, runs out of room or raises an error on the way.
\<close>

theorem lua_pack_safe:
  assumes "heap_ok h" and "sizes_ok api h" and "\<forall>k > 3. \<not> ismemory h (arg L k)"
  shows "safe (mem_pack api L h)"
  by (rule mem_pack_safe [OF assms])

definition demo_pack :: "lval list" where
  "demo_pack = [LUser 0, LStr (bytes_of ''<i2s1z''), LInt 2, LInt (- 2), LStr [65, 66], LStr [67]]"

lemma demo_pack_args: "\<forall>k > 3. \<not> ismemory demo_heap (arg demo_pack k)"
  by (auto simp: arg_def demo_pack_def ismemory_def luamem_type_def nth_Cons' split: option.splits)

theorem lua_pack_safe_witness: "safe (mem_pack demo_api demo_pack demo_heap)"
  by (rule lua_pack_safe [OF demo_heap_ok demo_sizes_ok demo_pack_args])

text \<open>
  C14. Unpacking with the format and start of a successful packing, on the memory it left,
  returns the packed values and the same next position, for every format: byte order,
  alignment, padding, integers of all sizes, floats, and the three kinds of strings.
\<close>

theorem lua_pack_roundtrip:
  assumes "heap_ok h" and "sizes_ok api h" and "\<forall>k > 3. \<not> ismemory h (arg L k)"
    and "3 \<le> length L" and "L ! 2 \<noteq> LNil" and "mem_pack api L h = (Inr [LBool True, LInt e], h')"
  shows "\<exists>vs. mem_unpack api (take 3 L) h' = (Inr (vs @ [LInt e]), h') \<and>
     list_all2 (packs_as api) vs (take (length vs) (drop 3 L))"
  by (rule mem_unpack_pack [OF assms])

lemmas pack_eval = mem_pack_loop.simps getdetails_def getoption_def getnumlimit_def getnum_def digit_def
  Let_def initheader_def MAXINTSIZE_def LUAMEM_MAXSIZE_def pack_item_def getbytes_def onP_def on_fit_def
  packint_def packint_bytes_def checkinteger_def arg_def argcheck_def SZINT_def takes_arg_def
  luamem_checkmemory_def luamem_tomemoryx_def luamem_checkarray_def packstream_def packchar_def
  write_mem_def ptr_add_def arr_read_def overlap_def blit_def u64_len_def posrelatI_def packfailed_def

lemma demo_pack_result: "fst (mem_pack demo_api demo_pack demo_heap) = Inr [LBool True, LInt 9]"
proof -
  have "cformat demo_api demo_pack 2 = Inr ''<i2s1z''" by code_simp
  then show ?thesis by (simp add: mem_pack_def) (simp add: demo_pack_def pack_eval)
qed

theorem lua_pack_roundtrip_witness:
  "\<exists>vs. fst (mem_unpack demo_api (take 3 demo_pack) (snd (mem_pack demo_api demo_pack demo_heap))) = Inr (vs @ [LInt 9])"
proof -
  have "mem_pack demo_api demo_pack demo_heap = (Inr [LBool True, LInt 9], snd (mem_pack demo_api demo_pack demo_heap))"
    using demo_pack_result by (simp add: prod_eq_iff)
  from lua_pack_roundtrip [OF demo_heap_ok demo_sizes_ok demo_pack_args _ _ this] show ?thesis
    by (auto simp: demo_pack_def)
qed

end
